(* ===== verification/Lab_Prelude.thy ===== *)
theory Lab_Prelude
  imports Main "HOL-Library.Word"
begin

text \<open>
  Vocabulary shared by every component: counted C loops over a state that may become
  undefined (\<open>None\<close> is an out-of-range access, a null dereference or a read of an
  uninitialised variable), their invariant rules, and a few facts on lists and options.
\<close>

named_theorems loop_eqs \<open>unfolding equations of the loop combinators\<close>

section \<open>Counted loops\<close>

text \<open>
  \<open>for (i = lo; i < hi; i += st) body\<close> with \<open>st\<close> a positive constant. The
  body maps the loop variable and the state to the next state; \<open>None\<close> stops the run.
\<close>

function for_upto :: "nat \<Rightarrow> nat \<Rightarrow> nat \<Rightarrow> (nat \<Rightarrow> 's \<Rightarrow> 's option) \<Rightarrow> 's \<Rightarrow> 's option" where
  "for_upto i hi st body s =
     (if i < hi \<and> 0 < st
      then case body i s of None \<Rightarrow> None | Some s' \<Rightarrow> for_upto (i + st) hi st body s'
      else Some s)"
  by pat_completeness auto
termination for_upto
  by (relation "measure (\<lambda>(i, hi, st, body, s). hi - i)") auto

declare for_upto.simps [simp del]

text \<open>\<open>for (i = lo; i < hi; i++) body\<close>.\<close>

abbreviation for_each :: "nat \<Rightarrow> nat \<Rightarrow> (nat \<Rightarrow> 's \<Rightarrow> 's option) \<Rightarrow> 's \<Rightarrow> 's option" where
  "for_each lo hi \<equiv> for_upto lo hi (Suc 0)"

lemma for_upto_done [simp]: "hi \<le> i \<Longrightarrow> for_upto i hi st body s = Some s"
  by (simp add: for_upto.simps)

lemma for_upto_step [loop_eqs]:
  "i < hi \<Longrightarrow> 0 < st \<Longrightarrow>
   for_upto i hi st body s =
     (case body i s of None \<Rightarrow> None | Some s' \<Rightarrow> for_upto (i + st) hi st body s')"
  by (simp add: for_upto.simps)

text \<open>
  The invariant rule, by iteration number: the loop makes \<open>n\<close> iterations, the
  \<open>k\<close>-th with the counter at \<open>lo + k * st\<close>. A body that succeeds and takes
  \<open>P k\<close> to \<open>P (k + 1)\<close> makes the loop succeed with \<open>P n\<close>.
\<close>

lemma for_upto_rule:
  assumes "hi \<le> lo + n * st" and "\<And>k. k < n \<Longrightarrow> lo + k * st < hi" and "0 < st"
    and "P 0 s"
    and "\<And>k s. k < n \<Longrightarrow> P k s \<Longrightarrow> \<exists>s'. body (lo + k * st) s = Some s' \<and> P (Suc k) s'"
  shows "\<exists>s'. for_upto lo hi st body s = Some s' \<and> P n s'"
  using assms
proof (induction n arbitrary: lo s P)
  case 0
  then show ?case by auto
next
  case (Suc n)
  from Suc.prems(5) [of 0 s] Suc.prems(4)
  obtain s1 where s1: "body lo s = Some s1" "P (Suc 0) s1" by auto
  have "lo < hi" using Suc.prems(2) [of 0] by simp
  have "\<exists>s'. for_upto (lo + st) hi st body s1 = Some s' \<and> P (Suc n) s'"
  proof (rule Suc.IH [of "lo + st" "\<lambda>k. P (Suc k)" s1])
    show "hi \<le> lo + st + n * st" using Suc.prems(1) by simp
    show "lo + st + k * st < hi" if "k < n" for k
      using Suc.prems(2) [of "Suc k"] that by (simp add: algebra_simps)
    show "0 < st" by (fact Suc.prems(3))
    show "P (Suc 0) s1" by (fact s1(2))
    show "\<exists>s'. body (lo + st + k * st) s = Some s' \<and> P (Suc (Suc k)) s'"
      if "k < n" "P (Suc k) s" for k s
      using Suc.prems(5) [of "Suc k" s] that by (simp add: algebra_simps)
  qed
  with s1(1) \<open>lo < hi\<close> Suc.prems(3) show ?case by (auto simp: for_upto_step)
qed

text \<open>The two shapes the programs use: a counter that goes up by one, from \<open>lo\<close> to
  \<open>hi\<close>, with the invariant indexed by the counter itself.\<close>

lemma for_upto_rule1:
  assumes "lo \<le> hi" and "P lo s"
    and "\<And>i s. lo \<le> i \<Longrightarrow> i < hi \<Longrightarrow> P i s \<Longrightarrow> \<exists>s'. body i s = Some s' \<and> P (Suc i) s'"
  shows "\<exists>s'. for_each lo hi body s = Some s' \<and> P hi s'"
  using for_upto_rule [of hi lo "hi - lo" "Suc 0" "\<lambda>k. P (lo + k)" s body] assms by auto

text \<open>
  The deterministic form: where the body is known as a function on the states that occur,
  the loop's result is the last of the states \<open>f lo, f (lo + 1), \<dots>, f hi\<close>.
\<close>

lemma for_upto_eq1:
  assumes "lo \<le> hi" and "\<And>i. lo \<le> i \<Longrightarrow> i < hi \<Longrightarrow> body i (f i) = Some (f (Suc i))"
  shows "for_each lo hi body (f lo) = Some (f hi)"
  using for_upto_rule1 [of lo hi "\<lambda>i s. s = f i" "f lo" body] assms by auto

lemma for_upto_eq:
  assumes "hi \<le> lo + n * st" and "\<And>k. k < n \<Longrightarrow> lo + k * st < hi" and "0 < st"
    and "\<And>k. k < n \<Longrightarrow> body (lo + k * st) (f k) = Some (f (Suc k))"
  shows "for_upto lo hi st body (f 0) = Some (f n)"
  using for_upto_rule [of hi lo n st "\<lambda>k s. s = f k" "f 0" body] assms by auto

end
