(* ===== verification/Matrix_Transpose.thy ===== *)
theory Matrix_Transpose
  imports Lab_Prelude
begin

text \<open>
  The transpose routines of \<open>cachelab/trans.c\<close>, the helpers of
  \<open>cachelab/cachelab.c\<close> and the validation of \<open>cachelab/tracegen.c\<close>.

  A matrix \<open>int A[N][M]\<close> is a function of the row and the column; the bounds are
  separate arguments, as they are in the C prototypes, and every read and write checks
  them: an access outside the array makes the run \<open>None\<close>. The C \<open>int\<close>s that
  are only copied are mathematical integers. A local that C leaves uninitialised is an
  \<open>option\<close>, and reading it while it is \<open>None\<close> is undefined as well.
\<close>

section \<open>Arrays\<close>

type_synonym matrix = "nat \<Rightarrow> nat \<Rightarrow> int"

text \<open>\<open>rd\<close> reads \<open>X[i][j]\<close> and \<open>wr\<close> writes it, for an array of
  \<open>rows\<close> rows of \<open>cols\<close> entries.\<close>

definition rd :: "nat \<Rightarrow> nat \<Rightarrow> matrix \<Rightarrow> nat \<Rightarrow> nat \<Rightarrow> int option" where
  "rd rows cols X i j = (if i < rows \<and> j < cols then Some (X i j) else None)"

definition wr :: "nat \<Rightarrow> nat \<Rightarrow> matrix \<Rightarrow> nat \<Rightarrow> nat \<Rightarrow> int \<Rightarrow> matrix option" where
  "wr rows cols X i j v = (if i < rows \<and> j < cols then Some (X(i := (X i)(j := v))) else None)"

lemma rd_in [simp]: "i < rows \<Longrightarrow> j < cols \<Longrightarrow> rd rows cols X i j = Some (X i j)"
  by (simp add: rd_def)

lemma wr_in [simp]: "i < rows \<Longrightarrow> j < cols \<Longrightarrow> wr rows cols X i j v = Some (X(i := (X i)(j := v)))"
  by (simp add: wr_def)

section \<open>The routines of \<open>trans.c\<close>\<close>

definition BLOCK_SIZE :: nat where
  "BLOCK_SIZE = 8"

text \<open>\<open>trans\<close>: the row-wise scan.\<close>

definition trans_body :: "nat \<Rightarrow> nat \<Rightarrow> matrix \<Rightarrow> nat \<Rightarrow> nat \<Rightarrow> matrix \<Rightarrow> matrix option" where
  "trans_body M N A i j B =
     Option.bind (rd N M A i j) (\<lambda>tmp. wr M N B j i tmp)"

definition trans :: "nat \<Rightarrow> nat \<Rightarrow> matrix \<Rightarrow> matrix \<Rightarrow> matrix option" where
  "trans M N A B = for_each 0 N (\<lambda>i. for_each 0 M (trans_body M N A i)) B"

text \<open>
  The locals of the blocked routines: the target array, \<open>is_diagonal\<close> (uninitialised
  at first) and \<open>tmp\<close>.
\<close>

record tstate =
  arrB :: matrix
  is_diagonal :: "bool option"
  tmp :: int

text \<open>The body of the innermost loop: copy \<open>A[k][l]\<close> unless it lies on the diagonal,
  in which case it is only remembered.\<close>

definition copy_or_keep :: "nat \<Rightarrow> nat \<Rightarrow> matrix \<Rightarrow> nat \<Rightarrow> nat \<Rightarrow> tstate \<Rightarrow> tstate option" where
  "copy_or_keep M N A k l s =
     (if k \<noteq> l
      then Option.bind (rd N M A k l) (\<lambda>v.
           Option.bind (wr M N (arrB s) l k v) (\<lambda>B. Some (s\<lparr>arrB := B\<rparr>)))
      else Option.bind (rd N M A k l) (\<lambda>v. Some (s\<lparr>is_diagonal := Some True, tmp := v\<rparr>)))"

text \<open>After the row: store the remembered diagonal element, if there was one.\<close>

definition flush_diagonal :: "nat \<Rightarrow> nat \<Rightarrow> nat \<Rightarrow> tstate \<Rightarrow> tstate option" where
  "flush_diagonal M N k s =
     (case is_diagonal s of
        None \<Rightarrow> None
      | Some True \<Rightarrow>
          Option.bind (wr M N (arrB s) k k (tmp s))
            (\<lambda>B. Some (s\<lparr>arrB := B, is_diagonal := Some False\<rparr>))
      | Some False \<Rightarrow> Some s)"

text \<open>One row \<open>k\<close> of a tile that starts at column \<open>j\<close> and is \<open>w\<close> wide: the loop
  over \<open>l\<close>, then the diagonal element.\<close>

definition tile_row :: "nat \<Rightarrow> nat \<Rightarrow> matrix \<Rightarrow> nat \<Rightarrow> nat \<Rightarrow> nat \<Rightarrow> tstate \<Rightarrow> tstate option" where
  "tile_row M N A j w k s =
     Option.bind (for_each j (j + w) (copy_or_keep M N A k) s) (flush_diagonal M N k)"

definition trans_32_32 :: "nat \<Rightarrow> nat \<Rightarrow> matrix \<Rightarrow> matrix \<Rightarrow> matrix option" where
  "trans_32_32 M N A B =
     map_option arrB
       (for_upto 0 N BLOCK_SIZE (\<lambda>i.
          for_upto 0 M BLOCK_SIZE (\<lambda>j.
            for_each i (i + BLOCK_SIZE) (\<lambda>k.
              tile_row M N A j BLOCK_SIZE k)))
        \<lparr>arrB = B, is_diagonal = None, tmp = 0\<rparr>)"

text \<open>
  \<open>trans_64_64\<close> works on the four quarters of an 8 by 8 tile. The right upper quarter
  of \<open>A\<close> is parked in the right upper quarter of the tile of \<open>B\<close> and moved to its
  place when the left lower quarter of \<open>A\<close> is copied.
\<close>

definition park_row :: "nat \<Rightarrow> nat \<Rightarrow> matrix \<Rightarrow> nat \<Rightarrow> nat \<Rightarrow> tstate \<Rightarrow> tstate option" where
  "park_row M N A j k s =
     (let h = BLOCK_SIZE div 2 in
      Option.bind (rd N M A k (j + h)) (\<lambda>tmp4.
      Option.bind (rd N M A k (j + h + 1)) (\<lambda>tmp5.
      Option.bind (rd N M A k (j + h + 2)) (\<lambda>tmp6.
      Option.bind (rd N M A k (j + h + 3)) (\<lambda>tmp7.
      Option.bind (wr M N (arrB s) j (k + h) tmp4) (\<lambda>B.
      Option.bind (wr M N B (j + 1) (k + h) tmp5) (\<lambda>B.
      Option.bind (wr M N B (j + 2) (k + h) tmp6) (\<lambda>B.
      Option.bind (wr M N B (j + 3) (k + h) tmp7) (\<lambda>B.
      Some (s\<lparr>arrB := B\<rparr>))))))))))"

definition exchange_col :: "nat \<Rightarrow> nat \<Rightarrow> matrix \<Rightarrow> nat \<Rightarrow> nat \<Rightarrow> tstate \<Rightarrow> tstate option" where
  "exchange_col M N A i l s =
     (let h = BLOCK_SIZE div 2 in
      Option.bind (rd M N (arrB s) l (i + h)) (\<lambda>tmp0.
      Option.bind (rd M N (arrB s) l (i + h + 1)) (\<lambda>tmp1.
      Option.bind (rd M N (arrB s) l (i + h + 2)) (\<lambda>tmp2.
      Option.bind (rd M N (arrB s) l (i + h + 3)) (\<lambda>tmp3.
      Option.bind (rd N M A (i + h) l) (\<lambda>tmp4.
      Option.bind (rd N M A (i + h + 1) l) (\<lambda>tmp5.
      Option.bind (rd N M A (i + h + 2) l) (\<lambda>tmp6.
      Option.bind (rd N M A (i + h + 3) l) (\<lambda>tmp7.
      Option.bind (wr M N (arrB s) l (i + h) tmp4) (\<lambda>B.
      Option.bind (wr M N B l (i + h + 1) tmp5) (\<lambda>B.
      Option.bind (wr M N B l (i + h + 2) tmp6) (\<lambda>B.
      Option.bind (wr M N B l (i + h + 3) tmp7) (\<lambda>B.
      Option.bind (wr M N B (l + h) i tmp0) (\<lambda>B.
      Option.bind (wr M N B (l + h) (i + 1) tmp1) (\<lambda>B.
      Option.bind (wr M N B (l + h) (i + 2) tmp2) (\<lambda>B.
      Option.bind (wr M N B (l + h) (i + 3) tmp3) (\<lambda>B.
      Some (s\<lparr>arrB := B\<rparr>))))))))))))))))))"

definition tile_64 :: "nat \<Rightarrow> nat \<Rightarrow> matrix \<Rightarrow> nat \<Rightarrow> nat \<Rightarrow> tstate \<Rightarrow> tstate option" where
  "tile_64 M N A i j s =
     (let h = BLOCK_SIZE div 2 in
      Option.bind (for_each i (i + h) (\<lambda>k. tile_row M N A j h k) s) (\<lambda>s.
      Option.bind (for_each i (i + h) (park_row M N A j) s) (\<lambda>s.
      Option.bind (for_each j (j + h) (exchange_col M N A i) s) (\<lambda>s.
      for_each (i + h) (i + BLOCK_SIZE) (\<lambda>k. tile_row M N A (j + h) h k) s))))"

text \<open>The outer loops of \<open>trans_64_64\<close> bound the row index by \<open>M\<close> and the
  column index by \<open>N\<close>, the other way round than \<open>trans_32_32\<close>.\<close>

definition trans_64_64 :: "nat \<Rightarrow> nat \<Rightarrow> matrix \<Rightarrow> matrix \<Rightarrow> matrix option" where
  "trans_64_64 M N A B =
     map_option arrB
       (for_upto 0 M BLOCK_SIZE (\<lambda>i. for_upto 0 N BLOCK_SIZE (tile_64 M N A i))
        \<lparr>arrB = B, is_diagonal = None, tmp = 0\<rparr>)"

definition copy_61 :: "nat \<Rightarrow> nat \<Rightarrow> matrix \<Rightarrow> nat \<Rightarrow> nat \<Rightarrow> matrix \<Rightarrow> matrix option" where
  "copy_61 M N A k l B = Option.bind (rd N M A l k) (\<lambda>v. wr M N B k l v)"

definition trans_61_67 :: "nat \<Rightarrow> nat \<Rightarrow> matrix \<Rightarrow> matrix \<Rightarrow> matrix option" where
  "trans_61_67 M N A B =
     for_upto 0 N BLOCK_SIZE (\<lambda>i.
       for_upto 0 M BLOCK_SIZE (\<lambda>j.
         for_each j (min (j + BLOCK_SIZE) M) (\<lambda>k.
           for_each i (min (i + BLOCK_SIZE) N) (copy_61 M N A k)))) B"

definition transpose_submit :: "nat \<Rightarrow> nat \<Rightarrow> matrix \<Rightarrow> matrix \<Rightarrow> matrix option" where
  "transpose_submit M N A B =
     (if M = 32 then trans_32_32 M N A B
      else if M = 64 then trans_64_64 M N A B
      else if M = 61 then trans_61_67 M N A B
      else Some B)"

text \<open>\<open>is_transpose\<close>: the two nested loops with an early \<open>return 0\<close>.\<close>

fun is_transpose_row :: "nat \<Rightarrow> matrix \<Rightarrow> matrix \<Rightarrow> nat \<Rightarrow> nat \<Rightarrow> bool" where
  "is_transpose_row i A B j 0 \<longleftrightarrow> True"
| "is_transpose_row i A B j (Suc n) \<longleftrightarrow>
     (if A i j \<noteq> B j i then False else is_transpose_row i A B (Suc j) n)"

fun is_transpose_rows :: "nat \<Rightarrow> matrix \<Rightarrow> matrix \<Rightarrow> nat \<Rightarrow> nat \<Rightarrow> bool" where
  "is_transpose_rows M A B i 0 \<longleftrightarrow> True"
| "is_transpose_rows M A B i (Suc n) \<longleftrightarrow>
     (if is_transpose_row i A B 0 M then is_transpose_rows M A B (Suc i) n else False)"

definition is_transpose :: "nat \<Rightarrow> nat \<Rightarrow> matrix \<Rightarrow> matrix \<Rightarrow> bool" where
  "is_transpose M N A B = is_transpose_rows M A B 0 N"

section \<open>The helpers of \<open>cachelab.c\<close> and \<open>tracegen.c\<close>\<close>

text \<open>\<open>correctTrans\<close> has the text of \<open>trans\<close>.\<close>

definition correctTrans :: "nat \<Rightarrow> nat \<Rightarrow> matrix \<Rightarrow> matrix \<Rightarrow> matrix option" where
  "correctTrans M N A B =
     for_each 0 N (\<lambda>i. for_each 0 M (\<lambda>j B.
       Option.bind (rd N M A i j) (\<lambda>tmp. wr M N B j i tmp))) B"

text \<open>\<open>validate\<close>: transpose into a zeroed array \<open>C\<close> of \<open>M\<close> rows and compare.
  \<open>Some (Inl (i, j))\<close> is the first place where the arrays differ, which C prints before
  it returns 0; \<open>Some (Inr ())\<close> is the return value 1.\<close>

fun first_difference_row :: "matrix \<Rightarrow> matrix \<Rightarrow> nat \<Rightarrow> nat \<Rightarrow> nat \<Rightarrow> nat option" where
  "first_difference_row B C i j 0 = None"
| "first_difference_row B C i j (Suc n) =
     (if B i j \<noteq> C i j then Some j else first_difference_row B C i (Suc j) n)"

fun first_difference :: "nat \<Rightarrow> matrix \<Rightarrow> matrix \<Rightarrow> nat \<Rightarrow> nat \<Rightarrow> (nat \<times> nat) option" where
  "first_difference N B C i 0 = None"
| "first_difference N B C i (Suc n) =
     (case first_difference_row B C i 0 N of
        Some j \<Rightarrow> Some (i, j)
      | None \<Rightarrow> first_difference N B C (Suc i) n)"

definition validate :: "nat \<Rightarrow> nat \<Rightarrow> matrix \<Rightarrow> matrix \<Rightarrow> (nat \<times> nat + unit) option" where
  "validate M N A B =
     map_option (\<lambda>C. case first_difference N B C 0 M of Some p \<Rightarrow> Inl p | None \<Rightarrow> Inr ())
       (correctTrans M N A (\<lambda>_ _. 0))"

section \<open>The registry and the driver\<close>

text \<open>
  \<open>func_list\<close> holds the first \<open>func_counter\<close> entries of the C array; registering
  one more than \<open>MAX_TRANS_FUNCS\<close> would write behind the array.
\<close>

record trans_func =
  func_ptr :: "nat \<Rightarrow> nat \<Rightarrow> matrix \<Rightarrow> matrix \<Rightarrow> matrix option"
  description :: string
  correct :: bool
  num_hits :: nat
  num_misses :: nat
  num_evictions :: nat

definition MAX_TRANS_FUNCS :: nat where
  "MAX_TRANS_FUNCS = 100"

definition registerTransFunction ::
  "(nat \<Rightarrow> nat \<Rightarrow> matrix \<Rightarrow> matrix \<Rightarrow> matrix option) \<Rightarrow> string \<Rightarrow> trans_func list \<Rightarrow> trans_func list option" where
  "registerTransFunction f desc func_list =
     (if length func_list < MAX_TRANS_FUNCS
      then Some (func_list @ [\<lparr>func_ptr = f, description = desc, correct = False,
             num_hits = 0, num_misses = 0, num_evictions = 0\<rparr>])
      else None)"

definition registerFunctions :: "trans_func list \<Rightarrow> trans_func list option" where
  "registerFunctions func_list =
     Option.bind (registerTransFunction transpose_submit ''Transpose submission'' func_list)
       (registerTransFunction trans ''Simple row-wise scan transpose'')"

text \<open>
  The part of \<open>tracegen\<close>'s \<open>main\<close> after the options: run every registered function
  (\<open>selectedFunc\<close> is \<open>-1\<close>) or one of them on the same arrays, validate after each, and
  return the number of the first that fails plus one, or 0.
\<close>

fun run_functions :: "trans_func list \<Rightarrow> nat \<Rightarrow> nat \<Rightarrow> nat \<Rightarrow> matrix \<Rightarrow> matrix \<Rightarrow> nat option" where
  "run_functions [] i M N A B = Some 0"
| "run_functions (f # fs) i M N A B =
     Option.bind (func_ptr f M N A B) (\<lambda>B'.
     Option.bind (validate M N A B') (\<lambda>r.
       case r of Inl p \<Rightarrow> Some (i + 1) | Inr u \<Rightarrow> run_functions fs (Suc i) M N A B'))"

definition tracegen_run :: "trans_func list \<Rightarrow> int \<Rightarrow> nat \<Rightarrow> nat \<Rightarrow> matrix \<Rightarrow> matrix \<Rightarrow> nat option" where
  "tracegen_run func_list selectedFunc M N A B =
     (if selectedFunc = -1 then run_functions func_list 0 M N A B
      else if 0 \<le> selectedFunc \<and> nat selectedFunc < length func_list
      then run_functions [func_list ! nat selectedFunc] (nat selectedFunc) M N A B
      else None)"

section \<open>Correctness of the tiles\<close>

text \<open>\<open>upd_on S A B\<close> is \<open>B\<close> with the transpose of \<open>A\<close> on the cells
  \<open>S\<close>: what a loop nest has done once it has covered \<open>S\<close>.\<close>

definition upd_on :: "(nat \<times> nat) set \<Rightarrow> matrix \<Rightarrow> matrix \<Rightarrow> matrix" where
  "upd_on S A B = (\<lambda>x y. if (x, y) \<in> S then A y x else B x y)"

lemma upd_on_empty [simp]: "upd_on {} A B = B"
  by (simp add: upd_on_def)

lemma upd_on_upd_on [simp]: "upd_on S A (upd_on T A B) = upd_on (S \<union> T) A B"
  by (auto simp: upd_on_def fun_eq_iff)

lemma upd_on_write:
  "(upd_on S A B)(x := (upd_on S A B x)(y := A y x)) = upd_on (insert (x, y) S) A B"
  by (auto simp: upd_on_def fun_eq_iff)

lemma tile_row_loop:
  assumes "k < N" and "j + w \<le> M"
  shows "for_each j (j + w) (copy_or_keep M N A k) s =
    Some (s\<lparr>arrB := upd_on ({j..<j + w} \<times> {k} - {(k, k)}) A (arrB s),
           is_diagonal := (if k \<in> {j..<j + w} then Some True else is_diagonal s),
           tmp := (if k \<in> {j..<j + w} then A k k else tmp s)\<rparr>)"
proof -
  define f where "f l = s\<lparr>arrB := upd_on ({j..<l} \<times> {k} - {(k, k)}) A (arrB s),
           is_diagonal := (if k \<in> {j..<l} then Some True else is_diagonal s),
           tmp := (if k \<in> {j..<l} then A k k else tmp s)\<rparr>" for l
  have "for_each j (j + w) (copy_or_keep M N A k) (f j) = Some (f (j + w))"
  proof (rule for_upto_eq1)
    fix l assume l: "j \<le> l" "l < j + w"
    have ins: "{j..<Suc l} \<times> {k} - {(k, k)} =
      (if k = l then {j..<l} \<times> {k} - {(k, k)} else insert (l, k) ({j..<l} \<times> {k} - {(k, k)}))"
      using l by auto
    show "copy_or_keep M N A k l (f l) = Some (f (Suc l))"
      using l assms by (auto simp: copy_or_keep_def f_def ins upd_on_write less_Suc_eq)
  qed simp
  then show ?thesis by (simp add: f_def)
qed

lemma tile_row_eq:
  assumes "k < N" and "j + w \<le> M"
    and "is_diagonal s = Some False \<or> is_diagonal s = None \<and> k \<in> {j..<j + w}"
  shows "\<exists>s'. tile_row M N A j w k s = Some s' \<and> is_diagonal s' = Some False
    \<and> arrB s' = upd_on ({j..<j + w} \<times> {k}) A (arrB s)"
proof (cases "k \<in> {j..<j + w}")
  case True
  define X where "X = {j..<j + w} \<times> {k}"
  have X: "insert (k, k) (X - {(k, k)}) = X" using True by (auto simp: X_def)
  let ?t = "s\<lparr>arrB := upd_on (X - {(k, k)}) A (arrB s), is_diagonal := Some True, tmp := A k k\<rparr>"
  have "for_each j (j + w) (copy_or_keep M N A k) s = Some ?t"
    using True by (simp add: tile_row_loop [OF assms(1,2)] X_def)
  moreover have "flush_diagonal M N k ?t = Some (?t\<lparr>arrB := upd_on X A (arrB s), is_diagonal := Some False\<rparr>)"
    using True assms(1,2) upd_on_write [of "X - {(k, k)}" A "arrB s" k k]
    unfolding X by (simp add: flush_diagonal_def)
  ultimately show ?thesis by (simp add: tile_row_def X_def)
next
  case False
  then have X: "{j..<j + w} \<times> {k} - {(k, k)} = {j..<j + w} \<times> {k}" and d: "is_diagonal s = Some False"
    using assms(3) by auto
  have "for_each j (j + w) (copy_or_keep M N A k) s = Some (s\<lparr>arrB := upd_on ({j..<j + w} \<times> {k}) A (arrB s)\<rparr>)"
    unfolding tile_row_loop [OF assms(1,2)] X if_not_P [OF False] by simp
  then show ?thesis using d by (simp add: tile_row_def flush_diagonal_def)
qed

lemma tile_rows_eq:
  assumes "i + h \<le> N" and "j + w \<le> M" and "0 < h" and "0 < w"
    and "is_diagonal s = Some False \<or> is_diagonal s = None \<and> i = j"
  shows "\<exists>s'. for_each i (i + h) (\<lambda>k. tile_row M N A j w k) s = Some s'
    \<and> is_diagonal s' = Some False
    \<and> arrB s' = upd_on ({j..<j + w} \<times> {i..<i + h}) A (arrB s)"
proof -
  let ?P = "\<lambda>k (t :: tstate). arrB t = upd_on ({j..<j + w} \<times> {i..<k}) A (arrB s)
    \<and> (is_diagonal t = Some False \<or> is_diagonal t = None \<and> k = i \<and> i = j)"
  have "\<exists>s'. for_each i (i + h) (\<lambda>k. tile_row M N A j w k) s = Some s' \<and> ?P (i + h) s'"
  proof (rule for_upto_rule1)
    fix k and t :: tstate assume k: "i \<le> k" "k < i + h" and P: "?P k t"
    have "\<exists>t'. tile_row M N A j w k t = Some t' \<and> is_diagonal t' = Some False
      \<and> arrB t' = upd_on ({j..<j + w} \<times> {k}) A (arrB t)"
      by (rule tile_row_eq) (use k P assms in auto)
    moreover have "{j..<j + w} \<times> {k} \<union> {j..<j + w} \<times> {i..<k} = {j..<j + w} \<times> {i..<Suc k}"
      using k by auto
    ultimately show "\<exists>t'. tile_row M N A j w k t = Some t' \<and> ?P (Suc k) t'"
      using P by auto
  qed (use assms in auto)
  then show ?thesis using assms(3) by auto
qed

section \<open>The blocked routines\<close>

text \<open>Covering a matrix tile by tile: the cells of the tiles before column \<open>b\<close> of
  tile row \<open>a\<close>.\<close>

lemma tile_union:
  "{j..<j + w} \<times> {i..<i + h} \<union> {0..<j} \<times> {i..<i + h} = {0..<j + w} \<times> {i..<i + h}" for j w i h :: nat
  by auto

lemma row_union:
  "{0..<m} \<times> {i..<i + h} \<union> {0..<m} \<times> {0..<i} = {0..<m} \<times> {0..<i + h}" for i h m :: nat
  by auto

text \<open>
  Two nested loops over tiles: a tile body that transposes its tile, with the flag either
  cleared or still uninitialised in the first tile, transposes the whole matrix.
\<close>

definition flag_ok :: "nat \<Rightarrow> nat \<Rightarrow> tstate \<Rightarrow> bool" where
  "flag_ok i j s \<longleftrightarrow> is_diagonal s = Some False \<or> is_diagonal s = None \<and> i = 0 \<and> j = 0"

lemma tiled_loops:
  fixes body :: "nat \<Rightarrow> nat \<Rightarrow> tstate \<Rightarrow> tstate option"
  assumes body: "\<And>i j s. i + 8 \<le> 8 * n \<Longrightarrow> j + 8 \<le> 8 * m \<Longrightarrow> flag_ok i j s \<Longrightarrow>
      \<exists>s'. body i j s = Some s' \<and> is_diagonal s' = Some False
        \<and> arrB s' = upd_on ({j..<j + 8} \<times> {i..<i + 8}) A (arrB s)"
  shows "\<exists>s'. for_upto 0 (8 * n) 8 (\<lambda>i. for_upto 0 (8 * m) 8 (body i))
            \<lparr>arrB = B, is_diagonal = None, tmp = 0\<rparr> = Some s'
          \<and> arrB s' = upd_on ({0..<8 * m} \<times> {0..<8 * n}) A B"
proof -
  let ?s0 = "\<lparr>arrB = B, is_diagonal = None, tmp = 0\<rparr>"
  let ?P = "\<lambda>k (t :: tstate). arrB t = upd_on ({0..<8 * m} \<times> {0..<k * 8}) A B
     \<and> (is_diagonal t = Some False \<or> is_diagonal t = None \<and> (k = 0 \<or> m = 0))"
  have "\<exists>s'. for_upto 0 (8 * n) 8 (\<lambda>i. for_upto 0 (8 * m) 8 (body i)) ?s0 = Some s' \<and> ?P n s'"
  proof (rule for_upto_rule [where P = ?P])
    fix k and t :: tstate
    assume k: "k < n" and P: "?P k t"
    let ?Q = "\<lambda>l (u :: tstate). arrB u = upd_on ({0..<l * 8} \<times> {k * 8..<k * 8 + 8}) A (arrB t)
       \<and> (is_diagonal u = Some False \<or> is_diagonal u = None \<and> l = 0 \<and> (k = 0 \<or> m = 0))"
    have "\<exists>s'. for_upto 0 (8 * m) 8 (body (0 + k * 8)) t = Some s' \<and> ?Q m s'"
    proof (rule for_upto_rule [where P = ?Q])
      fix l and u :: tstate
      assume l: "l < m" and Q: "?Q l u"
      have "\<exists>s'. body (k * 8) (l * 8) u = Some s' \<and> is_diagonal s' = Some False
        \<and> arrB s' = upd_on ({l * 8..<l * 8 + 8} \<times> {k * 8..<k * 8 + 8}) A (arrB u)"
        by (rule body) (use k l Q in \<open>auto simp: flag_ok_def\<close>)
      moreover have "{l * 8..<l * 8 + 8} \<times> {k * 8..<k * 8 + 8} \<union> {0..<l * 8} \<times> {k * 8..<k * 8 + 8}
          = {0..<Suc l * 8} \<times> {k * 8..<k * 8 + 8}"
        by auto
      ultimately show "\<exists>s'. body (0 + k * 8) (0 + l * 8) u = Some s' \<and> ?Q (Suc l) s'"
        using Q by fastforce
    qed (use P in auto)
    then obtain s' where s': "for_upto 0 (8 * m) 8 (body (0 + k * 8)) t = Some s'" and Q: "?Q m s'"
      by blast
    have "arrB s' = upd_on ({0..<8 * m} \<times> {0..<k * 8 + 8}) A B"
      using P Q by (simp add: row_union mult.commute)
    with s' Q show "\<exists>s'. for_upto 0 (8 * m) 8 (body (0 + k * 8)) t = Some s' \<and> ?P (Suc k) s'"
      by (auto simp: add.commute)
  qed auto
  then show ?thesis by (auto simp: mult.commute)
qed

lemma tile_32_eq:
  assumes "i + 8 \<le> N" and "j + 8 \<le> M" and "flag_ok i j s"
  shows "\<exists>s'. for_each i (i + BLOCK_SIZE) (\<lambda>k. tile_row M N A j BLOCK_SIZE k) s = Some s'
      \<and> is_diagonal s' = Some False \<and> arrB s' = upd_on ({j..<j + 8} \<times> {i..<i + 8}) A (arrB s)"
  unfolding BLOCK_SIZE_def by (rule tile_rows_eq) (use assms in \<open>auto simp: flag_ok_def\<close>)

lemma trans_32_32_eq:
  "trans_32_32 (8 * m) (8 * n) A B = Some (upd_on ({0..<8 * m} \<times> {0..<8 * n}) A B)"
  using tiled_loops [of n m, OF tile_32_eq [of _ "8 * n" _ "8 * m"]]
  by (force simp: trans_32_32_def BLOCK_SIZE_def)

lemma park_row_eq:
  assumes "k < N" and "j + 8 \<le> M" and "k + 4 < N"
  shows "park_row M N A j k s = Some (s\<lparr>arrB :=
    (\<lambda>x y. if y = k + 4 \<and> x \<in> {j..<j + 4} then A k (x + 4) else arrB s x y)\<rparr>)"
proof -
  have four: "x \<in> {j..<j + 4} \<longleftrightarrow> x = j \<or> x = j + 1 \<or> x = j + 2 \<or> x = j + 3" for x by auto
  show ?thesis unfolding four using assms
    by (simp add: park_row_def BLOCK_SIZE_def fun_eq_iff)
qed

lemma exchange_col_eq:
  assumes "l + 4 < M" and "i + 8 \<le> N"
  shows "exchange_col M N A i l s = Some (s\<lparr>arrB :=
    (\<lambda>x y. if x = l \<and> y \<in> {i + 4..<i + 8} then A y l
           else if x = l + 4 \<and> y \<in> {i..<i + 4} then arrB s l (y + 4)
           else arrB s x y)\<rparr>)"
proof -
  have four: "y \<in> {i..<i + 4} \<longleftrightarrow> y = i \<or> y = i + 1 \<or> y = i + 2 \<or> y = i + 3"
    "y \<in> {i + 4..<i + 8} \<longleftrightarrow> y = i + 4 \<or> y = i + 5 \<or> y = i + 6 \<or> y = i + 7" for y by auto
  show ?thesis unfolding four using assms
    by (simp add: exchange_col_def BLOCK_SIZE_def)
       (intro arg_cong [where f = "\<lambda>B. s\<lparr>arrB := B\<rparr>"] ext, auto simp: add.commute)
qed

lemma park_rows_eq:
  assumes "i + 8 \<le> N" and "j + 8 \<le> M"
  shows "for_each i (i + 4) (park_row M N A j) s = Some (s\<lparr>arrB :=
    (\<lambda>x y. if y \<in> {i + 4..<i + 8} \<and> x \<in> {j..<j + 4} then A (y - 4) (x + 4) else arrB s x y)\<rparr>)"
proof -
  define f where "f k = s\<lparr>arrB := (\<lambda>x y. if y \<in> {i + 4..<k + 4} \<and> x \<in> {j..<j + 4}
    then A (y - 4) (x + 4) else arrB s x y)\<rparr>" for k
  have "for_each i (i + 4) (park_row M N A j) (f i) = Some (f (i + 4))"
  proof (rule for_upto_eq1)
    fix k assume k: "i \<le> k" "k < i + 4"
    show "park_row M N A j k (f k) = Some (f (Suc k))"
      using k assms unfolding f_def
      by (subst park_row_eq) (auto simp: fun_eq_iff intro!: arg_cong [where f = "\<lambda>B. s\<lparr>arrB := B\<rparr>"])
  qed simp
  moreover have "i + 4 + 4 = i + 8" by simp
  ultimately show ?thesis unfolding f_def by (simp only:) simp
qed

lemma exchange_cols_eq:
  assumes "i + 8 \<le> N" and "j + 8 \<le> M"
  shows "for_each j (j + 4) (exchange_col M N A i) s = Some (s\<lparr>arrB :=
    (\<lambda>x y. if x \<in> {j..<j + 4} \<and> y \<in> {i + 4..<i + 8} then A y x
           else if x \<in> {j + 4..<j + 8} \<and> y \<in> {i..<i + 4} then arrB s (x - 4) (y + 4)
           else arrB s x y)\<rparr>)"
proof -
  define f where "f l = s\<lparr>arrB :=
    (\<lambda>x y. if x \<in> {j..<l} \<and> y \<in> {i + 4..<i + 8} then A y x
           else if x \<in> {j + 4..<l + 4} \<and> y \<in> {i..<i + 4} then arrB s (x - 4) (y + 4)
           else arrB s x y)\<rparr>" for l
  have "for_each j (j + 4) (exchange_col M N A i) (f j) = Some (f (j + 4))"
  proof (rule for_upto_eq1)
    fix l assume l: "j \<le> l" "l < j + 4"
    show "exchange_col M N A i l (f l) = Some (f (Suc l))"
      using l assms unfolding f_def
      by (subst exchange_col_eq) (auto simp: fun_eq_iff intro!: arg_cong [where f = "\<lambda>B. s\<lparr>arrB := B\<rparr>"])
  qed simp
  moreover have "j + 4 + 4 = j + 8" by simp
  ultimately show ?thesis unfolding f_def by (simp only:) simp
qed

lemma tile_64_eq:
  assumes "i + 8 \<le> N" and "j + 8 \<le> M" and "flag_ok i j s"
  shows "\<exists>s'. tile_64 M N A i j s = Some s' \<and> is_diagonal s' = Some False
      \<and> arrB s' = upd_on ({j..<j + 8} \<times> {i..<i + 8}) A (arrB s)"
proof -
  obtain s1 where s1: "for_each i (i + 4) (\<lambda>k. tile_row M N A j 4 k) s = Some s1"
    "is_diagonal s1 = Some False" "arrB s1 = upd_on ({j..<j + 4} \<times> {i..<i + 4}) A (arrB s)"
    using tile_rows_eq [of i 4 N j 4 M s A] assms by (auto simp: flag_ok_def)
  obtain s2 where s2: "for_each i (i + 4) (park_row M N A j) s1 = Some s2"
    "is_diagonal s2 = Some False"
    "arrB s2 = (\<lambda>x y. if y \<in> {i + 4..<i + 8} \<and> x \<in> {j..<j + 4} then A (y - 4) (x + 4) else arrB s1 x y)"
    using park_rows_eq [OF assms(1,2), of A s1] s1(2) by auto
  obtain s3 where s3: "for_each j (j + 4) (exchange_col M N A i) s2 = Some s3"
    "is_diagonal s3 = Some False"
    "arrB s3 = (\<lambda>x y. if x \<in> {j..<j + 4} \<and> y \<in> {i + 4..<i + 8} then A y x
           else if x \<in> {j + 4..<j + 8} \<and> y \<in> {i..<i + 4} then arrB s2 (x - 4) (y + 4)
           else arrB s2 x y)"
    using exchange_cols_eq [OF assms(1,2), of A s2] s2(2) by auto
  have e: "i + 4 + 4 = i + 8" "j + 4 + 4 = j + 8" by simp_all
  obtain s4 where s4: "for_each (i + 4) (i + 8) (\<lambda>k. tile_row M N A (j + 4) 4 k) s3 = Some s4"
    "is_diagonal s4 = Some False"
    "arrB s4 = upd_on ({j + 4..<j + 8} \<times> {i + 4..<i + 8}) A (arrB s3)"
    using tile_rows_eq [of "i + 4" 4 N "j + 4" 4 M s3 A] s3(2) assms unfolding e by auto
  have "arrB s4 = upd_on ({j..<j + 8} \<times> {i..<i + 8}) A (arrB s)"
  proof (intro ext)
    fix x y
    show "arrB s4 x y = upd_on ({j..<j + 8} \<times> {i..<i + 8}) A (arrB s) x y"
      unfolding s4(3) s3(3) s2(3) s1(3) upd_on_def
      by (cases "x < j + 4"; cases "y < i + 4") (simp_all, arith?)
  qed
  moreover have "tile_64 M N A i j s = Some s4"
    using s1(1) s2(1) s3(1) s4(1) by (simp add: tile_64_def BLOCK_SIZE_def)
  ultimately show ?thesis using s4(2) by blast
qed

text \<open>The tile routine walks the row tiles up to \<open>M\<close>, so it needs a square matrix.\<close>

lemma trans_64_64_eq:
  "trans_64_64 (8 * n) (8 * n) A B = Some (upd_on ({0..<8 * n} \<times> {0..<8 * n}) A B)"
  using tiled_loops [of n n, OF tile_64_eq [of _ "8 * n" _ "8 * n"]]
  by (force simp: trans_64_64_def BLOCK_SIZE_def)

section \<open>The plain routines\<close>

lemma upd_on_rect:
  "{j..<m} \<times> {i..<n} \<union> {j'..<m'} \<times> {i'..<n'} = {j'..<m'} \<times> {i'..<n'} \<union> {j..<m} \<times> {i..<n}"
  by auto

lemma trans_body_eq:
  "i < N \<Longrightarrow> j < M \<Longrightarrow> trans_body M N A i j (upd_on S A B) = Some (upd_on (insert (j, i) S) A B)"
  by (simp add: trans_body_def upd_on_write)

lemma trans_row_eq:
  assumes "i < N"
  shows "for_each 0 M (trans_body M N A i) B = Some (upd_on ({0..<M} \<times> {i}) A B)"
proof -
  have "for_each 0 M (trans_body M N A i) (upd_on ({0..<0} \<times> {i}) A B)
      = Some (upd_on ({0..<M} \<times> {i}) A B)"
  proof (rule for_upto_eq1)
    fix j assume "0 \<le> j" "j < M"
    moreover have "insert (j, i) ({0..<j} \<times> {i}) = {0..<Suc j} \<times> {i}" by auto
    ultimately show "trans_body M N A i j (upd_on ({0..<j} \<times> {i}) A B)
        = Some (upd_on ({0..<Suc j} \<times> {i}) A B)"
      using assms by (simp add: trans_body_eq)
  qed simp
  then show ?thesis by simp
qed

lemma trans_eq: "trans M N A B = Some (upd_on ({0..<M} \<times> {0..<N}) A B)"
proof -
  have "for_each 0 N (\<lambda>i. for_each 0 M (trans_body M N A i)) (upd_on ({0..<M} \<times> {0..<0}) A B)
      = Some (upd_on ({0..<M} \<times> {0..<N}) A B)"
  proof (rule for_upto_eq1)
    fix i assume "0 \<le> i" "i < N"
    moreover have "{0..<M} \<times> {i} \<union> {0..<M} \<times> {0..<i} = {0..<M} \<times> {0..<Suc i}" by auto
    ultimately show "for_each 0 M (trans_body M N A i) (upd_on ({0..<M} \<times> {0..<i}) A B)
        = Some (upd_on ({0..<M} \<times> {0..<Suc i}) A B)"
      by (simp add: trans_row_eq)
  qed simp
  then show ?thesis by (simp add: trans_def)
qed

lemma correctTrans_eq: "correctTrans M N A B = Some (upd_on ({0..<M} \<times> {0..<N}) A B)"
  using trans_eq [of M N A B] by (simp add: correctTrans_def trans_def trans_body_def [abs_def])

lemma copy_61_row_eq:
  assumes "k < M" and "i \<le> n" and "n \<le> N"
  shows "for_each i n (copy_61 M N A k) B = Some (upd_on ({k} \<times> {i..<n}) A B)"
proof -
  have "for_each i n (copy_61 M N A k) (upd_on ({k} \<times> {i..<i}) A B)
      = Some (upd_on ({k} \<times> {i..<n}) A B)"
  proof (rule for_upto_eq1)
    fix l assume "i \<le> l" "l < n"
    moreover have "insert (k, l) ({k} \<times> {i..<l}) = {k} \<times> {i..<Suc l}" using \<open>i \<le> l\<close> by auto
    ultimately show "copy_61 M N A k l (upd_on ({k} \<times> {i..<l}) A B)
        = Some (upd_on ({k} \<times> {i..<Suc l}) A B)"
      using assms by (simp add: copy_61_def upd_on_write)
  qed (use assms in simp)
  then show ?thesis by simp
qed

lemma copy_61_tile_eq:
  assumes "j \<le> m" and "m \<le> M" and "i \<le> n" and "n \<le> N"
  shows "for_each j m (\<lambda>k. for_each i n (copy_61 M N A k)) B
      = Some (upd_on ({j..<m} \<times> {i..<n}) A B)"
proof -
  have "for_each j m (\<lambda>k. for_each i n (copy_61 M N A k)) (upd_on ({j..<j} \<times> {i..<n}) A B)
      = Some (upd_on ({j..<m} \<times> {i..<n}) A B)"
  proof (rule for_upto_eq1)
    fix k assume "j \<le> k" "k < m"
    moreover have "{k} \<times> {i..<n} \<union> {j..<k} \<times> {i..<n} = {j..<Suc k} \<times> {i..<n}"
      using \<open>j \<le> k\<close> by auto
    ultimately show "for_each i n (copy_61 M N A k) (upd_on ({j..<k} \<times> {i..<n}) A B)
        = Some (upd_on ({j..<Suc k} \<times> {i..<n}) A B)"
      using assms by (simp add: copy_61_row_eq)
  qed (use assms in simp)
  then show ?thesis by simp
qed

text \<open>The number of iterations of a loop with step 8 up to a bound that need not be a
  multiple of 8.\<close>

definition tiles :: "nat \<Rightarrow> nat" where
  "tiles hi = (hi + 7) div 8"

lemma tiles_ge: "hi \<le> 0 + tiles hi * 8"
  by (simp add: tiles_def)

lemma tiles_less: "k < tiles hi \<Longrightarrow> 0 + k * 8 < hi"
  by (simp add: tiles_def)

lemma trans_61_67_eq: "trans_61_67 M N A B = Some (upd_on ({0..<M} \<times> {0..<N}) A B)"
proof -
  let ?tile = "\<lambda>i j. for_each j (min (j + 8) M) (\<lambda>k. for_each i (min (i + 8) N) (copy_61 M N A k))"
  have row: "for_upto 0 M 8 (?tile i) C = Some (upd_on ({0..<M} \<times> {i..<min (i + 8) N}) A C)"
    if i: "i < N" for i C
  proof -
    let ?f = "\<lambda>l. upd_on ({0..<min (l * 8) M} \<times> {i..<min (i + 8) N}) A C"
    have "for_upto 0 M 8 (?tile i) (?f 0) = Some (?f (tiles M))"
    proof (rule for_upto_eq [OF tiles_ge tiles_less])
      fix l assume l: "l < tiles M"
      have "{l * 8..<min (l * 8 + 8) M} \<times> X \<union> {0..<min (l * 8) M} \<times> X
          = {0..<min (Suc l * 8) M} \<times> (X :: nat set)" for X
        using tiles_less [OF l] by auto
      then show "?tile i (0 + l * 8) (?f l) = Some (?f (Suc l))"
        using tiles_less [OF l] i by (simp add: copy_61_tile_eq)
    qed simp_all
    then show ?thesis using tiles_ge [of M] by (simp add: min_absorb2)
  qed
  let ?f = "\<lambda>k. upd_on ({0..<M} \<times> {0..<min (k * 8) N}) A B"
  have "for_upto 0 N 8 (\<lambda>i. for_upto 0 M 8 (?tile i)) (?f 0) = Some (?f (tiles N))"
  proof (rule for_upto_eq [OF tiles_ge tiles_less])
    fix k assume k: "k < tiles N"
    have "X \<times> {k * 8..<min (k * 8 + 8) N} \<union> X \<times> {0..<min (k * 8) N}
        = (X :: nat set) \<times> {0..<min (Suc k * 8) N}" for X
      using tiles_less [OF k] by auto
    then show "for_upto 0 M 8 (?tile (0 + k * 8)) (?f k) = Some (?f (Suc k))"
      using tiles_less [OF k] by (simp add: row)
  qed simp_all
  then show ?thesis using tiles_ge [of N]
    by (simp add: trans_61_67_def BLOCK_SIZE_def min_absorb2)
qed

section \<open>The contract of a registered transpose function\<close>

text \<open>
  \<open>B\<close> is the transpose of the \<open>N\<close> by \<open>M\<close> matrix \<open>A\<close>, and the memory of
  \<open>B\<close> outside its bounds is what it was.
\<close>

definition is_transposed :: "nat \<Rightarrow> nat \<Rightarrow> matrix \<Rightarrow> matrix \<Rightarrow> matrix \<Rightarrow> bool" where
  "is_transposed M N A B B' \<longleftrightarrow>
     (\<forall>x y. B' x y = (if x < M \<and> y < N then A y x else B x y))"

lemma is_transposed_upd_on: "is_transposed M N A B (upd_on ({0..<M} \<times> {0..<N}) A B)"
  by (simp add: is_transposed_def upd_on_def)

lemma next_in_range: "j \<le> y \<and> y < j + Suc n \<longleftrightarrow> y = j \<or> (Suc j \<le> y \<and> y < Suc j + n)"
  by auto

lemma first_difference_row_None:
  "first_difference_row B C i j n = None \<longleftrightarrow> (\<forall>y. j \<le> y \<and> y < j + n \<longrightarrow> B i y = C i y)"
proof (induction n arbitrary: j)
  case (Suc n)
  have "(\<forall>y. j \<le> y \<and> y < j + Suc n \<longrightarrow> B i y = C i y) \<longleftrightarrow>
      B i j = C i j \<and> (\<forall>y. Suc j \<le> y \<and> y < Suc j + n \<longrightarrow> B i y = C i y)"
    unfolding next_in_range by blast
  then show ?case using Suc by simp
qed simp

lemma first_difference_None:
  "first_difference N B C i n = None \<longleftrightarrow> (\<forall>x y. i \<le> x \<and> x < i + n \<and> y < N \<longrightarrow> B x y = C x y)"
proof (induction n arbitrary: i)
  case (Suc n)
  have "(\<forall>x y. i \<le> x \<and> x < i + Suc n \<and> y < N \<longrightarrow> B x y = C x y) \<longleftrightarrow>
      (\<forall>y. y < N \<longrightarrow> B i y = C i y) \<and> (\<forall>x y. Suc i \<le> x \<and> x < Suc i + n \<and> y < N \<longrightarrow> B x y = C x y)"
    unfolding conj_assoc [symmetric] next_in_range by blast
  then show ?case using Suc first_difference_row_None [of B C i 0 N]
    by (cases "first_difference_row B C i 0 N") simp_all
qed simp

lemma validate_iff:
  "validate M N A B = Some (Inr ()) \<longleftrightarrow> (\<forall>x y. x < M \<and> y < N \<longrightarrow> B x y = A y x)"
proof -
  have "first_difference N B (upd_on ({0..<M} \<times> {0..<N}) A (\<lambda>_ _. 0)) 0 M = None \<longleftrightarrow>
      (\<forall>x y. x < M \<and> y < N \<longrightarrow> B x y = A y x)"
    by (auto simp: first_difference_None upd_on_def)
  then show ?thesis by (auto simp: validate_def correctTrans_eq split: option.splits)
qed

text \<open>
  The interface between the driver (\<open>tracegen\<close>) and the routines it runs: for the sizes a
  routine is meant for, it stays inside both arrays and leaves the transpose in \<open>B\<close>.
\<close>

locale transpose_fn =
  fixes run :: "nat \<Rightarrow> nat \<Rightarrow> matrix \<Rightarrow> matrix \<Rightarrow> matrix option"
    and sizes :: "nat \<Rightarrow> nat \<Rightarrow> bool"
  assumes run_transposes: "sizes M N \<Longrightarrow> \<exists>B'. run M N A B = Some B' \<and> is_transposed M N A B B'"
begin

lemma run_validates:
  assumes "sizes M N" and "run M N A B = Some B'"
  shows "validate M N A B' = Some (Inr ())"
  using run_transposes [OF assms(1), of A B] assms(2) by (auto simp: validate_iff is_transposed_def)

lemma run_twice:
  assumes "sizes M N" and "sizes N M"
    and "run M N A B = Some B'" and "run N M B' C = Some C'" and "x < N" and "y < M"
  shows "C' x y = A x y"
  using run_transposes [OF assms(1), of A B] run_transposes [OF assms(2), of B' C] assms(3-)
  by (auto simp: is_transposed_def)

lemma run_outside:
  assumes "sizes M N" and "run M N A B = Some B'" and "\<not> (x < M \<and> y < N)"
  shows "B' x y = B x y"
  using run_transposes [OF assms(1), of A B] assms(2,3) by (auto simp: is_transposed_def)

end

interpretation plain: transpose_fn trans "\<lambda>M N. True"
  by unfold_locales (auto simp: trans_eq intro: is_transposed_upd_on)

interpretation baseline: transpose_fn correctTrans "\<lambda>M N. True"
  by unfold_locales (auto simp: correctTrans_eq intro: is_transposed_upd_on)

interpretation ragged: transpose_fn trans_61_67 "\<lambda>M N. True"
  by unfold_locales (auto simp: trans_61_67_eq intro: is_transposed_upd_on)

interpretation eights: transpose_fn trans_32_32 "\<lambda>M N. 8 dvd M \<and> 8 dvd N"
  by unfold_locales (auto simp: trans_32_32_eq elim!: dvdE intro: is_transposed_upd_on)

interpretation squares: transpose_fn trans_64_64 "\<lambda>M N. 8 dvd M \<and> N = M"
  by unfold_locales (auto simp: trans_64_64_eq elim!: dvdE intro: is_transposed_upd_on)

definition submit_sizes :: "nat \<Rightarrow> nat \<Rightarrow> bool" where
  "submit_sizes M N \<longleftrightarrow> M = 32 \<and> 8 dvd N \<or> M = 64 \<and> N = 64 \<or> M = 61"

interpretation submitted: transpose_fn transpose_submit submit_sizes
proof
  fix M N A B assume "submit_sizes M N"
  then consider "M = 32" "8 dvd N" | "M = 64" "N = 64" | "M = 61" by (auto simp: submit_sizes_def)
  then show "\<exists>B'. transpose_submit M N A B = Some B' \<and> is_transposed M N A B B'"
  proof cases
    case 1 then show ?thesis using eights.run_transposes [of 32 N A B] by (simp add: transpose_submit_def)
  next
    case 2 then show ?thesis using squares.run_transposes [of 64 64 A B] by (simp add: transpose_submit_def)
  next
    case 3 then show ?thesis using ragged.run_transposes [of 61 N A B] by (simp add: transpose_submit_def)
  qed
qed

section \<open>The driver accepts what the contract promises\<close>

lemma run_functions_all_ok:
  assumes "\<And>f B. f \<in> set fs \<Longrightarrow> \<exists>B'. func_ptr f M N A B = Some B' \<and> validate M N A B' = Some (Inr ())"
  shows "run_functions fs i M N A B = Some 0"
  using assms
proof (induction fs arbitrary: i B)
  case (Cons f fs)
  then obtain B' where "func_ptr f M N A B = Some B'" "validate M N A B' = Some (Inr ())"
    by fastforce
  with Cons show ?case by simp
qed simp

lemma registered_ok:
  assumes "submit_sizes M N" and "registerFunctions [] = Some fl" and "f \<in> set fl"
  shows "\<exists>B'. func_ptr f M N A B = Some B' \<and> validate M N A B' = Some (Inr ())"
proof -
  have "func_ptr f = transpose_submit \<or> func_ptr f = trans"
    using assms(2,3) by (auto simp: registerFunctions_def registerTransFunction_def MAX_TRANS_FUNCS_def)
  moreover obtain B1 where "transpose_submit M N A B = Some B1"
    using submitted.run_transposes [OF assms(1)] by blast
  moreover obtain B2 where "trans M N A B = Some B2"
    using plain.run_transposes by blast
  ultimately show ?thesis
    using submitted.run_validates [OF assms(1)] plain.run_validates by (metis TrueI)
qed

text \<open>C9. The graded routine stays inside both arrays and leaves exactly the transpose in
  \<open>B\<close>, touching nothing outside it, for every size it is meant for: 32 columns with a
  number of rows divisible by 8, 64 by 64, and 61 columns with any number of rows.\<close>

theorem transpose_submit_correct:
  assumes "submit_sizes M N"
  shows "\<exists>B'. transpose_submit M N A B = Some B'
    \<and> (\<forall>x y. B' x y = (if x < M \<and> y < N then A y x else B x y))"
  using submitted.run_transposes [OF assms, of A B] by (simp add: is_transposed_def)

theorem transpose_submit_correct_witness:
  "\<exists>B'. transpose_submit 64 64 (\<lambda>i j. int (64 * i + j)) (\<lambda>_ _. 0) = Some B' \<and> B' 3 5 = 323"
proof -
  have "submit_sizes 64 64" by (simp add: submit_sizes_def)
  from transpose_submit_correct [OF this, of "\<lambda>i j. int (64 * i + j)" "\<lambda>_ _. 0"]
  show ?thesis by force
qed

lemma tracegen_run_zero:
  assumes "submit_sizes M N" and "registerFunctions [] = Some fl"
    and "sel = -1 \<or> sel = 0 \<or> sel = 1"
  shows "tracegen_run fl sel M N A B = Some 0"
proof -
  have "length fl = 2"
    using assms(2) by (auto simp: registerFunctions_def registerTransFunction_def MAX_TRANS_FUNCS_def)
  moreover have "run_functions [fl ! i] j M N A B = Some 0" if "i < 2" for i j
    by (rule run_functions_all_ok) (use registered_ok [OF assms(1,2)] that calculation in auto)
  moreover have "run_functions fl 0 M N A B = Some 0"
    by (rule run_functions_all_ok) (use registered_ok [OF assms(1,2)] in auto)
  ultimately show ?thesis using assms(3) by (auto simp: tracegen_run_def)
qed

text \<open>\<open>tracegen\<close> with the functions \<open>trans.c\<close> registers exits with 0: both
  registered functions pass validation, whichever is selected, for every size the submission
  is meant for and whatever the arrays held before.\<close>

theorem tracegen_accepts:
  assumes "submit_sizes M N" and "registerFunctions [] = Some fl"
    and "sel = -1 \<or> sel = 0 \<or> sel = 1"
  shows "tracegen_run fl sel M N A B = Some 0"
  by (rule tracegen_run_zero [OF assms])

theorem tracegen_accepts_witness:
  "\<exists>fl. registerFunctions [] = Some fl \<and> tracegen_run fl (-1) 61 67 (\<lambda>i j. int (i - j)) (\<lambda>_ _. 0) = Some 0"
proof -
  have "submit_sizes 61 67" by (simp add: submit_sizes_def)
  moreover obtain fl where "registerFunctions [] = Some fl"
    by (simp add: registerFunctions_def registerTransFunction_def MAX_TRANS_FUNCS_def)
  ultimately show ?thesis using tracegen_accepts by blast
qed

end
