(* ===== verification/Cache_Simulator.thy ===== *)
theory Cache_Simulator
  imports Lab_Prelude "HOL-Library.Multiset"
begin

unbundle bit_operations_syntax

text \<open>
  The cache simulator \<open>cachelab/csim.c\<close>: a set-associative cache whose lines carry an
  age counter, driven by a trace of memory references.

  A set is the list of its \<open>E\<close> lines, the cache the list of its \<open>2 ^ s\<close> sets, as
  \<open>init_cache\<close> allocates them. Addresses and tags are 64-bit words. The statistics and
  the age counters are C \<open>int\<close>s that only count references, kept here as integers.
\<close>

section \<open>Data\<close>

record line =
  valid :: bool
  lru_counter :: int
  tag :: "64 word"

type_synonym cache = "line list list"

text \<open>\<open>malloc\<close> does not clear memory, so the first contents of the lines are whatever
  the allocated memory holds: the argument \<open>mem\<close>, by set and line.\<close>

definition init_cache :: "nat \<Rightarrow> nat \<Rightarrow> (nat \<Rightarrow> nat \<Rightarrow> line) \<Rightarrow> cache" where
  "init_cache s E mem = map (\<lambda>i. map (mem i) [0..<E]) [0..<2 ^ s]"

text \<open>\<open>set_mask = ~(~0 << s)\<close> is an \<open>int\<close>, widened when it meets the address.\<close>

definition set_mask :: "nat \<Rightarrow> 32 word" where
  "set_mask s = NOT (push_bit s (NOT 0))"

definition set_index :: "nat \<Rightarrow> nat \<Rightarrow> 64 word \<Rightarrow> nat" where
  "set_index s b addr = unat (drop_bit b addr AND scast (set_mask s))"

definition addr_tag :: "nat \<Rightarrow> nat \<Rightarrow> 64 word \<Rightarrow> 64 word" where
  "addr_tag s b addr = drop_bit (b + s) addr"

section \<open>One reference\<close>

text \<open>The locals of the loop over the lines of the selected set, with the statistics.\<close>

record scan =
  lines :: "line list"
  hits :: int
  misses :: int
  is_hit :: bool
  largest_lru_count :: int
  lru_index :: nat
  empty_index :: nat

text \<open>The body for a valid line \<open>i\<close>: the hit test, then the ageing and the search for
  the oldest line.\<close>

definition valid_line :: "char \<Rightarrow> 64 word \<Rightarrow> nat \<Rightarrow> scan \<Rightarrow> scan" where
  "valid_line m t i st =
     (let st1 = (if tag (lines st ! i) = t
                 then st\<lparr>hits := hits st + (if m = CHR ''M'' then 2 else 1), is_hit := True,
                         lines := (lines st)[i := (lines st ! i)\<lparr>lru_counter := -1\<rparr>]\<rparr>
                 else st);
          L = (lines st1 ! i)\<lparr>lru_counter := lru_counter (lines st1 ! i) + 1\<rparr>;
          st2 = st1\<lparr>empty_index := empty_index st1 + 1, lines := (lines st1)[i := L]\<rparr>
      in if largest_lru_count st2 < lru_counter L
         then st2\<lparr>largest_lru_count := lru_counter L, lru_index := i\<rparr> else st2)"

text \<open>The body for the first invalid line when the tag was not found: a miss that fills the
  line.\<close>

definition fill_line :: "char \<Rightarrow> 64 word \<Rightarrow> scan \<Rightarrow> scan" where
  "fill_line m t st =
     st\<lparr>lines := (lines st)[empty_index st := \<lparr>valid = True, lru_counter = 0, tag = t\<rparr>],
        misses := misses st + 1,
        hits := hits st + (if m = CHR ''M'' then 1 else 0),
        is_hit := True\<rparr>"

text \<open>\<open>scan_lines m t i n\<close> is the loop from line \<open>i\<close> with \<open>n\<close> lines to go; filling
  a line breaks out of it.\<close>

fun scan_lines :: "char \<Rightarrow> 64 word \<Rightarrow> nat \<Rightarrow> nat \<Rightarrow> scan \<Rightarrow> scan" where
  "scan_lines m t i 0 st = st"
| "scan_lines m t i (Suc n) st =
     (if valid (lines st ! i) then scan_lines m t (Suc i) n (valid_line m t i st)
      else if \<not> is_hit st then fill_line m t st
      else scan_lines m t (Suc i) n st)"

text \<open>The simulator: the cache and the three statistics.\<close>

record sim =
  sets :: cache
  n_hits :: int
  n_misses :: int
  n_evictions :: int

datatype reference = Reference (ref_id: char) (ref_addr: "64 word") (ref_size: int)

text \<open>One iteration of the main loop. \<open>None\<close> is an access outside the arrays: a set index
  beyond the table or a set of fewer than \<open>E\<close> lines.\<close>

definition reference_step :: "nat \<Rightarrow> nat \<Rightarrow> nat \<Rightarrow> reference \<Rightarrow> sim \<Rightarrow> sim option" where
  "reference_step s E b r c =
     (if ref_id r = CHR ''I'' \<or> ref_id r = CHR '' '' then Some c
      else
        let k = set_index s b (ref_addr r); t = addr_tag s b (ref_addr r) in
        if length (sets c) \<le> k \<or> length (sets c ! k) < E then None
        else
          let st = scan_lines (ref_id r) t 0 E
                     \<lparr>lines = sets c ! k, hits = n_hits c, misses = n_misses c, is_hit = False,
                      largest_lru_count = -1, lru_index = 0, empty_index = 0\<rparr>
          in if \<not> is_hit st \<and> empty_index st = E
             then if E = 0 then None
                  else Some \<lparr>sets = (sets c)[k := (lines st)[lru_index st :=
                               (lines st ! lru_index st)\<lparr>tag := t, lru_counter := 0\<rparr>]],
                             n_hits = hits st + (if ref_id r = CHR ''M'' then 1 else 0),
                             n_misses = misses st + 1, n_evictions = n_evictions c + 1\<rparr>
             else Some \<lparr>sets = (sets c)[k := lines st], n_hits = hits st, n_misses = misses st,
                        n_evictions = n_evictions c\<rparr>)"

text \<open>The main loop over the references \<open>fscanf\<close> delivers.\<close>

fun simulate :: "nat \<Rightarrow> nat \<Rightarrow> nat \<Rightarrow> reference list \<Rightarrow> sim \<Rightarrow> sim option" where
  "simulate s E b [] c = Some c"
| "simulate s E b (r # rs) c = Option.bind (reference_step s E b r c) (simulate s E b rs)"

definition csim :: "nat \<Rightarrow> nat \<Rightarrow> nat \<Rightarrow> (nat \<Rightarrow> nat \<Rightarrow> line) \<Rightarrow> reference list \<Rightarrow> (int \<times> int \<times> int) option" where
  "csim s E b mem trace =
     map_option (\<lambda>c. (n_hits c, n_misses c, n_evictions c))
       (simulate s E b trace
         \<lparr>sets = init_cache s E mem, n_hits = 0, n_misses = 0, n_evictions = 0\<rparr>)"


section \<open>Address fields\<close>

lemma set_mask_mask: "s \<le> 31 \<Longrightarrow> (scast (set_mask s) :: 64 word) = mask s"
proof -
  assume s: "s \<le> 31"
  have "bit (scast (set_mask s) :: 64 word) n = bit (mask s :: 64 word) n" for n
    using s by (auto simp: set_mask_def bit_simps min_def)
  then show ?thesis by (rule bit_word_eqI)
qed

lemma set_index_eq: "s \<le> 31 \<Longrightarrow> set_index s b addr = unat (drop_bit b addr) mod 2 ^ s"
proof -
  assume "s \<le> 31"
  then have "set_index s b addr = unat (take_bit s (drop_bit b addr))"
    by (simp add: set_index_def set_mask_mask take_bit_eq_mask)
  also have "\<dots> = take_bit s (unat (drop_bit b addr))" by (rule unsigned_take_bit_eq)
  finally show ?thesis by (simp only: take_bit_eq_mod)
qed

lemma set_index_less: "s \<le> 31 \<Longrightarrow> set_index s b addr < 2 ^ s"
  by (simp add: set_index_eq)

text \<open>Two addresses with the same tag and set lie in the same block of \<open>2 ^ b\<close> bytes.\<close>

lemma same_block:
  assumes "s \<le> 31"
  shows "addr_tag s b x = addr_tag s b y \<and> set_index s b x = set_index s b y \<longleftrightarrow>
    drop_bit b x = drop_bit b y"
proof
  assume h: "addr_tag s b x = addr_tag s b y \<and> set_index s b x = set_index s b y"
  have tb: "take_bit s (drop_bit b x) = take_bit s (drop_bit b y)"
    using h assms by (simp add: set_index_def set_mask_mask take_bit_eq_mask word_unat_eq_iff)
  have db: "drop_bit s (drop_bit b x) = drop_bit s (drop_bit b y)"
    using h by (simp add: addr_tag_def add.commute)
  show "drop_bit b x = drop_bit b y"
    by (metis tb db bits_ident)
next
  assume h: "drop_bit b x = drop_bit b y"
  then show "addr_tag s b x = addr_tag s b y \<and> set_index s b x = set_index s b y"
    by (simp add: addr_tag_def set_index_def add.commute [of b s] flip: drop_bit_drop_bit)
qed

section \<open>The reference model: least recently used\<close>

text \<open>A set is the list of its tags, most recently used first.\<close>

datatype outcome = Hit | Miss | Evict

definition lru_access :: "nat \<Rightarrow> 64 word \<Rightarrow> 64 word list \<Rightarrow> outcome \<times> 64 word list" where
  "lru_access E t xs =
     (if t \<in> set xs then (Hit, t # remove1 t xs)
      else if length xs < E then (Miss, t # xs)
      else (Evict, t # butlast xs))"

section \<open>The age counters implement the recency list\<close>

text \<open>
  The lines of a set implement the recency list \<open>xs\<close>: the valid lines come first, their
  ages are at least 0 and pairwise different, and sorted by age their tags are \<open>xs\<close>.
\<close>

definition implements :: "line list \<Rightarrow> 64 word list \<Rightarrow> bool" where
  "implements ls xs \<longleftrightarrow>
     (\<exists>vs ws ys. ls = vs @ ws \<and> (\<forall>L \<in> set vs. valid L \<and> 0 \<le> lru_counter L) \<and> (\<forall>L \<in> set ws. \<not> valid L)
       \<and> mset ys = mset vs \<and> sorted_wrt (\<lambda>K L. lru_counter K < lru_counter L) ys
       \<and> map tag ys = xs \<and> distinct xs)"

lemma implementsI:
  assumes "ls = vs @ ws" and "\<forall>L \<in> set vs. valid L \<and> 0 \<le> lru_counter L" and "\<forall>L \<in> set ws. \<not> valid L"
    and "mset ys = mset vs" and "sorted_wrt (\<lambda>K L. lru_counter K < lru_counter L) ys"
    and "map tag ys = xs" and "distinct xs"
  shows "implements ls xs"
  unfolding implements_def using assms by blast

text \<open>What a reference with tag \<open>t\<close> does to a valid line.\<close>

definition aged :: "64 word \<Rightarrow> line \<Rightarrow> line" where
  "aged t L = (if tag L = t then L\<lparr>lru_counter := 0\<rparr> else L\<lparr>lru_counter := lru_counter L + 1\<rparr>)"

lemma aged_simps [simp]: "tag (aged t L) = tag L" "valid (aged t L) = valid L"
  by (simp_all add: aged_def)

text \<open>The state of the loop once it has passed the valid lines \<open>take i vs\<close>.\<close>

definition passed :: "char \<Rightarrow> 64 word \<Rightarrow> line list \<Rightarrow> line list \<Rightarrow> int \<Rightarrow> int \<Rightarrow> nat \<Rightarrow> scan \<Rightarrow> bool" where
  "passed m t vs ws h0 m0 i st \<longleftrightarrow>
     lines st = map (aged t) (take i vs) @ drop i vs @ ws
     \<and> hits st = h0 + (if t \<in> tag ` set (take i vs) then if m = CHR ''M'' then 2 else 1 else 0)
     \<and> misses st = m0 \<and> is_hit st = (t \<in> tag ` set (take i vs)) \<and> empty_index st = i
     \<and> (\<forall>k < i. lru_counter (aged t (vs ! k)) \<le> largest_lru_count st)
     \<and> (if i = 0 then largest_lru_count st = -1
        else lru_index st < i \<and> lru_counter (aged t (vs ! lru_index st)) = largest_lru_count st)"

lemma passed_step:
  assumes "passed m t vs ws h0 m0 i st" and "i < length vs" and "distinct (map tag vs)"
    and "\<forall>L \<in> set vs. 0 \<le> lru_counter L"
  shows "passed m t vs ws h0 m0 (Suc i) (valid_line m t i st)"
proof -
  have nth: "lines st ! i = vs ! i" and len: "i < length (lines st)"
    using assms(1,2) by (auto simp: passed_def nth_append)
  have upd: "(lines st)[i := aged t (vs ! i)] = map (aged t) (take (Suc i) vs) @ drop (Suc i) vs @ ws"
    using assms(1,2)
    by (auto simp: passed_def list_update_append take_Suc_conv_app_nth Cons_nth_drop_Suc [symmetric])
  have new: "tag (vs ! i) \<notin> tag ` set (take i vs)"
    using assms(2,3) by (auto simp: in_set_conv_nth distinct_conv_nth)
  have take: "tag ` set (take (Suc i) vs) = insert (tag (vs ! i)) (tag ` set (take i vs))"
    using assms(2) by (simp add: take_Suc_conv_app_nth)
  have pos: "0 \<le> lru_counter (aged t (vs ! i))"
    using assms(2,4) by (auto simp: aged_def)
  have vl: "valid_line m t i st =
     (let st2 = st\<lparr>hits := hits st + (if tag (vs ! i) = t then if m = CHR ''M'' then 2 else 1 else 0),
                   is_hit := (is_hit st \<or> tag (vs ! i) = t), empty_index := Suc i,
                   lines := (lines st)[i := aged t (vs ! i)]\<rparr>
      in if largest_lru_count st2 < lru_counter (aged t (vs ! i))
         then st2\<lparr>largest_lru_count := lru_counter (aged t (vs ! i)), lru_index := i\<rparr> else st2)"
    using assms(1) nth len by (auto simp: valid_line_def aged_def passed_def Let_def)
  have p: "hits st = h0 + (if t \<in> tag ` set (take i vs) then if m = CHR ''M'' then 2 else 1 else 0)"
    "misses st = m0" "is_hit st = (t \<in> tag ` set (take i vs))"
    "\<forall>k < i. lru_counter (aged t (vs ! k)) \<le> largest_lru_count st"
    "if i = 0 then largest_lru_count st = -1
     else lru_index st < i \<and> lru_counter (aged t (vs ! lru_index st)) = largest_lru_count st"
    using assms(1) by (simp_all add: passed_def)
  show ?thesis
  proof (cases "largest_lru_count st < lru_counter (aged t (vs ! i))")
    case True
    then show ?thesis using p new unfolding vl Let_def passed_def
      by (auto simp: upd take less_Suc_eq split: if_splits)
  next
    case False
    with p(5) pos have "i \<noteq> 0" by (auto split: if_splits)
    with False show ?thesis using p new unfolding vl Let_def passed_def
      by (auto simp: upd take less_Suc_eq split: if_splits)
  qed
qed

lemma scan_valid:
  assumes "passed m t vs ws h0 m0 i st" and "i \<le> length vs" and "distinct (map tag vs)"
    and "\<forall>L \<in> set vs. valid L \<and> 0 \<le> lru_counter L"
  shows "\<exists>st'. passed m t vs ws h0 m0 (length vs) st'
    \<and> scan_lines m t i (length vs - i + n) st = scan_lines m t (length vs) n st'"
  using assms(1,2)
proof (induction "length vs - i" arbitrary: i st)
  case 0
  then show ?case by auto
next
  case (Suc d)
  then have i: "i < length vs" by simp
  have d: "length vs - i + n = Suc (length vs - Suc i + n)" using i by simp
  have "valid (lines st ! i)"
    using Suc.prems(1) i assms(4) by (simp add: passed_def nth_append)
  moreover have "passed m t vs ws h0 m0 (Suc i) (valid_line m t i st)"
    using passed_step [OF Suc.prems(1) i assms(3)] assms(4) by blast
  ultimately show ?case
    using Suc.hyps(1) [of "Suc i" "valid_line m t i st"] Suc.hyps(2) i by (simp add: d)
qed

lemma scan_invalid:
  assumes "is_hit st" and "\<And>k. i \<le> k \<Longrightarrow> k < i + n \<Longrightarrow> \<not> valid (lines st ! k)"
  shows "scan_lines m t i n st = st"
  using assms
proof (induction n arbitrary: i)
  case (Suc n)
  then have "\<not> valid (lines st ! i)" by simp
  with Suc show ?case by simp
qed simp

definition start_scan :: "line list \<Rightarrow> int \<Rightarrow> int \<Rightarrow> scan" where
  "start_scan ls h m = \<lparr>lines = ls, hits = h, misses = m, is_hit = False,
     largest_lru_count = -1, lru_index = 0, empty_index = 0\<rparr>"

text \<open>The three outcomes of the loop on a set whose valid lines come first.\<close>

lemma scan_lines_result:
  assumes vs: "distinct (map tag vs)" "\<forall>L \<in> set vs. valid L \<and> 0 \<le> lru_counter L"
    and ws: "\<forall>L \<in> set ws. \<not> valid L"
    and st: "st = scan_lines m t 0 (length (vs @ ws)) (start_scan (vs @ ws) h0 m0)"
  shows scan_hit: "t \<in> tag ` set vs \<Longrightarrow>
      lines st = map (aged t) vs @ ws \<and> hits st = h0 + (if m = CHR ''M'' then 2 else 1)
      \<and> misses st = m0 \<and> is_hit st"
    and scan_fill: "t \<notin> tag ` set vs \<Longrightarrow> ws \<noteq> [] \<Longrightarrow>
      lines st = map (aged t) vs @ \<lparr>valid = True, lru_counter = 0, tag = t\<rparr> # tl ws
      \<and> hits st = h0 + (if m = CHR ''M'' then 1 else 0) \<and> misses st = m0 + 1 \<and> is_hit st"
    and scan_full: "t \<notin> tag ` set vs \<Longrightarrow> ws = [] \<Longrightarrow>
      lines st = map (aged t) vs \<and> hits st = h0 \<and> misses st = m0 \<and> \<not> is_hit st
      \<and> empty_index st = length vs
      \<and> (vs \<noteq> [] \<longrightarrow> lru_index st < length vs
          \<and> (\<forall>k < length vs. lru_counter (aged t (vs ! k)) \<le> lru_counter (aged t (vs ! lru_index st))))"
proof -
  have "passed m t vs ws h0 m0 0 (start_scan (vs @ ws) h0 m0)"
    by (simp add: passed_def start_scan_def)
  from scan_valid [OF this _ vs, of "length ws"]
  obtain st' where p: "passed m t vs ws h0 m0 (length vs) st'"
    and e: "st = scan_lines m t (length vs) (length ws) st'"
    by (auto simp: st)
  have l: "lines st' = map (aged t) vs @ ws" using p by (simp add: passed_def)
  have inv: "\<not> valid (lines st' ! k)" if "length vs \<le> k" "k < length vs + length ws" for k
    using that ws by (simp add: l nth_append)
  show "lines st = map (aged t) vs @ ws \<and> hits st = h0 + (if m = CHR ''M'' then 2 else 1)
      \<and> misses st = m0 \<and> is_hit st" if "t \<in> tag ` set vs"
  proof -
    have "is_hit st'" using p that by (simp add: passed_def)
    then have "st = st'" unfolding e by (rule scan_invalid) (use inv in auto)
    with p that show ?thesis by (simp add: passed_def)
  qed
  show "lines st = map (aged t) vs @ \<lparr>valid = True, lru_counter = 0, tag = t\<rparr> # tl ws
      \<and> hits st = h0 + (if m = CHR ''M'' then 1 else 0) \<and> misses st = m0 + 1 \<and> is_hit st"
    if "t \<notin> tag ` set vs" "ws \<noteq> []"
  proof -
    from that(2) obtain w ws' where [simp]: "ws = w # ws'" by (cases ws) auto
    have "\<not> is_hit st'" using p that by (simp add: passed_def)
    then have "st = fill_line m t st'" using inv [of "length vs"] by (simp add: e)
    with p that show ?thesis by (simp add: passed_def fill_line_def list_update_append)
  qed
  show "lines st = map (aged t) vs \<and> hits st = h0 \<and> misses st = m0 \<and> \<not> is_hit st
      \<and> empty_index st = length vs
      \<and> (vs \<noteq> [] \<longrightarrow> lru_index st < length vs
          \<and> (\<forall>k < length vs. lru_counter (aged t (vs ! k)) \<le> lru_counter (aged t (vs ! lru_index st))))"
    if "t \<notin> tag ` set vs" "ws = []"
    using p that by (auto simp: passed_def e)
qed

section \<open>One reference against the reference model\<close>

lemma implements_start: "\<forall>L \<in> set ls. \<not> valid L \<Longrightarrow> implements ls []"
  unfolding implements_def by (intro exI [of _ "[]"] exI [of _ ls]) auto

lemma sorted_aged:
  assumes "sorted_wrt (\<lambda>K L. lru_counter K < lru_counter L) ys" and "t \<notin> tag ` set ys"
  shows "sorted_wrt (\<lambda>K L. lru_counter K < lru_counter L) (map (aged t) ys)"
  using assms by (induction ys) (auto simp: aged_def)

lemma sorted_wrt_snocE:
  assumes "sorted_wrt R ys" and "ys \<noteq> []" and "L \<in> set ys" and "L \<noteq> last ys"
  shows "R L (last ys)"
proof -
  have "ys = butlast ys @ [last ys]" using assms(2) by simp
  then have "sorted_wrt R (butlast ys @ [last ys])" and "L \<in> set (butlast ys @ [last ys])"
    using assms(1,3) by simp_all
  with assms(4) show ?thesis by (auto simp: sorted_wrt_append)
qed

lemma implements_hit:
  assumes vs: "\<forall>L \<in> set vs. valid L \<and> 0 \<le> lru_counter L" and ws: "\<forall>L \<in> set ws. \<not> valid L"
    and ys: "mset ys = mset vs" "sorted_wrt (\<lambda>K L. lru_counter K < lru_counter L) ys" "distinct (map tag ys)"
    and t: "t \<in> tag ` set vs"
  shows "implements (map (aged t) vs @ ws) (t # remove1 t (map tag ys))"
proof -
  have set: "set ys = set vs" using ys(1) by (rule mset_eq_setD)
  then obtain L where "L \<in> set ys" "tag L = t" using t by auto
  then obtain ys1 ys2 where L: "ys = ys1 @ L # ys2" "tag L = t" by (metis split_list)
  have not_in: "t \<notin> tag ` set ys1" "t \<notin> tag ` set ys2" using ys(3) L by auto
  let ?zs = "aged t L # map (aged t) (ys1 @ ys2)"
  have "mset ?zs = image_mset (aged t) (mset ys)" by (simp add: L)
  then have m: "mset ?zs = mset (map (aged t) vs)" by (simp add: ys(1))
  have so: "sorted_wrt (\<lambda>K L. lru_counter K < lru_counter L) ?zs"
  proof -
    have "sorted_wrt (\<lambda>K L. lru_counter K < lru_counter L) (ys1 @ ys2)"
      using ys(2) by (auto simp: L sorted_wrt_append)
    then have "sorted_wrt (\<lambda>K L. lru_counter K < lru_counter L) (map (aged t) (ys1 @ ys2))"
      by (rule sorted_aged) (use not_in in auto)
    moreover have "0 < lru_counter (aged t K)" if "K \<in> set (ys1 @ ys2)" for K
    proof -
      have "K \<in> set ys" using that L(1) by auto
      moreover have "tag K \<noteq> t" using that not_in by (auto simp: image_iff)
      ultimately have "K \<in> set vs" "tag K \<noteq> t" using set by auto
      then show ?thesis using vs by (simp add: aged_def)
    qed
    moreover have "lru_counter (aged t L) = 0" using L(2) by (simp add: aged_def)
    ultimately show ?thesis by auto
  qed
  have mt: "map tag ?zs = t # remove1 t (map tag ys)"
    using not_in L by (auto simp: remove1_append comp_def)
  have di: "distinct (t # remove1 t (map tag ys))"
    using ys(3) by (auto simp: distinct_remove1)
  have v: "\<forall>L \<in> set (map (aged t) vs). valid L \<and> 0 \<le> lru_counter L"
    using vs by (auto simp: aged_def)
  show ?thesis by (rule implementsI [OF refl v ws m so mt di])
qed

text \<open>Putting a new line in front of the recency list, after all others have aged.\<close>

lemma sorted_new:
  assumes "sorted_wrt (\<lambda>K L. lru_counter K < lru_counter L) ys" and "t \<notin> tag ` set ys"
    and "\<forall>L \<in> set ys. 0 \<le> lru_counter L"
  shows "sorted_wrt (\<lambda>K L. lru_counter K < lru_counter L)
    (\<lparr>valid = True, lru_counter = 0, tag = t\<rparr> # map (aged t) ys)"
proof -
  have "0 < lru_counter (aged t K)" if "K \<in> set ys" for K
    using that assms(2,3) by (auto simp: aged_def image_iff)
  then show ?thesis using sorted_aged [OF assms(1,2)] by auto
qed

lemma implements_fill:
  assumes vs: "\<forall>L \<in> set vs. valid L \<and> 0 \<le> lru_counter L" and ws: "\<forall>L \<in> set ws. \<not> valid L"
    and ys: "mset ys = mset vs" "sorted_wrt (\<lambda>K L. lru_counter K < lru_counter L) ys" "distinct (map tag ys)"
    and t: "t \<notin> tag ` set vs"
  shows "implements (map (aged t) vs @ \<lparr>valid = True, lru_counter = 0, tag = t\<rparr> # tl ws) (t # map tag ys)"
proof -
  let ?new = "\<lparr>valid = True, lru_counter = 0, tag = t\<rparr>"
  have set: "set ys = set vs" using ys(1) by (rule mset_eq_setD)
  have m: "mset (?new # map (aged t) ys) = mset (map (aged t) vs @ [?new])" by (simp add: ys(1))
  have so: "sorted_wrt (\<lambda>K L. lru_counter K < lru_counter L) (?new # map (aged t) ys)"
    by (rule sorted_new) (use ys t vs set in auto)
  have mt: "map tag (?new # map (aged t) ys) = t # map tag ys" by (simp add: comp_def)
  have di: "distinct (t # map tag ys)" using ys(3) t set by simp
  have v: "\<forall>L \<in> set (map (aged t) vs @ [?new]). valid L \<and> 0 \<le> lru_counter L"
    using vs by (auto simp: aged_def)
  have w: "\<forall>L \<in> set (tl ws). \<not> valid L" using ws by (cases ws) auto
  show ?thesis by (rule implementsI [OF _ v w m so mt di]) simp
qed

lemma renew_line: "L\<lparr>tag := t, lru_counter := 0\<rparr> = \<lparr>valid = valid L, lru_counter = 0, tag = t\<rparr>"
  by (cases L) simp

lemma implements_evict:
  assumes vs: "\<forall>L \<in> set vs. valid L \<and> 0 \<le> lru_counter L"
    and ys: "mset ys = mset vs" "sorted_wrt (\<lambda>K L. lru_counter K < lru_counter L) ys" "distinct (map tag ys)"
    and t: "t \<notin> tag ` set vs" and j: "j < length vs"
    and oldest: "\<forall>k < length vs. lru_counter (aged t (vs ! k)) \<le> lru_counter (aged t (vs ! j))"
  shows "implements ((map (aged t) vs)[j := (map (aged t) vs ! j)\<lparr>tag := t, lru_counter := 0\<rparr>])
    (t # butlast (map tag ys))"
proof -
  let ?new = "\<lparr>valid = True, lru_counter = 0, tag = t\<rparr>"
  have set: "set ys = set vs" using ys(1) by (rule mset_eq_setD)
  have ne: "ys \<noteq> []" using j ys(1) by auto
  have new: "(map (aged t) vs ! j)\<lparr>tag := t, lru_counter := 0\<rparr> = ?new"
    using j vs by (simp add: renew_line)
  have last: "last ys = vs ! j"
  proof (rule ccontr)
    assume "last ys \<noteq> vs ! j"
    then have "lru_counter (vs ! j) < lru_counter (last ys)"
      using sorted_wrt_snocE [OF ys(2) ne, of "vs ! j"] set j by auto
    moreover obtain k where "k < length vs" "vs ! k = last ys"
      using last_in_set [OF ne] set by (auto simp: in_set_conv_nth)
    moreover have "tag (vs ! k) \<noteq> t" "tag (vs ! j) \<noteq> t"
      using t j \<open>k < length vs\<close> by auto
    ultimately show False using oldest by (fastforce simp: aged_def)
  qed
  have split: "ys = butlast ys @ [vs ! j]" using ne last by (metis append_butlast_last_id)
  have "mset (map (aged t) vs) = mset (map (aged t) ys)" by (simp add: ys(1))
  also have "\<dots> = add_mset (aged t (vs ! j)) (mset (map (aged t) (butlast ys)))"
    by (subst split) simp
  finally have m: "mset (?new # map (aged t) (butlast ys)) = mset ((map (aged t) vs)[j := ?new])"
    using j by (simp add: mset_update)
  have "set (butlast ys) \<subseteq> set vs" using set by (auto dest: in_set_butlastD)
  moreover have "sorted_wrt (\<lambda>K L. lru_counter K < lru_counter L) (butlast ys)"
    using ys(2) split by (metis sorted_wrt_append)
  ultimately have so: "sorted_wrt (\<lambda>K L. lru_counter K < lru_counter L) (?new # map (aged t) (butlast ys))"
    using t vs by (intro sorted_new) auto
  have mt: "map tag (?new # map (aged t) (butlast ys)) = t # butlast (map tag ys)"
    by (simp add: comp_def map_butlast)
  have di: "distinct (t # butlast (map tag ys))"
    using ys(3) t set by (auto simp: distinct_butlast dest: in_set_butlastD)
  have v: "\<forall>L \<in> set ((map (aged t) vs)[j := ?new]). valid L \<and> 0 \<le> lru_counter L"
    using vs by (auto simp: aged_def dest!: set_update_subset_insert [THEN subsetD])
  show ?thesis unfolding new by (rule implementsI [where ws = "[]", OF _ v _ m so mt di]) simp_all
qed

section \<open>The simulator implements the reference model\<close>

record lru_sim =
  recency :: "nat \<Rightarrow> 64 word list"
  l_hits :: int
  l_misses :: int
  l_evictions :: int

text \<open>A load or a store is one access, a modify a load and a store; the store of a modify
  always hits. Instruction fetches do not touch the cache.\<close>

definition lru_step :: "nat \<Rightarrow> nat \<Rightarrow> nat \<Rightarrow> reference \<Rightarrow> lru_sim \<Rightarrow> lru_sim" where
  "lru_step s E b r a =
     (if ref_id r = CHR ''I'' \<or> ref_id r = CHR '' '' then a
      else
        let k = set_index s b (ref_addr r); out = lru_access E (addr_tag s b (ref_addr r)) (recency a k) in
        \<lparr>recency = (recency a)(k := snd out),
         l_hits = l_hits a + (if fst out = Hit then 1 else 0) + (if ref_id r = CHR ''M'' then 1 else 0),
         l_misses = l_misses a + (if fst out = Hit then 0 else 1),
         l_evictions = l_evictions a + (if fst out = Evict then 1 else 0)\<rparr>)"

definition lru_simulate :: "nat \<Rightarrow> nat \<Rightarrow> nat \<Rightarrow> reference list \<Rightarrow> lru_sim" where
  "lru_simulate s E b trace = fold (lru_step s E b) trace
     \<lparr>recency = (\<lambda>_. []), l_hits = 0, l_misses = 0, l_evictions = 0\<rparr>"

definition sim_rel :: "nat \<Rightarrow> nat \<Rightarrow> sim \<Rightarrow> lru_sim \<Rightarrow> bool" where
  "sim_rel s E c a \<longleftrightarrow> length (sets c) = 2 ^ s
     \<and> (\<forall>k < 2 ^ s. length (sets c ! k) = E \<and> implements (sets c ! k) (recency a k))
     \<and> n_hits c = l_hits a \<and> n_misses c = l_misses a \<and> n_evictions c = l_evictions a"

lemma reference_step_not_skipped:
  assumes "\<not> (ref_id r = CHR ''I'' \<or> ref_id r = CHR '' '')"
    and "k = set_index s b (ref_addr r)" and "t = addr_tag s b (ref_addr r)"
    and "k < length (sets c)" and "length (sets c ! k) = E" and "0 < E"
    and "st = scan_lines (ref_id r) t 0 E (start_scan (sets c ! k) (n_hits c) (n_misses c))"
  shows "reference_step s E b r c =
    (if \<not> is_hit st \<and> empty_index st = E
     then Some \<lparr>sets = (sets c)[k := (lines st)[lru_index st :=
                  (lines st ! lru_index st)\<lparr>tag := t, lru_counter := 0\<rparr>]],
                n_hits = hits st + (if ref_id r = CHR ''M'' then 1 else 0),
                n_misses = misses st + 1, n_evictions = n_evictions c + 1\<rparr>
     else Some \<lparr>sets = (sets c)[k := lines st], n_hits = hits st, n_misses = misses st,
                n_evictions = n_evictions c\<rparr>)"
  using assms by (simp add: reference_step_def start_scan_def Let_def)

text \<open>The simulation step for one set: the three outcomes of the loop against the three
  outcomes of \<open>lru_access\<close>.\<close>

lemma set_step:
  assumes "implements ls xs" and "length ls = E" and "0 < E"
    and "st = scan_lines m t 0 E (start_scan ls h0 m0)"
    and "(out, xs') = lru_access E t xs"
  shows "hits st + (if \<not> is_hit st \<and> empty_index st = E then if m = CHR ''M'' then 1 else 0 else 0)
      = h0 + (if out = Hit then 1 else 0) + (if m = CHR ''M'' then 1 else 0)"
    and "misses st + (if \<not> is_hit st \<and> empty_index st = E then 1 else 0) = m0 + (if out = Hit then 0 else 1)"
    and "(\<not> is_hit st \<and> empty_index st = E) = (out = Evict)"
    and "length (lines st) = E"
    and "implements (if out = Evict then (lines st)[lru_index st :=
           (lines st ! lru_index st)\<lparr>tag := t, lru_counter := 0\<rparr>] else lines st) xs'"
proof -
  from assms(1) obtain vs ws ys where i: "ls = vs @ ws" "\<forall>L \<in> set vs. valid L \<and> 0 \<le> lru_counter L"
    "\<forall>L \<in> set ws. \<not> valid L" "mset ys = mset vs" "sorted_wrt (\<lambda>K L. lru_counter K < lru_counter L) ys"
    "map tag ys = xs" "distinct xs"
    unfolding implements_def by blast
  have sety: "set ys = set vs" using i(4) by (rule mset_eq_setD)
  have setx: "set xs = tag ` set vs" using i(6) sety by auto
  have "mset (map tag ys) = mset (map tag vs)" using i(4) by simp
  then have d: "distinct (map tag vs)" using i(6,7) by (metis mset_eq_imp_distinct_iff)
  have len: "length xs = length vs" using i(4,6) by (metis length_map size_mset)
  have st: "st = scan_lines m t 0 (length (vs @ ws)) (start_scan (vs @ ws) h0 m0)"
    using assms(2,4) i(1) by simp
  note r = scan_lines_result [OF d i(2,3) st]
  have dy: "distinct (map tag ys)" using i(6,7) by simp
  consider (hit) "t \<in> tag ` set vs" | (fill) "t \<notin> tag ` set vs" "ws \<noteq> []"
    | (evict) "t \<notin> tag ` set vs" "ws = []" by blast
  then have "hits st + (if \<not> is_hit st \<and> empty_index st = E then if m = CHR ''M'' then 1 else 0 else 0)
      = h0 + (if out = Hit then 1 else 0) + (if m = CHR ''M'' then 1 else 0)
    \<and> misses st + (if \<not> is_hit st \<and> empty_index st = E then 1 else 0) = m0 + (if out = Hit then 0 else 1)
    \<and> (\<not> is_hit st \<and> empty_index st = E) = (out = Evict)
    \<and> length (lines st) = E
    \<and> implements (if out = Evict then (lines st)[lru_index st :=
           (lines st ! lru_index st)\<lparr>tag := t, lru_counter := 0\<rparr>] else lines st) xs'"
  proof cases
    case hit
    then have "out = Hit" "xs' = t # remove1 t (map tag ys)"
      using assms(5) setx i(6) by (simp_all add: lru_access_def)
    then show ?thesis
      using r(1) [OF hit] implements_hit [OF i(2,3,4,5) dy hit] assms(2) i(1) by simp
  next
    case fill
    then have "length xs < E" using assms(2) i(1) len by (cases ws) simp_all
    with fill have "out = Miss" "xs' = t # map tag ys"
      using assms(5) setx i(6) by (simp_all add: lru_access_def)
    then show ?thesis
      using r(2) [OF fill] implements_fill [OF i(2,3,4,5) dy fill(1)] fill(2) assms(2) i(1)
      by (simp add: Suc_le_eq)
  next
    case evict
    then have o: "out = Evict" "xs' = t # butlast (map tag ys)"
      using assms(2,5) setx i(1,6) len by (simp_all add: lru_access_def)
    have "vs \<noteq> []" using assms(2,3) evict(2) i(1) by auto
    with r(3) [OF evict] have "lru_index st < length vs"
      "\<forall>k < length vs. lru_counter (aged t (vs ! k)) \<le> lru_counter (aged t (vs ! lru_index st))" by simp_all
    from implements_evict [OF i(2,4,5) dy evict(1) this] show ?thesis
      using r(3) [OF evict] o assms(2) i(1) evict(2) by simp
  qed
  then show "hits st + (if \<not> is_hit st \<and> empty_index st = E then if m = CHR ''M'' then 1 else 0 else 0)
      = h0 + (if out = Hit then 1 else 0) + (if m = CHR ''M'' then 1 else 0)"
    and "misses st + (if \<not> is_hit st \<and> empty_index st = E then 1 else 0) = m0 + (if out = Hit then 0 else 1)"
    and "(\<not> is_hit st \<and> empty_index st = E) = (out = Evict)"
    and "length (lines st) = E"
    and "implements (if out = Evict then (lines st)[lru_index st :=
           (lines st ! lru_index st)\<lparr>tag := t, lru_counter := 0\<rparr>] else lines st) xs'"
    by blast+
qed

lemma reference_step_simulates:
  assumes "sim_rel s E c a" and "s \<le> 31" and "0 < E"
  shows "\<exists>c'. reference_step s E b r c = Some c' \<and> sim_rel s E c' (lru_step s E b r a)"
proof (cases "ref_id r = CHR ''I'' \<or> ref_id r = CHR '' ''")
  case True
  then show ?thesis using assms(1) by (auto simp: reference_step_def lru_step_def)
next
  case False
  define k where "k = set_index s b (ref_addr r)"
  define t where "t = addr_tag s b (ref_addr r)"
  define st where "st = scan_lines (ref_id r) t 0 E (start_scan (sets c ! k) (n_hits c) (n_misses c))"
  obtain out xs' where lru: "(out, xs') = lru_access E t (recency a k)" by (metis surj_pair)
  have k: "k < 2 ^ s" using assms(2) by (simp add: k_def set_index_less)
  have c: "length (sets c) = 2 ^ s" "length (sets c ! k) = E" "implements (sets c ! k) (recency a k)"
    using assms(1) k by (simp_all add: sim_rel_def)
  note step = set_step [OF c(3,2) assms(3) st_def lru]
  define ls where "ls = (if out = Evict then (lines st)[lru_index st :=
           (lines st ! lru_index st)\<lparr>tag := t, lru_counter := 0\<rparr>] else lines st)"
  have ref: "reference_step s E b r c =
     Some \<lparr>sets = (sets c)[k := ls],
        n_hits = n_hits c + (if out = Hit then 1 else 0) + (if ref_id r = CHR ''M'' then 1 else 0),
        n_misses = n_misses c + (if out = Hit then 0 else 1),
        n_evictions = n_evictions c + (if out = Evict then 1 else 0)\<rparr>"
    using step(1-3) c(1) k unfolding ls_def
    by (subst reference_step_not_skipped [OF False k_def t_def _ c(2) assms(3) st_def]) auto
  moreover have "sim_rel s E \<lparr>sets = (sets c)[k := ls],
        n_hits = n_hits c + (if out = Hit then 1 else 0) + (if ref_id r = CHR ''M'' then 1 else 0),
        n_misses = n_misses c + (if out = Hit then 0 else 1),
        n_evictions = n_evictions c + (if out = Evict then 1 else 0)\<rparr> (lru_step s E b r a)"
  proof -
    have "lru_step s E b r a = \<lparr>recency = (recency a)(k := xs'),
         l_hits = l_hits a + (if out = Hit then 1 else 0) + (if ref_id r = CHR ''M'' then 1 else 0),
         l_misses = l_misses a + (if out = Hit then 0 else 1),
         l_evictions = l_evictions a + (if out = Evict then 1 else 0)\<rparr>"
      using False lru [symmetric] by (simp add: lru_step_def Let_def k_def t_def)
    moreover have "length ls = E" "implements ls xs'"
      using step(4,5) by (simp_all add: ls_def)
    ultimately show ?thesis using assms(1) by (simp add: sim_rel_def nth_list_update)
  qed
  ultimately show ?thesis by blast
qed

lemma simulate_simulates:
  assumes "sim_rel s E c a" and "s \<le> 31" and "0 < E"
  shows "\<exists>c'. simulate s E b trace c = Some c' \<and> sim_rel s E c' (fold (lru_step s E b) trace a)"
  using assms(1)
proof (induction trace arbitrary: c a)
  case (Cons r rs)
  from reference_step_simulates [OF Cons.prems assms(2,3), of b r]
  obtain c' where "reference_step s E b r c = Some c'" "sim_rel s E c' (lru_step s E b r a)" by blast
  with Cons.IH show ?case by simp
qed simp

lemma sim_rel_init:
  assumes "\<And>k i. \<not> valid (mem k i)"
  shows "sim_rel s E \<lparr>sets = init_cache s E mem, n_hits = 0, n_misses = 0, n_evictions = 0\<rparr>
     \<lparr>recency = (\<lambda>_. []), l_hits = 0, l_misses = 0, l_evictions = 0\<rparr>"
  using assms by (auto simp: sim_rel_def init_cache_def intro!: implements_start)

lemma csim_lru_counts:
  assumes "s \<le> 31" and "0 < E" and "\<And>k i. \<not> valid (mem k i)"
  shows "csim s E b mem trace =
    (let a = lru_simulate s E b trace in Some (l_hits a, l_misses a, l_evictions a))"
  using simulate_simulates [OF sim_rel_init [of mem s E, OF assms(3)] assms(1,2), of b trace]
  by (auto simp: csim_def lru_simulate_def sim_rel_def Let_def)

text \<open>C11. On a cache whose memory starts out cleared, the simulator never leaves its arrays
  and the three numbers it prints are, for every trace and every geometry with at least one
  line per set, those of a cache that keeps each set as a list in order of recency, evicts the
  least recently used tag, and counts the store of a modify as a further hit.\<close>

theorem csim_is_lru:
  assumes "s \<le> 31" and "0 < E" and "\<And>k i. \<not> valid (mem k i)"
  shows "csim s E b mem trace =
    (let a = lru_simulate s E b trace in Some (l_hits a, l_misses a, l_evictions a))"
  using assms by (rule csim_lru_counts)

theorem csim_is_lru_witness:
  "csim 1 1 1 (\<lambda>_ _. \<lparr>valid = False, lru_counter = 7, tag = 9\<rparr>)
     [Reference CHR ''L'' 0 1, Reference CHR ''M'' 1 1, Reference CHR ''S'' 4 1, Reference CHR ''L'' 0 1]
   = Some (2, 3, 2)"
proof -
  have "csim 1 1 1 (\<lambda>_ _. \<lparr>valid = False, lru_counter = 7, tag = 9\<rparr>)
     [Reference CHR ''L'' 0 1, Reference CHR ''M'' 1 1, Reference CHR ''S'' 4 1, Reference CHR ''L'' 0 1]
   = (let a = lru_simulate 1 1 1
       [Reference CHR ''L'' 0 1, Reference CHR ''M'' 1 1, Reference CHR ''S'' 4 1, Reference CHR ''L'' 0 1]
      in Some (l_hits a, l_misses a, l_evictions a))"
    by (rule csim_is_lru) simp_all
  then show ?thesis by code_simp
qed


section \<open>More lines per set\<close>

text \<open>The smaller cache's recency list is the front of the larger one's.\<close>

lemma take_remove1: "t \<in> set (take n xs) \<Longrightarrow> take (n - 1) (remove1 t xs) = remove1 t (take n xs)"
proof (induction n arbitrary: xs)
  case (Suc n)
  then obtain y ys where xs: "xs = y # ys" by (cases xs) auto
  show ?case
  proof (cases "y = t")
    case False
    then have "t \<in> set (take n ys)" using Suc.prems xs by auto
    moreover from this have "0 < n" by (cases n) auto
    ultimately show ?thesis using Suc.IH [of ys] False xs by (cases n) auto
  qed (simp add: xs)
qed simp

lemma take_remove1_out: "t \<notin> set (take n xs) \<Longrightarrow> take n (remove1 t xs) = take n xs"
proof (induction n arbitrary: xs)
  case (Suc n)
  then show ?case by (cases xs) auto
qed simp

lemma lru_access_take:
  assumes "0 < E" and "E \<le> E'" and "length ys \<le> E'"
  shows "snd (lru_access E t (take E ys)) = take E (snd (lru_access E' t ys))"
    and "fst (lru_access E t (take E ys)) = Hit \<Longrightarrow> fst (lru_access E' t ys) = Hit"
    and "length (snd (lru_access E' t ys)) \<le> E'"
proof -
  obtain n where E: "E = Suc n" using assms(1) by (cases E) auto
  show "fst (lru_access E t (take E ys)) = Hit \<Longrightarrow> fst (lru_access E' t ys) = Hit"
    by (auto simp: lru_access_def split: if_splits dest: in_set_takeD)
  show "length (snd (lru_access E' t ys)) \<le> E'"
    using assms by (auto simp: lru_access_def length_remove1)
  show "snd (lru_access E t (take E ys)) = take E (snd (lru_access E' t ys))"
  proof (cases "t \<in> set (take E ys)")
    case True
    then have "t \<in> set ys" by (rule in_set_takeD)
    with True take_remove1 [OF True] show ?thesis by (simp add: lru_access_def E)
  next
    case False
    have out: "t \<notin> set (take n ys)"
      using False E by (metis in_set_takeD min.absorb2 take_take lessI less_imp_le min.commute)
    have full: "snd (lru_access E t (take E ys)) = t # take n ys"
    proof (cases "length ys < E")
      case True
      with False show ?thesis by (simp add: lru_access_def E)
    next
      case long: False
      then have "butlast (take E ys) = take n ys" by (simp add: E butlast_conv_take)
      with False long show ?thesis by (simp add: lru_access_def)
    qed
    show ?thesis
    proof (cases "t \<in> set ys")
      case True
      then show ?thesis using full take_remove1_out [OF out] by (simp add: lru_access_def E)
    next
      case False
      have "take n (butlast ys) = take n ys" if "\<not> length ys < E'"
      proof -
        have "min n (length ys - 1) = n" using that assms E by simp
        then show ?thesis by (simp only: butlast_conv_take take_take)
      qed
      then show ?thesis using full False by (auto simp: lru_access_def E)
    qed
  qed
qed

lemma lru_step_take:
  assumes "0 < E" and "E \<le> E'"
    and "\<And>k. recency a k = take E (recency a' k) \<and> length (recency a' k) \<le> E'"
    and "l_misses a' \<le> l_misses a"
  shows "recency (lru_step s E b r a) k = take E (recency (lru_step s E' b r a') k)
      \<and> length (recency (lru_step s E' b r a') k) \<le> E'"
    and "l_misses (lru_step s E' b r a') \<le> l_misses (lru_step s E b r a)"
  using lru_access_take [OF assms(1,2), of "recency a' (set_index s b (ref_addr r))" "addr_tag s b (ref_addr r)"]
    assms(3,4) by (auto simp: lru_step_def Let_def)

lemma lru_fold_take:
  assumes "0 < E" and "E \<le> E'"
    and "\<And>k. recency a k = take E (recency a' k) \<and> length (recency a' k) \<le> E'"
    and "l_misses a' \<le> l_misses a"
  shows "l_misses (fold (lru_step s E' b) trace a') \<le> l_misses (fold (lru_step s E b) trace a)"
  using assms(3,4)
proof (induction trace arbitrary: a a')
  case (Cons r rs)
  from lru_step_take [OF assms(1,2) Cons.prems, of s b r] Cons.IH show ?case by simp
qed simp

text \<open>Adding lines to the sets never adds misses: the simulator has no Belady anomaly.\<close>

theorem csim_more_lines:
  assumes "s \<le> 31" and "0 < E" and "E \<le> E'" and "\<And>k i. \<not> valid (mem k i)"
    and "csim s E b mem trace = Some (h, m, e)" and "csim s E' b mem trace = Some (h', m', e')"
  shows "m' \<le> m"
proof -
  have "0 < E'" using assms(2,3) by simp
  have "m = l_misses (lru_simulate s E b trace)"
    using csim_lru_counts [OF assms(1,2,4), where b = b and trace = trace] assms(5) by (simp add: Let_def)
  moreover have "m' = l_misses (lru_simulate s E' b trace)"
    using csim_lru_counts [OF assms(1) \<open>0 < E'\<close> assms(4), where b = b and trace = trace] assms(6) by (simp add: Let_def)
  ultimately show ?thesis
    using lru_fold_take [OF assms(2,3)] by (simp add: lru_simulate_def)
qed

theorem csim_more_lines_witness:
  "\<exists>h m e h' m' e'.
     csim 0 1 0 (\<lambda>_ _. \<lparr>valid = False, lru_counter = 0, tag = 0\<rparr>)
       [Reference CHR ''L'' 0 1, Reference CHR ''L'' 1 1, Reference CHR ''L'' 0 1] = Some (h, m, e)
   \<and> csim 0 2 0 (\<lambda>_ _. \<lparr>valid = False, lru_counter = 0, tag = 0\<rparr>)
       [Reference CHR ''L'' 0 1, Reference CHR ''L'' 1 1, Reference CHR ''L'' 0 1] = Some (h', m', e')
   \<and> m' \<le> m \<and> m' \<noteq> m"
proof -
  let ?mem = "\<lambda>_ _. \<lparr>valid = False, lru_counter = 0, tag = 0\<rparr>"
  let ?tr = "[Reference CHR ''L'' 0 1, Reference CHR ''L'' 1 1, Reference CHR ''L'' 0 1]"
  have 1: "csim 0 1 0 ?mem ?tr = Some (0, 3, 2)" by code_simp
  have 2: "csim 0 2 0 ?mem ?tr = Some (1, 2, 0)" by code_simp
  from csim_more_lines [OF _ _ _ _ 1 2] 1 2 show ?thesis by fastforce
qed

text \<open>\<open>init_cache\<close> takes its lines from \<open>malloc\<close> and does not clear them, so the
  first reference to an empty cache can be reported as a hit: the printed numbers depend on
  what the memory held.\<close>

theorem csim_depends_on_malloc_contents:
  "csim 0 1 0 (\<lambda>_ _. \<lparr>valid = False, lru_counter = 0, tag = 5\<rparr>) [Reference CHR ''L'' 5 1] = Some (0, 1, 0)
   \<and> csim 0 1 0 (\<lambda>_ _. \<lparr>valid = True, lru_counter = 0, tag = 5\<rparr>) [Reference CHR ''L'' 5 1] = Some (1, 0, 0)"
  by code_simp

text \<open>The set index is always inside the table, and two references compete for the same
  line of the same set exactly when their addresses lie in the same block of \<open>2 ^ b\<close>
  bytes.\<close>

theorem tag_and_set_identify_block:
  assumes "s \<le> 31"
  shows "set_index s b x < 2 ^ s
    \<and> (addr_tag s b x = addr_tag s b y \<and> set_index s b x = set_index s b y \<longleftrightarrow>
         unat x div 2 ^ b = unat y div 2 ^ b)"
proof -
  have "drop_bit b x = drop_bit b y \<longleftrightarrow> unat x div 2 ^ b = unat y div 2 ^ b"
    by (simp only: word_unat_eq_iff unat_drop_bit_eq) (simp only: drop_bit_eq_div)
  then show ?thesis using set_index_less [OF assms] same_block [OF assms, of b x y] by simp
qed

theorem tag_and_set_identify_block_witness:
  "set_index 4 4 0xABCD < 16
   \<and> addr_tag 4 4 0xABCD = addr_tag 4 4 0xABC1 \<and> set_index 4 4 0xABCD = set_index 4 4 0xABC1"
  using tag_and_set_identify_block [of 4 4 "0xABCD" "0xABC1"] by simp

end
