(* ===== verification/Mem_List.thy ===== *)
theory Mem_List
  imports Lab_Prelude
begin

text \<open>
  The block list of \<open>linklab/handout/utils/memlist.c\<close>: a singly linked list, sorted by
  address, with a dummy first element, in which the tracer remembers every block it has seen.

  The chain of items a list pointer leads to is a HOL list, the dummy first; the null pointer
  is the empty list. Addresses and sizes are 64-bit words (pointer comparison is unsigned), the
  counter is a C \<open>int\<close> kept as an integer. \<open>callocp\<close> is taken to succeed, as the code
  does.
\<close>

section \<open>The list\<close>

record item =
  ptr :: "64 word"
  bsize :: "64 word"
  cnt :: int

type_synonym memlist = "item list"

definition new_list :: memlist where
  "new_list = [\<lparr>ptr = 0, bsize = 0, cnt = 0\<rparr>]"

text \<open>\<open>free_list\<close> walks the chain and frees every node; the result is the list of the
  nodes in the order they are freed.\<close>

fun free_list :: "memlist \<Rightarrow> item list" where
  "free_list [] = []"
| "free_list (i # next) = i # free_list next"

text \<open>The loop of \<open>alloc\<close> over the items behind the dummy, from \<open>cur\<close> on, with the
  insertion or the update at the place where it stops.\<close>

fun alloc_at :: "64 word \<Rightarrow> 64 word \<Rightarrow> item list \<Rightarrow> item list \<times> item" where
  "alloc_at p sz [] = (let i = \<lparr>ptr = p, bsize = sz, cnt = 1\<rparr> in ([i], i))"
| "alloc_at p sz (cur # rest) =
     (if ptr cur < p then (let (rest', i) = alloc_at p sz rest in (cur # rest', i))
      else if ptr cur = p
      then (let i = cur\<lparr>bsize := sz, cnt := cnt cur + 1\<rparr> in (i # rest, i))
      else (let i = \<lparr>ptr = p, bsize = sz, cnt = 1\<rparr> in (i # cur # rest, i)))"

definition alloc :: "memlist \<Rightarrow> 64 word \<Rightarrow> 64 word \<Rightarrow> memlist \<times> item option" where
  "alloc list p sz =
     (case list of [] \<Rightarrow> ([], None)
      | dummy # items \<Rightarrow> let (items', i) = alloc_at p sz items in (dummy # items', Some i))"

text \<open>\<open>dealloc\<close> searches with \<open>!=\<close>, without using the order.\<close>

fun dealloc_at :: "64 word \<Rightarrow> item list \<Rightarrow> item list \<times> item option" where
  "dealloc_at p [] = ([], None)"
| "dealloc_at p (cur # rest) =
     (if ptr cur \<noteq> p then (let (rest', i) = dealloc_at p rest in (cur # rest', i))
      else (let i = cur\<lparr>cnt := cnt cur - 1\<rparr> in (i # rest, Some i)))"

definition dealloc :: "memlist \<Rightarrow> 64 word \<Rightarrow> memlist \<times> item option" where
  "dealloc list p =
     (case list of [] \<Rightarrow> ([], None)
      | dummy # items \<Rightarrow> let (items', i) = dealloc_at p items in (dummy # items', i))"

text \<open>\<open>find\<close> uses the order: it stops at the first address that is not smaller.\<close>

fun find_at :: "64 word \<Rightarrow> item list \<Rightarrow> item option" where
  "find_at p [] = None"
| "find_at p (cur # rest) =
     (if ptr cur < p then find_at p rest else if ptr cur = p then Some cur else None)"

definition find_item :: "memlist \<Rightarrow> 64 word \<Rightarrow> item option" where
  "find_item list p = (case list of [] \<Rightarrow> None | dummy # items \<Rightarrow> find_at p items)"

text \<open>\<open>dump_list\<close> prints one row per item behind the dummy; \<open>None\<close> is the failed
  assertion on the null pointer.\<close>

definition dump_list :: "memlist \<Rightarrow> (64 word \<times> 64 word \<times> int) list option" where
  "dump_list list =
     (case list of [] \<Rightarrow> None
      | dummy # items \<Rightarrow> Some (map (\<lambda>i. (ptr i, bsize i, cnt i)) items))"

section \<open>The invariant and the abstract table\<close>

definition wf_list :: "memlist \<Rightarrow> bool" where
  "wf_list list \<longleftrightarrow> (case list of [] \<Rightarrow> False
     | dummy # items \<Rightarrow> dummy = \<lparr>ptr = 0, bsize = 0, cnt = 0\<rparr>
         \<and> sorted_wrt (\<lambda>i j. ptr i < ptr j) items)"

lemma wf_listE:
  assumes "wf_list l"
  obtains items where "l = \<lparr>ptr = 0, bsize = 0, cnt = 0\<rparr> # items"
    and "sorted_wrt (\<lambda>i j. ptr i < ptr j) items"
  using assms by (auto simp: wf_list_def split: list.splits)

lemma ptr_alloc_at: "ptr ` set (fst (alloc_at p sz items)) = insert p (ptr ` set items)"
  by (induction items) (auto simp: Let_def split: prod.splits)

lemma ptr_dealloc_at: "map ptr (fst (dealloc_at p items)) = map ptr items"
  by (induction items) (auto simp: Let_def split: prod.splits)

lemma sorted_ptr: "sorted_wrt (\<lambda>i j. ptr i < ptr j) items \<longleftrightarrow> sorted_wrt (<) (map ptr items)"
  by (simp add: sorted_wrt_map)

lemma sorted_alloc_at:
  "sorted_wrt (\<lambda>i j. ptr i < ptr j) items \<Longrightarrow>
   sorted_wrt (\<lambda>i j. ptr i < ptr j) (fst (alloc_at p sz items))"
proof (induction items)
  case (Cons cur rest)
  have "\<forall>i \<in> set (fst (alloc_at p sz rest)). ptr i \<in> insert p (ptr ` set rest)"
    using ptr_alloc_at by blast
  with Cons show ?case
    by (cases "alloc_at p sz rest") (fastforce simp: Let_def not_less)
qed (simp add: Let_def)

lemma sorted_dealloc_at:
  "sorted_wrt (\<lambda>i j. ptr i < ptr j) items \<Longrightarrow>
   sorted_wrt (\<lambda>i j. ptr i < ptr j) (fst (dealloc_at p items))"
  by (simp only: sorted_ptr ptr_dealloc_at)

lemma find_at_None: "(\<And>i. i \<in> set items \<Longrightarrow> p < ptr i) \<Longrightarrow> find_at p items = None"
  by (cases items) (auto dest: less_asym)

lemma find_at_alloc_at:
  assumes "sorted_wrt (\<lambda>i j. ptr i < ptr j) items"
  shows "find_at q (fst (alloc_at p sz items)) =
    (if q = p then Some (case find_at p items of None \<Rightarrow> \<lparr>ptr = p, bsize = sz, cnt = 1\<rparr>
                         | Some i \<Rightarrow> i\<lparr>bsize := sz, cnt := cnt i + 1\<rparr>)
     else find_at q items)"
  using assms
proof (induction items)
  case Nil
  then show ?case by (simp add: Let_def)
next
  case (Cons cur rest)
  have none: "find_at q rest = None" if "q < ptr cur"
    by (rule find_at_None) (use that Cons.prems in \<open>auto intro: less_trans\<close>)
  obtain rest' i where e: "alloc_at p sz rest = (rest', i)" by fastforce
  consider "ptr cur < p" | "ptr cur = p" | "p < ptr cur" by fastforce
  then show ?case
  proof cases
    case 1 then show ?thesis using Cons e by (auto simp: Let_def)
  next
    case 2 then show ?thesis by (simp add: Let_def)
  next
    case 3 then show ?thesis using none by (auto simp: Let_def dest: less_asym)
  qed
qed

lemma find_at_dealloc_at:
  assumes "sorted_wrt (\<lambda>i j. ptr i < ptr j) items"
  shows "find_at q (fst (dealloc_at p items)) =
    (if q = p then map_option (\<lambda>i. i\<lparr>cnt := cnt i - 1\<rparr>) (find_at p items) else find_at q items)"
  using assms
proof (induction items)
  case Nil
  then show ?case by simp
next
  case (Cons cur rest)
  have none: "find_at p rest = None" if "p < ptr cur"
    by (rule find_at_None) (use that Cons.prems in \<open>auto intro: less_trans\<close>)
  obtain rest' i where e: "dealloc_at p rest = (rest', i)" by fastforce
  consider "ptr cur < p" | "ptr cur = p" | "p < ptr cur" by fastforce
  then show ?case
  proof cases
    case 1 then show ?thesis using Cons e by (auto simp: Let_def)
  next
    case 2 then show ?thesis by (simp add: Let_def)
  next
    case 3 then show ?thesis using Cons none e by (auto simp: Let_def dest: less_asym)
  qed
qed

lemma snd_dealloc_at:
  assumes "sorted_wrt (\<lambda>i j. ptr i < ptr j) items"
  shows "snd (dealloc_at p items) = find_at p (fst (dealloc_at p items))"
  using assms
proof (induction items)
  case (Cons cur rest)
  have none: "find_at p (fst (dealloc_at p rest)) = None" if "p < ptr cur"
  proof (rule find_at_None)
    fix i assume "i \<in> set (fst (dealloc_at p rest))"
    then have "ptr i \<in> ptr ` set rest" using ptr_dealloc_at by (metis imageI set_map)
    then show "p < ptr i" using that Cons.prems by (auto intro: less_trans)
  qed
  consider "ptr cur < p" | "ptr cur = p" | "p < ptr cur" by fastforce
  then show ?case
  proof cases
    case 3 then show ?thesis using Cons none by (auto simp: Let_def split_def dest: less_asym)
  qed (use Cons in \<open>auto simp: Let_def split_def\<close>)
qed simp

lemma find_at_Some_iff:
  assumes "sorted_wrt (\<lambda>i j. ptr i < ptr j) items"
  shows "find_at p items = Some i \<longleftrightarrow> i \<in> set items \<and> ptr i = p"
  using assms by (induction items) (auto simp: less_imp_neq not_less dest: less_asym)


lemma wf_new_list [simp]: "wf_list new_list"
  by (simp add: wf_list_def new_list_def)

lemma find_new_list [simp]: "find_item new_list p = None"
  by (simp add: find_item_def new_list_def)

lemma alloc_Cons [simp]:
  "fst (alloc (d # items) p sz) = d # fst (alloc_at p sz items)"
  "snd (alloc (d # items) p sz) = Some (snd (alloc_at p sz items))"
  by (simp_all add: alloc_def Let_def split_def)

lemma dealloc_Cons [simp]:
  "fst (dealloc (d # items) p) = d # fst (dealloc_at p items)"
  "snd (dealloc (d # items) p) = snd (dealloc_at p items)"
  by (simp_all add: dealloc_def Let_def split_def)

lemma find_item_Cons [simp]: "find_item (d # items) p = find_at p items"
  by (simp add: find_item_def)

lemma wf_alloc: "wf_list l \<Longrightarrow> wf_list (fst (alloc l p sz))"
  by (cases l) (auto simp: wf_list_def intro: sorted_alloc_at)

lemma wf_dealloc: "wf_list l \<Longrightarrow> wf_list (fst (dealloc l p))"
  by (cases l) (auto simp: wf_list_def intro: sorted_dealloc_at)

lemma find_alloc:
  assumes "wf_list l"
  shows "find_item (fst (alloc l p sz)) q =
    (if q = p then Some (case find_item l p of None \<Rightarrow> \<lparr>ptr = p, bsize = sz, cnt = 1\<rparr>
                         | Some i \<Rightarrow> i\<lparr>bsize := sz, cnt := cnt i + 1\<rparr>)
     else find_item l q)"
proof -
  obtain items where l: "l = \<lparr>ptr = 0, bsize = 0, cnt = 0\<rparr> # items"
    and s: "sorted_wrt (\<lambda>i j. ptr i < ptr j) items" using assms by (rule wf_listE)
  show ?thesis using find_at_alloc_at [OF s, of q p sz]
    by (simp add: l)
qed

lemma find_dealloc:
  assumes "wf_list l"
  shows "find_item (fst (dealloc l p)) q =
    (if q = p then map_option (\<lambda>i. i\<lparr>cnt := cnt i - 1\<rparr>) (find_item l p) else find_item l q)"
proof -
  obtain items where l: "l = \<lparr>ptr = 0, bsize = 0, cnt = 0\<rparr> # items"
    and s: "sorted_wrt (\<lambda>i j. ptr i < ptr j) items" using assms by (rule wf_listE)
  show ?thesis using find_at_dealloc_at [OF s, of q p]
    by (simp add: l)
qed

lemma find_item_Some_iff:
  "wf_list l \<Longrightarrow> find_item l p = Some i \<longleftrightarrow> i \<in> set (tl l) \<and> ptr i = p"
  by (auto elim!: wf_listE simp: find_item_def find_at_Some_iff)

section \<open>The interface the tracer uses\<close>

text \<open>The bytes of the blocks whose counter is positive, summed over a lookup function.\<close>

definition live_sum :: "(64 word \<rightharpoonup> item) \<Rightarrow> 64 word" where
  "live_sum m = (\<Sum>p \<in> dom m. case m p of None \<Rightarrow> 0 | Some i \<Rightarrow> if 0 < cnt i then bsize i else 0)"

text \<open>
  A table of blocks: recording an allocation makes the block known with the new size and one
  more reference, recording a deallocation takes one reference away, and other blocks are left
  alone.
\<close>

locale block_table =
  fixes rec_alloc :: "'t \<Rightarrow> 64 word \<Rightarrow> 64 word \<Rightarrow> 't"
    and rec_dealloc :: "'t \<Rightarrow> 64 word \<Rightarrow> 't"
    and lookup :: "'t \<Rightarrow> 64 word \<Rightarrow> item option"
    and inv :: "'t \<Rightarrow> bool"
  assumes inv_alloc: "inv t \<Longrightarrow> inv (rec_alloc t p sz)"
    and inv_dealloc: "inv t \<Longrightarrow> inv (rec_dealloc t p)"
    and finite_dom: "inv t \<Longrightarrow> finite (dom (lookup t))"
    and lookup_alloc: "inv t \<Longrightarrow> lookup (rec_alloc t p sz) =
       (lookup t)(p \<mapsto> (case lookup t p of None \<Rightarrow> \<lparr>ptr = p, bsize = sz, cnt = 1\<rparr>
                        | Some i \<Rightarrow> i\<lparr>bsize := sz, cnt := cnt i + 1\<rparr>))"
    and lookup_dealloc: "inv t \<Longrightarrow> lookup (rec_dealloc t p) =
       (lookup t)(p := map_option (\<lambda>i. i\<lparr>cnt := cnt i - 1\<rparr>) (lookup t p))"
begin

lemma live_sum_upd:
  assumes "inv t"
  shows "live_sum ((lookup t)(p \<mapsto> i)) =
    live_sum (lookup t) - (case lookup t p of None \<Rightarrow> 0 | Some j \<Rightarrow> if 0 < cnt j then bsize j else 0)
    + (if 0 < cnt i then bsize i else 0)"
proof -
  let ?D = "dom (lookup t)"
  let ?f = "\<lambda>m q. case m q of None \<Rightarrow> 0 | Some i \<Rightarrow> if 0 < cnt i then bsize i else (0 :: 64 word)"
  have fin: "finite ?D" by (rule finite_dom [OF assms])
  have "live_sum ((lookup t)(p \<mapsto> i)) =
      ?f ((lookup t)(p \<mapsto> i)) p + (\<Sum>q \<in> ?D - {p}. ?f ((lookup t)(p \<mapsto> i)) q)"
    using fin by (simp add: live_sum_def sum.insert_remove)
  also have "(\<Sum>q \<in> ?D - {p}. ?f ((lookup t)(p \<mapsto> i)) q) = (\<Sum>q \<in> ?D - {p}. ?f (lookup t) q)"
    by (rule sum.cong) auto
  also have "\<dots> = live_sum (lookup t) - ?f (lookup t) p"
  proof (cases "p \<in> ?D")
    case True
    then show ?thesis using sum.remove [OF fin, of p "?f (lookup t)"] by (simp add: live_sum_def)
  next
    case False
    then show ?thesis by (simp add: live_sum_def domIff)
  qed
  finally show ?thesis by (rule trans) simp
qed

lemma live_alloc:
  assumes "inv t" and "\<And>i. lookup t p = Some i \<Longrightarrow> cnt i = 0"
  shows "live_sum (lookup (rec_alloc t p sz)) = live_sum (lookup t) + sz"
  using live_sum_upd [OF assms(1)] assms(2)
  by (auto simp: lookup_alloc [OF assms(1)] split: option.splits)

lemma live_dealloc:
  assumes "inv t" and "lookup t p = Some i" and "cnt i = 1"
  shows "live_sum (lookup (rec_dealloc t p)) = live_sum (lookup t) - bsize i"
  using live_sum_upd [OF assms(1)] assms(2,3) by (simp add: lookup_dealloc [OF assms(1)])

text \<open>Counters stay 0 or 1 as long as only live blocks are given back and only blocks that are
  not live are handed out.\<close>

lemma counters_alloc:
  assumes "inv t" and "\<And>q i. lookup t q = Some i \<Longrightarrow> cnt i = 0 \<or> cnt i = 1"
    and "\<And>i. lookup t p = Some i \<Longrightarrow> cnt i = 0" and "lookup (rec_alloc t p sz) q = Some j"
  shows "cnt j = 0 \<or> cnt j = 1"
  using assms by (auto simp: lookup_alloc split: if_splits option.splits)

lemma counters_dealloc:
  assumes "inv t" and "\<And>q i. lookup t q = Some i \<Longrightarrow> cnt i = 0 \<or> cnt i = 1"
    and "lookup t p = Some i" and "cnt i = 1" and "lookup (rec_dealloc t p) q = Some j"
  shows "cnt j = 0 \<or> cnt j = 1"
  using assms by (auto simp: lookup_dealloc split: if_splits)

end

lemma finite_dom_find: "wf_list l \<Longrightarrow> finite (dom (find_item l))"
proof -
  assume "wf_list l"
  then have "dom (find_item l) = ptr ` set (tl l)" by (auto simp: find_item_Some_iff)
  then show ?thesis by simp
qed

interpretation blocks: block_table "\<lambda>l p sz. fst (alloc l p sz)" "\<lambda>l p. fst (dealloc l p)" find_item wf_list
  by unfold_locales (auto simp: wf_alloc wf_dealloc finite_dom_find find_alloc find_dealloc fun_eq_iff)

text \<open>The same sum over the items of the list.\<close>

definition live_bytes :: "memlist \<Rightarrow> 64 word" where
  "live_bytes l = sum_list (map bsize (filter (\<lambda>i. 0 < cnt i) (tl l)))"

lemma live_bytes_live_sum: "wf_list l \<Longrightarrow> live_bytes l = live_sum (find_item l)"
proof -
  assume wf: "wf_list l"
  let ?f = "\<lambda>i. if 0 < cnt i then bsize i else (0 :: 64 word)"
  obtain items where l: "l = \<lparr>ptr = 0, bsize = 0, cnt = 0\<rparr> # items"
    and s: "sorted_wrt (\<lambda>i j. ptr i < ptr j) items" using wf by (rule wf_listE)
  have inj: "inj_on ptr (set items)" and dist: "distinct items"
    using s by (auto simp: sorted_ptr strict_sorted_iff distinct_map)
  have "dom (find_item l) = ptr ` set items"
    by (auto simp: l dom_def find_at_Some_iff [OF s])
  then have "live_sum (find_item l) =
      (\<Sum>i \<in> set items. case find_item l (ptr i) of None \<Rightarrow> 0 | Some j \<Rightarrow> ?f j)"
    by (simp add: live_sum_def sum.reindex [OF inj])
  also have "\<dots> = (\<Sum>i \<in> set items. ?f i)"
  proof (rule sum.cong)
    fix i assume "i \<in> set items"
    then have "find_item l (ptr i) = Some i" by (simp add: l find_at_Some_iff [OF s])
    then show "(case find_item l (ptr i) of None \<Rightarrow> 0 | Some j \<Rightarrow> ?f j) = ?f i" by simp
  qed simp
  also have "\<dots> = sum_list (map ?f items)" using dist by (simp add: sum_list_distinct_conv_sum_set)
  also have "\<dots> = live_bytes l" unfolding live_bytes_def l by (induction items) auto
  finally show ?thesis by simp
qed

text \<open>C36. The sorted list behaves as a finite map from addresses to blocks: \<open>find\<close>, which
  stops early, sees exactly what \<open>alloc\<close> and \<open>dealloc\<close> recorded; both keep the list
  sorted without duplicates, and \<open>dealloc\<close>'s unordered search changes the same block.\<close>

theorem memlist_is_a_map:
  assumes "wf_list l"
  shows "wf_list (fst (alloc l p sz)) \<and> wf_list (fst (dealloc l p))
    \<and> find_item (fst (alloc l p sz)) =
        (find_item l)(p \<mapsto> (case find_item l p of None \<Rightarrow> \<lparr>ptr = p, bsize = sz, cnt = 1\<rparr>
                             | Some i \<Rightarrow> i\<lparr>bsize := sz, cnt := cnt i + 1\<rparr>))
    \<and> snd (alloc l p sz) = find_item (fst (alloc l p sz)) p
    \<and> find_item (fst (dealloc l p)) =
        (find_item l)(p := map_option (\<lambda>i. i\<lparr>cnt := cnt i - 1\<rparr>) (find_item l p))
    \<and> snd (dealloc l p) = find_item (fst (dealloc l p)) p"
proof -
  obtain items where l: "l = \<lparr>ptr = 0, bsize = 0, cnt = 0\<rparr> # items"
    and s: "sorted_wrt (\<lambda>i j. ptr i < ptr j) items" using assms by (rule wf_listE)
  have "Some (snd (alloc_at p sz items)) = find_at p (fst (alloc_at p sz items))" for items
    by (induction items) (auto simp: Let_def split_def)
  then have "snd (alloc l p sz) = find_item (fst (alloc l p sz)) p" by (simp add: l)
  moreover have "snd (dealloc l p) = find_item (fst (dealloc l p)) p"
    using s sorted_dealloc_at [OF s, of p] by (simp add: l snd_dealloc_at)
  ultimately show ?thesis
    using blocks.lookup_alloc [OF assms] blocks.lookup_dealloc [OF assms]
      wf_alloc [OF assms] wf_dealloc [OF assms] by simp
qed

theorem memlist_is_a_map_witness:
  "find_item (fst (alloc (fst (alloc new_list 32 8)) 16 4)) 16 = Some \<lparr>ptr = 16, bsize = 4, cnt = 1\<rparr>
   \<and> find_item (fst (dealloc (fst (alloc new_list 32 8)) 32)) 32 = Some \<lparr>ptr = 32, bsize = 8, cnt = 0\<rparr>"
proof -
  note m = memlist_is_a_map [OF wf_new_list]
  have wf: "wf_list (fst (alloc new_list 32 8))"
    and one: "find_item (fst (alloc new_list 32 8)) = [32 \<mapsto> \<lparr>ptr = 32, bsize = 8, cnt = 1\<rparr>]"
    using m [of 32 8] by (auto simp: fun_eq_iff)
  show ?thesis using memlist_is_a_map [OF wf, of 16 4] memlist_is_a_map [OF wf, of 32] by (simp add: one)
qed

end
