(* ===== verification/Mem_Trace.thy ===== *)
theory Mem_Trace
  imports Mem_List
begin

text \<open>
  The three memory tracers of \<open>linklab/handout/part1\<close>, \<open>part2\<close> and \<open>part3\<close>
  (\<open>memtrace.c\<close>): replacements of \<open>malloc\<close>, \<open>calloc\<close>, \<open>realloc\<close> and \<open>free\<close>
  that log every call, keep statistics and, from part 2 on, remember the blocks.

  What the C library's allocator returns is an argument of each call (\<open>res\<close>), and so is
  whether \<open>dlsym\<close> resolves a symbol (\<open>dl\<close>). The counters are \<open>unsigned long\<close>s and
  wrap around. The lines written by \<open>mlog\<close> are the entries of \<open>tlog\<close>, in order.
\<close>

section \<open>State\<close>

datatype symbol = SymMalloc | SymFree | SymCalloc | SymRealloc

datatype log_entry =
    LogStart
  | LogMalloc "64 word" "64 word"
  | LogCalloc "64 word" "64 word" "64 word"
  | LogRealloc "64 word" "64 word" "64 word"
  | LogFree "64 word"
  | LogStatistics "64 word" "64 word" "64 word"
  | LogNonfreedStart
  | LogBlock "64 word" "64 word" int
  | LogDoubleFree
  | LogIllFree
  | LogStop

record tracer =
  resolved :: "symbol set"
  n_malloc :: "64 word"
  n_calloc :: "64 word"
  n_realloc :: "64 word"
  n_allocb :: "64 word"
  n_freeb :: "64 word"
  blist :: memlist
  tlog :: "log_entry list"

text \<open>A call ends normally, by \<open>exit(1)\<close>, or by following a null pointer.\<close>

datatype stop = Exit1 | Segv

definition mlog :: "log_entry \<Rightarrow> tracer \<Rightarrow> tracer" where
  "mlog e st = st\<lparr>tlog := tlog st @ [e]\<rparr>"

text \<open>The lazy lookup at the head of every wrapper.\<close>

definition resolve :: "(symbol \<Rightarrow> bool) \<Rightarrow> symbol \<Rightarrow> tracer \<Rightarrow> stop + tracer" where
  "resolve dl sy st =
     (if sy \<in> resolved st then Inr st
      else if dl sy then Inr (st\<lparr>resolved := insert sy (resolved st)\<rparr>)
      else Inl Exit1)"

section \<open>Part 1: calls and statistics\<close>

definition malloc1 :: "(symbol \<Rightarrow> bool) \<Rightarrow> 64 word \<Rightarrow> 64 word \<Rightarrow> tracer \<Rightarrow> stop + tracer \<times> 64 word" where
  "malloc1 dl res sz st =
     (case resolve dl SymMalloc st of Inl e \<Rightarrow> Inl e
      | Inr st \<Rightarrow> Inr (mlog (LogMalloc sz res)
          (st\<lparr>n_malloc := n_malloc st + 1, n_allocb := n_allocb st + sz\<rparr>), res))"

definition calloc1 :: "(symbol \<Rightarrow> bool) \<Rightarrow> 64 word \<Rightarrow> 64 word \<Rightarrow> 64 word \<Rightarrow> tracer \<Rightarrow> stop + tracer \<times> 64 word" where
  "calloc1 dl res nmemb sz st =
     (case resolve dl SymCalloc st of Inl e \<Rightarrow> Inl e
      | Inr st \<Rightarrow> Inr (mlog (LogCalloc nmemb sz res)
          (st\<lparr>n_calloc := n_calloc st + 1, n_allocb := n_allocb st + nmemb * sz\<rparr>), res))"

definition realloc1 :: "(symbol \<Rightarrow> bool) \<Rightarrow> 64 word \<Rightarrow> 64 word \<Rightarrow> 64 word \<Rightarrow> tracer \<Rightarrow> stop + tracer \<times> 64 word" where
  "realloc1 dl res p sz st =
     (case resolve dl SymRealloc st of Inl e \<Rightarrow> Inl e
      | Inr st \<Rightarrow> Inr (mlog (LogRealloc p sz res)
          (st\<lparr>n_realloc := n_realloc st + 1, n_allocb := n_allocb st + sz\<rparr>), res))"

definition free1 :: "(symbol \<Rightarrow> bool) \<Rightarrow> 64 word \<Rightarrow> tracer \<Rightarrow> stop + tracer" where
  "free1 dl p st =
     (case resolve dl SymFree st of Inl e \<Rightarrow> Inl e | Inr st \<Rightarrow> Inr (mlog (LogFree p) st))"

text \<open>The constructor \<open>init\<close> is the same in all three parts; \<open>new_list\<close> resolves two
  symbols of its own.\<close>

definition tracer_init :: "(symbol \<Rightarrow> bool) \<Rightarrow> stop + tracer" where
  "tracer_init dl =
     (if dl SymCalloc \<and> dl SymFree
      then Inr (mlog LogStart \<lparr>resolved = {}, n_malloc = 0, n_calloc = 0, n_realloc = 0,
             n_allocb = 0, n_freeb = 0, blist = new_list, tlog = []\<rparr>)
      else Inl Exit1)"

text \<open>The destructor \<open>fini\<close> also frees the list; the second component is the nodes it
  frees, in order. The pointer \<open>list\<close> is left dangling.\<close>

definition statistics :: "tracer \<Rightarrow> tracer" where
  "statistics st =
     (let n = n_malloc st + n_calloc st + n_realloc st;
          avg = (if n \<noteq> 0 then n_allocb st div n else 0)
      in mlog (LogStatistics (n_allocb st) avg (n_freeb st)) st)"

definition fini1 :: "tracer \<Rightarrow> tracer \<times> item list" where
  "fini1 st = (mlog LogStop (statistics st), free_list (blist st))"

section \<open>Part 2: the block list\<close>

definition malloc2 :: "(symbol \<Rightarrow> bool) \<Rightarrow> 64 word \<Rightarrow> 64 word \<Rightarrow> tracer \<Rightarrow> stop + tracer \<times> 64 word" where
  "malloc2 dl res sz st =
     (case resolve dl SymMalloc st of Inl e \<Rightarrow> Inl e
      | Inr st \<Rightarrow> Inr (mlog (LogMalloc sz res)
          (st\<lparr>n_malloc := n_malloc st + 1, n_allocb := n_allocb st + sz,
              blist := fst (alloc (blist st) res sz)\<rparr>), res))"

definition calloc2 :: "(symbol \<Rightarrow> bool) \<Rightarrow> 64 word \<Rightarrow> 64 word \<Rightarrow> 64 word \<Rightarrow> tracer \<Rightarrow> stop + tracer \<times> 64 word" where
  "calloc2 dl res nmemb sz st =
     (case resolve dl SymCalloc st of Inl e \<Rightarrow> Inl e
      | Inr st \<Rightarrow> Inr (mlog (LogCalloc nmemb sz res)
          (st\<lparr>n_calloc := n_calloc st + 1, n_allocb := n_allocb st + nmemb * sz,
              blist := fst (alloc (blist st) res (nmemb * sz))\<rparr>), res))"

text \<open>\<open>find(list, ptr)->size\<close> is followed without a test.\<close>

definition realloc2 :: "(symbol \<Rightarrow> bool) \<Rightarrow> 64 word \<Rightarrow> 64 word \<Rightarrow> 64 word \<Rightarrow> tracer \<Rightarrow> stop + tracer \<times> 64 word" where
  "realloc2 dl res p sz st =
     (case resolve dl SymRealloc st of Inl e \<Rightarrow> Inl e
      | Inr st \<Rightarrow>
          let st = mlog (LogRealloc p sz res)
                (st\<lparr>n_realloc := n_realloc st + 1, n_allocb := n_allocb st + sz\<rparr>) in
          (case find_item (blist st) p of None \<Rightarrow> Inl Segv
           | Some i \<Rightarrow> Inr (st\<lparr>n_freeb := n_freeb st + bsize i,
               blist := fst (alloc (fst (dealloc (blist st) p)) res sz)\<rparr>, res)))"

definition free2 :: "(symbol \<Rightarrow> bool) \<Rightarrow> 64 word \<Rightarrow> tracer \<Rightarrow> stop + tracer" where
  "free2 dl p st =
     (case resolve dl SymFree st of Inl e \<Rightarrow> Inl e
      | Inr st \<Rightarrow>
          let st = mlog (LogFree p) st in
          (case find_item (blist st) p of None \<Rightarrow> Inl Segv
           | Some i \<Rightarrow> Inr (st\<lparr>n_freeb := n_freeb st + bsize i, blist := fst (dealloc (blist st) p)\<rparr>)))"

text \<open>The report of \<open>fini\<close>: the loop over the whole list, dummy included, with the flag
  \<open>log_check\<close> that prints the heading once.\<close>

fun report_blocks :: "bool \<Rightarrow> item list \<Rightarrow> tracer \<Rightarrow> tracer" where
  "report_blocks log_check [] st = st"
| "report_blocks log_check (cur # rest) st =
     (if cnt cur \<noteq> 0
      then let st = (if log_check then mlog LogNonfreedStart st else st)
           in report_blocks False rest (mlog (LogBlock (ptr cur) (bsize cur) (cnt cur)) st)
      else report_blocks log_check rest st)"

definition fini2 :: "tracer \<Rightarrow> tracer \<times> item list" where
  "fini2 st = (mlog LogStop (report_blocks True (blist st) (statistics st)), free_list (blist st))"

section \<open>Part 3: illegal and double frees\<close>

text \<open>\<open>malloc\<close>, \<open>calloc\<close> and \<open>fini\<close> have the text of part 2. \<open>realloc\<close> calls
  itself with a null pointer for a block it does not know or that is not live; the C library
  function is the argument \<open>reallocp\<close>. The model is \<open>None\<close> where the recursion does
  not end.\<close>

partial_function (option) realloc3 ::
  "(symbol \<Rightarrow> bool) \<Rightarrow> (64 word \<Rightarrow> 64 word \<Rightarrow> 64 word) \<Rightarrow> 64 word \<Rightarrow> 64 word \<Rightarrow> tracer
     \<Rightarrow> (stop + tracer \<times> 64 word) option" where
  "realloc3 dl reallocp p sz st =
     (case resolve dl SymRealloc st of Inl e \<Rightarrow> Some (Inl e)
      | Inr st1 \<Rightarrow>
          (let st2 = st1\<lparr>n_realloc := n_realloc st1 + 1, n_allocb := n_allocb st1 + sz\<rparr> in
           case find_item (blist st2) p of
             None \<Rightarrow> realloc3 dl reallocp 0 sz (mlog LogIllFree st2)
           | Some prev \<Rightarrow>
               if cnt prev \<le> 0 then realloc3 dl reallocp 0 sz (mlog LogDoubleFree st2)
               else (let new_ptr = reallocp p sz; st3 = mlog (LogRealloc p sz new_ptr) st2 in
                     Some (Inr (st3\<lparr>n_freeb := n_freeb st3 + bsize prev,
                       blist := fst (alloc (fst (dealloc (blist st3) p)) new_ptr sz)\<rparr>, new_ptr)))))"

declare realloc3.simps [code]

definition free3 :: "(symbol \<Rightarrow> bool) \<Rightarrow> 64 word \<Rightarrow> tracer \<Rightarrow> stop + tracer" where
  "free3 dl p st =
     (case resolve dl SymFree st of Inl e \<Rightarrow> Inl e
      | Inr st \<Rightarrow>
          let st = mlog (LogFree p) st in
          (case find_item (blist st) p of
             None \<Rightarrow> Inr (mlog LogIllFree st)
           | Some cur \<Rightarrow>
               if p = 0 then Inr (mlog LogIllFree st)
               else if cnt cur \<le> 0 then Inr (mlog LogDoubleFree st)
               else Inr (st\<lparr>n_freeb := n_freeb st + bsize cur, blist := fst (dealloc (blist st) p)\<rparr>)))"

section \<open>Runs of the part 3 tracer\<close>

datatype call =
    CMalloc "64 word" "64 word"
  | CCalloc "64 word" "64 word" "64 word"
  | CRealloc "64 word" "64 word" "64 word"
  | CFree "64 word"

text \<open>The first argument of an allocating call is what the library returns.\<close>

fun call3 :: "(symbol \<Rightarrow> bool) \<Rightarrow> call \<Rightarrow> tracer \<Rightarrow> (stop + tracer) option" where
  "call3 dl (CMalloc res sz) st = Some (map_sum id fst (malloc2 dl res sz st))"
| "call3 dl (CCalloc res nmemb sz) st = Some (map_sum id fst (calloc2 dl res nmemb sz st))"
| "call3 dl (CRealloc res p sz) st =
     map_option (map_sum id fst) (realloc3 dl (\<lambda>_ _. res) p sz st)"
| "call3 dl (CFree p) st = Some (free3 dl p st)"

fun run3 :: "(symbol \<Rightarrow> bool) \<Rightarrow> call list \<Rightarrow> tracer \<Rightarrow> (stop + tracer) option" where
  "run3 dl [] st = Some (Inr st)"
| "run3 dl (c # cs) st =
     (case call3 dl c st of None \<Rightarrow> None
      | Some (Inl e) \<Rightarrow> Some (Inl e)
      | Some (Inr st') \<Rightarrow> run3 dl cs st')"


section \<open>Lemmas on the steps\<close>

lemma mlog_simps [simp]:
  "resolved (mlog e st) = resolved st" "n_allocb (mlog e st) = n_allocb st"
  "n_freeb (mlog e st) = n_freeb st" "blist (mlog e st) = blist st" "tlog (mlog e st) = tlog st @ [e]"
  "n_malloc (mlog e st) = n_malloc st" "n_calloc (mlog e st) = n_calloc st"
  "n_realloc (mlog e st) = n_realloc st"
  by (simp_all add: mlog_def)

lemma resolve_ok:
  "sy \<in> resolved st \<or> dl sy \<Longrightarrow> resolve dl sy st = Inr (st\<lparr>resolved := insert sy (resolved st)\<rparr>)"
  by (auto simp: resolve_def insert_absorb)

lemma resolve_cases:
  obtains (Found) "sy \<in> resolved st \<or> dl sy"
      "resolve dl sy st = Inr (st\<lparr>resolved := insert sy (resolved st)\<rparr>)"
  | (Missing) "sy \<notin> resolved st" "\<not> dl sy" "resolve dl sy st = Inl Exit1"
  using that resolve_ok [of sy st dl] by (cases "sy \<in> resolved st \<or> dl sy") (simp_all add: resolve_def)

text \<open>A block the tracer refuses to give back: unknown, or with no reference left.\<close>

definition not_live :: "memlist \<Rightarrow> 64 word \<Rightarrow> bool" where
  "not_live l p \<longleftrightarrow> (case find_item l p of None \<Rightarrow> True | Some i \<Rightarrow> cnt i \<le> 0)"

lemma not_liveD: "not_live l p \<Longrightarrow> find_item l p = Some i \<Longrightarrow> cnt i \<le> 0"
  by (simp add: not_live_def)

lemma realloc3_live:
  assumes "SymRealloc \<in> resolved st \<or> dl SymRealloc" and "find_item (blist st) p = Some i" and "0 < cnt i"
  shows "realloc3 dl re p sz st =
    Some (Inr (st\<lparr>resolved := insert SymRealloc (resolved st), n_realloc := n_realloc st + 1,
        n_allocb := n_allocb st + sz, n_freeb := n_freeb st + bsize i,
        blist := fst (alloc (fst (dealloc (blist st) p)) (re p sz) sz),
        tlog := tlog st @ [LogRealloc p sz (re p sz)]\<rparr>, re p sz))"
proof -
  show ?thesis using assms(2,3)
    by (subst realloc3.simps) (simp add: resolve_ok [of SymRealloc st dl, OF assms(1)] Let_def mlog_def)
qed

lemma realloc3_returns:
  assumes ret: "realloc3 dl re p sz st = Some r"
  shows "(SymRealloc \<in> resolved st \<or> dl SymRealloc) \<longrightarrow> \<not> (not_live (blist st) p \<and> not_live (blist st) 0)"
proof (rule realloc3.raw_induct [where P = "\<lambda>dl re p sz st r.
    (SymRealloc \<in> resolved st \<or> dl SymRealloc) \<longrightarrow> \<not> (not_live (blist st) p \<and> not_live (blist st) 0)", OF _ ret])
  fix f dl re p sz st r
  assume IH: "\<And>dl re p sz st r. f dl re p sz st = Some r \<Longrightarrow>
       (SymRealloc \<in> resolved st \<or> dl SymRealloc) \<longrightarrow> \<not> (not_live (blist st) p \<and> not_live (blist st) 0)"
    and eq: "(case resolve dl SymRealloc st of Inl e \<Rightarrow> Some (Inl e)
      | Inr st1 \<Rightarrow>
          (let st2 = st1\<lparr>n_realloc := n_realloc st1 + 1, n_allocb := n_allocb st1 + sz\<rparr> in
           case find_item (blist st2) p of
             None \<Rightarrow> f dl re 0 sz (mlog LogIllFree st2)
           | Some prev \<Rightarrow>
               if cnt prev \<le> 0 then f dl re 0 sz (mlog LogDoubleFree st2)
               else (let new_ptr = re p sz; st3 = mlog (LogRealloc p sz new_ptr) st2 in
                     Some (Inr (st3\<lparr>n_freeb := n_freeb st3 + bsize prev,
                       blist := fst (alloc (fst (dealloc (blist st3) p)) new_ptr sz)\<rparr>, new_ptr))))) = Some r"
  show "(SymRealloc \<in> resolved st \<or> dl SymRealloc) \<longrightarrow> \<not> (not_live (blist st) p \<and> not_live (blist st) 0)"
  proof (intro impI notI)
    assume dl: "SymRealloc \<in> resolved st \<or> dl SymRealloc"
      and bad: "not_live (blist st) p \<and> not_live (blist st) 0"
    from eq resolve_ok [of SymRealloc st dl, OF dl] bad obtain st2 where "f dl re 0 sz st2 = Some r" "blist st2 = blist st"
      "SymRealloc \<in> resolved st2"
      by (fastforce simp: Let_def not_live_def split: option.splits if_splits)
    with IH [of dl re 0 sz st2 r] bad show False by simp
  qed
qed

section \<open>Accounting\<close>

text \<open>Every counter is 0 or 1, and the bytes allocated less the bytes freed are those of the
  live blocks (as \<open>unsigned long\<close>s).\<close>

definition tracer_inv :: "tracer \<Rightarrow> bool" where
  "tracer_inv st \<longleftrightarrow> wf_list (blist st)
     \<and> (\<forall>p i. find_item (blist st) p = Some i \<longrightarrow> cnt i = 0 \<or> cnt i = 1)
     \<and> n_allocb st - n_freeb st = live_sum (find_item (blist st))"

text \<open>What the C library guarantees of the blocks it hands out: none of them is live. A
  \<open>realloc\<close> is for a live block, and its result is that block or one that is not live.
  Nothing is asked of \<open>free\<close>.\<close>

fun library_ok :: "memlist \<Rightarrow> call \<Rightarrow> bool" where
  "library_ok l (CMalloc res sz) = not_live l res"
| "library_ok l (CCalloc res nmemb sz) = not_live l res"
| "library_ok l (CRealloc res p sz) = (\<not> not_live l p \<and> (res = p \<or> not_live l res))"
| "library_ok l (CFree p) = True"

fun library_ok_run :: "(symbol \<Rightarrow> bool) \<Rightarrow> tracer \<Rightarrow> call list \<Rightarrow> bool" where
  "library_ok_run dl st [] = True"
| "library_ok_run dl st (c # cs) = (library_ok (blist st) c \<and>
     (case call3 dl c st of Some (Inr st') \<Rightarrow> library_ok_run dl st' cs | _ \<Rightarrow> True))"

lemma tracer_inv_alloc:
  assumes "tracer_inv st" and "not_live (blist st) p"
    and "n_allocb st' - n_freeb st' = n_allocb st - n_freeb st + sz"
    and "blist st' = fst (alloc (blist st) p sz)"
  shows "tracer_inv st'"
proof -
  have wf: "wf_list (blist st)" and c: "\<And>q i. find_item (blist st) q = Some i \<Longrightarrow> cnt i = 0 \<or> cnt i = 1"
    using assms(1) by (auto simp: tracer_inv_def)
  have z: "cnt i = 0" if "find_item (blist st) p = Some i" for i
    using c [OF that] not_liveD [OF assms(2) that] by auto
  show ?thesis using assms(1,3) blocks.live_alloc [OF wf z] blocks.counters_alloc [OF wf c z]
      wf_alloc [OF wf] by (auto simp: tracer_inv_def assms(4))
qed

lemma tracer_inv_dealloc:
  assumes "tracer_inv st" and "find_item (blist st) p = Some i" and "0 < cnt i"
    and "n_allocb st' - n_freeb st' = n_allocb st - n_freeb st - bsize i"
    and "blist st' = fst (dealloc (blist st) p)"
  shows "tracer_inv st'"
proof -
  have wf: "wf_list (blist st)" and c: "\<And>q i. find_item (blist st) q = Some i \<Longrightarrow> cnt i = 0 \<or> cnt i = 1"
    using assms(1) by (auto simp: tracer_inv_def)
  have one: "cnt i = 1" using c [OF assms(2)] assms(3) by auto
  show ?thesis using assms(1,4) blocks.live_dealloc [OF wf assms(2) one]
      blocks.counters_dealloc [OF wf c assms(2) one] wf_dealloc [OF wf]
    by (auto simp: tracer_inv_def assms(5))
qed

lemma tracer_inv_cong:
  "blist st' = blist st \<Longrightarrow> n_allocb st' = n_allocb st \<Longrightarrow> n_freeb st' = n_freeb st \<Longrightarrow>
   tracer_inv st' = tracer_inv st"
  by (simp add: tracer_inv_def)

lemma call3_inv_alloc:
  assumes "tracer_inv st" and "not_live (blist st) res"
  shows "malloc2 dl res sz st = Inr (st', r) \<Longrightarrow> tracer_inv st'"
    and "calloc2 dl res nmemb sz st = Inr (st', r) \<Longrightarrow> tracer_inv st'"
proof -
  show "malloc2 dl res sz st = Inr (st', r) \<Longrightarrow> tracer_inv st'"
    by (rule tracer_inv_alloc [OF assms, of st' sz])
      (cases rule: resolve_cases [of SymMalloc st dl]; auto simp: malloc2_def)+
  show "calloc2 dl res nmemb sz st = Inr (st', r) \<Longrightarrow> tracer_inv st'"
    by (rule tracer_inv_alloc [OF assms, of st' "nmemb * sz"])
      (cases rule: resolve_cases [of SymCalloc st dl]; auto simp: calloc2_def)+
qed

lemma call3_inv_free:
  assumes inv: "tracer_inv st" and eq: "free3 dl p st = Inr st'"
  shows "tracer_inv st'"
proof (cases rule: resolve_cases [of SymFree st dl])
  case Found
  show ?thesis
  proof (cases "p = 0 \<or> not_live (blist st) p")
    case True
    then have "blist st' = blist st" "n_allocb st' = n_allocb st" "n_freeb st' = n_freeb st"
      using eq Found by (auto simp: free3_def not_live_def Let_def split: option.splits if_splits)
    then show ?thesis using inv tracer_inv_cong by blast
  next
    case False
    then obtain i where i: "find_item (blist st) p = Some i" "0 < cnt i"
      by (auto simp: not_live_def split: option.splits)
    show ?thesis
      by (rule tracer_inv_dealloc [OF inv i]) (use eq Found False i in \<open>auto simp: free3_def Let_def\<close>)
  qed
qed (use eq in \<open>simp add: free3_def\<close>)

lemma call3_inv_realloc:
  assumes inv: "tracer_inv st" and res: "\<not> not_live (blist st) p" "res = p \<or> not_live (blist st) res"
    and eq: "realloc3 dl (\<lambda>_ _. res) p sz st = Some (Inr (st', r))"
    and dl: "SymRealloc \<in> resolved st \<or> dl SymRealloc"
  shows "tracer_inv st'"
proof -
  obtain i where i: "find_item (blist st) p = Some i" "0 < cnt i"
    using res(1) by (auto simp: not_live_def split: option.splits)
  have wf: "wf_list (blist st)" and one: "cnt i = 1" using inv i by (force simp: tracer_inv_def)+
  define mid where "mid = st\<lparr>n_freeb := n_freeb st + bsize i, blist := fst (dealloc (blist st) p)\<rparr>"
  have mid: "tracer_inv mid"
    by (rule tracer_inv_dealloc [OF inv i]) (simp_all add: mid_def)
  have free: "not_live (blist mid) res"
    using res(2) i one find_dealloc [OF wf, of p res]
    by (auto simp: mid_def not_live_def)
  show ?thesis
    by (rule tracer_inv_alloc [OF mid free, of st' sz])
      (use eq realloc3_live [of st dl p i "\<lambda>_ _. res" sz, OF dl i] in \<open>auto simp: mid_def\<close>)
qed

lemma call3_returns_inv:
  assumes "tracer_inv st" and "library_ok (blist st) c"
  shows "\<exists>r. call3 dl c st = Some r \<and> (\<forall>st'. r = Inr st' \<longrightarrow> tracer_inv st')"
proof (cases c)
  case (CMalloc res sz)
  then show ?thesis using assms call3_inv_alloc(1) [OF assms(1), of res dl sz]
    by (cases "malloc2 dl res sz st") auto
next
  case (CCalloc res nmemb sz)
  then show ?thesis using assms call3_inv_alloc(2) [OF assms(1), of res dl nmemb sz]
    by (cases "calloc2 dl res nmemb sz st") auto
next
  case (CFree p)
  then show ?thesis using call3_inv_free [OF assms(1), of dl p] by auto
next
  case (CRealloc res p sz)
  then have ok: "\<not> not_live (blist st) p" "res = p \<or> not_live (blist st) res"
    using assms(2) by simp_all
  then obtain i where i: "find_item (blist st) p = Some i" "0 < cnt i"
    by (auto simp: not_live_def split: option.splits)
  show ?thesis
  proof (cases rule: resolve_cases [of SymRealloc st dl])
    case Found
    then show ?thesis using call3_inv_realloc [OF assms(1) ok, of dl sz]
        realloc3_live [of st dl p i "\<lambda>_ _. res" sz, OF Found(1) i]
      by (auto simp: CRealloc)
  next
    case Missing
    then have "realloc3 dl (\<lambda>_ _. res) p sz st = Some (Inl Exit1)"
      by (subst realloc3.simps) simp
    then show ?thesis by (simp add: CRealloc)
  qed
qed

lemma tracer_inv_init: "tracer_init dl = Inr st \<Longrightarrow> tracer_inv st"
  by (auto simp: tracer_init_def tracer_inv_def live_sum_def split: if_splits)

section \<open>Properties\<close>

text \<open>C12. Accounting of the part 3 tracer. The runs considered start with \<open>init\<close>, call \<open>realloc\<close> only for blocks that are live, and get
  from the library only addresses that are not live (\<open>library_ok_run\<close>; a null pointer counts as an address, so that at most one
  request may fail before the null pointer is freed). The client may free what it likes (null, unknown, double). Such a run
  returns, it ends only by a failed symbol lookup or normally, and then the bytes allocated less the bytes freed are the bytes
  of the blocks still referenced.\<close>

theorem tracer_accounts_for_live_blocks:
  assumes "tracer_init dl = Inr st" and "library_ok_run dl st cs"
  shows "run3 dl cs st = Some (Inl Exit1)
    \<or> (\<exists>st'. run3 dl cs st = Some (Inr st') \<and> wf_list (blist st')
        \<and> n_allocb st' - n_freeb st' = live_bytes (blist st'))"
proof -
  have exit: "e = Exit1" if c3: "call3 dl c st = Some (Inl e)" and ok: "library_ok (blist st) c" for c e st
  proof (cases c)
    case (CMalloc res sz)
    then show ?thesis using c3 by (cases rule: resolve_cases [of SymMalloc st dl]) (auto simp: malloc2_def)
  next
    case (CCalloc res n sz)
    then show ?thesis using c3 by (cases rule: resolve_cases [of SymCalloc st dl]) (auto simp: calloc2_def)
  next
    case (CFree p)
    then show ?thesis using c3
      by (cases rule: resolve_cases [of SymFree st dl])
        (auto simp: free3_def Let_def split: option.splits if_splits)
  next
    case (CRealloc res p sz)
    then obtain i where i: "find_item (blist st) p = Some i" "0 < cnt i"
      using ok by (auto simp: not_live_def split: option.splits)
    show ?thesis
    proof (cases rule: resolve_cases [of SymRealloc st dl])
      case Found
      show ?thesis using c3 realloc3_live [of st dl p i "\<lambda>_ _. res" sz, OF Found(1) i]
        by (simp add: CRealloc)
    next
      case Missing
      then have "realloc3 dl (\<lambda>_ _. res) p sz st = Some (Inl Exit1)"
        by (subst realloc3.simps) simp
      then show ?thesis using c3 by (simp add: CRealloc)
    qed
  qed
  have "run3 dl cs st = Some (Inl Exit1) \<or> (\<exists>st'. run3 dl cs st = Some (Inr st') \<and> tracer_inv st')"
    if "tracer_inv st" "library_ok_run dl st cs" for st
    using that
  proof (induction cs arbitrary: st)
    case (Cons c cs)
    then obtain r where "call3 dl c st = Some r" "\<And>st'. r = Inr st' \<Longrightarrow> tracer_inv st'"
      using call3_returns_inv [of st c dl] by auto
    with Cons exit [of c st] show ?case by (cases r) auto
  qed simp
  from this [OF tracer_inv_init [OF assms(1)] assms(2)] show ?thesis
    by (auto simp: tracer_inv_def live_bytes_live_sum)
qed

theorem tracer_accounts_for_live_blocks_witness:
  "\<exists>st cs. tracer_init (\<lambda>_. True) = Inr st \<and> length cs = 5 \<and>
     (\<exists>st'. run3 (\<lambda>_. True) cs st = Some (Inr st') \<and> live_bytes (blist st') = 24
        \<and> n_allocb st' - n_freeb st' = 24)"
proof -
  let ?cs = "[CMalloc 4096 8, CRealloc 8192 4096 24, CFree 4096, CFree 0, CFree 77]"
  obtain st where st: "tracer_init (\<lambda>_. True) = Inr st" and b: "blist st = new_list"
    and n: "n_allocb st = 0" "n_freeb st = 0" "resolved st = {}" by (simp add: tracer_init_def)
  let ?st1 = "mlog (LogMalloc 8 4096) (st\<lparr>resolved := {SymMalloc}, n_malloc := n_malloc st + 1,
      n_allocb := 8, blist := fst (alloc new_list 4096 8)\<rparr>)"
  have m: "malloc2 (\<lambda>_. True) 4096 8 st = Inr (?st1, 4096)"
    by (simp add: malloc2_def resolve_ok b n)
  have i: "find_item (blist ?st1) 4096 = Some \<lparr>ptr = 4096, bsize = 8, cnt = 1\<rparr>"
    "find_item (blist ?st1) 8192 = None" by (simp_all add: find_alloc)
  have r: "realloc3 (\<lambda>_. True) (\<lambda>_ _. 8192) 4096 24 ?st1 =
    Some (Inr (?st1\<lparr>resolved := insert SymRealloc (resolved ?st1), n_realloc := n_realloc ?st1 + 1,
        n_allocb := n_allocb ?st1 + 24, n_freeb := n_freeb ?st1 + 8,
        blist := fst (alloc (fst (dealloc (blist ?st1) 4096)) 8192 24),
        tlog := tlog ?st1 @ [LogRealloc 4096 24 8192]\<rparr>, 8192))"
    by (subst realloc3_live [OF _ i(1)]) simp_all
  have ok: "library_ok_run (\<lambda>_. True) st ?cs"
    using i by (simp add: m r b not_live_def free3_def resolve_ok Let_def find_alloc find_dealloc
      wf_alloc wf_dealloc)
  have run: "\<exists>st'. run3 (\<lambda>_. True) ?cs st = Some (Inr st') \<and> n_allocb st' - n_freeb st' = 24"
    by (simp add: m r b n free3_def resolve_ok Let_def find_alloc find_dealloc wf_alloc wf_dealloc)
  have "\<exists>st'. run3 (\<lambda>_. True) ?cs st = Some (Inr st') \<and> live_bytes (blist st') = 24
        \<and> n_allocb st' - n_freeb st' = 24"
    using tracer_accounts_for_live_blocks [OF st ok] run by auto
  then show ?thesis using st by (intro exI [of _ st] exI [of _ ?cs]) simp
qed

text \<open>\<open>realloc\<close> of part 3 never returns for a block that is not live while the
  null pointer is not a live block either: \<open>realloc(NULL, size)\<close>, which C specifies to
  behave as \<open>malloc\<close>, recurses for ever, logging one more illegal free in each round.\<close>

theorem realloc3_null_never_returns:
  assumes "SymRealloc \<in> resolved st \<or> dl SymRealloc" and "not_live (blist st) p" and "not_live (blist st) 0"
  shows "realloc3 dl re p sz st = None"
  using assms realloc3_returns [of dl re p sz st] by (cases "realloc3 dl re p sz st") auto

theorem realloc3_null_never_returns_witness:
  "\<exists>st. tracer_init (\<lambda>_. True) = Inr st \<and> realloc3 (\<lambda>_. True) (\<lambda>_ _. 4096) 0 16 st = None"
proof -
  obtain st where st: "tracer_init (\<lambda>_. True) = Inr st" and b: "blist st = new_list"
    by (simp add: tracer_init_def)
  have "not_live (blist st) 0" by (simp add: not_live_def b)
  then show ?thesis using st realloc3_null_never_returns [of st "\<lambda>_. True" 0 "\<lambda>_ _. 4096" 16] by auto
qed

lemma free_list_all: "free_list l = l"
  by (induction l) simp_all

lemma report_blocks_log:
  "report_blocks hd_due l st = st\<lparr>tlog := tlog st
     @ (if hd_due \<and> (\<exists>i \<in> set l. cnt i \<noteq> 0) then [LogNonfreedStart] else [])
     @ map (\<lambda>i. LogBlock (ptr i) (bsize i) (cnt i)) (filter (\<lambda>i. cnt i \<noteq> 0) l)\<rparr>"
proof (induction l arbitrary: hd_due st)
  case (Cons i l)
  then show ?case by (cases hd_due) (auto simp: mlog_def Let_def)
qed (simp add: mlog_def)

text \<open>What \<open>fini\<close> of parts 2 and 3 reports: the statistics, then, under a heading
  that appears exactly when there is something to report, the blocks with a nonzero counter,
  in increasing address order and each once, then the end; every node of the list, the dummy
  included, is given back once.\<close>

theorem fini2_reports_nonfreed_blocks:
  assumes "wf_list (blist st)"
  shows "\<exists>blocks avg. tlog (fst (fini2 st)) =
      tlog st @ [LogStatistics (n_allocb st) avg (n_freeb st)]
        @ (if blocks = [] then [] else [LogNonfreedStart])
        @ map (\<lambda>i. LogBlock (ptr i) (bsize i) (cnt i)) blocks @ [LogStop]
    \<and> set blocks = {i. find_item (blist st) (ptr i) = Some i \<and> cnt i \<noteq> 0}
    \<and> sorted_wrt (<) (map ptr blocks)
    \<and> (let n = n_malloc st + n_calloc st + n_realloc st in
        avg = (if n = 0 then 0 else n_allocb st div n))
    \<and> snd (fini2 st) = blist st"
proof -
  obtain items where l: "blist st = \<lparr>ptr = 0, bsize = 0, cnt = 0\<rparr> # items"
    and s: "sorted_wrt (\<lambda>i j. ptr i < ptr j) items" using assms by (rule wf_listE)
  let ?bs = "filter (\<lambda>i. cnt i \<noteq> 0) items"
  let ?n = "n_malloc st + n_calloc st + n_realloc st"
  let ?avg = "if ?n \<noteq> 0 then n_allocb st div ?n else 0"
  have "(\<exists>i \<in> set (blist st). cnt i \<noteq> 0) \<longleftrightarrow> ?bs \<noteq> []" by (auto simp: l filter_empty_conv)
  then have log: "tlog (fst (fini2 st)) = tlog st @ [LogStatistics (n_allocb st) ?avg (n_freeb st)]
        @ (if ?bs = [] then [] else [LogNonfreedStart])
        @ map (\<lambda>i. LogBlock (ptr i) (bsize i) (cnt i)) ?bs @ [LogStop]"
    by (simp add: fini2_def statistics_def Let_def report_blocks_log mlog_def l)
  have set: "set ?bs = {i. find_item (blist st) (ptr i) = Some i \<and> cnt i \<noteq> 0}"
    by (auto simp: l find_at_Some_iff [OF s])
  have sorted: "sorted_wrt (<) (map ptr ?bs)"
    using sorted_wrt_filter [OF s] by (simp add: sorted_wrt_map)
  have free: "snd (fini2 st) = blist st"
    by (simp add: fini2_def free_list_all)
  show ?thesis
    by (rule exI [of _ ?bs], rule exI [of _ ?avg]) (use log set sorted free in \<open>simp add: Let_def\<close>)
qed

theorem fini2_reports_nonfreed_blocks_witness:
  "\<exists>st. blist st = fst (alloc new_list 4096 8)
    \<and> (\<exists>avg. tlog (fst (fini2 st)) = tlog st @
        [LogStatistics (n_allocb st) avg (n_freeb st), LogNonfreedStart, LogBlock 4096 8 1, LogStop])"
proof -
  let ?st = "\<lparr>resolved = {}, n_malloc = 1, n_calloc = 0, n_realloc = 0, n_allocb = 8, n_freeb = 0,
      blist = fst (alloc new_list 4096 8), tlog = []\<rparr>"
  have wf: "wf_list (blist ?st)" by (simp add: wf_alloc)
  let ?i = "\<lparr>ptr = 4096, bsize = 8, cnt = 1\<rparr>"
  obtain blocks avg where t: "tlog (fst (fini2 ?st)) =
      tlog ?st @ [LogStatistics (n_allocb ?st) avg (n_freeb ?st)]
        @ (if blocks = [] then [] else [LogNonfreedStart])
        @ map (\<lambda>i. LogBlock (ptr i) (bsize i) (cnt i)) blocks @ [LogStop]"
    and b: "set blocks = {i. find_item (blist ?st) (ptr i) = Some i \<and> cnt i \<noteq> 0}"
    and s: "sorted_wrt (<) (map ptr blocks)"
    using fini2_reports_nonfreed_blocks [OF wf] by blast
  obtain i where i: "i = ?i" by simp
  have p: "ptr i = 4096" "cnt i = 1" and f: "find_item (blist ?st) q = (if q = 4096 then Some i else None)" for q
    by (simp_all add: find_alloc i)
  have "x \<in> set blocks \<longleftrightarrow> x = i" for x unfolding b mem_Collect_eq f by (auto simp: p)
  then have "set blocks = {i}" by blast
  moreover have "distinct blocks" using s by (auto simp: strict_sorted_iff distinct_map)
  ultimately have "length blocks = Suc 0" using distinct_card [of blocks] by simp
  then obtain x where "blocks = [x]" unfolding length_Suc_conv by blast
  with \<open>set blocks = {i}\<close> have "blocks = [i]" by simp
  have "tlog (fst (fini2 ?st)) = tlog ?st @ [LogStatistics (n_allocb ?st) avg (n_freeb ?st),
      LogNonfreedStart, LogBlock 4096 8 1, LogStop]"
    unfolding t \<open>blocks = [i]\<close> i by (simp only: list.map list.distinct item.select_convs if_False append_Cons append_Nil
        not_Cons_self2)
  moreover have "blist ?st = fst (alloc new_list 4096 8)" by (rule tracer.select_convs)
  ultimately show ?thesis by blast
qed

text \<open>Part 2 looks the block up and follows the pointer without a test: \<open>free\<close> and
  \<open>realloc\<close> of a block the tracer has never seen, \<open>free(NULL)\<close> among them, crash.\<close>

theorem part2_unknown_block_crashes:
  assumes "find_item (blist st) p = None" and "dl SymFree" and "dl SymRealloc"
  shows "free2 dl p st = Inl Segv \<and> realloc2 dl res p sz st = Inl Segv"
  using assms by (simp add: free2_def realloc2_def resolve_ok Let_def)

theorem part2_unknown_block_crashes_witness:
  "\<exists>st. tracer_init (\<lambda>_. True) = Inr st \<and> free2 (\<lambda>_. True) 0 st = Inl Segv"
proof -
  obtain st where st: "tracer_init (\<lambda>_. True) = Inr st" and b: "blist st = new_list"
    by (simp add: tracer_init_def)
  then show ?thesis using part2_unknown_block_crashes [of st 0 "\<lambda>_. True"] by simp
qed

end
