(* ===== verification/Job_List.thy ===== *)
theory Job_List
  imports Lab_Prelude
begin

text \<open>
  The job list of the shell, \<open>shlab/tsh.c\<close>: an array of \<open>MAXJOBS\<close> slots and the
  counter \<open>nextjid\<close>. A slot with process id 0 is free. A pointer into the array is the
  index of the slot. Command lines come from \<open>fgets\<close> and are shorter than \<open>MAXLINE\<close>,
  so that \<open>strcpy\<close> copies all of them; what \<open>addjob\<close> prints is left out except for
  the message of a full table, which is its result 0.
\<close>

section \<open>State\<close>

datatype job_state = UNDEF | FG | BG | ST

record job =
  pid :: int
  jid :: int
  state :: job_state
  cmdline :: string

record job_list =
  jobs :: "job list"
  nextjid :: int

definition MAXJOBS :: nat where "MAXJOBS = 16"

text \<open>\<open>for (i = 0; i < MAXJOBS; i++) if (P(jobs[i])) return i;\<close>\<close>

fun first_index :: "('a \<Rightarrow> bool) \<Rightarrow> 'a list \<Rightarrow> nat option" where
  "first_index P [] = None"
| "first_index P (x # xs) = (if P x then Some 0 else map_option Suc (first_index P xs))"

section \<open>Operations\<close>

definition clearjob :: "job \<Rightarrow> job" where
  "clearjob j = j\<lparr>pid := 0, jid := 0, state := UNDEF, cmdline := ''''\<rparr>"

definition initjobs :: "job list \<Rightarrow> job list" where
  "initjobs js = map clearjob js"

fun maxjid_from :: "int \<Rightarrow> job list \<Rightarrow> int" where
  "maxjid_from m [] = m"
| "maxjid_from m (j # js) = maxjid_from (if jid j > m then jid j else m) js"

definition maxjid :: "job list \<Rightarrow> int" where
  "maxjid js = maxjid_from 0 js"

definition addjob :: "int \<Rightarrow> job_state \<Rightarrow> string \<Rightarrow> job_list \<Rightarrow> job_list \<times> int" where
  "addjob p s cmd jl =
     (if p < 1 then (jl, 0)
      else case first_index (\<lambda>j. pid j = 0) (jobs jl) of
        None \<Rightarrow> (jl, 0)
      | Some i \<Rightarrow>
          (jl\<lparr>jobs := (jobs jl)[i := (jobs jl ! i)\<lparr>pid := p, state := s, jid := nextjid jl, cmdline := cmd\<rparr>],
              nextjid := (if nextjid jl + 1 > int MAXJOBS then 1 else nextjid jl + 1)\<rparr>, 1))"

definition deletejob :: "int \<Rightarrow> job_list \<Rightarrow> job_list \<times> int" where
  "deletejob p jl =
     (if p < 1 then (jl, 0)
      else case first_index (\<lambda>j. pid j = p) (jobs jl) of
        None \<Rightarrow> (jl, 0)
      | Some i \<Rightarrow>
          (let js = (jobs jl)[i := clearjob (jobs jl ! i)]
           in (jl\<lparr>jobs := js, nextjid := maxjid js + 1\<rparr>, 1)))"

definition fgpid :: "job list \<Rightarrow> int" where
  "fgpid js = (case first_index (\<lambda>j. state j = FG) js of Some i \<Rightarrow> pid (js ! i) | None \<Rightarrow> 0)"

definition getjobpid :: "int \<Rightarrow> job list \<Rightarrow> nat option" where
  "getjobpid p js = (if p < 1 then None else first_index (\<lambda>j. pid j = p) js)"

definition getjobjid :: "int \<Rightarrow> job list \<Rightarrow> nat option" where
  "getjobjid n js = (if n < 1 then None else first_index (\<lambda>j. jid j = n) js)"

definition pid2jid :: "int \<Rightarrow> job list \<Rightarrow> int" where
  "pid2jid p js =
     (if p < 1 then 0
      else case first_index (\<lambda>j. pid j = p) js of Some i \<Rightarrow> jid (js ! i) | None \<Rightarrow> 0)"

text \<open>One printed line per used slot; \<open>None\<close> stands for the internal-error text.\<close>

definition state_name :: "job_state \<Rightarrow> string option" where
  "state_name s = (case s of BG \<Rightarrow> Some ''Running '' | FG \<Rightarrow> Some ''Foreground '' | ST \<Rightarrow> Some ''Stopped ''
     | UNDEF \<Rightarrow> None)"

definition listjobs :: "job list \<Rightarrow> (int \<times> int \<times> string option \<times> string) list" where
  "listjobs js =
     map (\<lambda>j. (jid j, pid j, state_name (state j), cmdline j)) (filter (\<lambda>j. pid j \<noteq> 0) js)"

section \<open>Searching\<close>

lemma first_index_Some:
  "first_index P xs = Some i \<longleftrightarrow> i < length xs \<and> P (xs ! i) \<and> (\<forall>k < i. \<not> P (xs ! k))"
proof (induction xs arbitrary: i)
  case (Cons x xs)
  show ?case
  proof (cases i)
    case 0
    then show ?thesis by auto
  next
    case (Suc n)
    then show ?thesis using Cons [of n]
      by (auto simp: nth_Cons' less_Suc_eq_0_disj)
  qed
qed simp

lemma first_index_None: "first_index P xs = None \<longleftrightarrow> (\<forall>x \<in> set xs. \<not> P x)"
  by (induction xs) auto

lemma maxjid_from_start: "m \<le> maxjid_from m js"
proof (induction js arbitrary: m)
  case (Cons k js)
  show ?case using Cons [of m] Cons [of "jid k"] by simp
qed simp

lemma maxjid_from_ge: "j \<in> set js \<Longrightarrow> jid j \<le> maxjid_from m js"
proof (induction js arbitrary: m)
  case (Cons k js)
  show ?case
  proof (cases "j = k")
    case True
    then show ?thesis using maxjid_from_start [of "jid k" js] maxjid_from_start [of m js] by simp
  next
    case False
    then show ?thesis using Cons by simp
  qed
qed simp

lemma maxjid_from_le: "(\<And>j. j \<in> set js \<Longrightarrow> jid j \<le> b) \<Longrightarrow> m \<le> b \<Longrightarrow> maxjid_from m js \<le> b"
  by (induction js arbitrary: m) auto

section \<open>The invariant\<close>

definition free_job :: "job \<Rightarrow> bool" where
  "free_job j \<longleftrightarrow> jid j = 0 \<and> state j = UNDEF"

definition jobs_inv :: "job_list \<Rightarrow> bool" where
  "jobs_inv jl \<longleftrightarrow> length (jobs jl) = MAXJOBS \<and> 1 \<le> nextjid jl
     \<and> (\<forall>j \<in> set (jobs jl). 0 \<le> pid j \<and> (pid j = 0 \<longrightarrow> free_job j) \<and> (pid j \<noteq> 0 \<longrightarrow> 1 \<le> jid j \<and> state j \<noteq> UNDEF))
     \<and> (\<forall>i < length (jobs jl). \<forall>k < length (jobs jl).
          pid (jobs jl ! i) = pid (jobs jl ! k) \<longrightarrow> pid (jobs jl ! i) \<noteq> 0 \<longrightarrow> i = k)"

text \<open>Job ids are unambiguous and \<open>nextjid\<close> is above all of them.\<close>

definition jids_unique :: "job_list \<Rightarrow> bool" where
  "jids_unique jl \<longleftrightarrow> (\<forall>j \<in> set (jobs jl). jid j < nextjid jl)
     \<and> (\<forall>i < length (jobs jl). \<forall>k < length (jobs jl).
          jid (jobs jl ! i) = jid (jobs jl ! k) \<longrightarrow> jid (jobs jl ! i) \<noteq> 0 \<longrightarrow> i = k)"

text \<open>The abstract contents: the job of each process.\<close>

definition job_of :: "job_list \<Rightarrow> int \<Rightarrow> job option" where
  "job_of jl p = map_option ((!) (jobs jl)) (getjobpid p (jobs jl))"

lemma jobs_invD:
  assumes "jobs_inv jl"
  shows "length (jobs jl) = 16" "j \<in> set (jobs jl) \<Longrightarrow> 0 \<le> pid j"
    "j \<in> set (jobs jl) \<Longrightarrow> pid j = 0 \<Longrightarrow> jid j = 0 \<and> state j = UNDEF"
    "j \<in> set (jobs jl) \<Longrightarrow> pid j \<noteq> 0 \<Longrightarrow> 1 \<le> jid j \<and> state j \<noteq> UNDEF"
    "i < 16 \<Longrightarrow> k < 16 \<Longrightarrow> pid (jobs jl ! i) = pid (jobs jl ! k) \<Longrightarrow> pid (jobs jl ! i) \<noteq> 0 \<Longrightarrow> i = k"
  using assms by (auto simp: jobs_inv_def free_job_def MAXJOBS_def)

lemma getjobpid_Some:
  assumes "jobs_inv jl"
  shows "getjobpid p (jobs jl) = Some i \<longleftrightarrow> 1 \<le> p \<and> i < 16 \<and> pid (jobs jl ! i) = p"
proof
  assume "getjobpid p (jobs jl) = Some i"
  then show "1 \<le> p \<and> i < 16 \<and> pid (jobs jl ! i) = p"
    using jobs_invD(1) [OF assms] by (auto simp: getjobpid_def first_index_Some split: if_splits)
next
  assume a: "1 \<le> p \<and> i < 16 \<and> pid (jobs jl ! i) = p"
  have "pid (jobs jl ! k) \<noteq> p" if "k < i" for k
    using jobs_invD(5) [OF assms, of k i] that a by auto
  then show "getjobpid p (jobs jl) = Some i"
    using a jobs_invD(1) [OF assms] by (simp add: getjobpid_def first_index_Some)
qed

lemma getjobpid_None:
  "getjobpid p js = None \<longleftrightarrow> p < 1 \<or> (\<forall>j \<in> set js. pid j \<noteq> p)"
  by (simp add: getjobpid_def first_index_None)

lemma job_of_Some:
  assumes "jobs_inv jl"
  shows "job_of jl p = Some j \<longleftrightarrow> j \<in> set (jobs jl) \<and> pid j = p \<and> 1 \<le> p"
  using jobs_invD(1) [OF assms] getjobpid_Some [OF assms]
  by (auto simp: job_of_def in_set_conv_nth)

lemma length_inv: "jobs_inv jl \<Longrightarrow> length (jobs jl) = 16"
  by (rule jobs_invD(1))

text \<open>Replacing one slot, with the parts of the invariant as separate goals.\<close>

lemma jobs_inv_update:
  assumes inv: "jobs_inv jl" and i: "i < 16"
    and j: "0 \<le> pid j" "pid j = 0 \<Longrightarrow> jid j = 0 \<and> state j = UNDEF" "pid j \<noteq> 0 \<Longrightarrow> 1 \<le> jid j \<and> state j \<noteq> UNDEF"
    and new: "\<And>k. k < 16 \<Longrightarrow> k \<noteq> i \<Longrightarrow> pid j \<noteq> 0 \<Longrightarrow> pid (jobs jl ! k) \<noteq> pid j"
    and n: "1 \<le> n"
  shows "jobs_inv (jl\<lparr>jobs := (jobs jl)[i := j], nextjid := n\<rparr>)"
proof -
  note d = jobs_invD [OF inv]
  have "x = j \<or> x \<in> set (jobs jl)" if "x \<in> set ((jobs jl)[i := j])" for x
    using that set_update_subset_insert by fastforce
  then have "\<forall>x \<in> set ((jobs jl)[i := j]). 0 \<le> pid x \<and> (pid x = 0 \<longrightarrow> free_job x) \<and>
      (pid x \<noteq> 0 \<longrightarrow> 1 \<le> jid x \<and> state x \<noteq> UNDEF)"
    using d(2-4) j unfolding free_job_def by metis
  moreover have "a = b" if "a < 16" "b < 16" "pid ((jobs jl)[i := j] ! a) = pid ((jobs jl)[i := j] ! b)"
      "pid ((jobs jl)[i := j] ! a) \<noteq> 0" for a b
    using that d(1,5) new i by (cases "a = i"; cases "b = i") (force simp: nth_list_update)+
  ultimately show ?thesis using d(1) n unfolding jobs_inv_def by (auto simp: MAXJOBS_def)
qed

lemma jobs_inv_init: "length js = 16 \<Longrightarrow> jobs_inv \<lparr>jobs = initjobs js, nextjid = 1\<rparr>"
  by (auto simp: jobs_inv_def initjobs_def clearjob_def free_job_def MAXJOBS_def)

lemma addjob_slot:
  assumes "first_index (\<lambda>j. pid j = 0) (jobs jl) = Some i" and "1 \<le> p"
  shows "addjob p s cmd jl =
     (jl\<lparr>jobs := (jobs jl)[i := \<lparr>pid = p, jid = nextjid jl, state = s, cmdline = cmd\<rparr>],
         nextjid := (if nextjid jl + 1 > 16 then 1 else nextjid jl + 1)\<rparr>, 1)"
  using assms by (cases "jobs jl ! i") (simp add: addjob_def MAXJOBS_def)

lemma addjob_full:
  assumes "p < 1 \<or> first_index (\<lambda>j. pid j = 0) (jobs jl) = None"
  shows "addjob p s cmd jl = (jl, 0)"
  using assms by (auto simp: addjob_def)

lemma addjob_cases:
  assumes "jobs_inv jl"
  obtains (Full) "p < 1 \<or> 0 \<notin> pid ` set (jobs jl)" "addjob p s cmd jl = (jl, 0)"
  | (Slot) i where "1 \<le> p" "i < 16" "jobs jl ! i \<in> set (jobs jl)" "pid (jobs jl ! i) = 0"
      "addjob p s cmd jl = (jl\<lparr>jobs := (jobs jl)[i := \<lparr>pid = p, jid = nextjid jl, state = s, cmdline = cmd\<rparr>],
         nextjid := (if nextjid jl + 1 > 16 then 1 else nextjid jl + 1)\<rparr>, 1)"
proof (cases "p < 1 \<or> first_index (\<lambda>j. pid j = 0) (jobs jl) = None")
  case True
  then have "p < 1 \<or> 0 \<notin> pid ` set (jobs jl)" by (auto simp: first_index_None)
  then show ?thesis using Full addjob_full [OF True] by blast
next
  case False
  then obtain i where i: "first_index (\<lambda>j. pid j = 0) (jobs jl) = Some i" and p: "1 \<le> p" by auto
  then have "i < 16" "pid (jobs jl ! i) = 0" "jobs jl ! i \<in> set (jobs jl)"
    using length_inv [OF assms] by (auto simp: first_index_Some)
  then show ?thesis using Slot addjob_slot [OF i p] p by blast
qed

definition free_slot :: job where
  "free_slot = \<lparr>pid = 0, jid = 0, state = UNDEF, cmdline = ''''\<rparr>"

lemma free_slot_simps [simp]: "pid free_slot = 0" "jid free_slot = 0" "state free_slot = UNDEF"
  by (simp_all add: free_slot_def)

lemma clearjob_free [simp]: "clearjob j = free_slot"
  by (simp add: clearjob_def free_slot_def)

lemma deletejob_cases:
  assumes "jobs_inv jl"
  obtains (Absent) "job_of jl p = None" "deletejob p jl = (jl, 0)"
  | (Slot) i where "1 \<le> p" "i < 16" "pid (jobs jl ! i) = p"
      "deletejob p jl = (jl\<lparr>jobs := (jobs jl)[i := free_slot],
         nextjid := maxjid ((jobs jl)[i := free_slot]) + 1\<rparr>, 1)"
proof (cases "getjobpid p (jobs jl)")
  case None
  then have "job_of jl p = None" by (simp add: job_of_def)
  moreover have "deletejob p jl = (jl, 0)"
    using None by (auto simp: deletejob_def getjobpid_def split: if_splits)
  ultimately show ?thesis using Absent by blast
next
  case (Some i)
  then have "1 \<le> p" "i < 16" "pid (jobs jl ! i) = p" using getjobpid_Some [OF assms] by auto
  moreover have "deletejob p jl = (jl\<lparr>jobs := (jobs jl)[i := free_slot],
         nextjid := maxjid ((jobs jl)[i := free_slot]) + 1\<rparr>, 1)"
    using Some by (auto simp: deletejob_def getjobpid_def Let_def split: if_splits)
  ultimately show ?thesis using Slot by blast
qed

text \<open>A job is added only for a process that has none; that is the kernel's part: a process id
  is not given out again before its child has been reaped.\<close>

lemma jobs_inv_add:
  assumes "jobs_inv jl" and "job_of jl p = None" and "s \<noteq> UNDEF"
  shows "jobs_inv (fst (addjob p s cmd jl))"
using assms(1)
proof (cases rule: addjob_cases [of jl p s cmd])
  case (Slot i)
  have "pid (jobs jl ! k) \<noteq> p" if "k < 16" for k
    using assms(2) Slot that getjobpid_Some [OF assms(1), of p k] by (auto simp: job_of_def)
  moreover have "1 \<le> nextjid jl" using assms(1) by (simp add: jobs_inv_def)
  ultimately show ?thesis unfolding Slot(5) fst_conv using Slot(1) assms(3)
    by (intro jobs_inv_update [OF assms(1) Slot(2)]) auto
qed (use assms in simp)

lemma jobs_inv_delete:
  assumes "jobs_inv jl"
  shows "jobs_inv (fst (deletejob p jl))"
using assms
proof (cases rule: deletejob_cases [of jl p])
  case (Slot i)
  have "0 \<le> maxjid js" for js by (simp add: maxjid_def maxjid_from_start)
  then show ?thesis unfolding Slot(4) fst_conv
    by (intro jobs_inv_update [OF assms Slot(2)]) auto
qed (use assms in simp)

section \<open>The table as a map\<close>

text \<open>Through a pointer returned by \<open>getjobpid\<close> the shell writes a new state.\<close>

definition set_state :: "nat \<Rightarrow> job_state \<Rightarrow> job_list \<Rightarrow> job_list" where
  "set_state i s jl = jl\<lparr>jobs := (jobs jl)[i := (jobs jl ! i)\<lparr>state := s\<rparr>]\<rparr>"

definition set_state_of :: "int \<Rightarrow> job_state \<Rightarrow> job_list \<Rightarrow> job_list" where
  "set_state_of p s jl = (case getjobpid p (jobs jl) of Some i \<Rightarrow> set_state i s jl | None \<Rightarrow> jl)"

definition has_room :: "job_list \<Rightarrow> bool" where
  "has_room jl \<longleftrightarrow> 0 \<in> pid ` set (jobs jl)"

lemma job_of_nth:
  assumes "jobs_inv jl"
  shows "job_of jl p = Some j \<longleftrightarrow> 1 \<le> p \<and> pid j = p \<and> (\<exists>i < 16. jobs jl ! i = j)"
  using job_of_Some [OF assms] length_inv [OF assms] by (auto simp: in_set_conv_nth)

text \<open>The map after one slot has been replaced.\<close>

lemma job_of_update:
  assumes inv: "jobs_inv jl" and inv': "jobs_inv (jl\<lparr>jobs := (jobs jl)[i := j], nextjid := n\<rparr>)"
    and i: "i < 16"
  shows "job_of (jl\<lparr>jobs := (jobs jl)[i := j], nextjid := n\<rparr>) p =
    (if p = pid j \<and> p \<noteq> 0 then Some j else if p = pid (jobs jl ! i) then None else job_of jl p)"
    (is "job_of ?jl p = _")
proof -
  note d = jobs_invD [OF inv]
  note d' = jobs_invD [OF inv']
  have len: "length (jobs jl) = 16" by (rule d(1))
  have at: "jobs ?jl ! k = (if k = i then j else jobs jl ! k)" if "k < 16" for k
    using that len by (simp add: nth_list_update)
  have pj: "0 \<le> pid j" using d'(2) [of j] i len by (simp add: set_update_memI)
  have "job_of ?jl p = Some x \<longleftrightarrow>
     (if p = pid j \<and> p \<noteq> 0 then Some j else if p = pid (jobs jl ! i) then None else job_of jl p) = Some x" for x
  proof (cases "p = pid j \<and> p \<noteq> 0")
    case True
    have "x = j" if "job_of ?jl p = Some x"
      using that True d'(5) [of _ i] i at job_of_nth [OF inv', of p x] by (metis)
    moreover have "job_of ?jl p = Some j"
      using True pj i at [OF i] job_of_nth [OF inv', of p j] by auto
    ultimately show ?thesis using True by auto
  next
    case False
    have "job_of ?jl p = Some x \<longleftrightarrow> 1 \<le> p \<and> pid x = p \<and> (\<exists>k < 16. k \<noteq> i \<and> jobs jl ! k = x)"
      unfolding job_of_nth [OF inv'] using at False by (metis less_irrefl zero_less_one not_one_le_zero)
    also have "\<dots> \<longleftrightarrow> p \<noteq> pid (jobs jl ! i) \<and> job_of jl p = Some x"
      unfolding job_of_nth [OF inv] using d(5) [of _ i] i
      by (metis less_irrefl zero_less_one not_one_le_zero)
    finally show ?thesis using False by auto
  qed
  then show ?thesis by (metis not_Some_eq)
qed

lemma job_of_add:
  assumes inv: "jobs_inv jl" and none: "job_of jl p = None" and s: "s \<noteq> UNDEF" and "1 \<le> p" and "has_room jl"
  shows "job_of (fst (addjob p s cmd jl)) =
    (job_of jl)(p \<mapsto> \<lparr>pid = p, jid = nextjid jl, state = s, cmdline = cmd\<rparr>)"
  using inv
proof (cases rule: addjob_cases [of jl p s cmd])
  case (Slot i)
  let ?j = "\<lparr>pid = p, jid = nextjid jl, state = s, cmdline = cmd\<rparr>"
  let ?n = "if nextjid jl + 1 > 16 then 1 else nextjid jl + 1"
  have inv': "jobs_inv (jl\<lparr>jobs := (jobs jl)[i := ?j], nextjid := ?n\<rparr>)"
    using jobs_inv_add [OF inv none s, of cmd] unfolding Slot(5) fst_conv .
  have "job_of jl 0 = None" by (simp add: job_of_def getjobpid_def)
  then show ?thesis unfolding Slot(5) fst_conv
    by (rule_tac ext) (use job_of_update [OF inv inv' Slot(2)] Slot(4) assms(4) in auto)
qed (use assms in \<open>auto simp: has_room_def\<close>)

lemma job_of_delete:
  assumes inv: "jobs_inv jl"
  shows "job_of (fst (deletejob p jl)) = (job_of jl)(p := None)"
  using inv
proof (cases rule: deletejob_cases [of jl p])
  case (Slot i)
  let ?n = "maxjid ((jobs jl)[i := free_slot]) + 1"
  have inv': "jobs_inv (jl\<lparr>jobs := (jobs jl)[i := free_slot], nextjid := ?n\<rparr>)"
    using jobs_inv_delete [OF inv, of p] unfolding Slot(4) fst_conv .
  show ?thesis unfolding Slot(4) fst_conv
    by (rule ext) (use job_of_update [OF inv inv' Slot(2)] Slot(3) in auto)
qed auto

lemma set_state_update:
  "set_state i s jl = jl\<lparr>jobs := (jobs jl)[i := (jobs jl ! i)\<lparr>state := s\<rparr>], nextjid := nextjid jl\<rparr>"
  by (simp add: set_state_def)

lemma jobs_inv_set_state:
  assumes inv: "jobs_inv jl" and "s \<noteq> UNDEF" and "i < 16" and "pid (jobs jl ! i) \<noteq> 0"
  shows "jobs_inv (set_state i s jl)"
  unfolding set_state_update
proof (rule jobs_inv_update [OF inv assms(3)])
  have j: "jobs jl ! i \<in> set (jobs jl)" using assms(3) length_inv [OF inv] by simp
  show "0 \<le> pid ((jobs jl ! i)\<lparr>state := s\<rparr>)" using jobs_invD(2) [OF inv j] by simp
  show "pid ((jobs jl ! i)\<lparr>state := s\<rparr>) \<noteq> 0 \<Longrightarrow> 1 \<le> jid ((jobs jl ! i)\<lparr>state := s\<rparr>) \<and> state ((jobs jl ! i)\<lparr>state := s\<rparr>) \<noteq> UNDEF"
    using jobs_invD(4) [OF inv j] assms(2) by simp
  show "pid (jobs jl ! k) \<noteq> pid ((jobs jl ! i)\<lparr>state := s\<rparr>)" if "k < 16" "k \<noteq> i" for k
    using jobs_invD(5) [OF inv that(1) assms(3)] that(2) assms(4) by auto
  show "1 \<le> nextjid jl" using inv by (simp add: jobs_inv_def)
qed (use assms in auto)

lemma jobs_inv_set_state_of: "jobs_inv jl \<Longrightarrow> s \<noteq> UNDEF \<Longrightarrow> jobs_inv (set_state_of p s jl)"
  by (auto simp: set_state_of_def getjobpid_Some split: option.splits intro!: jobs_inv_set_state)

lemma job_of_set_state:
  assumes inv: "jobs_inv jl" and s: "s \<noteq> UNDEF"
  shows "job_of (set_state_of p s jl) = (job_of jl)(p := map_option (\<lambda>j. j\<lparr>state := s\<rparr>) (job_of jl p))"
proof (cases "getjobpid p (jobs jl)")
  case None
  then show ?thesis by (auto simp: set_state_of_def job_of_def)
next
  case (Some i)
  then have i: "1 \<le> p" "i < 16" "pid (jobs jl ! i) = p" using getjobpid_Some [OF inv] by auto
  then have inv': "jobs_inv (jl\<lparr>jobs := (jobs jl)[i := (jobs jl ! i)\<lparr>state := s\<rparr>], nextjid := nextjid jl\<rparr>)"
    using jobs_inv_set_state [OF inv s i(2)] by (simp add: set_state_update)
  have "job_of jl p = Some (jobs jl ! i)" using Some by (simp add: job_of_def)
  moreover have "set_state_of p s jl = set_state i s jl" using Some by (simp add: set_state_of_def)
  ultimately show ?thesis unfolding set_state_update
    by (intro ext) (use job_of_update [OF inv inv' i(2)] i in auto)
qed

lemma fgpid_job:
  assumes inv: "jobs_inv jl"
  shows "fgpid (jobs jl) \<noteq> 0 \<Longrightarrow> \<exists>j. job_of jl (fgpid (jobs jl)) = Some j \<and> state j = FG"
    and "job_of jl p = Some j \<Longrightarrow> state j = FG \<Longrightarrow> fgpid (jobs jl) \<noteq> 0"
proof -
  show "\<exists>j. job_of jl (fgpid (jobs jl)) = Some j \<and> state j = FG" if f: "fgpid (jobs jl) \<noteq> 0"
  proof -
    obtain i where i: "first_index (\<lambda>j. state j = FG) (jobs jl) = Some i"
      using f by (auto simp: fgpid_def split: option.splits)
    then have p: "i < 16" "state (jobs jl ! i) = FG"
      using length_inv [OF inv] by (auto simp: first_index_Some)
    have pid: "fgpid (jobs jl) = pid (jobs jl ! i)" by (simp add: fgpid_def i)
    have "0 \<le> pid (jobs jl ! i)" using jobs_invD(2) [OF inv] p(1) length_inv [OF inv] by simp
    then show ?thesis using p pid f job_of_nth [OF inv, of "fgpid (jobs jl)" "jobs jl ! i"] by auto
  qed
  show "fgpid (jobs jl) \<noteq> 0" if j: "job_of jl p = Some j" "state j = FG"
  proof -
    have "first_index (\<lambda>j. state j = FG) (jobs jl) \<noteq> None"
      using j job_of_Some [OF inv] by (auto simp: first_index_None)
    then obtain i where i: "first_index (\<lambda>j. state j = FG) (jobs jl) = Some i" by auto
    then have p: "i < 16" "state (jobs jl ! i) = FG"
      using length_inv [OF inv] by (auto simp: first_index_Some)
    have pid: "fgpid (jobs jl) = pid (jobs jl ! i)" by (simp add: fgpid_def i)
    then show ?thesis using p pid jobs_invD(3) [OF inv, of "jobs jl ! i"] length_inv [OF inv] by auto
  qed
qed

text \<open>
  What the shell relies on: a table of jobs by process, with the foreground process. Inside the
  locale, the facts about the foreground job: at most one, and which operations keep that.
\<close>

locale process_table =
  fixes add :: "int \<Rightarrow> job_state \<Rightarrow> string \<Rightarrow> 't \<Rightarrow> 't"
    and del :: "int \<Rightarrow> 't \<Rightarrow> 't"
    and set_st :: "int \<Rightarrow> job_state \<Rightarrow> 't \<Rightarrow> 't"
    and look :: "'t \<Rightarrow> int \<Rightarrow> job option"
    and fg :: "'t \<Rightarrow> int"
    and inv :: "'t \<Rightarrow> bool"
    and room :: "'t \<Rightarrow> bool"
  assumes inv_add: "inv t \<Longrightarrow> look t p = None \<Longrightarrow> s \<noteq> UNDEF \<Longrightarrow> inv (add p s c t)"
    and inv_del: "inv t \<Longrightarrow> inv (del p t)"
    and inv_set: "inv t \<Longrightarrow> s \<noteq> UNDEF \<Longrightarrow> inv (set_st p s t)"
    and look_add: "inv t \<Longrightarrow> look t p = None \<Longrightarrow> s \<noteq> UNDEF \<Longrightarrow> 1 \<le> p \<Longrightarrow> room t \<Longrightarrow>
       \<exists>n. look (add p s c t) = (look t)(p \<mapsto> \<lparr>pid = p, jid = n, state = s, cmdline = c\<rparr>)"
    and add_full: "inv t \<Longrightarrow> p < 1 \<or> \<not> room t \<Longrightarrow> add p s c t = t"
    and look_del: "inv t \<Longrightarrow> look (del p t) = (look t)(p := None)"
    and look_set: "inv t \<Longrightarrow> s \<noteq> UNDEF \<Longrightarrow>
       look (set_st p s t) = (look t)(p := map_option (\<lambda>j. j\<lparr>state := s\<rparr>) (look t p))"
    and fg_look: "inv t \<Longrightarrow> fg t \<noteq> 0 \<Longrightarrow> \<exists>j. look t (fg t) = Some j \<and> state j = FG"
    and look_fg: "inv t \<Longrightarrow> look t p = Some j \<Longrightarrow> state j = FG \<Longrightarrow> fg t \<noteq> 0"
begin

definition fgs :: "'t \<Rightarrow> int set" where
  "fgs t = {p. \<exists>j. look t p = Some j \<and> state j = FG}"

lemma fg_zero: "inv t \<Longrightarrow> fg t = 0 \<longleftrightarrow> fgs t = {}"
  using fg_look look_fg by (force simp: fgs_def)

lemma fg_unique: "inv t \<Longrightarrow> fgs t \<subseteq> {p} \<Longrightarrow> fgs t \<noteq> {} \<Longrightarrow> fg t = p"
  using fg_look fg_zero by (fastforce simp: fgs_def)

lemma fgs_del: "inv t \<Longrightarrow> fgs (del p t) = fgs t - {p}"
  by (auto simp: fgs_def look_del)

lemma fgs_set: "inv t \<Longrightarrow> s \<noteq> UNDEF \<Longrightarrow> fgs (set_st p s t) = (if s = FG \<and> look t p \<noteq> None then insert p (fgs t)
    else if s = FG then fgs t else fgs t - {p})"
  by (auto simp: fgs_def look_set)

lemma fgs_add:
  assumes "inv t" and "look t p = None" and "s \<noteq> UNDEF"
  shows "fgs (add p s c t) \<subseteq> (if s = FG then insert p (fgs t) else fgs t)"
proof (cases "1 \<le> p \<and> room t")
  case True
  then obtain n where "look (add p s c t) = (look t)(p \<mapsto> \<lparr>pid = p, jid = n, state = s, cmdline = c\<rparr>)"
    using look_add [OF assms, of c] by auto
  then show ?thesis by (auto simp: fgs_def)
next
  case False
  then show ?thesis using add_full [OF assms(1)] by auto
qed

end

interpretation job_table: process_table "\<lambda>p s c jl. fst (addjob p s c jl)" "\<lambda>p jl. fst (deletejob p jl)"
  set_state_of job_of "\<lambda>jl. fgpid (jobs jl)" jobs_inv has_room
proof unfold_locales
  fix t :: job_list and p :: int and s :: job_state and c :: string
  assume inv: "jobs_inv t"
  show "jobs_inv (fst (deletejob p t))" by (rule jobs_inv_delete [OF inv])
  show "job_of (fst (deletejob p t)) = (job_of t)(p := None)" by (rule job_of_delete [OF inv])
  show "fgpid (jobs t) \<noteq> 0 \<Longrightarrow> \<exists>j. job_of t (fgpid (jobs t)) = Some j \<and> state j = FG"
    by (rule fgpid_job(1) [OF inv])
  show "fgpid (jobs t) \<noteq> 0" if "job_of t p = Some j" "state j = FG" for j
    by (rule fgpid_job(2) [OF inv that])
  show "p < 1 \<or> \<not> has_room t \<Longrightarrow> fst (addjob p s c t) = t"
    using inv by (cases rule: addjob_cases [of t p s c]) (auto simp: has_room_def rev_image_eqI)
  assume s: "s \<noteq> UNDEF"
  show "jobs_inv (set_state_of p s t)" by (rule jobs_inv_set_state_of [OF inv s])
  show "job_of (set_state_of p s t) = (job_of t)(p := map_option (\<lambda>j. j\<lparr>state := s\<rparr>) (job_of t p))"
    by (rule job_of_set_state [OF inv s])
  assume none: "job_of t p = None"
  show "jobs_inv (fst (addjob p s c t))" by (rule jobs_inv_add [OF inv none s])
  show "\<exists>n. job_of (fst (addjob p s c t)) = (job_of t)(p \<mapsto> \<lparr>pid = p, jid = n, state = s, cmdline = c\<rparr>)"
    if "1 \<le> p" "has_room t" using job_of_add [OF inv none s that, of c] by blast
qed

section \<open>Job ids\<close>

lemma jids_uniqueD:
  assumes "jobs_inv jl" and "jids_unique jl"
  shows "j \<in> set (jobs jl) \<Longrightarrow> jid j < nextjid jl"
    and "i < 16 \<Longrightarrow> k < 16 \<Longrightarrow> jid (jobs jl ! i) = jid (jobs jl ! k) \<Longrightarrow> jid (jobs jl ! i) \<noteq> 0 \<Longrightarrow> i = k"
  using assms(2) length_inv [OF assms(1)] by (auto simp: jids_unique_def)

lemma jids_unique_update:
  assumes inv: "jobs_inv jl" and u: "jids_unique jl" and i: "i < 16"
    and new: "\<And>k. k < 16 \<Longrightarrow> k \<noteq> i \<Longrightarrow> jid j \<noteq> 0 \<Longrightarrow> jid (jobs jl ! k) \<noteq> jid j"
    and n: "jid j < n" "\<And>k. k < 16 \<Longrightarrow> k \<noteq> i \<Longrightarrow> jid (jobs jl ! k) < n"
  shows "jids_unique (jl\<lparr>jobs := (jobs jl)[i := j], nextjid := n\<rparr>)"
proof -
  have len: "length (jobs jl) = 16" by (rule length_inv [OF inv])
  have "jid x < n" if x: "x \<in> set ((jobs jl)[i := j])" for x
  proof -
    obtain k where "k < 16" "x = (jobs jl)[i := j] ! k" using x len by (auto simp: in_set_conv_nth)
    then show ?thesis using n len by (cases "k = i") (auto simp: nth_list_update)
  qed
  moreover have "a = b" if "a < 16" "b < 16" "jid ((jobs jl)[i := j] ! a) = jid ((jobs jl)[i := j] ! b)"
      "jid ((jobs jl)[i := j] ! a) \<noteq> 0" for a b
    using that len new jids_uniqueD(2) [OF inv u] i by (cases "a = i"; cases "b = i") (force simp: nth_list_update)+
  ultimately show ?thesis using len unfolding jids_unique_def by (auto simp: MAXJOBS_def)
qed

lemma jids_unique_delete:
  assumes inv: "jobs_inv jl" and u: "jids_unique jl"
  shows "jids_unique (fst (deletejob p jl))"
  using inv
proof (cases rule: deletejob_cases [of jl p])
  case (Slot i)
  have len: "length (jobs jl) = 16" by (rule length_inv [OF inv])
  have "jid x \<le> maxjid ((jobs jl)[i := free_slot])" if "x \<in> set ((jobs jl)[i := free_slot])" for x
    using maxjid_from_ge [OF that] by (simp add: maxjid_def)
  moreover have "jobs jl ! k \<in> set ((jobs jl)[i := free_slot])" if "k < 16" "k \<noteq> i" for k
    using that len by (metis length_list_update nth_list_update_neq nth_mem)
  moreover have "0 \<le> maxjid ((jobs jl)[i := free_slot])" by (simp add: maxjid_def maxjid_from_start)
  ultimately show ?thesis unfolding Slot(4) fst_conv
    by (intro jids_unique_update [OF inv u Slot(2)]) force+
qed (use u in simp)

lemma jids_unique_add:
  assumes inv: "jobs_inv jl" and u: "jids_unique jl" and small: "nextjid jl < 16"
  shows "jids_unique (fst (addjob p s cmd jl))"
  using inv
proof (cases rule: addjob_cases [of jl p s cmd])
  case (Slot i)
  have "jid (jobs jl ! k) < nextjid jl" if "k < 16" for k
    using jids_uniqueD(1) [OF inv u] that length_inv [OF inv] by simp
  then show ?thesis unfolding Slot(5) fst_conv using small
    by (intro jids_unique_update [OF inv u Slot(2)]) force+
qed (use u in simp)

lemma pid2jid_job_of: "pid2jid q (jobs t) = (case job_of t q of Some j \<Rightarrow> jid j | None \<Rightarrow> 0)"
  by (simp add: pid2jid_def job_of_def getjobpid_def split: option.split)

section \<open>Properties\<close>

text \<open>C34. The array is a map from process ids to jobs: on a well-formed table \<open>addjob\<close> of
  a new process records it in a free slot, or changes nothing when the table is full;
  \<open>deletejob\<close> forgets exactly that process; writing a state through \<open>getjobpid\<close> changes
  only that job; all three keep the table well formed; \<open>pid2jid\<close> reads the map.\<close>

theorem job_list_is_a_map:
  assumes "jobs_inv jl" and "job_of jl p = None" and "s \<noteq> UNDEF" and "1 \<le> p"
  shows "(if has_room jl
        then job_of (fst (addjob p s cmd jl)) = (job_of jl)(p \<mapsto> \<lparr>pid = p, jid = nextjid jl, state = s, cmdline = cmd\<rparr>)
        else addjob p s cmd jl = (jl, 0))
    \<and> job_of (fst (deletejob q jl)) = (job_of jl)(q := None)
    \<and> job_of (set_state_of q s jl) = (job_of jl)(q := map_option (\<lambda>j. j\<lparr>state := s\<rparr>) (job_of jl q))
    \<and> jobs_inv (fst (addjob p s cmd jl)) \<and> jobs_inv (fst (deletejob q jl)) \<and> jobs_inv (set_state_of q s jl)
    \<and> pid2jid q (jobs jl) = (case job_of jl q of Some j \<Rightarrow> jid j | None \<Rightarrow> 0)"
proof -
  have "addjob p s cmd jl = (jl, 0)" if "\<not> has_room jl"
    using assms(1) by (cases rule: addjob_cases [of jl p s cmd])
      (use that in \<open>auto simp: has_room_def rev_image_eqI\<close>)
  then show ?thesis
    using pid2jid_job_of [of q jl] job_of_add [OF assms(1-4)] job_table.look_del [OF assms(1)] job_table.look_set [OF assms(1,3)]
      job_table.inv_add [OF assms(1-3)] job_table.inv_del [OF assms(1)] job_table.inv_set [OF assms(1,3)]
    by simp
qed

theorem job_list_is_a_map_witness:
  "job_of (fst (addjob 42 BG ''a'' \<lparr>jobs = initjobs (replicate 16 free_slot), nextjid = 1\<rparr>)) 42 =
     Some \<lparr>pid = 42, jid = 1, state = BG, cmdline = ''a''\<rparr>"
proof -
  let ?jl = "\<lparr>jobs = initjobs (replicate 16 free_slot), nextjid = 1\<rparr>"
  have inv: "jobs_inv ?jl" by (rule jobs_inv_init) simp
  have "job_of ?jl p = None" for p
    unfolding job_of_def getjobpid_None [THEN iffD2] by (simp add: getjobpid_def first_index_None initjobs_def)
  moreover have "has_room ?jl" by (simp add: has_room_def initjobs_def)
  ultimately show ?thesis using job_list_is_a_map [OF inv, of 42 BG "''a''"] by simp
qed

text \<open>C35. While \<open>nextjid\<close> stays below \<open>MAXJOBS\<close>, job ids are unambiguous: no two jobs
  have the same, \<open>nextjid\<close> is above all of them, and \<open>getjobjid\<close> finds the very slot.\<close>

theorem jids_stay_unique:
  assumes "jobs_inv jl" and "jids_unique jl"
  shows "jids_unique (fst (deletejob p jl))
    \<and> (nextjid jl < 16 \<longrightarrow> jids_unique (fst (addjob p s cmd jl)))
    \<and> (\<forall>i < 16. pid (jobs jl ! i) \<noteq> 0 \<longrightarrow> getjobjid (jid (jobs jl ! i)) (jobs jl) = Some i)"
proof (intro conjI allI impI)
  show "jids_unique (fst (deletejob p jl))" by (rule jids_unique_delete [OF assms])
  show "jids_unique (fst (addjob p s cmd jl))" if "nextjid jl < 16" by (rule jids_unique_add [OF assms that])
  fix i :: nat assume i: "i < 16" "pid (jobs jl ! i) \<noteq> 0"
  have len: "length (jobs jl) = 16" by (rule length_inv [OF assms(1)])
  have "1 \<le> jid (jobs jl ! i)" using jobs_invD(4) [OF assms(1)] i len by simp
  moreover have "jid (jobs jl ! k) \<noteq> jid (jobs jl ! i)" if "k < i" for k
    using jids_uniqueD(2) [OF assms, of k i] i that calculation by auto
  ultimately show "getjobjid (jid (jobs jl ! i)) (jobs jl) = Some i"
    using i len by (simp add: getjobjid_def first_index_Some)
qed

theorem jids_stay_unique_witness:
  "jids_unique (fst (addjob 42 BG ''a'' \<lparr>jobs = replicate 16 free_slot, nextjid = 1\<rparr>))"
proof -
  let ?jl = "\<lparr>jobs = replicate 16 free_slot, nextjid = 1\<rparr>"
  have "jobs_inv ?jl" using jobs_inv_init [of "replicate 16 free_slot"] by (simp add: initjobs_def)
  moreover have "jids_unique ?jl" by (simp add: jids_unique_def)
  ultimately show ?thesis using jids_stay_unique [of ?jl 42 BG "''a''"] by simp
qed

definition job_runs :: "(bool \<times> int) list" where
  "job_runs = (True, 1) # concat (map (\<lambda>k. [(True, k + 1), (False, k)]) [1..15])
     @ [(True, 17), (True, 18), (False, 16), (True, 19), (True, 20)]"

fun run_jobs :: "(bool \<times> int) list \<Rightarrow> job_list \<Rightarrow> job_list" where
  "run_jobs [] jl = jl"
| "run_jobs ((starts, p) # rs) jl =
     run_jobs rs (if starts then fst (addjob p BG ''job'' jl) else fst (deletejob p jl))"

text \<open>Job ids do become ambiguous when the counter wraps: after a run of background jobs of
  which never more than four are alive at a time, processes 18 and 20 both have job id 1, and
  \<open>getjobjid\<close> can reach only one of them.\<close>

theorem jids_can_clash:
  "(let jl = run_jobs job_runs \<lparr>jobs = initjobs (replicate 16 free_slot), nextjid = 1\<rparr>
    in map (\<lambda>(n, p, _). (n, p)) (listjobs (jobs jl)) = [(17, 17), (18, 19), (1, 18), (1, 20)]
     \<and> getjobjid 1 (jobs jl) = getjobpid 18 (jobs jl))"
  by code_simp

end
