(* ===== verification/Tiny_Shell.thy ===== *)
theory Tiny_Shell
  imports Job_List
begin

text \<open>
  The shell of \<open>shlab/tsh.c\<close> on top of its job list: \<open>parseline\<close>, the built-in commands,
  \<open>eval\<close>, \<open>waitfg\<close> and the signal handlers.

  The kernel is modelled as far as the calls document it: the children with their process
  group and the status change that \<open>waitpid\<close> has yet to report. Signals and status
  changes arrive as events; what the shell sends and prints is recorded in order.
\<close>

section \<open>The command line\<close>

definition MAXLINE :: nat where "MAXLINE = 1024"
definition MAXARGS :: nat where "MAXARGS = 128"

text \<open>A string is the list of its characters, without the final NUL. One round of the loop: skip
  spaces, choose the delimiter, \<open>strchr\<close>, cut the argument off.\<close>

definition skip_spaces :: "string \<Rightarrow> string" where
  "skip_spaces buf = dropWhile (\<lambda>c. c = CHR '' '') buf"

definition delimiter :: "string \<Rightarrow> char \<times> string" where
  "delimiter buf = (case buf of c # rest \<Rightarrow> if c = CHR 0x27 then (CHR 0x27, rest) else (CHR '' '', buf)
     | [] \<Rightarrow> (CHR '' '', buf))"

function args_from :: "string \<Rightarrow> string list" where
  "args_from buf =
     (let (delim, rest) = delimiter (skip_spaces buf)
      in if delim \<in> set rest
         then takeWhile (\<lambda>c. c \<noteq> delim) rest # args_from (tl (dropWhile (\<lambda>c. c \<noteq> delim) rest))
         else [])"
  by pat_completeness auto

lemma args_from_shorter:
  assumes "(delim, rest) = delimiter (skip_spaces buf)" and "delim \<in> set rest"
  shows "length (tl (dropWhile (\<lambda>c. c \<noteq> delim) rest)) < length buf"
proof -
  have "length rest \<le> length (skip_spaces buf)"
    using assms(1) by (auto simp: delimiter_def split: list.splits if_splits)
  also have "\<dots> \<le> length buf" by (simp add: skip_spaces_def length_dropWhile_le)
  finally have le: "length rest \<le> length buf" .
  have "dropWhile (\<lambda>c. c \<noteq> delim) rest \<noteq> []" using assms(2) by simp
  moreover have "length (dropWhile (\<lambda>c. c \<noteq> delim) rest) \<le> length rest" by (rule length_dropWhile_le)
  ultimately show ?thesis using le by (cases "dropWhile (\<lambda>c. c \<noteq> delim) rest") auto
qed

termination args_from
  by (relation "measure length") (auto intro: args_from_shorter simp del: length_tl)

declare args_from.simps [simp del]

text \<open>\<open>parseline\<close> returns \<open>argv\<close> up to its null pointer, and whether the job is for the
  background. \<open>None\<close>: the line does not fit \<open>array\<close>, the last character of an empty line
  is replaced, or more than \<open>MAXARGS\<close> pointers are written into \<open>argv\<close>.\<close>

definition parseline :: "string \<Rightarrow> (string list \<times> bool) option" where
  "parseline cmd =
     (if MAXLINE \<le> length cmd \<or> cmd = [] then None
      else let args = args_from (butlast cmd @ '' '') in
        if MAXARGS \<le> length args then None
        else if args = [] then Some ([], True)
        else if take 1 (last args) = ''&'' then Some (butlast args, True)
        else Some (args, False))"

section \<open>Kernel and shell state\<close>

datatype status = Exited int | Signaled int | Stopped int

record child =
  cpid :: int
  cpgid :: int
  changed :: "status option"

datatype message =
    MJobs "(int \<times> int \<times> string option \<times> string) list"
  | MNeedArg string
  | MBadArg string
  | MNoJob string
  | MNoProcess string
  | MJob int int string
  | MStopped int int int
  | MTerminated int int int
  | MTooMany

record shell =
  jl :: job_list
  pgrp :: int
  kids :: "child list"
  sent :: "(int \<times> int) list"
  execs :: "(int \<times> string list) list"
  printed :: "message list"

text \<open>How a command ends: normally, in \<open>exit\<close>, or by undefined behaviour.\<close>

datatype 'a res = Done 'a | Exit_shell int | Undefined

definition SIGCONT :: int where "SIGCONT = 18"

definition print :: "message \<Rightarrow> shell \<Rightarrow> shell" where
  "print m sh = sh\<lparr>printed := printed sh @ [m]\<rparr>"

text \<open>\<open>waitpid(p, &status, WNOHANG | WUNTRACED)\<close>: a positive \<open>p\<close> is that child, 0 is any child
  in the process group of the shell. A terminated child is reaped; the result is -1
  (\<open>ECHILD\<close>) when there is no such child and 0 when none has changed.\<close>

definition waits_for :: "int \<Rightarrow> int \<Rightarrow> child \<Rightarrow> bool" where
  "waits_for g p c \<longleftrightarrow> (if p = 0 then cpgid c = g else cpid c = p)"

fun take_change :: "int \<Rightarrow> int \<Rightarrow> child list \<Rightarrow> (int \<times> status \<times> child list) option" where
  "take_change g p [] = None"
| "take_change g p (c # cs) =
     (case (if waits_for g p c then changed c else None) of
        Some (Stopped s) \<Rightarrow> Some (cpid c, Stopped s, c\<lparr>changed := None\<rparr> # cs)
      | Some s \<Rightarrow> Some (cpid c, s, cs)
      | None \<Rightarrow> map_option (\<lambda>(q, s, cs'). (q, s, c # cs')) (take_change g p cs))"

text \<open>\<open>kill(-p, s)\<close> fails when there is no process in group \<open>p\<close>.\<close>

definition kill_group :: "int \<Rightarrow> int \<Rightarrow> shell \<Rightarrow> shell option" where
  "kill_group p s sh =
     (if \<exists>c \<in> set (kids sh). cpgid c = p then Some (sh\<lparr>sent := sent sh @ [(p, s)]\<rparr>) else None)"

section \<open>Signal handlers\<close>

definition handle_status :: "int \<Rightarrow> status \<Rightarrow> shell \<Rightarrow> shell res" where
  "handle_status p st sh =
     (case st of
        Exited _ \<Rightarrow> Done (sh\<lparr>jl := fst (deletejob p (jl sh))\<rparr>)
      | Stopped s \<Rightarrow>
          (case getjobpid p (jobs (jl sh)) of
             None \<Rightarrow> Undefined
           | Some i \<Rightarrow> let sh = sh\<lparr>jl := set_state i ST (jl sh)\<rparr>
                       in Done (print (MStopped (pid2jid p (jobs (jl sh))) p s) sh))
      | Signaled s \<Rightarrow>
          let sh = print (MTerminated (pid2jid p (jobs (jl sh))) p s) sh
          in Done (sh\<lparr>jl := fst (deletejob p (jl sh))\<rparr>))"

definition pending :: "child list \<Rightarrow> nat" where
  "pending cs = length (filter (\<lambda>c. changed c \<noteq> None) cs)"

lemma take_change_pending: "take_change g p cs = Some (q, s, cs') \<Longrightarrow> pending cs = Suc (pending cs')"
  by (induction cs arbitrary: cs') (auto simp: pending_def split: option.splits status.splits if_splits)

lemma handle_status_kids: "handle_status p st sh = Done sh' \<Longrightarrow> kids sh' = kids sh"
  by (auto simp: handle_status_def print_def Let_def split: status.splits option.splits)

function sigchld_handler :: "shell \<Rightarrow> shell res" where
  "sigchld_handler sh =
     (case take_change (pgrp sh) (fgpid (jobs (jl sh))) (kids sh) of
        None \<Rightarrow> Done sh
      | Some (p, st, ks) \<Rightarrow>
          (case handle_status p st (sh\<lparr>kids := ks\<rparr>) of
             Done sh' \<Rightarrow> sigchld_handler sh'
           | Exit_shell n \<Rightarrow> Exit_shell n
           | Undefined \<Rightarrow> Undefined))"
  by pat_completeness auto
termination sigchld_handler
  by (relation "measure (\<lambda>sh. pending (kids sh))")
    (auto dest!: take_change_pending handle_status_kids)

declare sigchld_handler.simps [simp del]

text \<open>\<open>sigint_handler\<close> and \<open>sigtstp_handler\<close> have the same text.\<close>

definition forward_signal :: "int \<Rightarrow> shell \<Rightarrow> shell res" where
  "forward_signal s sh =
     (let p = fgpid (jobs (jl sh)) in
      if p \<noteq> 0 then (case kill_group p s sh of None \<Rightarrow> Exit_shell 1 | Some sh' \<Rightarrow> Done sh') else Done sh)"

text \<open>An event is a status change of a child, followed by the delivery of \<open>SIGCHLD\<close>, a
  signal from the keyboard, or \<open>SIGQUIT\<close>, which ends the shell.\<close>

datatype event = Change int status | Keyboard int | Quit

definition sigquit_handler :: "shell \<Rightarrow> shell res" where
  "sigquit_handler sh = Exit_shell 1"

definition note_change :: "int \<Rightarrow> status \<Rightarrow> shell \<Rightarrow> shell" where
  "note_change p st sh = sh\<lparr>kids := map (\<lambda>c. if cpid c = p then c\<lparr>changed := Some st\<rparr> else c) (kids sh)\<rparr>"

definition deliver :: "event \<Rightarrow> shell \<Rightarrow> shell res" where
  "deliver e sh =
     (case e of Change p st \<Rightarrow> sigchld_handler (note_change p st sh) | Keyboard s \<Rightarrow> forward_signal s sh | Quit \<Rightarrow> sigquit_handler sh)"

fun deliver_all :: "event list \<Rightarrow> shell \<Rightarrow> shell res" where
  "deliver_all [] sh = Done sh"
| "deliver_all (e # es) sh =
     (case deliver e sh of Done sh' \<Rightarrow> deliver_all es sh' | Exit_shell n \<Rightarrow> Exit_shell n | Undefined \<Rightarrow> Undefined)"

section \<open>Waiting and the built-in commands\<close>

text \<open>\<open>waitfg\<close> spins on the slot it looked up at the start until a handler has changed the
  state. \<open>None\<close>: the events are over and it still spins. The result holds the events not used.\<close>

fun wait_slot :: "nat \<Rightarrow> event list \<Rightarrow> shell \<Rightarrow> (shell \<times> event list) res option" where
  "wait_slot i es sh =
     (if state (jobs (jl sh) ! i) \<noteq> FG then Some (Done (sh, es))
      else case es of [] \<Rightarrow> None
        | e # es' \<Rightarrow> (case deliver e sh of Done sh' \<Rightarrow> wait_slot i es' sh'
                     | Exit_shell n \<Rightarrow> Some (Exit_shell n) | Undefined \<Rightarrow> Some Undefined))"

declare wait_slot.simps [simp del]

definition waitfg :: "int \<Rightarrow> event list \<Rightarrow> shell \<Rightarrow> (shell \<times> event list) res option" where
  "waitfg p es sh =
     (case getjobpid p (jobs (jl sh)) of
        Some i \<Rightarrow> if p \<noteq> 0 then wait_slot i es sh else Some (Done (sh, es))
      | None \<Rightarrow> Some (Done (sh, es)))"

definition is_digit :: "char \<Rightarrow> bool" where
  "is_digit c \<longleftrightarrow> 48 \<le> (of_char c :: nat) \<and> (of_char c :: nat) \<le> 57"

text \<open>\<open>atoi\<close> on a string of digits; a value beyond \<open>int\<close> is undefined.\<close>

definition atoi :: "string \<Rightarrow> int option" where
  "atoi s = (let n = foldl (\<lambda>n c. 10 * n + (int (of_char c) - 48)) 0 s
             in if n < 2 ^ 31 then Some n else None)"

text \<open>The part of \<open>do_bgfg\<close> after the job has been found.\<close>

definition resume :: "string \<Rightarrow> int \<Rightarrow> nat \<Rightarrow> event list \<Rightarrow> shell \<Rightarrow> (shell \<times> event list) res option" where
  "resume cmd p i es sh =
     (case kill_group p SIGCONT sh of
        None \<Rightarrow> Some (Exit_shell 1)
      | Some sh \<Rightarrow>
          if cmd = ''bg''
          then let sh = sh\<lparr>jl := set_state i BG (jl sh)\<rparr>; j = jobs (jl sh) ! i
               in Some (Done (print (MJob (jid j) (pid j) (cmdline j)) sh, es))
          else let sh = sh\<lparr>jl := set_state i FG (jl sh)\<rparr>
               in waitfg (pid (jobs (jl sh) ! i)) es sh)"

definition do_bgfg :: "string list \<Rightarrow> event list \<Rightarrow> shell \<Rightarrow> (shell \<times> event list) res option" where
  "do_bgfg argv es sh =
     (case argv of
        cmd # arg # _ \<Rightarrow>
          (let is_jobid = take 1 arg = ''%'';
               digits = (if is_jobid then drop 1 arg else arg) in
           if \<not> list_all is_digit digits then Some (Done (print (MBadArg cmd) sh, es))
           else case atoi digits of
             None \<Rightarrow> Some Undefined
           | Some n \<Rightarrow>
               if is_jobid
               then (case getjobjid n (jobs (jl sh)) of
                       None \<Rightarrow> Some (Done (print (MNoJob arg) sh, es))
                     | Some i \<Rightarrow> resume cmd (pid (jobs (jl sh) ! i)) i es sh)
               else (case getjobpid n (jobs (jl sh)) of
                       None \<Rightarrow> Some (Done (print (MNoProcess arg) sh, es))
                     | Some i \<Rightarrow> resume cmd n i es sh))
      | cmd # [] \<Rightarrow> Some (Done (print (MNeedArg cmd) sh, es))
      | [] \<Rightarrow> Some Undefined)"

text \<open>\<open>builtin_cmd\<close> returns whether the command was built in.\<close>

definition builtin_cmd :: "string list \<Rightarrow> event list \<Rightarrow> shell \<Rightarrow> ((shell \<times> event list) \<times> bool) res option" where
  "builtin_cmd argv es sh =
     (case argv of
        [] \<Rightarrow> Some Undefined
      | cmd # _ \<Rightarrow>
          if cmd = ''quit'' then Some (Exit_shell 0)
          else if cmd = ''jobs'' then Some (Done ((print (MJobs (listjobs (jobs (jl sh)))) sh, es), True))
          else if cmd = ''bg'' \<or> cmd = ''fg''
          then (case do_bgfg argv es sh of
                  None \<Rightarrow> None
                | Some (Done r) \<Rightarrow> Some (Done (r, True))
                | Some (Exit_shell n) \<Rightarrow> Some (Exit_shell n)
                | Some Undefined \<Rightarrow> Some Undefined)
          else Some (Done ((sh, es), False)))"

section \<open>Evaluating a command line\<close>

text \<open>
  \<open>eval\<close> tests and runs its local array \<open>argv\<close> before \<open>parseline\<close> fills it: what the
  uninitialised array holds up to a null pointer is the argument \<open>stale\<close>. The signal set
  \<open>mask\<close> is not initialised either; \<open>blocked\<close> says whether it happens to contain
  \<open>SIGCHLD\<close>. The status changes \<open>early\<close> happen between \<open>fork\<close> and the call of
  \<open>addjob\<close>; if \<open>SIGCHLD\<close> is blocked they are delivered after it, as one signal.
  \<open>fork\<close> returns \<open>p\<close> in the shell: negative, or the positive id of the child, which
  has its own process group.
\<close>

definition after_fork :: "(int \<times> status) list \<Rightarrow> shell \<Rightarrow> shell res" where
  "after_fork early sh =
     (if early = [] then Done sh else sigchld_handler (fold (\<lambda>(q, st). note_change q st) early sh))"

definition forked :: "int \<Rightarrow> string list \<Rightarrow> shell \<Rightarrow> shell" where
  "forked p argv sh = sh\<lparr>kids := kids sh @ [\<lparr>cpid = p, cpgid = p, changed = None\<rparr>], execs := execs sh @ [(p, argv)]\<rparr>"

definition add_job :: "int \<Rightarrow> job_state \<Rightarrow> string \<Rightarrow> shell \<Rightarrow> shell" where
  "add_job p s cmd sh =
     (case addjob p s cmd (jl sh) of (jl', r) \<Rightarrow>
        let sh = sh\<lparr>jl := jl'\<rparr> in if r = 0 then print MTooMany sh else sh)"

definition eval :: "string list \<Rightarrow> bool \<Rightarrow> int \<Rightarrow> (int \<times> status) list \<Rightarrow> string \<Rightarrow> event list \<Rightarrow> shell \<Rightarrow> (shell \<times> event list) res option" where
  "eval stale blocked p early cmd es sh =
     (if stale = [] then Some (Done (sh, es))
      else case builtin_cmd stale es sh of
        None \<Rightarrow> None
      | Some Undefined \<Rightarrow> Some Undefined
      | Some (Exit_shell n) \<Rightarrow> Some (Exit_shell n)
      | Some (Done (r, True)) \<Rightarrow> Some (Done r)
      | Some (Done ((sh, es), False)) \<Rightarrow>
          if p < 0 then Some (Exit_shell 1)
          else case (if blocked then Done (forked p stale sh) else deliver_all (map (\<lambda>(q, st). Change q st) early) (forked p stale sh)) of
            Exit_shell n \<Rightarrow> Some (Exit_shell n)
          | Undefined \<Rightarrow> Some Undefined
          | Done sh \<Rightarrow>
            (case parseline cmd of
               None \<Rightarrow> Some Undefined
             | Some (argv, is_bg) \<Rightarrow>
                 (case (let sh = add_job p (if is_bg then BG else FG) cmd sh in
                        if blocked then after_fork early sh else Done sh) of
                    Exit_shell n \<Rightarrow> Some (Exit_shell n)
                  | Undefined \<Rightarrow> Some Undefined
                  | Done sh \<Rightarrow>
                      if is_bg then Some (Done (print (MJob (pid2jid p (jobs (jl sh))) p cmd) sh, es))
                      else waitfg p es sh)))"

section \<open>Parsing\<close>

lemma args_from_spaces: "args_from (CHR '' '' # buf) = args_from buf"
  by (subst (1 2) args_from.simps) (simp add: skip_spaces_def)

lemma args_from_blank [simp]: "set buf \<subseteq> {CHR '' ''} \<Longrightarrow> args_from buf = []"
proof (induction buf)
  case Nil
  show ?case by (subst args_from.simps) (simp add: skip_spaces_def delimiter_def)
qed (simp add: args_from_spaces)

lemma cut_at:
  assumes "c \<notin> set s"
  shows "takeWhile (\<lambda>x. x \<noteq> c) (s @ c # tail) = s" and "dropWhile (\<lambda>x. x \<noteq> c) (s @ c # tail) = c # tail"
  using assms by (induction s) auto

lemma args_from_plain:
  assumes "s \<noteq> ''''" and "CHR '' '' \<notin> set s" and "hd s \<noteq> CHR 0x27"
  shows "args_from (s @ CHR '' '' # tail) = s # args_from tail"
proof -
  obtain c s' where s: "s = c # s'" "c \<noteq> CHR '' ''" "c \<noteq> CHR 0x27" using assms by (cases s) auto
  note cut_at [OF assms(2), of tail]
  moreover have "delimiter (skip_spaces (s @ CHR '' '' # tail)) = (CHR '' '', s @ CHR '' '' # tail)"
    using s by (simp add: skip_spaces_def delimiter_def)
  ultimately show ?thesis by (subst args_from.simps) simp
qed

lemma args_from_quoted:
  assumes "CHR 0x27 \<notin> set s"
  shows "args_from (CHR 0x27 # s @ CHR 0x27 # tail) = s # args_from tail"
proof -
  note cut_at [OF assms, of tail]
  moreover have "delimiter (skip_spaces (CHR 0x27 # s @ CHR 0x27 # tail)) = (CHR 0x27, s @ CHR 0x27 # tail)"
    by (simp add: skip_spaces_def delimiter_def)
  ultimately show ?thesis by (subst args_from.simps) simp
qed

text \<open>How a user writes an argument: plainly, or in single quotes.\<close>

definition written :: "bool \<times> string \<Rightarrow> string" where
  "written a = (if fst a then CHR 0x27 # snd a @ [CHR 0x27] else snd a)"

definition writable :: "bool \<times> string \<Rightarrow> bool" where
  "writable a \<longleftrightarrow> (if fst a then CHR 0x27 \<notin> set (snd a)
     else snd a \<noteq> '''' \<and> CHR '' '' \<notin> set (snd a) \<and> hd (snd a) \<noteq> CHR 0x27)"

definition command_line :: "(bool \<times> string) list \<Rightarrow> string" where
  "command_line as = concat (map (\<lambda>a. written a @ '' '') as)"

lemma args_from_written:
  "list_all writable as \<Longrightarrow> args_from (command_line as @ tail) = map snd as @ args_from tail"
proof (induction as)
  case (Cons a as)
  have "args_from (written a @ CHR '' '' # rest) = snd a # args_from rest" for rest
    using Cons.prems
    by (cases "fst a") (simp_all add: written_def writable_def args_from_quoted args_from_plain args_from_spaces)
  then show ?case using Cons by (simp add: command_line_def)
qed (simp add: command_line_def)

text \<open>C31. \<open>parseline\<close> gives back the arguments that were written, quoted ones with their
  spaces, and reports a final \<open>&\<close> as a background job without passing it on.\<close>

theorem parseline_roundtrip:
  assumes "list_all writable as" and "as \<noteq> []" and "length as < 127"
    and "length (command_line as) < 1000"
  shows "parseline (command_line as @ [CHR 0x0A]) =
      (if take 1 (snd (last as)) = ''&'' then Some (map snd (butlast as), True) else Some (map snd as, False))
    \<and> parseline (command_line as @ ''&'' @ [CHR 0x0A]) = Some (map snd as, True)"
proof
  have "args_from (command_line as @ '' '') = map snd as"
    by (simp add: args_from_written [OF assms(1)])
  then show "parseline (command_line as @ [CHR 0x0A]) =
      (if take 1 (snd (last as)) = ''&'' then Some (map snd (butlast as), True) else Some (map snd as, False))"
    using assms by (simp add: parseline_def butlast_append MAXLINE_def MAXARGS_def Let_def last_map map_butlast)
  have "args_from (command_line as @ ''&'' @ '' '') = map snd as @ [''&'']"
    using args_from_written [OF assms(1), of "''& ''"] args_from_plain [of "''&''" "''''"] by simp
  then show "parseline (command_line as @ ''&'' @ [CHR 0x0A]) = Some (map snd as, True)"
    using assms by (simp add: parseline_def butlast_append MAXLINE_def MAXARGS_def Let_def)
qed

theorem parseline_roundtrip_witness:
  "parseline (''/bin/echo 'a b' c '' @ [CHR 0x0A]) = Some ([''/bin/echo'', ''a b'', ''c''], False)"
  using parseline_roundtrip [of "[(False, ''/bin/echo''), (True, ''a b''), (False, ''c'')]"]
  by (simp add: writable_def command_line_def written_def)

text \<open>\<open>parseline\<close> does not check the size of \<open>argv\<close>: a line of \<open>MAXARGS\<close> arguments,
  well within \<open>MAXLINE\<close>, makes it write the terminating null pointer behind the array; with
  one argument less it does not.\<close>

theorem parseline_overflows_argv:
  "parseline (concat (replicate 128 ''a '') @ [CHR 0x0A]) = None
   \<and> parseline (concat (replicate 127 ''a '') @ [CHR 0x0A]) = Some (replicate 127 ''a'', False)"
proof -
  have c: "concat (replicate n ''a '') = command_line (replicate n (False, ''a''))" for n
    by (simp add: command_line_def written_def map_replicate_const)
  have a: "args_from (concat (replicate n ''a '') @ '' '') = replicate n ''a''" for n
    unfolding c by (subst args_from_written) (simp_all add: writable_def list_all_iff)
  have l: "length (concat (replicate n ''a '')) = 2 * n" for n by (induction n) auto
  show ?thesis by (simp add: parseline_def butlast_append a l MAXLINE_def MAXARGS_def Let_def)
qed

section \<open>Handlers\<close>

lemma take_change_None: "take_change g p cs = None \<longleftrightarrow> (\<forall>c \<in> set cs. waits_for g p c \<longrightarrow> changed c = None)"
  by (induction cs) (auto split: option.splits status.splits)

lemma take_change_Some:
  "take_change g p cs = Some (q, s, cs') \<Longrightarrow>
   \<exists>c \<in> set cs. waits_for g p c \<and> cpid c = q \<and> changed c = Some s"
  by (induction cs arbitrary: cs') (auto split: option.splits status.splits if_splits)

lemma take_change_groups:
  "take_change g p cs = Some (q, s, cs') \<Longrightarrow> cpgid ` set cs' \<subseteq> cpgid ` set cs"
  by (induction cs arbitrary: cs') (fastforce split: option.splits status.splits if_splits)+

text \<open>The children run in process groups of their own, as \<open>setpgid(0, 0)\<close> arranges.\<close>

definition own_groups :: "shell \<Rightarrow> bool" where
  "own_groups sh \<longleftrightarrow> (\<forall>c \<in> set (kids sh). cpgid c \<noteq> pgrp sh)"

lemma set_state_getjobpid: "getjobpid p (jobs t) = Some i \<Longrightarrow> set_state i s t = set_state_of p s t"
  by (simp add: set_state_of_def)

lemma handle_status_Done:
  assumes "handle_status p st sh = Done sh'"
  shows "pgrp sh' = pgrp sh" and "sent sh' = sent sh" and "execs sh' = execs sh" and "kids sh' = kids sh"
    and "jl sh' = (case st of Stopped _ \<Rightarrow> set_state_of p ST (jl sh) | _ \<Rightarrow> fst (deletejob p (jl sh)))"
  using assms by (auto simp: handle_status_def print_def Let_def set_state_getjobpid
      split: status.splits option.splits)

text \<open>Induction over the rounds of the handler: what every round keeps, the handler keeps.\<close>

lemma sigchld_handler_keeps:
  assumes "P sh" and "sigchld_handler sh = Done sh'"
    and step: "\<And>sh p st ks sh'. P sh \<Longrightarrow>
        take_change (pgrp sh) (fgpid (jobs (jl sh))) (kids sh) = Some (p, st, ks) \<Longrightarrow>
        handle_status p st (sh\<lparr>kids := ks\<rparr>) = Done sh' \<Longrightarrow> P sh'"
  shows "P sh'"
  using assms(1,2)
proof (induction sh rule: sigchld_handler.induct)
  case (1 sh)
  show ?case
  proof (cases "take_change (pgrp sh) (fgpid (jobs (jl sh))) (kids sh)")
    case None
    then show ?thesis using 1 sigchld_handler.simps [of sh] by simp
  next
    case (Some r)
    obtain p st ks where r: "r = (p, st, ks)" by (cases r)
    show ?thesis
    proof (cases "handle_status p st (sh\<lparr>kids := ks\<rparr>)")
      case (Done sh1)
      then have "sigchld_handler sh1 = Done sh'" using 1(3) Some r sigchld_handler.simps [of sh] by simp
      then show ?thesis using 1(1) [OF Some _ _ Done] step [OF 1(2) _ Done] Some r by simp
    qed (use 1(3) Some r sigchld_handler.simps [of sh] in simp_all)
  qed
qed

lemma deliver_keeps:
  assumes "P sh" and "deliver e sh = Done sh'"
    and round: "\<And>sh p st ks sh'. P sh \<Longrightarrow>
        take_change (pgrp sh) (fgpid (jobs (jl sh))) (kids sh) = Some (p, st, ks) \<Longrightarrow>
        handle_status p st (sh\<lparr>kids := ks\<rparr>) = Done sh' \<Longrightarrow> P sh'"
    and change: "\<And>sh p st. P sh \<Longrightarrow> P (note_change p st sh)"
    and signal: "\<And>sh l. P sh \<Longrightarrow> P (sh\<lparr>sent := l\<rparr>)"
  shows "P sh'"
proof (cases e)
  case (Change p st)
  then show ?thesis
    using assms(2) sigchld_handler_keeps [of P "note_change p st sh", OF change [OF assms(1)] _ round]
    by (simp add: deliver_def)
next
  case (Keyboard s)
  then show ?thesis using assms(1,2) signal
    by (auto simp: deliver_def forward_signal_def kill_group_def Let_def split: if_splits)
qed (use assms(2) in \<open>simp add: deliver_def sigquit_handler_def\<close>)

lemma deliver_all_keeps:
  assumes "P sh" and "deliver_all es sh = Done sh'"
    and step: "\<And>e sh sh'. P sh \<Longrightarrow> deliver e sh = Done sh' \<Longrightarrow> P sh'"
  shows "P sh'"
  using assms(1,2)
proof (induction es arbitrary: sh)
  case (Cons e es)
  then show ?case using step by (auto split: res.splits)
qed simp

text \<open>The invariant that the shell keeps: the job list is well formed and at most the process
  \<open>p\<close>, if it still has a job, is in the foreground, in the slot \<open>i\<close>.\<close>

definition fg_in :: "int \<Rightarrow> nat \<Rightarrow> shell \<Rightarrow> bool" where
  "fg_in p i sh \<longleftrightarrow> jobs_inv (jl sh) \<and> job_table.fgs (jl sh) \<subseteq> {p}
     \<and> (\<forall>k. getjobpid p (jobs (jl sh)) = Some k \<longrightarrow> k = i)"

lemma getjobpid_delete:
  assumes inv: "jobs_inv t" and "getjobpid p (jobs (fst (deletejob q t))) = Some k"
  shows "getjobpid p (jobs t) = Some k"
  using inv
proof (cases rule: deletejob_cases [of t q])
  case (Slot i)
  have "1 \<le> p" "k < 16" "pid (jobs (fst (deletejob q t)) ! k) = p"
    using assms(2) getjobpid_Some [OF jobs_inv_delete [OF inv]] by blast+
  then show ?thesis using Slot length_inv [OF inv] getjobpid_Some [OF inv, of p k]
    by (auto simp: nth_list_update split: if_splits)
qed (use assms in simp)

lemma getjobpid_set_state:
  assumes "getjobpid p (jobs (set_state_of q s t)) = Some k"
  shows "getjobpid p (jobs t) = Some k"
proof -
  have "map pid (jobs (set_state_of q s t)) = map pid (jobs t)"
    by (auto simp: set_state_of_def set_state_def getjobpid_def first_index_Some map_update
        split: option.splits if_splits intro!: list_update_same_conv [THEN iffD2])
  moreover have "getjobpid p js = (if p < 1 then None else first_index (\<lambda>x. x = p) (map pid js))" for js
  proof -
    have "first_index (\<lambda>j. pid j = p) js = first_index (\<lambda>x. x = p) (map pid js)" by (induction js) auto
    then show ?thesis by (simp add: getjobpid_def)
  qed
  ultimately show ?thesis using assms by metis
qed

lemma fg_in_status:
  assumes "fg_in p i sh" and "handle_status q st sh = Done sh'"
  shows "fg_in p i sh'"
proof -
  have inv: "jobs_inv (jl sh)" and fg: "job_table.fgs (jl sh) \<subseteq> {p}"
    and at: "\<And>k. getjobpid p (jobs (jl sh)) = Some k \<Longrightarrow> k = i" using assms(1) by (auto simp: fg_in_def)
  note jl' = handle_status_Done(5) [OF assms(2)]
  have del: "fg_in p i sh'" if "jl sh' = fst (deletejob q (jl sh))"
    unfolding fg_in_def that using fg at getjobpid_delete [OF inv] job_table.inv_del [OF inv, of q]
      job_table.fgs_del [OF inv, of q] by blast
  have set: "fg_in p i sh'" if "jl sh' = set_state_of q ST (jl sh)"
  proof -
    have "jobs_inv (set_state_of q ST (jl sh))" by (rule job_table.inv_set [OF inv]) simp
    moreover have "job_table.fgs (set_state_of q ST (jl sh)) = job_table.fgs (jl sh) - {q}"
      using job_table.fgs_set [OF inv, of ST q] by simp
    moreover have "k = i" if "getjobpid p (jobs (set_state_of q ST (jl sh))) = Some k" for k
      by (rule at) (rule getjobpid_set_state [OF that])
    ultimately show ?thesis unfolding fg_in_def that using fg by (simp, blast)
  qed
  show ?thesis using jl' del set by (cases st) simp_all
qed

lemma fg_in_cong: "jl sh' = jl sh \<Longrightarrow> fg_in p i sh' = fg_in p i sh"
  by (simp add: fg_in_def)

lemma fg_in_round:
  assumes "fg_in p i sh" and "handle_status q st (sh\<lparr>kids := ks\<rparr>) = Done sh'"
  shows "fg_in p i sh'"
  by (rule fg_in_status [OF _ assms(2)]) (use assms(1) in \<open>simp add: fg_in_def\<close>)

lemma fg_in_deliver: "fg_in p i sh \<Longrightarrow> deliver e sh = Done sh' \<Longrightarrow> fg_in p i sh'"
  by (erule deliver_keeps [where P = "fg_in p i"])
    (assumption, erule (1) fg_in_round, simp_all add: fg_in_def note_change_def)

lemma fg_in_stop:
  assumes "fg_in p i sh" and "state (jobs (jl sh) ! i) \<noteq> FG"
  shows "job_table.fgs (jl sh) = {}"
proof -
  have inv: "jobs_inv (jl sh)" using assms(1) by (simp add: fg_in_def)
  have "q \<notin> job_table.fgs (jl sh)" for q
  proof
    assume q: "q \<in> job_table.fgs (jl sh)"
    then have "q = p" using assms(1) by (auto simp: fg_in_def)
    with q obtain j where j: "job_of (jl sh) p = Some j" "state j = FG" by (auto simp: job_table.fgs_def)
    then obtain k where "getjobpid p (jobs (jl sh)) = Some k" "jobs (jl sh) ! k = j"
      by (auto simp: job_of_def)
    then show False using assms j by (auto simp: fg_in_def)
  qed
  then show ?thesis by blast
qed

lemma wait_slot_no_fg:
  assumes "fg_in p i sh" and "wait_slot i es sh = Some (Done (sh', es'))"
  shows "jobs_inv (jl sh') \<and> job_table.fgs (jl sh') = {}"
  using assms
proof (induction es arbitrary: sh)
  case Nil
  then have "sh' = sh" "state (jobs (jl sh) ! i) \<noteq> FG"
    using wait_slot.simps [of i "[]" sh] by (auto split: if_splits)
  then show ?case using fg_in_stop [OF Nil(1)] Nil(1) by (simp add: fg_in_def)
next
  case (Cons e es)
  show ?case
  proof (cases "state (jobs (jl sh) ! i) = FG")
    case False
    then have "sh' = sh" using Cons(3) wait_slot.simps [of i "e # es" sh] by simp
    then show ?thesis using fg_in_stop [OF Cons(2) False] Cons(2) by (simp add: fg_in_def)
  next
    case True
    then obtain sh1 where "deliver e sh = Done sh1" "wait_slot i es sh1 = Some (Done (sh', es'))"
      using Cons(3) wait_slot.simps [of i "e # es" sh] by (auto split: res.splits)
    then show ?thesis using Cons(1) fg_in_deliver [OF Cons(2)] by blast
  qed
qed

lemma fg_in_exists:
  assumes "jobs_inv (jl sh)" and "job_table.fgs (jl sh) \<subseteq> {p}"
  shows "\<exists>i. fg_in p i sh"
  using assms by (cases "getjobpid p (jobs (jl sh))") (auto simp: fg_in_def)

lemma fgs_absent: "job_table.fgs t \<subseteq> {p} \<Longrightarrow> job_of t p = None \<Longrightarrow> job_table.fgs t = {}"
  by (auto simp: job_table.fgs_def)

lemma waitfg_no_fg:
  assumes inv: "jobs_inv (jl sh)" and fg: "job_table.fgs (jl sh) \<subseteq> {p}"
    and ret: "waitfg p es sh = Some (Done (sh', es'))"
  shows "jobs_inv (jl sh') \<and> job_table.fgs (jl sh') = {}"
proof (cases "getjobpid p (jobs (jl sh))")
  case None
  then have "job_of (jl sh) p = None" by (simp add: job_of_def)
  then have "job_table.fgs (jl sh) = {}" by (rule fgs_absent [OF fg])
  moreover have "sh' = sh" using ret None by (simp add: waitfg_def)
  ultimately show ?thesis using inv by simp
next
  case (Some k)
  then have "p \<noteq> 0" using getjobpid_Some [OF inv] by auto
  then have w: "wait_slot k es sh = Some (Done (sh', es'))" using ret Some by (simp add: waitfg_def)
  obtain i where i: "fg_in p i sh" using fg_in_exists [OF inv fg] by blast
  then have "k = i" using Some by (simp add: fg_in_def)
  then show ?thesis using wait_slot_no_fg [OF i] w by blast
qed

text \<open>No foreground job, which is the state of the shell at its prompt, and no job for \<open>p\<close>.\<close>

definition at_prompt :: "shell \<Rightarrow> bool" where
  "at_prompt sh \<longleftrightarrow> jobs_inv (jl sh) \<and> job_table.fgs (jl sh) = {}"

lemma fg_in_prompt: "fg_in 0 i sh \<longleftrightarrow> at_prompt sh"
proof -
  have "job_of (jl sh) 0 = None" by (simp add: job_of_def getjobpid_def)
  then show ?thesis using fgs_absent [of "jl sh" 0] by (auto simp: fg_in_def at_prompt_def getjobpid_def)
qed

lemma at_prompt_deliver: "at_prompt sh \<Longrightarrow> deliver e sh = Done sh' \<Longrightarrow> at_prompt sh'"
  using fg_in_deliver fg_in_prompt by blast

lemma fresh_deliver:
  assumes "at_prompt sh" and "job_of (jl sh) p = None" and "deliver e sh = Done sh'"
  shows "at_prompt sh' \<and> job_of (jl sh') p = None"
proof -
  have "fg_in p i sh" for i using assms(1,2) by (auto simp: fg_in_def at_prompt_def job_of_def)
  then have "fg_in p i sh'" for i using fg_in_deliver assms(3) by blast
  from this [of 0] this [of "Suc 0"] have "getjobpid p (jobs (jl sh')) = None"
    by (cases "getjobpid p (jobs (jl sh'))") (auto simp: fg_in_def)
  then show ?thesis using at_prompt_deliver [OF assms(1,3)] by (simp add: job_of_def)
qed

lemma fresh_deliver_all:
  assumes "at_prompt sh \<and> job_of (jl sh) p = None" and "deliver_all es sh = Done sh'"
  shows "at_prompt sh' \<and> job_of (jl sh') p = None"
  by (rule deliver_all_keeps [where P = "\<lambda>sh. at_prompt sh \<and> job_of (jl sh) p = None", OF assms])
    (use fresh_deliver in blast)

lemma found_slot:
  assumes "jobs_inv t" and "getjobjid n (jobs t) = Some i"
  shows "i < 16 \<and> pid (jobs t ! i) \<noteq> 0 \<and> getjobpid (pid (jobs t ! i)) (jobs t) = Some i"
proof -
  have i: "i < 16" "jid (jobs t ! i) = n" "1 \<le> n"
    using assms length_inv [OF assms(1)] by (auto simp: getjobjid_def first_index_Some split: if_splits)
  have "pid (jobs t ! i) \<noteq> 0" "0 \<le> pid (jobs t ! i)"
    using jobs_invD(2,3) [OF assms(1), of "jobs t ! i"] i length_inv [OF assms(1)] by auto
  then show ?thesis using i getjobpid_Some [OF assms(1)] by auto
qed

lemma resume_no_fg:
  assumes "at_prompt sh" and i: "getjobpid p (jobs (jl sh)) = Some i"
    and "resume cmd p i es sh = Some (Done (sh', es'))"
  shows "at_prompt sh'"
proof -
  have inv: "jobs_inv (jl sh)" and fg: "job_table.fgs (jl sh) = {}" using assms(1) by (simp_all add: at_prompt_def)
  have slot: "i < 16" "pid (jobs (jl sh) ! i) = p" using getjobpid_Some [OF inv] i by auto
  obtain sh1 where sh1: "kill_group p SIGCONT sh = Some sh1" "jl sh1 = jl sh"
    using assms(3) by (auto simp: resume_def kill_group_def split: option.splits if_splits)
  note st = set_state_getjobpid [OF i]
  show ?thesis
  proof (cases "cmd = ''bg''")
    case True
    have "job_table.fgs (set_state_of p BG (jl sh)) = {}" using job_table.fgs_set [OF inv, of BG p] fg by simp
    moreover have "jl sh' = set_state_of p BG (jl sh)"
      using assms(3) sh1 True st by (auto simp: resume_def print_def Let_def)
    ultimately show ?thesis using job_table.inv_set [OF inv, of BG p] by (simp add: at_prompt_def)
  next
    case False
    let ?sh = "sh1\<lparr>jl := set_state_of p FG (jl sh)\<rparr>"
    have "jobs (set_state i FG (jl sh)) ! i = (jobs (jl sh) ! i)\<lparr>state := FG\<rparr>"
      using slot length_inv [OF inv] by (simp add: set_state_def)
    then have w: "waitfg p es ?sh = Some (Done (sh', es'))"
      using assms(3) sh1 False slot st by (simp add: resume_def Let_def)
    have a: "jobs_inv (jl ?sh)" using job_table.inv_set [OF inv, of FG p] by simp
    have b: "job_table.fgs (jl ?sh) \<subseteq> {p}" using job_table.fgs_set [OF inv, of FG p] fg by simp
    show ?thesis using waitfg_no_fg [OF a b w] by (simp add: at_prompt_def)
  qed
qed

lemma do_bgfg_no_fg:
  assumes "at_prompt sh" and "do_bgfg argv es sh = Some (Done (sh', es'))"
  shows "at_prompt sh'"
proof -
  have inv: "jobs_inv (jl sh)" using assms(1) by (simp add: at_prompt_def)
  have "jl sh' = jl sh \<or> (\<exists>cmd p i. getjobpid p (jobs (jl sh)) = Some i \<and> resume cmd p i es sh = Some (Done (sh', es')))"
    using assms(2) found_slot [OF inv]
    by (auto simp: do_bgfg_def Let_def print_def split: list.splits if_splits option.splits)
  then show ?thesis using resume_no_fg [OF assms(1)] assms(1) by (auto simp: at_prompt_def)
qed

lemma builtin_cmd_no_fg:
  assumes "at_prompt sh" and "builtin_cmd argv es sh = Some (Done ((sh', es'), b))"
  shows "at_prompt sh' \<and> (\<not> b \<longrightarrow> sh' = sh \<and> es' = es)"
proof -
  have "jl sh' = jl sh \<or> (\<exists>r. b \<and> do_bgfg argv es sh = Some (Done (sh', es')))" and "\<not> b \<longrightarrow> sh' = sh \<and> es' = es"
    using assms(2) by (auto simp: builtin_cmd_def print_def split: list.splits if_splits option.splits res.splits)
  then show ?thesis using do_bgfg_no_fg [OF assms(1)] assms(1) by (auto simp: at_prompt_def)
qed

lemma note_changes_keep:
  "jl (fold (\<lambda>(q, st). note_change q st) early sh) = jl sh"
  "pgrp (fold (\<lambda>(q, st). note_change q st) early sh) = pgrp sh"
  by (induction early arbitrary: sh) (auto simp: note_change_def)

lemma fg_in_after_fork:
  assumes "fg_in p i sh" and "after_fork early sh = Done sh'"
  shows "fg_in p i sh'"
proof (cases "early = []")
  case False
  let ?sh = "fold (\<lambda>(q, st). note_change q st) early sh"
  have "fg_in p i ?sh" using assms(1) by (simp add: fg_in_def note_changes_keep)
  moreover have "sigchld_handler ?sh = Done sh'" using assms(2) False by (simp add: after_fork_def)
  ultimately show ?thesis by (rule sigchld_handler_keeps) (erule (1) fg_in_round)
qed (use assms in \<open>simp add: after_fork_def\<close>)

text \<open>The last part of \<open>eval\<close>: adding the job, unblocking, waiting.\<close>

lemma add_wait_no_fg:
  assumes prompt: "at_prompt sh" and new: "job_of (jl sh) p = None"
    and sh1: "(if blocked then after_fork early (add_job p FG cmd sh) else Done (add_job p FG cmd sh)) = Done sh1"
    and ret: "waitfg p es sh1 = Some (Done (sh', es'))"
  shows "at_prompt sh'"
proof -
  have inv: "jobs_inv (jl sh)" and fg: "job_table.fgs (jl sh) = {}" using prompt by (simp_all add: at_prompt_def)
  have "jl (add_job p FG cmd sh) = fst (addjob p FG cmd (jl sh))"
    by (simp add: add_job_def print_def Let_def split: prod.split)
  then have "jobs_inv (jl (add_job p FG cmd sh))" and "job_table.fgs (jl (add_job p FG cmd sh)) \<subseteq> {p}"
    using job_table.inv_add [OF inv new, of FG cmd] job_table.fgs_add [OF inv new, of FG cmd] fg by simp_all
  then obtain i where "fg_in p i (add_job p FG cmd sh)" using fg_in_exists by blast
  then have "fg_in p i sh1" using sh1 fg_in_after_fork by (auto split: if_splits)
  then have a: "jobs_inv (jl sh1)" and b: "job_table.fgs (jl sh1) \<subseteq> {p}" by (simp_all add: fg_in_def)
  show ?thesis using waitfg_no_fg [OF a b ret] by (simp add: at_prompt_def)
qed

lemma add_bg_no_fg:
  assumes prompt: "at_prompt sh" and new: "job_of (jl sh) p = None"
    and sh1: "(if blocked then after_fork early (add_job p BG cmd sh) else Done (add_job p BG cmd sh)) = Done sh1"
  shows "at_prompt sh1"
proof -
  have inv: "jobs_inv (jl sh)" and fg: "job_table.fgs (jl sh) = {}" using prompt by (simp_all add: at_prompt_def)
  have "jl (add_job p BG cmd sh) = fst (addjob p BG cmd (jl sh))"
    by (simp add: add_job_def print_def Let_def split: prod.split)
  then have "at_prompt (add_job p BG cmd sh)"
    using job_table.inv_add [OF inv new, of BG cmd] job_table.fgs_add [OF inv new, of BG cmd] fg
    by (simp add: at_prompt_def)
  then show ?thesis using sh1 fg_in_after_fork fg_in_prompt by (metis res.inject(1))
qed

lemma eval_at_prompt:
  assumes "at_prompt sh" and "job_of (jl sh) p = None"
    and "eval stale blocked p early cmd es sh = Some (Done (sh', es'))"
  shows "at_prompt sh'"
proof -
  show ?thesis
  proof (cases "stale = []")
    case True
    then show ?thesis using assms by (simp add: eval_def)
  next
    case False
    obtain sh0 es0 b where b: "builtin_cmd stale es sh = Some (Done ((sh0, es0), b))"
      using assms(3) False by (auto simp: eval_def split: option.splits res.splits prod.splits bool.splits)
    show ?thesis
    proof (cases b)
      case True
      then show ?thesis using assms(3) b False builtin_cmd_no_fg [OF assms(1) b] by (simp add: eval_def)
    next
      case nb: False
      then have eq: "sh0 = sh" "es0 = es" using builtin_cmd_no_fg [OF assms(1) b] by auto
      let ?f = "forked p stale sh"
      have f: "at_prompt ?f \<and> job_of (jl ?f) p = None"
        using assms(1,2) by (simp add: forked_def at_prompt_def)
      obtain sh1 argv bg where
        sh1: "(if blocked then Done ?f else deliver_all (map (\<lambda>(q, st). Change q st) early) ?f) = Done sh1"
        and p: "parseline cmd = Some (argv, bg)"
        using assms(3) b nb eq False by (auto simp: eval_def split: option.splits res.splits prod.splits if_splits)
      have s1: "at_prompt sh1" "job_of (jl sh1) p = None"
        using sh1 f fresh_deliver_all [OF f] by (auto split: if_splits)
      obtain sh2 where sh2: "(if blocked then after_fork early (add_job p (if bg then BG else FG) cmd sh1)
          else Done (add_job p (if bg then BG else FG) cmd sh1)) = Done sh2"
        and r: "if bg then sh' = print (MJob (pid2jid p (jobs (jl sh2))) p cmd) sh2
                else waitfg p es sh2 = Some (Done (sh', es'))"
        using assms(3) b nb eq False sh1 p
        by (auto simp: eval_def Let_def split: res.splits if_splits)
      show ?thesis
      proof (cases bg)
        case True
        have "at_prompt sh2" by (rule add_bg_no_fg [OF s1, of blocked early cmd]) (use sh2 True in \<open>cases blocked; simp\<close>)
        then show ?thesis using r True by (simp add: at_prompt_def print_def)
      next
        case False
        show ?thesis
          by (rule add_wait_no_fg [OF s1, of blocked early cmd sh2 es sh' es'])
            (use sh2 r False in \<open>cases blocked; simp\<close>)+
      qed
    qed
  qed
qed

text \<open>At most one job is in the foreground, and none whenever \<open>eval\<close> returns to the prompt:
  whatever the command, the stale contents of \<open>argv\<close>, the signals and the status changes of
  the children, before the job is added or while the shell waits.\<close>

theorem eval_returns_to_prompt:
  assumes "at_prompt sh" and "job_of (jl sh) p = None"
    and "eval stale blocked p early cmd es sh = Some (Done (sh', es'))"
  shows "jobs_inv (jl sh') \<and> (\<forall>q j. job_of (jl sh') q = Some j \<longrightarrow> state j \<noteq> FG)"
  using eval_at_prompt [OF assms] by (auto simp: at_prompt_def job_table.fgs_def)

definition new_shell :: shell where
  "new_shell = \<lparr>jl = \<lparr>jobs = initjobs (replicate 16 free_slot), nextjid = 1\<rparr>, pgrp = 100, kids = [],
     sent = [], execs = [], printed = []\<rparr>"

lemma new_shell_prompt: "at_prompt new_shell" "job_of (jl new_shell) p = None"
proof -
  have inv: "jobs_inv (jl new_shell)" unfolding new_shell_def by (simp add: jobs_inv_init)
  show none: "job_of (jl new_shell) p = None" for p
    by (simp add: new_shell_def job_of_def getjobpid_def first_index_None initjobs_def)
  show "at_prompt new_shell" using inv none by (auto simp: at_prompt_def job_table.fgs_def)
qed

theorem eval_returns_to_prompt_witness:
  "\<exists>sh'. eval [''/bin/ls''] True 7 [(7, Exited 0)] (''ls'' @ [CHR 0x0A]) [] new_shell = Some (Done (sh', []))
     \<and> (\<forall>q j. job_of (jl sh') q = Some j \<longrightarrow> state j \<noteq> FG)"
proof -
  have "case eval [''/bin/ls''] True 7 [(7, Exited 0)] (''ls'' @ [CHR 0x0A]) [] new_shell of
      Some (Done (sh', [])) \<Rightarrow> True | _ \<Rightarrow> False" by code_simp
  then show ?thesis using eval_returns_to_prompt [OF new_shell_prompt, of "[''/bin/ls'']" True 7 "[(7, Exited 0)]"]
    by (auto split: option.splits res.splits prod.splits list.splits)
qed

section \<open>What the handlers do\<close>

lemma no_fg_no_reap:
  assumes "own_groups sh" and "fgpid (jobs (jl sh)) = 0"
  shows "sigchld_handler sh = Done sh"
proof -
  have "take_change (pgrp sh) 0 (kids sh) = None"
    using assms(1) by (auto simp: take_change_None own_groups_def waits_for_def)
  then show ?thesis using assms(2) by (subst sigchld_handler.simps) simp
qed

lemma own_groups_note [simp]: "own_groups (note_change p st sh) = own_groups sh"
proof -
  have "map cpgid (kids (note_change p st sh)) = map cpgid (kids sh)" by (simp add: note_change_def)
  moreover have "own_groups s \<longleftrightarrow> pgrp s \<notin> set (map cpgid (kids s))" for s
    unfolding own_groups_def set_map by (metis imageE image_eqI)
  moreover have "pgrp (note_change p st sh) = pgrp sh" by (simp add: note_change_def)
  ultimately show ?thesis by metis
qed

lemma note_change_simps [simp]:
  "jl (note_change p st sh) = jl sh" "printed (note_change p st sh) = printed sh"
  by (simp_all add: note_change_def)

text \<open>C30. The end or stop of the foreground job: the handler gives the prompt back. A
  terminated job is deleted, with a message if a signal killed it, and its child is reaped; a
  stopped one becomes \<open>ST\<close>; no other job changes.\<close>

theorem sigchld_handler_foreground:
  assumes "jobs_inv (jl sh)" and "own_groups sh" and "job_of (jl sh) p = Some j"
    and "job_table.fgs (jl sh) = {p}"
    and "kids sh = as @ c # bs" and "cpid c = p" and "changed c = Some st"
    and "\<forall>d \<in> set as. cpid d \<noteq> p"
  shows "\<exists>sh'. sigchld_handler sh = Done sh'
    \<and> job_of (jl sh') = (job_of (jl sh))(p := (case st of Stopped _ \<Rightarrow> Some (j\<lparr>state := ST\<rparr>) | _ \<Rightarrow> None))
    \<and> fgpid (jobs (jl sh')) = 0
    \<and> kids sh' = as @ (case st of Stopped _ \<Rightarrow> [c\<lparr>changed := None\<rparr>] | _ \<Rightarrow> []) @ bs
    \<and> printed sh' = printed sh @ (case st of Exited _ \<Rightarrow> [] | Signaled s \<Rightarrow> [MTerminated (jid j) p s]
                                    | Stopped s \<Rightarrow> [MStopped (jid j) p s])"
proof -
  let ?ks = "as @ (case st of Stopped _ \<Rightarrow> [c\<lparr>changed := None\<rparr>] | _ \<Rightarrow> []) @ bs"
  have p: "1 \<le> p" using assms(3) job_of_Some [OF assms(1)] by auto
  have fg: "fgpid (jobs (jl sh)) = p" using job_table.fg_unique [OF assms(1)] assms(4) by simp
  have tc: "take_change (pgrp sh) p (kids sh) = Some (p, st, ?ks)"
  proof -
    have "take_change g p (as @ c # bs) = Some (p, st, ?ks)" for g
      using assms(8) p by (induction as) (auto simp: waits_for_def assms(6,7) split: status.split)
    then show ?thesis by (simp add: assms(5))
  qed
  obtain i where i: "getjobpid p (jobs (jl sh)) = Some i" "jobs (jl sh) ! i = j"
    using assms(3) by (auto simp: job_of_def)
  have slot: "i < 16" "pid j = p" using i getjobpid_Some [OF assms(1)] by auto
  have jid: "pid2jid p (jobs (jl sh)) = jid j" by (simp add: pid2jid_job_of assms(3))
  let ?jl = "case st of Stopped _ \<Rightarrow> set_state_of p ST (jl sh) | _ \<Rightarrow> fst (deletejob p (jl sh))"
  let ?sh = "sh\<lparr>kids := ?ks, jl := ?jl, printed := printed sh @ (case st of Exited _ \<Rightarrow> []
      | Signaled s \<Rightarrow> [MTerminated (jid j) p s] | Stopped s \<Rightarrow> [MStopped (jid j) p s])\<rparr>"
  have "pid2jid p (jobs (set_state i ST (jl sh))) = jid j"
    using job_table.look_set [OF assms(1), of ST p] assms(3)
    by (simp add: set_state_getjobpid [OF i(1)] pid2jid_job_of)
  then have hs: "handle_status p st (sh\<lparr>kids := ?ks\<rparr>) = Done ?sh"
    using i jid by (cases st) (simp_all add: handle_status_def print_def Let_def set_state_getjobpid [OF i(1)])
  have inv: "jobs_inv ?jl" and look: "job_of ?jl = (job_of (jl sh))(p := (case st of Stopped _ \<Rightarrow> Some (j\<lparr>state := ST\<rparr>) | _ \<Rightarrow> None))"
    using job_table.inv_set [OF assms(1), of ST p] job_table.inv_del [OF assms(1), of p]
      job_table.look_set [OF assms(1), of ST p] job_table.look_del [OF assms(1), of p] assms(3)
    by (cases st; simp)+
  have "job_table.fgs ?jl = {}"
    using job_table.fgs_set [OF assms(1), of ST p] job_table.fgs_del [OF assms(1), of p] assms(4) by (cases st) simp_all
  then have z: "fgpid (jobs ?jl) = 0" using job_table.fg_zero [OF inv] by simp
  have "own_groups ?sh" using assms(2) by (cases st) (auto simp: own_groups_def assms(5))
  then have "sigchld_handler ?sh = Done ?sh" by (rule no_fg_no_reap) (use z in simp)
  then have "sigchld_handler sh = Done ?sh" by (subst sigchld_handler.simps) (simp add: fg tc hs)
  then show ?thesis using look z by simp
qed

theorem sigchld_handler_foreground_witness:
  "\<exists>sh'. sigchld_handler (new_shell\<lparr>jl := fst (addjob 7 FG ''ls'' (jl new_shell)),
      kids := [\<lparr>cpid = 7, cpgid = 7, changed = Some (Stopped 20)\<rparr>]\<rparr>) = Done sh'
    \<and> printed sh' = [MStopped 1 7 20] \<and> fgpid (jobs (jl sh')) = 0"
proof -
  let ?c = "\<lparr>cpid = 7, cpgid = 7, changed = Some (Stopped 20)\<rparr>"
  let ?sh = "new_shell\<lparr>jl := fst (addjob 7 FG ''ls'' (jl new_shell)), kids := [?c]\<rparr>"
  have inv: "jobs_inv (jl new_shell)" using new_shell_prompt(1) by (simp add: at_prompt_def)
  have room: "has_room (jl new_shell)" by (simp add: has_room_def new_shell_def initjobs_def)
  have "job_of (jl ?sh) = (job_of (jl new_shell))(7 \<mapsto> \<lparr>pid = 7, jid = nextjid (jl new_shell), state = FG, cmdline = ''ls''\<rparr>)"
    using job_of_add [OF inv new_shell_prompt(2) _ _ room, of FG 7 "''ls''"] by simp
  then have look: "job_of (jl ?sh) = [7 \<mapsto> \<lparr>pid = 7, jid = 1, state = FG, cmdline = ''ls''\<rparr>]"
    using new_shell_prompt(2) by (simp add: fun_eq_iff new_shell_def)
  have "jobs_inv (jl ?sh)" using jobs_inv_add [OF inv new_shell_prompt(2), of FG 7] by simp
  moreover have "own_groups ?sh" by (simp add: own_groups_def new_shell_def)
  moreover have "job_table.fgs (jl ?sh) = {7}" unfolding job_table.fgs_def look by (auto split: if_splits)
  moreover have "job_of (jl ?sh) 7 = Some \<lparr>pid = 7, jid = 1, state = FG, cmdline = ''ls''\<rparr>"
    unfolding look by (rule fun_upd_same)
  moreover have "kids ?sh = [] @ ?c # []" by simp
  ultimately obtain sh' where "sigchld_handler ?sh = Done sh'" "fgpid (jobs (jl sh')) = 0"
    "printed sh' = printed ?sh @ [MStopped 1 7 20]"
    using sigchld_handler_foreground [of ?sh 7 _ "[]" ?c "[]" "Stopped 20"] by auto
  then show ?thesis by (auto simp: new_shell_def)
qed

text \<open>C38. Children that end while no job is in the foreground are never reaped: the handler
  then calls \<open>waitpid(0, \<dots>)\<close>, which waits for the process group of the shell, and every job
  has a group of its own. Whatever happens to background jobs, the job list stays as it is and
  nothing is printed.\<close>

theorem background_jobs_never_reaped:
  assumes "own_groups sh" and "fgpid (jobs (jl sh)) = 0"
  shows "\<exists>sh'. deliver_all (map (\<lambda>(q, st). Change q st) cs) sh = Done sh'
    \<and> jl sh' = jl sh \<and> printed sh' = printed sh \<and> map cpid (kids sh') = map cpid (kids sh)"
  using assms
proof (induction cs arbitrary: sh)
  case (Cons e cs)
  obtain q st where e: "e = (q, st)" by (cases e)
  have "sigchld_handler (note_change q st sh) = Done (note_change q st sh)"
    by (rule no_fg_no_reap) (use Cons.prems in simp_all)
  moreover obtain sh' where "deliver_all (map (\<lambda>(q, st). Change q st) cs) (note_change q st sh) = Done sh'"
    "jl sh' = jl (note_change q st sh)" "printed sh' = printed (note_change q st sh)"
    "map cpid (kids sh') = map cpid (kids (note_change q st sh))"
    using Cons.IH [of "note_change q st sh"] Cons.prems by auto
  moreover have "map cpid (kids (note_change q st sh)) = map cpid (kids sh)" by (simp add: note_change_def)
  ultimately show ?case by (simp add: e deliver_def)
qed simp

theorem background_jobs_never_reaped_witness:
  "\<exists>sh'. deliver_all [Change 7 (Exited 0), Change 7 (Signaled 2)]
      (new_shell\<lparr>kids := [\<lparr>cpid = 7, cpgid = 7, changed = None\<rparr>]\<rparr>) = Done sh'
    \<and> map cpid (kids sh') = [7]"
proof -
  let ?sh = "new_shell\<lparr>kids := [\<lparr>cpid = 7, cpgid = 7, changed = None\<rparr>]\<rparr>"
  have "own_groups ?sh" by (simp add: own_groups_def new_shell_def)
  moreover have "fgpid (jobs (jl ?sh)) = 0" by (simp add: new_shell_def) code_simp
  ultimately show ?thesis
    using background_jobs_never_reaped [of ?sh "[(7, Exited 0), (7, Signaled 2)]"] by auto
qed

text \<open>Ctrl-c and ctrl-z go to the process group of the foreground job and to no other, and
  change nothing in the shell; without a foreground job nothing is sent.\<close>

theorem keyboard_signals_to_foreground:
  assumes "jobs_inv (jl sh)" and "\<forall>p j. job_of (jl sh) p = Some j \<longrightarrow> (\<exists>c \<in> set (kids sh). cpgid c = p)"
  shows "forward_signal s sh = Done (sh\<lparr>sent := sent sh @
      (if fgpid (jobs (jl sh)) = 0 then [] else [(fgpid (jobs (jl sh)), s)])\<rparr>)
    \<and> (fgpid (jobs (jl sh)) \<noteq> 0 \<longrightarrow> (\<exists>j. job_of (jl sh) (fgpid (jobs (jl sh))) = Some j \<and> state j = FG))"
proof (cases "fgpid (jobs (jl sh)) = 0")
  case False
  then obtain j where j: "job_of (jl sh) (fgpid (jobs (jl sh))) = Some j" "state j = FG"
    using job_table.fg_look [OF assms(1)] by auto
  then have "\<exists>c \<in> set (kids sh). cpgid c = fgpid (jobs (jl sh))" using assms(2) by blast
  then show ?thesis using False j by (simp add: forward_signal_def kill_group_def Let_def)
qed (simp add: forward_signal_def Let_def)

theorem keyboard_signals_to_foreground_witness:
  "forward_signal 2 new_shell = Done (new_shell\<lparr>sent := []\<rparr>)"
proof -
  have "fgpid (jobs (jl new_shell)) = 0" by code_simp
  moreover have "sent new_shell = []" by (simp add: new_shell_def)
  ultimately show ?thesis
    using keyboard_signals_to_foreground [of new_shell 2] new_shell_prompt by (simp add: at_prompt_def)
qed

text \<open>The command that \<open>eval\<close> classifies and executes is not the one on the command line but
  the stale contents of \<open>argv\<close>: with an empty stale array every command is ignored, and
  otherwise the child runs the stale program, whatever was typed, while the job list records
  the text that was typed.\<close>

theorem eval_runs_stale_argv:
  assumes "at_prompt sh" and "job_of (jl sh) p = None" and "1 \<le> p" and "has_room (jl sh)"
    and "hd stale \<notin> {''quit'', ''jobs'', ''bg'', ''fg''}" and "stale \<noteq> []"
    and "parseline cmd = Some (argv, True)"
  shows "eval [] blocked p early cmd es sh = Some (Done (sh, es))
    \<and> (\<exists>sh'. eval stale True p [] cmd es sh = Some (Done (sh', es))
        \<and> execs sh' = execs sh @ [(p, stale)]
        \<and> (\<exists>j. job_of (jl sh') p = Some j \<and> cmdline j = cmd \<and> state j = BG))"
proof
  show "eval [] blocked p early cmd es sh = Some (Done (sh, es))" by (simp add: eval_def)
  have inv: "jobs_inv (jl sh)" using assms(1) by (simp add: at_prompt_def)
  obtain x xs where st: "stale = x # xs" using assms(6) by (cases stale) auto
  have b: "builtin_cmd stale es sh = Some (Done ((sh, es), False))"
    using assms(5) by (simp add: builtin_cmd_def st)
  let ?f = "forked p stale sh"
  let ?sh = "add_job p BG cmd ?f"
  have "jl ?sh = fst (addjob p BG cmd (jl sh))" and ex: "execs ?sh = execs sh @ [(p, stale)]"
    by (simp_all add: add_job_def print_def Let_def forked_def split: prod.split)
  then have j: "job_of (jl ?sh) p = Some \<lparr>pid = p, jid = nextjid (jl sh), state = BG, cmdline = cmd\<rparr>"
    using job_of_add [OF inv assms(2) _ assms(3,4), of BG cmd] by simp
  have "eval stale True p [] cmd es sh = Some (Done (print (MJob (pid2jid p (jobs (jl ?sh))) p cmd) ?sh, es))"
    using assms(3,6,7) b by (simp add: eval_def after_fork_def Let_def)
  then show "\<exists>sh'. eval stale True p [] cmd es sh = Some (Done (sh', es))
        \<and> execs sh' = execs sh @ [(p, stale)]
        \<and> (\<exists>j. job_of (jl sh') p = Some j \<and> cmdline j = cmd \<and> state j = BG)"
    using ex j by (simp add: print_def)
qed

theorem eval_runs_stale_argv_witness:
  "\<exists>sh'. eval [''/bin/rm'', ''x''] True 7 [] (''/bin/ls &'' @ [CHR 0x0A]) [] new_shell = Some (Done (sh', []))
     \<and> execs sh' = [(7, [''/bin/rm'', ''x''])]"
proof -
  have "parseline (''/bin/ls &'' @ [CHR 0x0A]) = Some ([''/bin/ls''], True)" by code_simp
  moreover have "has_room (jl new_shell)" by (simp add: has_room_def new_shell_def initjobs_def)
  moreover have "execs new_shell = []" by (simp add: new_shell_def)
  ultimately show ?thesis
    using eval_runs_stale_argv [OF new_shell_prompt, of 7 "[''/bin/rm'', ''x'']" "''/bin/ls &'' @ [CHR 0x0A]"]
    by fastforce
qed

text \<open>The signal mask of \<open>eval\<close> is not initialised. If it happens to contain
  \<open>SIGCHLD\<close>, a child that ends at once is reaped after its job has been added, and the
  prompt comes back; if it does not, the handler runs too early, and the shell spins in
  \<open>waitfg\<close> for ever, whatever is typed at the keyboard.\<close>

theorem uninitialised_mask_hangs:
  "(\<exists>sh'. eval [''ls''] True 7 [(7, Exited 0)] (''ls'' @ [CHR 0x0A]) [] new_shell = Some (Done (sh', [])))
   \<and> eval [''ls''] False 7 [(7, Exited 0)] (''ls'' @ [CHR 0x0A]) (map Keyboard ss) new_shell = None"
proof
  have "case eval [''ls''] True 7 [(7, Exited 0)] (''ls'' @ [CHR 0x0A]) [] new_shell of
      Some (Done (sh', [])) \<Rightarrow> True | _ \<Rightarrow> False" by code_simp
  then show "\<exists>sh'. eval [''ls''] True 7 [(7, Exited 0)] (''ls'' @ [CHR 0x0A]) [] new_shell = Some (Done (sh', []))"
    by (auto split: option.splits res.splits prod.splits list.splits)
  have spin: "wait_slot i (map Keyboard ss) sh = None"
    if "state (jobs (jl sh) ! i) = FG" "\<exists>c \<in> set (kids sh). cpgid c = fgpid (jobs (jl sh))" for i ss sh
    using that
  proof (induction ss arbitrary: sh)
    case Nil
    then show ?case by (subst wait_slot.simps) simp
  next
    case (Cons s ss)
    have "deliver (Keyboard s) sh = Done (if fgpid (jobs (jl sh)) = 0 then sh
        else sh\<lparr>sent := sent sh @ [(fgpid (jobs (jl sh)), s)]\<rparr>)"
      using Cons.prems(2) by (simp add: deliver_def forward_signal_def kill_group_def Let_def)
    moreover have "wait_slot i (map Keyboard ss) (sh\<lparr>sent := l\<rparr>) = None" "wait_slot i (map Keyboard ss) sh = None" for l
      using Cons by simp_all
    ultimately show ?case using Cons.prems(1) by (subst wait_slot.simps) simp
  qed
  have "jobs_inv (jl new_shell)" by (simp add: new_shell_def jobs_inv_init)
  let ?f = "forked 7 [''ls''] new_shell"
  let ?d = "note_change 7 (Exited 0) ?f"
  have z: "fgpid (jobs (jl ?d)) = 0" by code_simp
  have "sigchld_handler ?d = Done ?d"
    by (rule no_fg_no_reap [OF _ z]) (simp add: own_groups_def forked_def new_shell_def note_change_def)
  then have d: "deliver_all [Change 7 (Exited 0)] ?f = Done ?d" by (simp add: deliver_def)
  have b: "builtin_cmd [''ls''] (map Keyboard ss) new_shell = Some (Done ((new_shell, map Keyboard ss), False))"
    by (simp add: builtin_cmd_def)
  have p: "parseline (''ls'' @ [CHR 0x0A]) = Some ([''ls''], False)" by code_simp
  let ?sh = "add_job 7 FG (''ls'' @ [CHR 0x0A]) ?d"
  have w: "getjobpid 7 (jobs (jl ?sh)) = Some 0" "state (jobs (jl ?sh) ! 0) = FG"
    "fgpid (jobs (jl ?sh)) = 7" "map cpgid (kids ?sh) = [7]" by code_simp+
  have "\<exists>c \<in> set (kids ?sh). cpgid c = fgpid (jobs (jl ?sh))" using w(3,4) by (cases "kids ?sh") auto
  then have "waitfg 7 (map Keyboard ss) ?sh = None" using spin [OF w(2)] w(1) by (simp add: waitfg_def)
  then show "eval [''ls''] False 7 [(7, Exited 0)] (''ls'' @ [CHR 0x0A]) (map Keyboard ss) new_shell = None"
    using b d p by (simp add: eval_def Let_def)
qed

text \<open>The error paths of \<open>bg\<close> and \<open>fg\<close>: a missing argument, one that is not a number, and
  a job or process that does not exist give their message and change nothing else.\<close>

theorem do_bgfg_errors:
  assumes "cmd \<in> {''bg'', ''fg''}"
  shows "do_bgfg [cmd] es sh = Some (Done (print (MNeedArg cmd) sh, es))
    \<and> (\<not> list_all is_digit (if take 1 arg = ''%'' then drop 1 arg else arg) \<longrightarrow>
        do_bgfg [cmd, arg] es sh = Some (Done (print (MBadArg cmd) sh, es)))
    \<and> (list_all is_digit arg \<and> atoi arg = Some p \<and> job_of (jl sh) p = None \<longrightarrow>
        do_bgfg [cmd, arg] es sh = Some (Done (print (MNoProcess arg) sh, es)))
    \<and> (list_all is_digit arg \<and> atoi arg = Some n \<and> getjobjid n (jobs (jl sh)) = None \<longrightarrow>
        do_bgfg [cmd, CHR ''%'' # arg] es sh = Some (Done (print (MNoJob (CHR ''%'' # arg)) sh, es)))"
proof -
  have "take 1 arg \<noteq> ''%''" if "list_all is_digit arg"
    using that by (cases arg) (auto simp: is_digit_def)
  then show ?thesis by (simp add: do_bgfg_def job_of_def Let_def)
qed

theorem do_bgfg_errors_witness:
  "do_bgfg [''fg'', ''12''] [] new_shell = Some (Done (print (MNoProcess ''12'') new_shell, []))"
proof -
  have "list_all is_digit ''12''" "atoi ''12'' = Some 12" by code_simp+
  then show ?thesis using do_bgfg_errors [of "''fg''" "[]" new_shell "''12''" 12 12] new_shell_prompt(2) by simp
qed

end
