(* ===== verification/Robust_IO.thy ===== *)
theory Robust_IO
  imports Lab_Prelude "HOL-Library.Signed_Division"
begin

text \<open>
  The Rio package and the signal-safe number printing of \<open>proxylab/csapp.c\<close>.

  A descriptor is the list of what its next \<open>read\<close> calls meet: bytes that are there,
  an interruption, or an error; behind the list is the end of file. A call takes what it asks
  for from the first entry and leaves the rest, so that short counts of any kind are
  possible. A descriptor written to is the list of what the next \<open>write\<close> calls accept.
\<close>

section \<open>System calls\<close>

type_synonym bytes = "8 word list"

datatype chunk = Data bytes | Interrupted | Failing

datatype read_result = Bytes bytes | Eintr | Error

type_synonym source = "chunk list"

fun sys_read :: "nat \<Rightarrow> source \<Rightarrow> read_result \<times> source" where
  "sys_read n [] = (Bytes [], [])"
| "sys_read n (Interrupted # s) = (Eintr, s)"
| "sys_read n (Failing # s) = (Error, s)"
| "sys_read n (Data bs # s) = (if length bs \<le> n then (Bytes bs, s) else (Bytes (take n bs), Data (drop n bs) # s))"

datatype room = Accepts nat | WInterrupted | WFailing

record sink =
  rooms :: "room list"
  errno_eintr :: bool
  written :: bytes

text \<open>\<open>write\<close> returns the count, or -1 with \<open>errno\<close> set; a successful call leaves
  \<open>errno\<close> alone. Behind the list everything is accepted.\<close>

definition sys_write :: "bytes \<Rightarrow> sink \<Rightarrow> int \<times> sink" where
  "sys_write bs k =
     (case rooms k of
        [] \<Rightarrow> (int (length bs), k\<lparr>written := written k @ bs\<rparr>)
      | Accepts n # r \<Rightarrow> (int (min n (length bs)), k\<lparr>rooms := r, written := written k @ take n bs\<rparr>)
      | WInterrupted # r \<Rightarrow> (-1, k\<lparr>rooms := r, errno_eintr := True\<rparr>)
      | WFailing # r \<Rightarrow> (-1, k\<lparr>rooms := r, errno_eintr := False\<rparr>))"

section \<open>Unbuffered reading and writing\<close>

text \<open>The bytes stored in the user buffer, with the return value \<open>None\<close> for -1.\<close>

lemma sys_read_shrinks:
  "sys_read n s = (Eintr, s') \<Longrightarrow> length s' < length s"
  "sys_read n s = (Bytes bs, s') \<Longrightarrow> length s' \<le> length s"
  by (induction n s rule: sys_read.induct) (auto split: if_splits)

function readn_loop :: "nat \<Rightarrow> bytes \<Rightarrow> source \<Rightarrow> bytes option \<times> source" where
  "readn_loop nleft got s =
     (if nleft = 0 then (Some got, s)
      else case sys_read nleft s of
        (Eintr, s') \<Rightarrow> readn_loop nleft got s'
      | (Error, s') \<Rightarrow> (None, s')
      | (Bytes bs, s') \<Rightarrow> if bs = [] then (Some got, s') else readn_loop (nleft - length bs) (got @ bs) s')"
  by pat_completeness auto
termination readn_loop
  by (relation "measure (\<lambda>(n, got, s). n + length s)")
    (auto dest!: sym [of "(_, _)"] sys_read_shrinks simp: less_le_trans diff_less add_mono_thms_linordered_field)

declare readn_loop.simps [simp del]

definition rio_readn :: "nat \<Rightarrow> source \<Rightarrow> bytes option \<times> source" where
  "rio_readn n s = readn_loop n [] s"

text \<open>\<open>rio_writen\<close>: a result of 0 or less is taken for an interruption when \<open>errno\<close> says
  so, which after a count of 0 is what an earlier call left there.\<close>

lemma sys_write_progress:
  "sys_write bs k = (r, k') \<Longrightarrow>
     length (rooms k') \<le> length (rooms k) \<and> (rooms k \<noteq> [] \<longrightarrow> length (rooms k') < length (rooms k))
     \<and> (rooms k = [] \<longrightarrow> r = int (length bs))"
  by (auto simp: sys_write_def split: list.splits room.splits)

function rio_writen :: "bytes \<Rightarrow> sink \<Rightarrow> int \<times> sink" where
  "rio_writen bs k =
     (if bs = [] then (0, k)
      else case sys_write bs k of (r, k') \<Rightarrow>
        if r \<le> 0
        then if errno_eintr k' then (case rio_writen bs k' of (n, k'') \<Rightarrow> (if n < 0 then -1 else int (length bs), k''))
             else (-1, k')
        else (case rio_writen (drop (nat r) bs) k' of (n, k'') \<Rightarrow> (if n < 0 then -1 else int (length bs), k'')))"
  by pat_completeness auto
termination rio_writen
proof (relation "measure (\<lambda>(bs, k). length bs + length (rooms k))", goal_cases)
  case (2 bs k r k')
  then show ?case using sys_write_progress [OF 2(2) [symmetric]] by (cases "rooms k = []") auto
next
  case (3 bs k r k')
  then show ?case using sys_write_progress [OF 3(2) [symmetric]] by auto
qed simp

declare rio_writen.simps [simp del]

section \<open>Buffered reading\<close>

definition RIO_BUFSIZE :: nat where "RIO_BUFSIZE = 8192"

record rio_t =
  rio_fd :: source
  rio_cnt :: int
  rio_bufptr :: nat
  rio_buf :: bytes

definition rio_readinitb :: "rio_t \<Rightarrow> source \<Rightarrow> rio_t" where
  "rio_readinitb rp fd = rp\<lparr>rio_fd := fd, rio_cnt := 0, rio_bufptr := 0\<rparr>"

text \<open>The refill loop: \<open>Some\<close> is what \<open>rio_read\<close> then returns at once (0 or -1).\<close>

function refill :: "rio_t \<Rightarrow> int option \<times> rio_t" where
  "refill rp =
     (if 0 < rio_cnt rp then (None, rp)
      else case sys_read RIO_BUFSIZE (rio_fd rp) of
        (Eintr, s) \<Rightarrow> refill (rp\<lparr>rio_fd := s, rio_cnt := -1\<rparr>)
      | (Error, s) \<Rightarrow> (Some (-1), rp\<lparr>rio_fd := s, rio_cnt := -1\<rparr>)
      | (Bytes bs, s) \<Rightarrow>
          if bs = [] then (Some 0, rp\<lparr>rio_fd := s, rio_cnt := 0\<rparr>)
          else (None, rp\<lparr>rio_fd := s, rio_cnt := int (length bs), rio_bufptr := 0,
                            rio_buf := bs @ drop (length bs) (rio_buf rp)\<rparr>))"
  by pat_completeness auto
termination refill
  by (relation "measure (\<lambda>rp. length (rio_fd rp))") (auto dest!: sym [of "(_, _)"] sys_read_shrinks)

declare refill.simps [simp del]

text \<open>\<open>rio_read\<close> with the bytes it copies out.\<close>

definition rio_read :: "rio_t \<Rightarrow> nat \<Rightarrow> (int \<times> bytes) \<times> rio_t" where
  "rio_read rp n =
     (case refill rp of
        (Some r, rp) \<Rightarrow> ((r, []), rp)
      | (None, rp) \<Rightarrow>
          (let cnt = (if rio_cnt rp < int n then rio_cnt rp else int n) in
           ((cnt, take (nat cnt) (drop (rio_bufptr rp) (rio_buf rp))),
            rp\<lparr>rio_bufptr := rio_bufptr rp + nat cnt, rio_cnt := rio_cnt rp - cnt\<rparr>)))"

function readnb_loop :: "nat \<Rightarrow> bytes \<Rightarrow> rio_t \<Rightarrow> bytes option \<times> rio_t" where
  "readnb_loop nleft got rp =
     (if nleft = 0 then (Some got, rp)
      else case rio_read rp nleft of ((r, bs), rp) \<Rightarrow>
        if r < 0 then (None, rp)
        else if r = 0 then (Some got, rp)
        else readnb_loop (nleft - nat r) (got @ bs) rp)"
  by pat_completeness auto
termination readnb_loop by (relation "measure (\<lambda>(n, got, rp). n)") auto

declare readnb_loop.simps [simp del]

definition rio_readnb :: "rio_t \<Rightarrow> nat \<Rightarrow> bytes option \<times> rio_t" where
  "rio_readnb rp n = readnb_loop n [] rp"

text \<open>\<open>rio_readlineb\<close>: the loop with \<open>n\<close> from 1 while \<open>n < maxlen\<close>. The result is the
  return value, with the bytes stored and whether the terminating NUL was stored.\<close>

fun readline_loop :: "nat \<Rightarrow> bytes \<Rightarrow> rio_t \<Rightarrow> (int \<times> bytes \<times> bool) \<times> rio_t" where
  "readline_loop 0 got rp = ((int (length got), got, True), rp)"
| "readline_loop (Suc f) got rp =
     (case rio_read rp 1 of ((rc, bs), rp) \<Rightarrow>
        if rc = 1
        then (let c = hd bs; got = got @ [c] in
              if c = 10 then ((int (length got), got, True), rp) else readline_loop f got rp)
        else if rc = 0
        then (if got = [] then ((0, [], False), rp) else ((int (length got), got, True), rp))
        else ((-1, got, False), rp))"

definition rio_readlineb :: "rio_t \<Rightarrow> nat \<Rightarrow> (int \<times> bytes \<times> bool) \<times> rio_t" where
  "rio_readlineb rp maxlen = readline_loop (maxlen - 1) [] rp"

section \<open>Wrappers\<close>

text \<open>The wrappers end the process where the routine failed.\<close>

datatype 'a call_result = Returns 'a | Exits

definition Rio_readn :: "nat \<Rightarrow> source \<Rightarrow> (bytes \<times> source) call_result" where
  "Rio_readn n s = (case rio_readn n s of (Some bs, s') \<Rightarrow> Returns (bs, s') | (None, _) \<Rightarrow> Exits)"

definition Rio_writen :: "bytes \<Rightarrow> sink \<Rightarrow> sink call_result" where
  "Rio_writen bs k = (case rio_writen bs k of (n, k') \<Rightarrow> if n \<noteq> int (length bs) then Exits else Returns k')"

definition Rio_readinitb :: "rio_t \<Rightarrow> source \<Rightarrow> rio_t" where
  "Rio_readinitb rp fd = rio_readinitb rp fd"

definition Rio_readnb :: "rio_t \<Rightarrow> nat \<Rightarrow> (bytes \<times> rio_t) call_result" where
  "Rio_readnb rp n = (case rio_readnb rp n of (Some bs, rp') \<Rightarrow> Returns (bs, rp') | (None, _) \<Rightarrow> Exits)"

definition Rio_readlineb :: "rio_t \<Rightarrow> nat \<Rightarrow> ((int \<times> bytes \<times> bool) \<times> rio_t) call_result" where
  "Rio_readlineb rp maxlen =
     (case rio_readlineb rp maxlen of ((rc, r), rp') \<Rightarrow> if rc < 0 then Exits else Returns ((rc, r), rp'))"

section \<open>Printing numbers in signal handlers\<close>

text \<open>\<open>sio_reverse\<close> swaps inwards from both ends; \<open>j\<close> is -1 for the empty string.\<close>

function reverse_from :: "int \<Rightarrow> int \<Rightarrow> 'a list \<Rightarrow> 'a list" where
  "reverse_from i j s =
     (if i < j then reverse_from (i + 1) (j - 1) (s[nat i := s ! nat j, nat j := s ! nat i]) else s)"
  by pat_completeness auto
termination reverse_from by (relation "measure (\<lambda>(i, j, s). nat (j - i))") auto

declare reverse_from.simps [simp del]

definition sio_reverse :: "'a list \<Rightarrow> 'a list" where
  "sio_reverse s = reverse_from 0 (int (length s) - 1) s"

text \<open>The digits of \<open>sio_ltoa\<close>, least significant first, with C's truncating division;
  \<open>None\<close> is a division by zero or a loop without end. A character is its code.\<close>

definition digit_char :: "int \<Rightarrow> int \<Rightarrow> 8 word" where
  "digit_char v b = (let c = v smod b in word_of_int (if c < 10 then c + 48 else c - 10 + 97))"

partial_function (option) ltoa_digits :: "int \<Rightarrow> int \<Rightarrow> bytes option" where
  "ltoa_digits v b =
     (if b = 0 then None
      else if v sdiv b > 0 then Option.bind (ltoa_digits (v sdiv b) b) (\<lambda>ds. Some (digit_char v b # ds))
      else Some [digit_char v b])"

declare ltoa_digits.simps [code]

definition sio_ltoa :: "int \<Rightarrow> int \<Rightarrow> bytes option" where
  "sio_ltoa v b = map_option sio_reverse (ltoa_digits v b)"

text \<open>\<open>sio_strlen\<close> on memory that holds the string and a NUL.\<close>

fun strlen_from :: "nat \<Rightarrow> bytes \<Rightarrow> nat option" where
  "strlen_from i [] = None"
| "strlen_from i (c # cs) = (if c \<noteq> 0 then strlen_from (Suc i) cs else Some i)"

definition sio_strlen :: "bytes \<Rightarrow> nat option" where
  "sio_strlen s = strlen_from 0 s"

text \<open>\<open>sio_puts\<close> makes one \<open>write\<close> call; \<open>sio_putl\<close> prints into an array of 128 characters.\<close>

definition sio_puts :: "bytes \<Rightarrow> sink \<Rightarrow> (int \<times> sink) option" where
  "sio_puts s k = map_option (\<lambda>n. sys_write (take n s) k) (sio_strlen s)"

definition sio_putl :: "int \<Rightarrow> sink \<Rightarrow> (int \<times> sink) option" where
  "sio_putl v k =
     (case sio_ltoa v 10 of None \<Rightarrow> None
      | Some ds \<Rightarrow> if length ds < 128 then sio_puts (ds @ [0]) k else None)"

definition Sio_putl :: "int \<Rightarrow> sink \<Rightarrow> (int \<times> sink) call_result option" where
  "Sio_putl v k = map_option (\<lambda>(n, k'). if n < 0 then Exits else Returns (n, k')) (sio_putl v k)"

section \<open>The stream behind a descriptor\<close>

text \<open>What the peer has sent, in order, when nothing fails.\<close>

fun incoming :: "source \<Rightarrow> bytes" where
  "incoming [] = []"
| "incoming (Data bs # s) = bs @ incoming s"
| "incoming (_ # s) = incoming s"

definition clean :: "source \<Rightarrow> bool" where
  "clean s \<longleftrightarrow> Failing \<notin> set s \<and> Data [] \<notin> set s"

lemma sys_read_clean:
  assumes "clean s" and "sys_read n s = (r, s')" and "0 < n"
  shows "clean s'" and "r \<noteq> Error"
    and "r = Eintr \<Longrightarrow> incoming s' = incoming s"
    and "r = Bytes bs \<Longrightarrow> incoming s = bs @ incoming s' \<and> length bs \<le> n"
    and "r = Bytes [] \<Longrightarrow> s = []"
  using assms by (induction n s rule: sys_read.induct) (auto simp: clean_def split: if_splits)

lemma readn_loop_clean:
  assumes "clean s"
  shows "\<exists>s'. readn_loop n got s = (Some (got @ take n (incoming s)), s')
    \<and> incoming s' = drop n (incoming s) \<and> clean s'"
  using assms
proof (induction n got s rule: readn_loop.induct)
  case (1 n got s)
  show ?case
  proof (cases "n = 0")
    case True
    then show ?thesis using 1(3) by (subst readn_loop.simps) simp
  next
    case False
    obtain r s' where r: "sys_read n s = (r, s')" by fastforce
    note c = sys_read_clean [OF 1(3) r]
    show ?thesis
    proof (cases r)
      case Eintr
      then show ?thesis using 1(2) [OF False r [symmetric] Eintr] c False r by (subst readn_loop.simps) simp
    next
      case Error
      then show ?thesis using c False by simp
    next
      case (Bytes bs)
      show ?thesis
      proof (cases "bs = []")
        case True
        then have "s = []" using c(5) Bytes False by simp
        then show ?thesis using False by (subst readn_loop.simps) (simp add: clean_def)
      next
        case ne: False
        have s: "incoming s = bs @ incoming s'" "length bs \<le> n" "clean s'" using c Bytes False by auto
        then show ?thesis using 1(1) [OF False r [symmetric] Bytes ne s(3)] False r Bytes ne
          by (subst readn_loop.simps) simp
      qed
    qed
  qed
qed

text \<open>The buffered stream: what is unread in the buffer, then what comes.\<close>

definition rio_inv :: "rio_t \<Rightarrow> bool" where
  "rio_inv rp \<longleftrightarrow> clean (rio_fd rp) \<and> (0 < rio_cnt rp \<longrightarrow> rio_bufptr rp + nat (rio_cnt rp) \<le> length (rio_buf rp))"

definition stream :: "rio_t \<Rightarrow> bytes" where
  "stream rp = take (nat (rio_cnt rp)) (drop (rio_bufptr rp) (rio_buf rp)) @ incoming (rio_fd rp)"

lemma stream_start [simp]: "stream (rio_readinitb rp fd) = incoming fd" "rio_inv (rio_readinitb rp fd) = clean fd"
  by (simp_all add: stream_def rio_inv_def rio_readinitb_def)

lemma refill_stream:
  assumes "rio_inv rp" and "refill rp = (r, rp')"
  shows "rio_inv rp' \<and> stream rp' = stream rp
    \<and> (if stream rp = [] then r = Some 0 else r = None \<and> 0 < rio_cnt rp')"
  using assms
proof (induction rp rule: refill.induct)
  case (1 rp)
  show ?case
  proof (cases "0 < rio_cnt rp")
    case True
    then have "rp' = rp" "r = None" using 1(3) refill.simps [of rp] by simp_all
    moreover have "0 < nat (rio_cnt rp)" "rio_bufptr rp + nat (rio_cnt rp) \<le> length (rio_buf rp)"
      using 1(2) True by (simp_all add: rio_inv_def)
    then have "stream rp \<noteq> []" by (auto simp: stream_def)
    ultimately show ?thesis using 1(2) True by simp
  next
    case False
    obtain q s where q: "sys_read RIO_BUFSIZE (rio_fd rp) = (q, s)" by fastforce
    have cl: "clean (rio_fd rp)" using 1(2) by (simp add: rio_inv_def)
    note c = sys_read_clean [OF cl q]
    have pos: "0 < RIO_BUFSIZE" by (simp add: RIO_BUFSIZE_def)
    have st: "stream rp = incoming (rio_fd rp)" using False by (simp add: stream_def)
    show ?thesis
    proof (cases q)
      case Eintr
      let ?rp = "rp\<lparr>rio_fd := s, rio_cnt := -1\<rparr>"
      have "refill ?rp = (r, rp')" using 1(3) False q Eintr refill.simps [of rp] by simp
      moreover have "rio_inv ?rp" "stream ?rp = stream rp"
        using c pos Eintr st by (simp_all add: rio_inv_def stream_def)
      ultimately show ?thesis using 1(1) [OF False q [symmetric] Eintr] by simp
    next
      case Error
      then show ?thesis using c(2) pos by simp
    next
      case (Bytes bs)
      show ?thesis
      proof (cases "bs = []")
        case True
        then have "rio_fd rp = []" using c(5) pos Bytes by simp
        then have "s = []" using q by simp
        then show ?thesis using 1(3) False q Bytes True refill.simps [of rp] st \<open>rio_fd rp = []\<close>
          by (auto simp: rio_inv_def stream_def clean_def)
      next
        case ne: False
        have s: "incoming (rio_fd rp) = bs @ incoming s" "clean s" using c pos Bytes by auto
        have "rp' = rp\<lparr>rio_fd := s, rio_cnt := int (length bs), rio_bufptr := 0,
            rio_buf := bs @ drop (length bs) (rio_buf rp)\<rparr>" "r = None"
          using 1(3) False q Bytes ne refill.simps [of rp] by simp_all
        then show ?thesis using s st ne by (simp add: rio_inv_def stream_def)
      qed
    qed
  qed
qed

lemma rio_read_stream:
  assumes "rio_inv rp" and "0 < n" and "rio_read rp n = ((r, bs), rp')"
  shows "rio_inv rp' \<and> stream rp = bs @ stream rp' \<and> r = int (length bs) \<and> length bs \<le> n
    \<and> (bs = [] \<longleftrightarrow> stream rp = [])"
proof -
  obtain q rp1 where q: "refill rp = (q, rp1)" by fastforce
  note f = refill_stream [OF assms(1) q]
  show ?thesis
  proof (cases "stream rp = []")
    case True
    then show ?thesis using f q assms(3) by (auto simp: rio_read_def)
  next
    case False
    then have i: "q = None" "0 < rio_cnt rp1" "rio_inv rp1" "stream rp1 = stream rp" using f by auto
    define cnt where "cnt = (if rio_cnt rp1 < int n then rio_cnt rp1 else int n)"
    have cnt: "0 < cnt" "cnt \<le> rio_cnt rp1" "cnt \<le> int n" using i(2) assms(2) by (auto simp: cnt_def)
    have len: "rio_bufptr rp1 + nat (rio_cnt rp1) \<le> length (rio_buf rp1)" using i by (simp add: rio_inv_def)
    have "rio_read rp n = ((cnt, take (nat cnt) (drop (rio_bufptr rp1) (rio_buf rp1))),
        rp1\<lparr>rio_bufptr := rio_bufptr rp1 + nat cnt, rio_cnt := rio_cnt rp1 - cnt\<rparr>)"
      unfolding rio_read_def q i(1) Let_def cnt_def by simp
    then have bs: "bs = take (nat cnt) (drop (rio_bufptr rp1) (rio_buf rp1))" and r: "r = cnt"
      and rp': "rp' = rp1\<lparr>rio_bufptr := rio_bufptr rp1 + nat cnt, rio_cnt := rio_cnt rp1 - cnt\<rparr>"
      unfolding assms(3) by simp_all
    have n: "nat (rio_cnt rp1) = nat cnt + nat (rio_cnt rp1 - cnt)" using cnt by simp
    let ?D = "drop (rio_bufptr rp1) (rio_buf rp1)"
    have "take (nat (rio_cnt rp1)) ?D = bs @ take (nat (rio_cnt rp1 - cnt)) (drop (nat cnt) ?D)"
      unfolding n bs by (rule take_add)
    then have "stream rp1 = bs @ stream rp'"
      unfolding stream_def rp' by (simp add: add.commute)
    moreover have lb: "length bs = nat cnt" using len cnt by (simp add: bs)
    moreover have "rio_inv rp'" using i(3) len n unfolding rio_inv_def rp' by (simp add: add.assoc)
    moreover have "bs \<noteq> []" using lb cnt(1) by auto
    moreover have "r = int (length bs)" using lb cnt(1) r by simp
    moreover have "length bs \<le> n" using lb cnt(3) by simp
    ultimately show ?thesis unfolding i(4) using False by blast
  qed
qed

lemma readnb_loop_stream:
  assumes "rio_inv rp"
  shows "\<exists>rp'. readnb_loop n got rp = (Some (got @ take n (stream rp)), rp')
    \<and> stream rp' = drop n (stream rp) \<and> rio_inv rp'"
  using assms
proof (induction n got rp rule: readnb_loop.induct)
  case (1 n got rp)
  show ?case
  proof (cases "n = 0")
    case True
    then show ?thesis using 1(2) by (subst readnb_loop.simps) simp
  next
    case False
    obtain r bs rp1 where r: "rio_read rp n = ((r, bs), rp1)" by (metis prod.exhaust)
    have s: "rio_inv rp1" "stream rp = bs @ stream rp1" "r = int (length bs)" "length bs \<le> n"
      "bs = [] \<longleftrightarrow> stream rp = []" using rio_read_stream [OF 1(2) _ r] False by blast+
    show ?thesis
    proof (cases "bs = []")
      case True
      then have "stream rp = []" using s(5) by blast
      then have e: "r = 0" "stream rp = []" "stream rp1 = []" using s(2,3) True by auto
      have "readnb_loop n got rp = (Some got, rp1)" using False r e(1) by (subst readnb_loop.simps) simp
      then show ?thesis using s(1) e by simp
    next
      case ne: False
      then have pos: "\<not> r < 0" "r \<noteq> 0" using s(3) by auto
      have step: "readnb_loop n got rp = readnb_loop (n - nat r) (got @ bs) rp1"
        using False r pos by (subst readnb_loop.simps) simp
      have n: "nat r = length bs" using s(3) by simp
      have "take n (stream rp) = bs @ take (n - nat r) (stream rp1)"
        "drop n (stream rp) = drop (n - nat r) (stream rp1)"
        unfolding s(2) n using s(4) by simp_all
      then show ?thesis using 1(1) [OF False r [symmetric] refl pos s(1)] unfolding step by simp
    qed
  qed
qed

text \<open>The line at the head of a stream, as \<open>rio_readlineb\<close> understands it: up to and
  including a newline, at most \<open>m\<close> bytes.\<close>

fun line_of :: "nat \<Rightarrow> bytes \<Rightarrow> bytes" where
  "line_of 0 bs = []"
| "line_of (Suc m) [] = []"
| "line_of (Suc m) (b # bs) = (if b = 10 then [b] else b # line_of m bs)"

lemma line_of_prefix: "bs = line_of m bs @ drop (length (line_of m bs)) bs" "length (line_of m bs) \<le> m"
  by (induction m bs rule: line_of.induct) auto

lemma readline_loop_stream:
  assumes "rio_inv rp"
  shows "\<exists>rp'. readline_loop m got rp =
      ((int (length (got @ line_of m (stream rp))), got @ line_of m (stream rp),
        \<not> (got = [] \<and> stream rp = [] \<and> 0 < m)), rp')
    \<and> stream rp' = drop (length (line_of m (stream rp))) (stream rp) \<and> rio_inv rp'"
  using assms
proof (induction m arbitrary: got rp)
  case (Suc m)
  obtain r bs rp1 where r: "rio_read rp 1 = ((r, bs), rp1)" by (metis prod.exhaust)
  have s: "rio_inv rp1" "stream rp = bs @ stream rp1" "r = int (length bs)" "length bs \<le> 1"
    "bs = [] \<longleftrightarrow> stream rp = []" using rio_read_stream [OF Suc.prems zero_less_one r] by blast+
  show ?case
  proof (cases bs)
    case Nil
    then have "stream rp = []" using s(5) by blast
    then have e: "r = 0" "stream rp = []" "stream rp1 = []" using s(2,3) Nil by auto
    then show ?thesis using r s(1) by simp
  next
    case (Cons b bs')
    then have b: "bs = [b]" using s(4) by simp
    have e: "r = 1" "stream rp = b # stream rp1" using s(2,3) b by simp_all
    show ?thesis
    proof (cases "b = 10")
      case True
      then show ?thesis using r s(1) e b by (simp add: Let_def)
    next
      case False
      then have "readline_loop (Suc m) got rp = readline_loop m (got @ [b]) rp1"
        using r e(1) b by (simp add: Let_def)
      then show ?thesis using Suc.IH [OF s(1), of "got @ [b]"] e(2) False by simp
    qed
  qed
qed simp

section \<open>A stream and its readers\<close>

text \<open>
  What a reader of requests relies on: an abstract stream of bytes; taking \<open>n\<close> bytes and
  taking a line remove exactly what they return from its front.
\<close>

locale byte_stream =
  fixes get :: "'r \<Rightarrow> nat \<Rightarrow> bytes \<times> 'r"
    and get_line :: "'r \<Rightarrow> nat \<Rightarrow> bytes \<times> 'r"
    and remaining :: "'r \<Rightarrow> bytes"
    and inv :: "'r \<Rightarrow> bool"
  assumes get_some: "inv r \<Longrightarrow> \<exists>r'. get r n = (take n (remaining r), r') \<and> inv r' \<and> remaining r' = drop n (remaining r)"
    and get_line_some: "inv r \<Longrightarrow> \<exists>r'. get_line r n = (line_of (n - 1) (remaining r), r') \<and> inv r'
       \<and> remaining r' = drop (length (line_of (n - 1) (remaining r))) (remaining r)"
begin

text \<open>A request is a number of bytes (\<open>Inl\<close>) or a line (\<open>Inr\<close>).\<close>

fun serve :: "(nat + nat) list \<Rightarrow> 'r \<Rightarrow> bytes list \<times> 'r" where
  "serve [] r = ([], r)"
| "serve (q # qs) r =
     (case (case q of Inl n \<Rightarrow> get r n | Inr n \<Rightarrow> get_line r n) of (bs, r) \<Rightarrow>
        case serve qs r of (bss, r) \<Rightarrow> (bs # bss, r))"

lemma serve_in_order:
  "inv r \<Longrightarrow> concat (fst (serve qs r)) @ remaining (snd (serve qs r)) = remaining r"
proof (induction qs arbitrary: r)
  case (Cons q qs)
  show ?case
  proof (cases q)
    case (Inl n)
    then obtain r' where r': "get r n = (take n (remaining r), r')" "inv r'"
      "remaining r' = drop n (remaining r)"
      using get_some [OF Cons.prems] by blast
    obtain bss r'' where "serve qs r' = (bss, r'')" by fastforce
    then show ?thesis using Inl Cons.IH [of r'] r' append_take_drop_id [of n "remaining r"] by simp
  next
    case (Inr n)
    then obtain r' where "get_line r n = (line_of (n - 1) (remaining r), r')" "inv r'"
      "remaining r' = drop (length (line_of (n - 1) (remaining r))) (remaining r)"
      using get_line_some [OF Cons.prems] by blast
    moreover obtain bss r'' where "serve qs r' = (bss, r'')" by fastforce
    ultimately show ?thesis using Inr Cons.IH [of r'] line_of_prefix(1) [of "remaining r" "n - 1"] by simp
  qed
qed simp

end

text \<open>The buffered readers as functions on descriptors that never fail.\<close>

definition get_bytes :: "rio_t \<Rightarrow> nat \<Rightarrow> bytes \<times> rio_t" where
  "get_bytes rp n = (case rio_readnb rp n of (r, rp') \<Rightarrow> (case r of Some bs \<Rightarrow> bs | None \<Rightarrow> [], rp'))"

definition get_text :: "rio_t \<Rightarrow> nat \<Rightarrow> bytes \<times> rio_t" where
  "get_text rp n = (case rio_readlineb rp n of ((_, bs, _), rp') \<Rightarrow> (bs, rp'))"

interpretation rio: byte_stream get_bytes get_text stream rio_inv
proof unfold_locales
  fix r :: rio_t and n :: nat
  assume inv: "rio_inv r"
  show "\<exists>r'. get_bytes r n = (take n (stream r), r') \<and> rio_inv r' \<and> stream r' = drop n (stream r)"
    using readnb_loop_stream [OF inv, of n "[]"] by (auto simp: get_bytes_def rio_readnb_def)
  show "\<exists>r'. get_text r n = (line_of (n - 1) (stream r), r') \<and> rio_inv r'
       \<and> stream r' = drop (length (line_of (n - 1) (stream r))) (stream r)"
    using readline_loop_stream [OF inv, of "n - 1" "[]"] by (auto simp: get_text_def rio_readlineb_def)
qed

section \<open>Properties\<close>

text \<open>C20. The buffered readers are independent of how the bytes arrive: on a descriptor that
  does not fail, whatever the sizes of the pieces, interruptions and refills,
  \<open>rio_readnb\<close> returns the next \<open>n\<close> bytes of what the peer sent (fewer only at the end),
  \<open>rio_readlineb\<close> the next line, at most \<open>maxlen - 1\<close> bytes of it, NUL-terminated unless
  there was nothing at all to read, and both leave exactly the rest.\<close>

theorem buffered_reads_follow_stream:
  assumes "rio_inv rp" and "1 \<le> maxlen"
  shows "(\<exists>rp'. rio_readnb rp n = (Some (take n (stream rp)), rp')
        \<and> stream rp' = drop n (stream rp) \<and> rio_inv rp')
    \<and> (\<exists>rp' nul. rio_readlineb rp maxlen =
          ((int (length (line_of (maxlen - 1) (stream rp))), line_of (maxlen - 1) (stream rp), nul), rp')
        \<and> (nul \<longleftrightarrow> stream rp \<noteq> [] \<or> maxlen = 1)
        \<and> line_of (maxlen - 1) (stream rp) @ stream rp' = stream rp \<and> rio_inv rp')"
proof -
  have "line_of (maxlen - 1) (stream rp) @ drop (length (line_of (maxlen - 1) (stream rp))) (stream rp) = stream rp"
    using line_of_prefix(1) [of "stream rp" "maxlen - 1"] by simp
  then show ?thesis
    using readnb_loop_stream [OF assms(1), of n "[]"] readline_loop_stream [OF assms(1), of "maxlen - 1" "[]"] assms(2)
    by (auto simp: rio_readnb_def rio_readlineb_def)
qed

definition rio0 :: rio_t where
  "rio0 = \<lparr>rio_fd = [Data [71, 69], Interrupted, Data [84, 10, 65]], rio_cnt = 0, rio_bufptr = 0,
     rio_buf = replicate RIO_BUFSIZE 0\<rparr>"

theorem buffered_reads_follow_stream_witness:
  "fst (rio_readnb rio0 3) = Some [71, 69, 84] \<and> fst (fst (rio_readlineb rio0 100)) = 4"
proof -
  have s: "rio_inv rio0" "stream rio0 = [71, 69, 84, 10, 65]" by (simp_all add: rio_inv_def rio0_def clean_def stream_def)
  have "line_of (100 - 1) [71, 69, 84, 10, 65] = [71, 69, 84, 10]" "take 3 (stream rio0) = [71, 69, 84]"
    unfolding s by code_simp+
  then show ?thesis using buffered_reads_follow_stream [of rio0 100 3] s by auto
qed

text \<open>Any mixture of byte reads and line reads on one descriptor hands out every byte the
  peer sent once and in order.\<close>

theorem mixed_reads_lose_nothing:
  assumes "clean fd"
  shows "concat (fst (rio.serve qs (rio_readinitb rp fd))) @ stream (snd (rio.serve qs (rio_readinitb rp fd))) = incoming fd"
  using rio.serve_in_order [of "rio_readinitb rp fd" qs] assms by simp

theorem mixed_reads_lose_nothing_witness:
  "concat (fst (rio.serve [Inr 10, Inl 1] (rio_readinitb rio0 (rio_fd rio0))))
     @ stream (snd (rio.serve [Inr 10, Inl 1] (rio_readinitb rio0 (rio_fd rio0)))) = [71, 69, 84, 10, 65]"
  using mixed_reads_lose_nothing [of "rio_fd rio0" "[Inr 10, Inl 1]" rio0] by (simp add: rio0_def clean_def)

lemma rio_writen_all:
  assumes "WFailing \<notin> set (rooms k)" and "Accepts 0 \<notin> set (rooms k)"
  shows "fst (rio_writen bs k) = int (length bs) \<and> written (snd (rio_writen bs k)) = written k @ bs"
  using assms
proof (induction bs k rule: rio_writen.induct)
  case (1 bs k)
  show ?case
  proof (cases "bs = []")
    case True
    then show ?thesis by (subst (1 2) rio_writen.simps) simp
  next
    case False
    obtain r k' where w: "sys_write bs k = (r, k')" by fastforce
    have k': "WFailing \<notin> set (rooms k')" "Accepts 0 \<notin> set (rooms k')"
      using w 1(3,4) by (auto simp: sys_write_def split: list.splits room.splits)
    show ?thesis
    proof (cases "r \<le> 0")
      case True
      then have e: "errno_eintr k'" "written k' = written k"
        using w 1(3,4) False by (auto simp: sys_write_def min_def split: list.splits room.splits if_splits)
      obtain n k'' where n: "rio_writen bs k' = (n, k'')" by fastforce
      show ?thesis using 1(1) [OF False w [symmetric] True e(1) k'] False w True e n
        by (subst (1 2) rio_writen.simps) simp
    next
      case pos: False
      have e: "written k' = written k @ take (nat r) bs"
        using w pos by (auto simp: sys_write_def min_def split: list.splits room.splits if_splits)
      obtain n k'' where n: "rio_writen (drop (nat r) bs) k' = (n, k'')" by fastforce
      show ?thesis using 1(2) [OF False w [symmetric] pos k'] False w pos e n
        by (subst (1 2) rio_writen.simps) simp
    qed
  qed
qed

text \<open>\<open>rio_readn\<close> is the same without a buffer, and \<open>rio_writen\<close> writes everything, in
  order, whatever the short counts and interruptions, as long as no call fails.\<close>

theorem unbuffered_transfer:
  assumes "clean s" and "WFailing \<notin> set (rooms k)" and "Accepts 0 \<notin> set (rooms k)"
  shows "(\<exists>s'. rio_readn n s = (Some (take n (incoming s)), s') \<and> incoming s' = drop n (incoming s))
    \<and> (\<exists>k'. Rio_writen bs k = Returns k' \<and> written k' = written k @ bs)"
proof -
  have "\<exists>s'. rio_readn n s = (Some (take n (incoming s)), s') \<and> incoming s' = drop n (incoming s)"
    using readn_loop_clean [OF assms(1), of n "[]"] by (auto simp: rio_readn_def)
  moreover have "\<exists>k'. Rio_writen bs k = Returns k' \<and> written k' = written k @ bs"
    using rio_writen_all [OF assms(2,3), of bs] by (auto simp: Rio_writen_def split: prod.splits)
  ultimately show ?thesis by blast
qed

theorem unbuffered_transfer_witness:
  "\<exists>k'. Rio_writen [1, 2, 3] \<lparr>rooms = [Accepts 1, WInterrupted, Accepts 7], errno_eintr = False, written = []\<rparr> = Returns k'
     \<and> written k' = [1, 2, 3]"
  using unbuffered_transfer [of "[]" "\<lparr>rooms = [Accepts 1, WInterrupted, Accepts 7], errno_eintr = False, written = []\<rparr>" 0 "[1, 2, 3]"]
  by (simp add: clean_def)

section \<open>Number printing\<close>

lemma reverse_from_segment:
  "reverse_from (int (length xs)) (int (length xs + length mid) - 1) (xs @ mid @ ys) = xs @ rev mid @ ys"
proof (induction "length mid" arbitrary: xs mid ys rule: less_induct)
  case less
  show ?case
  proof (cases mid)
    case Nil
    then show ?thesis by (subst reverse_from.simps) simp
  next
    case (Cons a m)
    show ?thesis
    proof (cases m rule: rev_cases)
      case Nil
      then show ?thesis using Cons by (subst reverse_from.simps) simp
    next
      case (snoc m' b)
      let ?i = "int (length xs)" and ?j = "int (length xs + length mid) - 1"
      let ?s = "xs @ mid @ ys"
      have mid: "mid = a # m' @ [b]" using Cons snoc by simp
      have j: "nat ?j = length xs + Suc (length m')" by (simp add: mid nat_eq_iff)
      have "?s ! nat ?i = a" "?s ! nat ?j = b" unfolding j by (simp_all add: mid nth_append)
      then have "?s[nat ?i := ?s ! nat ?j, nat ?j := ?s ! nat ?i] = (xs @ [b]) @ m' @ (a # ys)"
        unfolding j by (simp add: mid list_update_append)
      then have "reverse_from ?i ?j ?s = reverse_from (?i + 1) (?j - 1) ((xs @ [b]) @ m' @ (a # ys))"
        by (subst reverse_from.simps) (simp add: mid)
      also have "\<dots> = (xs @ [b]) @ rev m' @ (a # ys)"
        using less [of m' "xs @ [b]" "a # ys"] by (simp add: mid add.commute)
      finally show ?thesis by (simp add: mid)
    qed
  qed
qed

lemma sio_reverse_rev: "sio_reverse s = rev s"
  using reverse_from_segment [of "[]" s "[]"] by (simp add: sio_reverse_def)

text \<open>The number a string of digits denotes.\<close>

definition number_of :: "bytes \<Rightarrow> int" where
  "number_of ds = foldl (\<lambda>n d. 10 * n + (uint d - 48)) 0 ds"

definition is_digit_byte :: "8 word \<Rightarrow> bool" where
  "is_digit_byte d \<longleftrightarrow> 48 \<le> uint d \<and> uint d \<le> 57"

lemma digit_char_10:
  assumes "0 \<le> v"
  shows "uint (digit_char v 10) = v mod 10 + 48"
proof -
  have m: "v smod 10 = v mod 10" using assms by (simp add: signed_modulo_int_def sgn_if)
  have r: "0 \<le> v mod 10" "v mod 10 < 10" by simp_all
  have "digit_char v 10 = word_of_int (v mod 10 + 48)"
    unfolding digit_char_def Let_def m using r by (simp only: if_True)
  moreover have "uint (word_of_int k :: 8 word) = k mod 256" for k
    by (simp add: uint_word_of_int take_bit_eq_mod)
  ultimately show ?thesis using r by (simp only: mod_pos_pos_trivial)
qed

lemma ltoa_digits_10:
  assumes "0 \<le> v"
  shows "\<exists>ds. ltoa_digits v 10 = Some ds \<and> ds \<noteq> [] \<and> list_all is_digit_byte ds \<and> number_of (rev ds) = v
    \<and> (10 \<le> v \<longrightarrow> last ds \<noteq> 48) \<and> (\<forall>k. v < 10 ^ k \<longrightarrow> 0 < k \<longrightarrow> length ds \<le> k)"
  using assms
proof (induction "nat v" arbitrary: v rule: less_induct)
  case less
  have dv: "v sdiv 10 = v div 10" using less.prems by (simp add: signed_divide_int_def sgn_if)
  have dg: "is_digit_byte (digit_char v 10)" using digit_char_10 [OF less.prems] by (simp add: is_digit_byte_def)
  show ?case
  proof (cases "v div 10 > 0")
    case False
    then have "v < 10" using less.prems by (simp add: pos_imp_zdiv_pos_iff)
    then have "v mod 10 = v" using less.prems by simp
    moreover have "ltoa_digits v 10 = Some [digit_char v 10]"
      using False by (subst ltoa_digits.simps) (simp add: dv)
    ultimately show ?thesis using dg digit_char_10 [OF less.prems] \<open>v < 10\<close> by (simp add: number_of_def)
  next
    case True
    have "v div 10 < v" "0 < v" using True less.prems by presburger+
    then have "nat (v div 10) < nat v" by simp
    then obtain ds where ds: "ltoa_digits (v div 10) 10 = Some ds" "ds \<noteq> []" "list_all is_digit_byte ds"
      "number_of (rev ds) = v div 10" "10 \<le> v div 10 \<longrightarrow> last ds \<noteq> 48"
      "\<forall>k. v div 10 < 10 ^ k \<longrightarrow> 0 < k \<longrightarrow> length ds \<le> k"
      using less.hyps [of "v div 10"] less.prems True by auto
    have "ltoa_digits v 10 = Some (digit_char v 10 # ds)"
      using True ds(1) by (subst ltoa_digits.simps) (simp add: dv)
    moreover have "number_of (rev (digit_char v 10 # ds)) = v"
      using ds(4) digit_char_10 [OF less.prems] by (simp add: number_of_def)
    moreover have "last ds \<noteq> 48"
    proof (cases "10 \<le> v div 10")
      case False
      then have "length ds \<le> 1" using ds(6) [rule_format, of 1] by simp
      then obtain d where "ds = [d]" using ds(2) by (cases ds) auto
      then show ?thesis using ds(4) True by (auto simp: number_of_def)
    qed (use ds(5) in simp)
    moreover have "length (digit_char v 10 # ds) \<le> k" if vk: "v < 10 ^ k" and k: "0 < k" for k
    proof (cases "k = 1")
      case True
      then show ?thesis using vk \<open>v div 10 > 0\<close> by (simp add: pos_imp_zdiv_pos_iff)
    next
      case False
      then obtain m where m: "k = Suc m" "0 < m" using k by (cases k) auto
      have "v div 10 < 10 ^ m" using vk m by (simp add: div_less_iff_less_mult mult.commute)
      then show ?thesis using ds(6) m by simp
    qed
    ultimately show ?thesis using dg ds by auto
  qed
qed

text \<open>\<open>sio_putl\<close> prints a number that is not negative in decimal: only digits, with that
  value, no leading zero, within its buffer of 128 characters.\<close>

theorem sio_putl_prints_decimal:
  assumes "0 \<le> v" and "v < 2 ^ 63"
  shows "\<exists>ds. sio_ltoa v 10 = Some ds \<and> sio_putl v k = Some (sys_write ds k)
    \<and> list_all is_digit_byte ds \<and> number_of ds = v \<and> (hd ds = 48 \<longrightarrow> v < 10)"
proof -
  obtain ds where ds: "ltoa_digits v 10 = Some ds" "ds \<noteq> []" "list_all is_digit_byte ds" "number_of (rev ds) = v"
    "10 \<le> v \<longrightarrow> last ds \<noteq> 48" "\<forall>k. v < 10 ^ k \<longrightarrow> 0 < k \<longrightarrow> length ds \<le> k"
    using ltoa_digits_10 [OF assms(1)] by blast
  have l: "length ds \<le> 20" using ds(6) assms(2) by simp
  have nz: "0 \<notin> set ds" using ds(3) by (auto simp: list_all_iff is_digit_byte_def)
  have strlen: "strlen_from i (cs @ [0]) = Some (i + length cs)" if "0 \<notin> set cs" for i and cs :: bytes
    using that by (induction cs arbitrary: i) auto
  have "sio_ltoa v 10 = Some (rev ds)" by (simp add: sio_ltoa_def ds sio_reverse_rev)
  moreover have "sio_putl v k = Some (sys_write (rev ds) k)"
    using l nz strlen [of "rev ds" 0] by (simp add: sio_putl_def calculation sio_puts_def sio_strlen_def)
  ultimately show ?thesis using ds by (auto simp: hd_rev list_all_iff)
qed

theorem sio_putl_prints_decimal_witness: "\<exists>ds. sio_ltoa 2022 10 = Some ds \<and> number_of ds = 2022"
  using sio_putl_prints_decimal [of 2022 "\<lparr>rooms = [], errno_eintr = False, written = []\<rparr>"] by auto

text \<open>For negative numbers the remainder of C is negative and the loop stops at once:
  \<open>sio_ltoa\<close> turns -5 into a plus sign, and -1 and -11 into the same text.\<close>

theorem sio_ltoa_negative:
  "sio_ltoa (-5) 10 = Some [43] \<and> sio_ltoa (-1) 10 = sio_ltoa (-11) 10"
proof -
  have "ltoa_digits v 10 = Some [digit_char v 10]" if "v sdiv 10 \<le> 0" for v
    using that by (subst ltoa_digits.simps) simp
  then show ?thesis
    by (simp add: sio_ltoa_def digit_char_def sio_reverse_rev signed_modulo_int_def signed_divide_int_def Let_def)
qed

end
