(* ===== verification/Csapp_Wrappers.thy ===== *)
theory Csapp_Wrappers
  imports Robust_IO
begin

text \<open>
  The wrappers of \<open>proxylab/csapp.c\<close> around the calls of the kernel and the C library, and the error functions they
  end the process with. A call is a function of its arguments and the state, which it returns changed; the state holds
  \<open>errno\<close> and whatever else the calls work on. A wrapper delivers a result or the way the process ended.
  Pointers are addresses, 0 is the null pointer. The semaphore operations \<open>P\<close> and \<open>V\<close> are \<open>sem_P\<close> and \<open>sem_V\<close>.
\<close>

section \<open>Errors\<close>

record sys =
  errno :: int

type_synonym ('a, 'z) syscall = "'z sys_scheme \<Rightarrow> 'a \<times> 'z sys_scheme"

text \<open>The end of the process: the text on the standard error output, apart from the message of the number, and the
  exit status.\<close>

datatype detail = Strerror int | Gai_strerror int | No_detail

record fatal =
  f_message :: string
  f_detail :: detail
  f_status :: int

definition unix_error :: "string \<Rightarrow> (fatal + 'a, 'z) syscall" where
  "unix_error msg s = (Inl \<lparr>f_message = msg, f_detail = Strerror (errno s), f_status = 0\<rparr>, s)"

definition posix_error :: "int \<Rightarrow> string \<Rightarrow> (fatal + 'a, 'z) syscall" where
  "posix_error n msg s = (Inl \<lparr>f_message = msg, f_detail = Strerror n, f_status = 0\<rparr>, s)"

definition gai_error :: "int \<Rightarrow> string \<Rightarrow> (fatal + 'a, 'z) syscall" where
  "gai_error n msg s = (Inl \<lparr>f_message = msg, f_detail = Gai_strerror n, f_status = 0\<rparr>, s)"

definition app_error :: "string \<Rightarrow> (fatal + 'a, 'z) syscall" where
  "app_error msg s = (Inl \<lparr>f_message = msg, f_detail = No_detail, f_status = 0\<rparr>, s)"

definition dns_error :: "string \<Rightarrow> (fatal + 'a, 'z) syscall" where
  "dns_error msg s = (Inl \<lparr>f_message = msg, f_detail = No_detail, f_status = 0\<rparr>, s)"

lemmas error_defs = unix_error_def posix_error_def gai_error_def app_error_def dns_error_def

section \<open>Process control\<close>

definition Fork :: "(int, 'z) syscall \<Rightarrow> (fatal + int, 'z) syscall" where
  "Fork fork s =
     (let (rc, s) = fork s in if rc < 0 then unix_error ''Fork error'' s else (Inr rc, s))"

definition Execve :: "('a \<Rightarrow> 'b \<Rightarrow> 'c \<Rightarrow> (int, 'z) syscall) \<Rightarrow> 'a \<Rightarrow> 'b \<Rightarrow> 'c \<Rightarrow> (fatal + unit, 'z) syscall" where
  "Execve execve filename argv envp s =
     (let (rc, s) = execve filename argv envp s in if rc < 0 then unix_error ''Execve error'' s else (Inr (), s))"

definition Wait :: "('a \<Rightarrow> (int, 'z) syscall) \<Rightarrow> 'a \<Rightarrow> (fatal + int, 'z) syscall" where
  "Wait wait status s =
     (let (rc, s) = wait status s in if rc < 0 then unix_error ''Wait error'' s else (Inr rc, s))"

definition Waitpid :: "('a \<Rightarrow> 'b \<Rightarrow> 'c \<Rightarrow> (int, 'z) syscall) \<Rightarrow> 'a \<Rightarrow> 'b \<Rightarrow> 'c \<Rightarrow> (fatal + int, 'z) syscall" where
  "Waitpid waitpid pid iptr options s =
     (let (rc, s) = waitpid pid iptr options s in if rc < 0 then unix_error ''Waitpid error'' s else (Inr rc, s))"

definition Kill :: "('a \<Rightarrow> 'b \<Rightarrow> (int, 'z) syscall) \<Rightarrow> 'a \<Rightarrow> 'b \<Rightarrow> (fatal + unit, 'z) syscall" where
  "Kill kill pid signum s =
     (let (rc, s) = kill pid signum s in if rc < 0 then unix_error ''Kill error'' s else (Inr (), s))"

definition Pause :: "(int, 'z) syscall \<Rightarrow> (fatal + unit, 'z) syscall" where
  "Pause pause s =
     (let (rc, s) = pause s in (Inr (), s))"

text \<open>\<open>sleep\<close> returns an unsigned number of seconds, so that the test \<open>rc < 0\<close> is never true.\<close>

definition Sleep :: "(nat \<Rightarrow> 'z sys_scheme \<Rightarrow> 32 word \<times> 'z sys_scheme) \<Rightarrow> nat \<Rightarrow> 'z sys_scheme \<Rightarrow> (fatal + 32 word) \<times> 'z sys_scheme" where
  "Sleep sleep secs s = (let (rc, s) = sleep secs s in (if rc < 0 then unix_error ''Sleep error'' s else (Inr rc, s)))"

definition Alarm :: "('a \<Rightarrow> (int, 'z) syscall) \<Rightarrow> 'a \<Rightarrow> (fatal + int, 'z) syscall" where
  "Alarm alarm seconds s =
     (let (rc, s) = alarm seconds s in (Inr rc, s))"

definition Setpgid :: "('a \<Rightarrow> 'b \<Rightarrow> (int, 'z) syscall) \<Rightarrow> 'a \<Rightarrow> 'b \<Rightarrow> (fatal + unit, 'z) syscall" where
  "Setpgid setpgid pid pgid s =
     (let (rc, s) = setpgid pid pgid s in if rc < 0 then unix_error ''Setpgid error'' s else (Inr (), s))"

definition Getpgrp :: "(int, 'z) syscall \<Rightarrow> (fatal + int, 'z) syscall" where
  "Getpgrp getpgrp s =
     (let (rc, s) = getpgrp s in (Inr rc, s))"

section \<open>Signals\<close>

text \<open>\<open>Signal\<close> returns the handler that was installed before.\<close>

record sigact =
  sa_handler :: int
  sa_mask :: "int list"
  sa_flags :: int

definition SA_RESTART :: int where "SA_RESTART = 0x10000000"

definition Signal :: "(int \<Rightarrow> sigact \<Rightarrow> 'z sys_scheme \<Rightarrow> (int \<times> sigact) \<times> 'z sys_scheme) \<Rightarrow> int \<Rightarrow> int \<Rightarrow> 'z sys_scheme \<Rightarrow> (fatal + int) \<times> 'z sys_scheme" where
  "Signal sigaction signum handler s =
     (let ((rc, old_action), s) = sigaction signum \<lparr>sa_handler = handler, sa_mask = [], sa_flags = SA_RESTART\<rparr> s in
      if rc < 0 then unix_error ''Signal error'' s else (Inr (sa_handler old_action), s))"

definition Sigprocmask :: "('a \<Rightarrow> 'b \<Rightarrow> 'c \<Rightarrow> (int, 'z) syscall) \<Rightarrow> 'a \<Rightarrow> 'b \<Rightarrow> 'c \<Rightarrow> (fatal + unit, 'z) syscall" where
  "Sigprocmask sigprocmask how sigs oldset s =
     (let (rc, s) = sigprocmask how sigs oldset s in if rc < 0 then unix_error ''Sigprocmask error'' s else (Inr (), s))"

definition Sigemptyset :: "('a \<Rightarrow> (int, 'z) syscall) \<Rightarrow> 'a \<Rightarrow> (fatal + unit, 'z) syscall" where
  "Sigemptyset sigemptyset sigs s =
     (let (rc, s) = sigemptyset sigs s in if rc < 0 then unix_error ''Sigemptyset error'' s else (Inr (), s))"

definition Sigfillset :: "('a \<Rightarrow> (int, 'z) syscall) \<Rightarrow> 'a \<Rightarrow> (fatal + unit, 'z) syscall" where
  "Sigfillset sigfillset sigs s =
     (let (rc, s) = sigfillset sigs s in if rc < 0 then unix_error ''Sigfillset error'' s else (Inr (), s))"

definition Sigaddset :: "('a \<Rightarrow> 'b \<Rightarrow> (int, 'z) syscall) \<Rightarrow> 'a \<Rightarrow> 'b \<Rightarrow> (fatal + unit, 'z) syscall" where
  "Sigaddset sigaddset sigs signum s =
     (let (rc, s) = sigaddset sigs signum s in if rc < 0 then unix_error ''Sigaddset error'' s else (Inr (), s))"

definition Sigdelset :: "('a \<Rightarrow> 'b \<Rightarrow> (int, 'z) syscall) \<Rightarrow> 'a \<Rightarrow> 'b \<Rightarrow> (fatal + unit, 'z) syscall" where
  "Sigdelset sigdelset sigs signum s =
     (let (rc, s) = sigdelset sigs signum s in if rc < 0 then unix_error ''Sigdelset error'' s else (Inr (), s))"

definition Sigismember :: "('a \<Rightarrow> 'b \<Rightarrow> (int, 'z) syscall) \<Rightarrow> 'a \<Rightarrow> 'b \<Rightarrow> (fatal + int, 'z) syscall" where
  "Sigismember sigismember sigs signum s =
     (let (rc, s) = sigismember sigs signum s in if rc < 0 then unix_error ''Sigismember error'' s else (Inr rc, s))"

text \<open>\<open>sigsuspend\<close> always returns -1; anything but an interruption is an error.\<close>

definition EINTR :: int where "EINTR = 4"

definition Sigsuspend :: "('m \<Rightarrow> (int, 'z) syscall) \<Rightarrow> 'm \<Rightarrow> (fatal + int, 'z) syscall" where
  "Sigsuspend sigsuspend sigs s =
     (let (rc, s) = sigsuspend sigs s in if errno s \<noteq> EINTR then unix_error ''Sigsuspend error'' s else (Inr rc, s))"

section \<open>Files\<close>

definition Open :: "('a \<Rightarrow> 'b \<Rightarrow> 'c \<Rightarrow> (int, 'z) syscall) \<Rightarrow> 'a \<Rightarrow> 'b \<Rightarrow> 'c \<Rightarrow> (fatal + int, 'z) syscall" where
  "Open open pathname flags mode s =
     (let (rc, s) = open pathname flags mode s in if rc < 0 then unix_error ''Open error'' s else (Inr rc, s))"

definition Read :: "('a \<Rightarrow> 'b \<Rightarrow> 'c \<Rightarrow> (int, 'z) syscall) \<Rightarrow> 'a \<Rightarrow> 'b \<Rightarrow> 'c \<Rightarrow> (fatal + int, 'z) syscall" where
  "Read read fd buf count s =
     (let (rc, s) = read fd buf count s in if rc < 0 then unix_error ''Read error'' s else (Inr rc, s))"

definition Write :: "('a \<Rightarrow> 'b \<Rightarrow> 'c \<Rightarrow> (int, 'z) syscall) \<Rightarrow> 'a \<Rightarrow> 'b \<Rightarrow> 'c \<Rightarrow> (fatal + int, 'z) syscall" where
  "Write write fd buf count s =
     (let (rc, s) = write fd buf count s in if rc < 0 then unix_error ''Write error'' s else (Inr rc, s))"

definition Lseek :: "('a \<Rightarrow> 'b \<Rightarrow> 'c \<Rightarrow> (int, 'z) syscall) \<Rightarrow> 'a \<Rightarrow> 'b \<Rightarrow> 'c \<Rightarrow> (fatal + int, 'z) syscall" where
  "Lseek lseek fildes offset whence s =
     (let (rc, s) = lseek fildes offset whence s in if rc < 0 then unix_error ''Lseek error'' s else (Inr rc, s))"

definition Close :: "('a \<Rightarrow> (int, 'z) syscall) \<Rightarrow> 'a \<Rightarrow> (fatal + unit, 'z) syscall" where
  "Close close fd s =
     (let (rc, s) = close fd s in if rc < 0 then unix_error ''Close error'' s else (Inr (), s))"

definition Select :: "('a \<Rightarrow> 'b \<Rightarrow> 'c \<Rightarrow> 'd \<Rightarrow> 'e \<Rightarrow> (int, 'z) syscall) \<Rightarrow> 'a \<Rightarrow> 'b \<Rightarrow> 'c \<Rightarrow> 'd \<Rightarrow> 'e \<Rightarrow> (fatal + int, 'z) syscall" where
  "Select select n readfds writefds exceptfds timeout s =
     (let (rc, s) = select n readfds writefds exceptfds timeout s in if rc < 0 then unix_error ''Select error'' s else (Inr rc, s))"

definition Dup2 :: "('a \<Rightarrow> 'b \<Rightarrow> (int, 'z) syscall) \<Rightarrow> 'a \<Rightarrow> 'b \<Rightarrow> (fatal + int, 'z) syscall" where
  "Dup2 dup2 fd1 fd2 s =
     (let (rc, s) = dup2 fd1 fd2 s in if rc < 0 then unix_error ''Dup2 error'' s else (Inr rc, s))"

definition Stat :: "('a \<Rightarrow> 'b \<Rightarrow> (int, 'z) syscall) \<Rightarrow> 'a \<Rightarrow> 'b \<Rightarrow> (fatal + unit, 'z) syscall" where
  "Stat stat filename buf s =
     (let (rc, s) = stat filename buf s in if rc < 0 then unix_error ''Stat error'' s else (Inr (), s))"

definition Fstat :: "('a \<Rightarrow> 'b \<Rightarrow> (int, 'z) syscall) \<Rightarrow> 'a \<Rightarrow> 'b \<Rightarrow> (fatal + unit, 'z) syscall" where
  "Fstat fstat fd buf s =
     (let (rc, s) = fstat fd buf s in if rc < 0 then unix_error ''Fstat error'' s else (Inr (), s))"

definition Opendir :: "('a \<Rightarrow> (int, 'z) syscall) \<Rightarrow> 'a \<Rightarrow> (fatal + int, 'z) syscall" where
  "Opendir opendir name s =
     (let (rc, s) = opendir name s in if rc = 0 then unix_error ''opendir error'' s else (Inr rc, s))"

text \<open>\<open>readdir\<close> returns a null pointer at the end, too; only \<open>errno\<close>, cleared before the call, tells an error.\<close>

definition Readdir :: "(int \<Rightarrow> (int, 'z) syscall) \<Rightarrow> int \<Rightarrow> (fatal + int, 'z) syscall" where
  "Readdir readdir dirp s =
     (let (dep, s) = readdir dirp (s\<lparr>errno := 0\<rparr>) in
      if dep = 0 \<and> errno s \<noteq> 0 then unix_error ''readdir error'' s else (Inr dep, s))"

definition Closedir :: "('a \<Rightarrow> (int, 'z) syscall) \<Rightarrow> 'a \<Rightarrow> (fatal + int, 'z) syscall" where
  "Closedir closedir dirp s =
     (let (rc, s) = closedir dirp s in if rc < 0 then unix_error ''closedir error'' s else (Inr rc, s))"

section \<open>Memory\<close>

definition Mmap :: "('a \<Rightarrow> 'b \<Rightarrow> 'c \<Rightarrow> 'd \<Rightarrow> 'e \<Rightarrow> 'f \<Rightarrow> (int, 'z) syscall) \<Rightarrow> 'a \<Rightarrow> 'b \<Rightarrow> 'c \<Rightarrow> 'd \<Rightarrow> 'e \<Rightarrow> 'f \<Rightarrow> (fatal + int, 'z) syscall" where
  "Mmap mmap addr len prot flags fd offset s =
     (let (rc, s) = mmap addr len prot flags fd offset s in if rc = -1 then unix_error ''mmap error'' s else (Inr rc, s))"

definition Munmap :: "('a \<Rightarrow> 'b \<Rightarrow> (int, 'z) syscall) \<Rightarrow> 'a \<Rightarrow> 'b \<Rightarrow> (fatal + unit, 'z) syscall" where
  "Munmap munmap start len s =
     (let (rc, s) = munmap start len s in if rc < 0 then unix_error ''munmap error'' s else (Inr (), s))"

definition Malloc :: "('a \<Rightarrow> (int, 'z) syscall) \<Rightarrow> 'a \<Rightarrow> (fatal + int, 'z) syscall" where
  "Malloc malloc len s =
     (let (rc, s) = malloc len s in if rc = 0 then unix_error ''Malloc error'' s else (Inr rc, s))"

definition Realloc :: "('a \<Rightarrow> 'b \<Rightarrow> (int, 'z) syscall) \<Rightarrow> 'a \<Rightarrow> 'b \<Rightarrow> (fatal + int, 'z) syscall" where
  "Realloc realloc ptr len s =
     (let (rc, s) = realloc ptr len s in if rc = 0 then unix_error ''Realloc error'' s else (Inr rc, s))"

definition Calloc :: "('a \<Rightarrow> 'b \<Rightarrow> (int, 'z) syscall) \<Rightarrow> 'a \<Rightarrow> 'b \<Rightarrow> (fatal + int, 'z) syscall" where
  "Calloc calloc nmemb len s =
     (let (rc, s) = calloc nmemb len s in if rc = 0 then unix_error ''Calloc error'' s else (Inr rc, s))"

definition Free :: "('a \<Rightarrow> (int, 'z) syscall) \<Rightarrow> 'a \<Rightarrow> (fatal + unit, 'z) syscall" where
  "Free free ptr s =
     (let (rc, s) = free ptr s in (Inr (), s))"

section \<open>Standard I/O\<close>

definition Fclose :: "('a \<Rightarrow> (int, 'z) syscall) \<Rightarrow> 'a \<Rightarrow> (fatal + unit, 'z) syscall" where
  "Fclose fclose fp s =
     (let (rc, s) = fclose fp s in if rc \<noteq> 0 then unix_error ''Fclose error'' s else (Inr (), s))"

definition Fdopen :: "('a \<Rightarrow> 'b \<Rightarrow> (int, 'z) syscall) \<Rightarrow> 'a \<Rightarrow> 'b \<Rightarrow> (fatal + int, 'z) syscall" where
  "Fdopen fdopen fd mode s =
     (let (rc, s) = fdopen fd mode s in if rc = 0 then unix_error ''Fdopen error'' s else (Inr rc, s))"

text \<open>A null pointer of \<open>fgets\<close> and a short count of \<open>fread\<close> are errors only if \<open>ferror\<close> says so.\<close>

definition Fgets :: "('p \<Rightarrow> int \<Rightarrow> 'f \<Rightarrow> (int, 'z) syscall) \<Rightarrow> ('f \<Rightarrow> 'z sys_scheme \<Rightarrow> bool) \<Rightarrow> 'p \<Rightarrow> int \<Rightarrow> 'f \<Rightarrow> (fatal + int, 'z) syscall" where
  "Fgets fgets ferror ptr n fp s =
     (let (rptr, s) = fgets ptr n fp s in
      if rptr = 0 \<and> ferror fp s then app_error ''Fgets error'' s else (Inr rptr, s))"

definition Fopen :: "('a \<Rightarrow> 'b \<Rightarrow> (int, 'z) syscall) \<Rightarrow> 'a \<Rightarrow> 'b \<Rightarrow> (fatal + int, 'z) syscall" where
  "Fopen fopen filename mode s =
     (let (rc, s) = fopen filename mode s in if rc = 0 then unix_error ''Fopen error'' s else (Inr rc, s))"

definition Fputs :: "('a \<Rightarrow> 'b \<Rightarrow> (int, 'z) syscall) \<Rightarrow> 'a \<Rightarrow> 'b \<Rightarrow> (fatal + unit, 'z) syscall" where
  "Fputs fputs ptr fp s =
     (let (rc, s) = fputs ptr fp s in if rc = -1 then unix_error ''Fputs error'' s else (Inr (), s))"

definition Fread :: "('p \<Rightarrow> nat \<Rightarrow> nat \<Rightarrow> 'f \<Rightarrow> (nat, 'z) syscall) \<Rightarrow> ('f \<Rightarrow> 'z sys_scheme \<Rightarrow> bool) \<Rightarrow> 'p \<Rightarrow> nat \<Rightarrow> nat \<Rightarrow> 'f \<Rightarrow> (fatal + nat, 'z) syscall" where
  "Fread fread ferror ptr len nmemb fp s =
     (let (n, s) = fread ptr len nmemb fp s in
      if n < nmemb \<and> ferror fp s then unix_error ''Fread error'' s else (Inr n, s))"

definition Fwrite :: "('p \<Rightarrow> nat \<Rightarrow> nat \<Rightarrow> 'f \<Rightarrow> (nat, 'z) syscall) \<Rightarrow> 'p \<Rightarrow> nat \<Rightarrow> nat \<Rightarrow> 'f \<Rightarrow> (fatal + unit, 'z) syscall" where
  "Fwrite fwrite ptr len nmemb fp s =
     (let (n, s) = fwrite ptr len nmemb fp s in if n < nmemb then unix_error ''Fwrite error'' s else (Inr (), s))"

section \<open>Sockets\<close>

definition Socket :: "('a \<Rightarrow> 'b \<Rightarrow> 'c \<Rightarrow> (int, 'z) syscall) \<Rightarrow> 'a \<Rightarrow> 'b \<Rightarrow> 'c \<Rightarrow> (fatal + int, 'z) syscall" where
  "Socket socket domain kind protocol s =
     (let (rc, s) = socket domain kind protocol s in if rc < 0 then unix_error ''Socket error'' s else (Inr rc, s))"

definition Setsockopt :: "('a \<Rightarrow> 'b \<Rightarrow> 'c \<Rightarrow> 'd \<Rightarrow> 'e \<Rightarrow> (int, 'z) syscall) \<Rightarrow> 'a \<Rightarrow> 'b \<Rightarrow> 'c \<Rightarrow> 'd \<Rightarrow> 'e \<Rightarrow> (fatal + unit, 'z) syscall" where
  "Setsockopt setsockopt sock level optname optval optlen s =
     (let (rc, s) = setsockopt sock level optname optval optlen s in if rc < 0 then unix_error ''Setsockopt error'' s else (Inr (), s))"

definition Bind :: "('a \<Rightarrow> 'b \<Rightarrow> 'c \<Rightarrow> (int, 'z) syscall) \<Rightarrow> 'a \<Rightarrow> 'b \<Rightarrow> 'c \<Rightarrow> (fatal + unit, 'z) syscall" where
  "Bind bind sockfd my_addr addrlen s =
     (let (rc, s) = bind sockfd my_addr addrlen s in if rc < 0 then unix_error ''Bind error'' s else (Inr (), s))"

definition Listen :: "('a \<Rightarrow> 'b \<Rightarrow> (int, 'z) syscall) \<Rightarrow> 'a \<Rightarrow> 'b \<Rightarrow> (fatal + unit, 'z) syscall" where
  "Listen listen sock backlog s =
     (let (rc, s) = listen sock backlog s in if rc < 0 then unix_error ''Listen error'' s else (Inr (), s))"

definition Accept :: "('a \<Rightarrow> 'b \<Rightarrow> 'c \<Rightarrow> (int, 'z) syscall) \<Rightarrow> 'a \<Rightarrow> 'b \<Rightarrow> 'c \<Rightarrow> (fatal + int, 'z) syscall" where
  "Accept accept sock addr addrlen s =
     (let (rc, s) = accept sock addr addrlen s in if rc < 0 then unix_error ''Accept error'' s else (Inr rc, s))"

definition Connect :: "('a \<Rightarrow> 'b \<Rightarrow> 'c \<Rightarrow> (int, 'z) syscall) \<Rightarrow> 'a \<Rightarrow> 'b \<Rightarrow> 'c \<Rightarrow> (fatal + unit, 'z) syscall" where
  "Connect connect sockfd serv_addr addrlen s =
     (let (rc, s) = connect sockfd serv_addr addrlen s in if rc < 0 then unix_error ''Connect error'' s else (Inr (), s))"

definition Getaddrinfo :: "('a \<Rightarrow> 'b \<Rightarrow> 'c \<Rightarrow> 'd \<Rightarrow> (int, 'z) syscall) \<Rightarrow> 'a \<Rightarrow> 'b \<Rightarrow> 'c \<Rightarrow> 'd \<Rightarrow> (fatal + unit, 'z) syscall" where
  "Getaddrinfo getaddrinfo node service hints res s =
     (let (rc, s) = getaddrinfo node service hints res s in if rc \<noteq> 0 then gai_error rc ''Getaddrinfo error'' s else (Inr (), s))"

definition Getnameinfo :: "('a \<Rightarrow> 'b \<Rightarrow> 'c \<Rightarrow> 'd \<Rightarrow> 'e \<Rightarrow> 'f \<Rightarrow> 'g \<Rightarrow> (int, 'z) syscall) \<Rightarrow> 'a \<Rightarrow> 'b \<Rightarrow> 'c \<Rightarrow> 'd \<Rightarrow> 'e \<Rightarrow> 'f \<Rightarrow> 'g \<Rightarrow> (fatal + unit, 'z) syscall" where
  "Getnameinfo getnameinfo sa salen host hostlen serv servlen flags s =
     (let (rc, s) = getnameinfo sa salen host hostlen serv servlen flags s in if rc \<noteq> 0 then gai_error rc ''Getnameinfo error'' s else (Inr (), s))"

definition Freeaddrinfo :: "('a \<Rightarrow> (int, 'z) syscall) \<Rightarrow> 'a \<Rightarrow> (fatal + unit, 'z) syscall" where
  "Freeaddrinfo freeaddrinfo res s =
     (let (rc, s) = freeaddrinfo res s in (Inr (), s))"

definition Inet_ntop :: "('a \<Rightarrow> 'b \<Rightarrow> 'c \<Rightarrow> 'd \<Rightarrow> (int, 'z) syscall) \<Rightarrow> 'a \<Rightarrow> 'b \<Rightarrow> 'c \<Rightarrow> 'd \<Rightarrow> (fatal + unit, 'z) syscall" where
  "Inet_ntop inet_ntop af src dst len s =
     (let (rc, s) = inet_ntop af src dst len s in if rc = 0 then unix_error ''Inet_ntop error'' s else (Inr (), s))"

text \<open>\<open>inet_pton\<close> returns 0 for a malformed address and -1 for an unknown address family.\<close>

definition Inet_pton :: "('a \<Rightarrow> 'b \<Rightarrow> 'c \<Rightarrow> (int, 'z) syscall) \<Rightarrow> 'a \<Rightarrow> 'b \<Rightarrow> 'c \<Rightarrow> (fatal + unit, 'z) syscall" where
  "Inet_pton inet_pton af src dst s =
     (let (rc, s) = inet_pton af src dst s in
      if rc = 0 then app_error ''inet_pton error: invalid dotted-decimal address'' s
      else if rc < 0 then unix_error ''Inet_pton error'' s
      else (Inr (), s))"

definition Gethostbyname :: "('a \<Rightarrow> (int, 'z) syscall) \<Rightarrow> 'a \<Rightarrow> (fatal + int, 'z) syscall" where
  "Gethostbyname gethostbyname name s =
     (let (rc, s) = gethostbyname name s in if rc = 0 then dns_error ''Gethostbyname error'' s else (Inr rc, s))"

definition Gethostbyaddr :: "('a \<Rightarrow> 'b \<Rightarrow> 'c \<Rightarrow> (int, 'z) syscall) \<Rightarrow> 'a \<Rightarrow> 'b \<Rightarrow> 'c \<Rightarrow> (fatal + int, 'z) syscall" where
  "Gethostbyaddr gethostbyaddr addr len kind s =
     (let (rc, s) = gethostbyaddr addr len kind s in if rc = 0 then dns_error ''Gethostbyaddr error'' s else (Inr rc, s))"

section \<open>Threads and semaphores\<close>

definition Pthread_create :: "('a \<Rightarrow> 'b \<Rightarrow> 'c \<Rightarrow> 'd \<Rightarrow> (int, 'z) syscall) \<Rightarrow> 'a \<Rightarrow> 'b \<Rightarrow> 'c \<Rightarrow> 'd \<Rightarrow> (fatal + unit, 'z) syscall" where
  "Pthread_create pthread_create tidp attrp routine argp s =
     (let (rc, s) = pthread_create tidp attrp routine argp s in if rc \<noteq> 0 then posix_error rc ''Pthread_create error'' s else (Inr (), s))"

definition Pthread_cancel :: "('a \<Rightarrow> (int, 'z) syscall) \<Rightarrow> 'a \<Rightarrow> (fatal + unit, 'z) syscall" where
  "Pthread_cancel pthread_cancel tid s =
     (let (rc, s) = pthread_cancel tid s in if rc \<noteq> 0 then posix_error rc ''Pthread_cancel error'' s else (Inr (), s))"

definition Pthread_join :: "('a \<Rightarrow> 'b \<Rightarrow> (int, 'z) syscall) \<Rightarrow> 'a \<Rightarrow> 'b \<Rightarrow> (fatal + unit, 'z) syscall" where
  "Pthread_join pthread_join tid thread_return s =
     (let (rc, s) = pthread_join tid thread_return s in if rc \<noteq> 0 then posix_error rc ''Pthread_join error'' s else (Inr (), s))"

definition Pthread_detach :: "('a \<Rightarrow> (int, 'z) syscall) \<Rightarrow> 'a \<Rightarrow> (fatal + unit, 'z) syscall" where
  "Pthread_detach pthread_detach tid s =
     (let (rc, s) = pthread_detach tid s in if rc \<noteq> 0 then posix_error rc ''Pthread_detach error'' s else (Inr (), s))"

definition Pthread_exit :: "('a \<Rightarrow> (int, 'z) syscall) \<Rightarrow> 'a \<Rightarrow> (fatal + unit, 'z) syscall" where
  "Pthread_exit pthread_exit retval s =
     (let (rc, s) = pthread_exit retval s in (Inr (), s))"

definition Pthread_self :: "(int, 'z) syscall \<Rightarrow> (fatal + int, 'z) syscall" where
  "Pthread_self pthread_self s =
     (let (rc, s) = pthread_self s in (Inr rc, s))"

definition Pthread_once :: "('a \<Rightarrow> 'b \<Rightarrow> (int, 'z) syscall) \<Rightarrow> 'a \<Rightarrow> 'b \<Rightarrow> (fatal + unit, 'z) syscall" where
  "Pthread_once pthread_once once_control init_function s =
     (let (rc, s) = pthread_once once_control init_function s in (Inr (), s))"

definition Sem_init :: "('a \<Rightarrow> 'b \<Rightarrow> 'c \<Rightarrow> (int, 'z) syscall) \<Rightarrow> 'a \<Rightarrow> 'b \<Rightarrow> 'c \<Rightarrow> (fatal + unit, 'z) syscall" where
  "Sem_init sem_init sem pshared initial s =
     (let (rc, s) = sem_init sem pshared initial s in if rc < 0 then unix_error ''Sem_init error'' s else (Inr (), s))"

definition sem_P :: "('a \<Rightarrow> (int, 'z) syscall) \<Rightarrow> 'a \<Rightarrow> (fatal + unit, 'z) syscall" where
  "sem_P sem_wait sem s =
     (let (rc, s) = sem_wait sem s in if rc < 0 then unix_error ''P error'' s else (Inr (), s))"

definition sem_V :: "('a \<Rightarrow> (int, 'z) syscall) \<Rightarrow> 'a \<Rightarrow> (fatal + unit, 'z) syscall" where
  "sem_V sem_post sem s =
     (let (rc, s) = sem_post sem s in if rc < 0 then unix_error ''V error'' s else (Inr (), s))"

section \<open>Signal-safe output\<close>

text \<open>\<open>sio_error\<close> writes its text and ends the process with status 1.\<close>

definition sio_error :: "bytes \<Rightarrow> sink \<Rightarrow> ((fatal + 'a) \<times> sink) option" where
  "sio_error s k = map_option (\<lambda>(n, k). (Inl \<lparr>f_message = [], f_detail = No_detail, f_status = 1\<rparr>, k)) (sio_puts s k)"

definition Sio_puts :: "bytes \<Rightarrow> sink \<Rightarrow> ((fatal + int) \<times> sink) option" where
  "Sio_puts s k =
     (case sio_puts s k of
        None \<Rightarrow> None
      | Some (n, k) \<Rightarrow> if n < 0 then sio_error (map of_char ''Sio_puts error'' @ [0]) k else Some (Inr n, k))"

definition Sio_error :: "bytes \<Rightarrow> sink \<Rightarrow> ((fatal + 'a) \<times> sink) option" where
  "Sio_error s k = sio_error s k"

section \<open>What a caller can rely on\<close>

lemma error_results:
  "fst (unix_error msg s) = Inl \<lparr>f_message = msg, f_detail = Strerror (errno s), f_status = 0\<rparr>"
  "fst (posix_error n msg s) = Inl \<lparr>f_message = msg, f_detail = Strerror n, f_status = 0\<rparr>"
  "fst (gai_error n msg s) = Inl \<lparr>f_message = msg, f_detail = Gai_strerror n, f_status = 0\<rparr>"
  "fst (app_error msg s) = Inl \<lparr>f_message = msg, f_detail = No_detail, f_status = 0\<rparr>"
  "fst (dns_error msg s) = Inl \<lparr>f_message = msg, f_detail = No_detail, f_status = 0\<rparr>"
  by (simp_all add: error_defs)

text \<open>The wrappers that do not end the process for every error result. \<open>Sleep\<close> never ends the process, because it compares an unsigned
  number with 0; \<open>Readdir\<close> returns the null pointer at the end of a directory even if an older error is still recorded, and
  ends the process for a new one; \<open>Sigsuspend\<close> returns exactly after an interruption; \<open>Inet_pton\<close> has two kinds of errors.\<close>

theorem irregular_wrappers:
  "(\<exists>v. fst (Sleep sleep secs s) = Inr v)
   \<and> (case readdir dirp (s\<lparr>errno := 0\<rparr>) of (dep, s') \<Rightarrow>
        fst (Readdir readdir dirp s) = (if dep = 0 \<and> errno s' \<noteq> 0
          then Inl \<lparr>f_message = ''readdir error'', f_detail = Strerror (errno s'), f_status = 0\<rparr> else Inr dep))
   \<and> ((\<exists>v. fst (Sigsuspend sigsuspend sigs s) = Inr v) \<longleftrightarrow> errno (snd (sigsuspend sigs s)) = EINTR)
   \<and> (case inet_pton af src dst s of (rc, s') \<Rightarrow>
        fst (Inet_pton inet_pton af src dst s) =
          (if 0 < rc then Inr ()
           else if rc = 0 then Inl \<lparr>f_message = ''inet_pton error: invalid dotted-decimal address'', f_detail = No_detail, f_status = 0\<rparr>
           else Inl \<lparr>f_message = ''Inet_pton error'', f_detail = Strerror (errno s'), f_status = 0\<rparr>))"
  by (auto simp: Sleep_def Readdir_def Sigsuspend_def Inet_pton_def error_results split: prod.split)

text \<open>The process ends with status 0 although the call failed.\<close>

lemma failures_exit_zero:
  "fst (Accept accept a b c s) = Inl e \<Longrightarrow> f_status e = 0" "fst (Malloc malloc l s) = Inl e \<Longrightarrow> f_status e = 0"
  "fst (Pthread_create pthread_create t at r p s) = Inl e \<Longrightarrow> f_status e = 0"
  by (auto simp: Accept_def Malloc_def Pthread_create_def error_results split: prod.splits if_splits)

end
