(* ===== verification/Connections.thy ===== *)
theory Connections
  imports Csapp_Wrappers
begin

text \<open>
  Descriptors: the helpers of \<open>csapp.c\<close> that open connections, over what the kernel answers for each address, with the
  descriptors that are open and the address list as state.
\<close>

section \<open>Opening connections\<close>

text \<open>What the kernel does with one address of the list of \<open>getaddrinfo\<close>: the descriptor \<open>socket\<close>
  returns, whether \<open>connect\<close> or \<open>bind\<close> succeeds, whether \<open>close\<close> does.\<close>

record attempt =
  sock :: int
  joins :: bool
  closes :: bool

text \<open>The open descriptors of the process, and whether the address list is allocated.\<close>

record process =
  open_fds :: "int list"
  addr_list :: bool

datatype walk_result = Joined int | None_joined | Close_failed

fun walk_addresses :: "attempt list \<Rightarrow> process \<Rightarrow> walk_result \<times> process" where
  "walk_addresses [] pr = (None_joined, pr)"
| "walk_addresses (a # as) pr =
     (if sock a < 0 then walk_addresses as pr
      else let pr1 = pr\<lparr>open_fds := sock a # open_fds pr\<rparr> in
        if joins a then (Joined (sock a), pr1)
        else if closes a then walk_addresses as (pr1\<lparr>open_fds := remove1 (sock a) (open_fds pr1)\<rparr>)
        else (Close_failed, pr1))"

text \<open>\<open>Inl\<close> is an error of \<open>getaddrinfo\<close>. The result is a descriptor, -1 or -2.\<close>

definition open_clientfd :: "unit + attempt list \<Rightarrow> process \<Rightarrow> int \<times> process" where
  "open_clientfd found pr =
     (case found of
        Inl _ \<Rightarrow> (-2, pr)
      | Inr as \<Rightarrow>
          (case walk_addresses as (pr\<lparr>addr_list := True\<rparr>) of
             (Joined fd, pr) \<Rightarrow> (fd, pr\<lparr>addr_list := False\<rparr>)
           | (None_joined, pr) \<Rightarrow> (-1, pr\<lparr>addr_list := False\<rparr>)
           | (Close_failed, pr) \<Rightarrow> (-1, pr)))"

definition open_listenfd :: "unit + attempt list \<Rightarrow> (int \<Rightarrow> bool) \<Rightarrow> process \<Rightarrow> int \<times> process" where
  "open_listenfd found listens pr =
     (case found of
        Inl _ \<Rightarrow> (-2, pr)
      | Inr as \<Rightarrow>
          (case walk_addresses as (pr\<lparr>addr_list := True\<rparr>) of
             (Joined fd, pr) \<Rightarrow>
               let pr = pr\<lparr>addr_list := False\<rparr> in
               if listens fd then (fd, pr) else (-1, pr\<lparr>open_fds := remove1 fd (open_fds pr)\<rparr>)
           | (None_joined, pr) \<Rightarrow> (-1, pr\<lparr>addr_list := False\<rparr>)
           | (Close_failed, pr) \<Rightarrow> (-1, pr)))"

text \<open>The wrappers; \<open>Exits\<close> is \<open>unix_error\<close>.\<close>

definition Open_clientfd :: "unit + attempt list \<Rightarrow> process \<Rightarrow> int call_result \<times> process" where
  "Open_clientfd found pr = (let (rc, pr) = open_clientfd found pr in (if rc < 0 then Exits else Returns rc, pr))"

definition Open_listenfd :: "unit + attempt list \<Rightarrow> (int \<Rightarrow> bool) \<Rightarrow> process \<Rightarrow> int call_result \<times> process" where
  "Open_listenfd found listens pr = (let (rc, pr) = open_listenfd found listens pr in (if rc < 0 then Exits else Returns rc, pr))"

text \<open>The first address that can be used, and the descriptors around the call.\<close>

definition usable :: "attempt \<Rightarrow> bool" where
  "usable a \<longleftrightarrow> 0 \<le> sock a \<and> joins a"

lemma walk_addresses_result:
  assumes "\<forall>a \<in> set as. closes a"
  shows "walk_addresses as pr = (case filter usable as of [] \<Rightarrow> (None_joined, pr)
    | a # _ \<Rightarrow> (Joined (sock a), pr\<lparr>open_fds := sock a # open_fds pr\<rparr>))"
  using assms by (induction as arbitrary: pr) (auto simp: usable_def Let_def)

text \<open>C33. A connection is opened to the first usable address. Every descriptor tried before is closed again and the
  address list is freed; without a usable address the result is -1 and the process is as before.\<close>

theorem open_clientfd_result:
  assumes "\<forall>a \<in> set as. closes a" and "\<not> addr_list pr"
  shows "open_clientfd (Inr as) pr =
    (case filter usable as of [] \<Rightarrow> (-1, pr) | a # _ \<Rightarrow> (sock a, pr\<lparr>open_fds := sock a # open_fds pr\<rparr>))"
  using assms by (cases pr) (auto simp: open_clientfd_def walk_addresses_result split: list.split)

theorem open_listenfd_result:
  assumes "\<forall>a \<in> set as. closes a" and "\<not> addr_list pr"
  shows "open_listenfd (Inr as) listens pr =
    (case filter usable as of [] \<Rightarrow> (-1, pr)
     | a # _ \<Rightarrow> if listens (sock a) then (sock a, pr\<lparr>open_fds := sock a # open_fds pr\<rparr>) else (-1, pr))"
  using assms by (cases pr) (auto simp: open_listenfd_def walk_addresses_result Let_def split: list.split)

text \<open>The wrapper, with and without a usable address.\<close>

lemma Open_clientfd_usable:
  assumes "\<forall>a \<in> set as. closes a" and "filter usable as \<noteq> []" and "\<not> addr_list pr"
  shows "\<exists>fd. Open_clientfd (Inr as) pr = (Returns fd, pr\<lparr>open_fds := fd # open_fds pr\<rparr>)"
proof -
  obtain a as' where a: "filter usable as = a # as'" using assms(2) by (cases "filter usable as") auto
  then have "0 \<le> sock a" using filter_eq_ConsD [OF a] by (auto simp: usable_def)
  then show ?thesis using assms(1,3) a by (cases pr) (simp add: Open_clientfd_def open_clientfd_def walk_addresses_result)
qed

lemma walk_addresses_unusable: "\<forall>a \<in> set as. \<not> usable a \<Longrightarrow> fst (walk_addresses as pr) \<in> {None_joined, Close_failed}"
  by (induction as arbitrary: pr) (auto simp: usable_def Let_def)

lemma Open_clientfd_unusable:
  assumes "\<forall>as. found = Inr as \<longrightarrow> (\<forall>a \<in> set as. \<not> usable a)"
  shows "fst (Open_clientfd found pr) = Exits"
proof (cases found)
  case (Inr as)
  obtain r pr' where r: "walk_addresses as (pr\<lparr>addr_list := True\<rparr>) = (r, pr')" by fastforce
  then have "r \<in> {None_joined, Close_failed}" using walk_addresses_unusable [of as "pr\<lparr>addr_list := True\<rparr>"] assms Inr by simp
  then show ?thesis using r Inr by (auto simp: Open_clientfd_def open_clientfd_def)
qed (simp add: Open_clientfd_def open_clientfd_def)

text \<open>When \<open>close\<close> fails the address list is not freed.\<close>

lemma address_list_leaks:
  assumes "0 \<le> sock a" and "\<not> joins a" and "\<not> closes a"
  shows "fst (open_clientfd (Inr (a # as)) pr) = -1 \<and> addr_list (snd (open_clientfd (Inr (a # as)) pr))"
  using assms by (simp add: open_clientfd_def Let_def)

section \<open>Calls with one answer\<close>

text \<open>A wrapper around a call of which only the result matters: whether it ends the process.\<close>

definition ended :: "(fatal + 'a) \<times> sys \<Rightarrow> bool" where
  "ended r \<longleftrightarrow> isl (fst r)"

definition calls :: sys where "calls = \<lparr>errno = 0\<rparr>"

lemma ended_wrappers [simp]:
  "ended (Malloc (\<lambda>_. Pair v) len calls) \<longleftrightarrow> v = 0"
  "ended (Close (\<lambda>_. Pair v) fd calls) \<longleftrightarrow> v < 0"
  "ended (Accept (\<lambda>_ _ _. Pair v) a b c calls) \<longleftrightarrow> v < 0"
  "ended (Pthread_create (\<lambda>_ _ _ _. Pair v) t at r p calls) \<longleftrightarrow> v \<noteq> 0"
  "ended (Pthread_detach (\<lambda>_. Pair v) t calls) \<longleftrightarrow> v \<noteq> 0"
  by (simp_all add: ended_def Malloc_def Close_def Accept_def Pthread_create_def Pthread_detach_def error_results)

section \<open>Witnesses\<close>

definition one_socket :: "unit + attempt list" where
  "one_socket = Inr [\<lparr>sock = -1, joins = False, closes = True\<rparr>, \<lparr>sock = 3, joins = True, closes = True\<rparr>]"

definition no_files :: process where "no_files = \<lparr>open_fds = [2, 1, 0], addr_list = False\<rparr>"

lemma open_clientfd_result_witness:
  "open_clientfd one_socket no_files = (3, \<lparr>open_fds = [3, 2, 1, 0], addr_list = False\<rparr>)"
  using open_clientfd_result [of "[\<lparr>sock = -1, joins = False, closes = True\<rparr>, \<lparr>sock = 3, joins = True, closes = True\<rparr>]" no_files]
  by (simp add: one_socket_def no_files_def usable_def)

lemma open_listenfd_result_witness:
  "open_listenfd one_socket (\<lambda>_. False) no_files = (-1, no_files)"
  using open_listenfd_result [of "[\<lparr>sock = -1, joins = False, closes = True\<rparr>, \<lparr>sock = 3, joins = True, closes = True\<rparr>]" no_files "\<lambda>_. False"]
  by (simp add: one_socket_def no_files_def usable_def)

end
