(* ===== verification/Web_Proxy.thy ===== *)
theory Web_Proxy
  imports Connections "HOL-Library.Multiset"
begin

text \<open>
  The caching web proxy of \<open>proxylab/proxy.c\<close>: parsing of requests and headers, the header list,
  the LRU cache, and the relay between server and client. A handler runs here without interruption;
  the program runs them in threads without locks (see \<open>Cache_Threads\<close>).

  Text is a list of character codes without the final NUL. Memory that may be uninitialised
  is a list of \<open>byte option\<close>; a string the program has not filled in is \<open>None\<close>.
\<close>

section \<open>Data\<close>

type_synonym chars = "8 word list"
type_synonym memory = "8 word option list"

definition MAX_CACHE_SIZE :: int where "MAX_CACHE_SIZE = 1049000"
definition MAX_OBJECT_SIZE :: nat where "MAX_OBJECT_SIZE = 102400"
definition PROXY_MAXLINE :: nat where "PROXY_MAXLINE = 8192"

text \<open>Character codes of a literal.\<close>

definition codes :: "string \<Rightarrow> chars" where
  "codes s = map of_char s"

record request =
  rq_method :: chars
  rq_uri :: chars
  rq_hostname :: "chars option"
  rq_path :: "chars option"
  rq_version :: chars

record header =
  h_name :: chars
  h_data :: chars

record cached =
  c_hostname :: chars
  c_path :: chars
  c_size :: nat
  c_data :: memory
  c_time :: int

text \<open>The global variables: the chain of cached items behind (and with) the dummy
  \<open>root_cache\<close>, the header list, and the number of bytes ever written outside an array. \<open>mallocs\<close> is the number of allocations
  that still succeed: the first that fails ends the process, by \<open>Malloc\<close> or by a null pointer that is followed. \<open>proc\<close> are the open
  descriptors.\<close>

record proxy =
  cache :: "cached list"
  cache_volume :: int
  headers :: "header list"
  stray :: nat
  mallocs :: nat
  proc :: process

datatype 'a outcome = Ok 'a | Exit_proxy | Undefined

definition outcome_bind :: "'a outcome \<Rightarrow> ('a \<Rightarrow> 'b outcome) \<Rightarrow> 'b outcome" where
  "outcome_bind r f = (case r of Ok v \<Rightarrow> f v | Exit_proxy \<Rightarrow> Exit_proxy | Undefined \<Rightarrow> Undefined)"

lemma outcome_bind_simps [simp]:
  "outcome_bind (Ok v) f = f v" "outcome_bind Exit_proxy f = Exit_proxy" "outcome_bind Undefined f = Undefined"
  by (simp_all add: outcome_bind_def)

lemma outcome_bind_Ok: "outcome_bind r f = Ok y \<longleftrightarrow> (\<exists>v. r = Ok v \<and> f v = Ok y)"
  by (cases r) simp_all

text \<open>\<open>Malloc\<close>; \<open>malloc\<close> whose result is used without a test; \<open>Close\<close>, which succeeds on an open descriptor unless the kernel
  reports an error.\<close>

definition proxy_Malloc :: "proxy \<Rightarrow> proxy outcome" where
  "proxy_Malloc st =
     (if ended (Malloc (\<lambda>_. Pair (if mallocs st = 0 then 0 else 1)) () calls) then Exit_proxy else Ok (st\<lparr>mallocs := mallocs st - 1\<rparr>))"

definition proxy_malloc :: "proxy \<Rightarrow> proxy outcome" where
  "proxy_malloc st = (if mallocs st = 0 then Undefined else Ok (st\<lparr>mallocs := mallocs st - 1\<rparr>))"

definition proxy_Close :: "bool \<Rightarrow> int \<Rightarrow> proxy \<Rightarrow> proxy outcome" where
  "proxy_Close fine fd st =
     (if ended (Close (\<lambda>_. Pair (if fine \<and> fd \<in> set (open_fds (proc st)) then 0 else -1)) fd calls) then Exit_proxy
      else Ok (st\<lparr>proc := (proc st)\<lparr>open_fds := remove1 fd (open_fds (proc st))\<rparr>\<rparr>))"

lemma proxy_Malloc_eq: "proxy_Malloc st = (if mallocs st = 0 then Exit_proxy else Ok (st\<lparr>mallocs := mallocs st - 1\<rparr>))"
  by (simp add: proxy_Malloc_def)

lemma proxy_Close_eq:
  "proxy_Close fine fd st = (if fine \<and> fd \<in> set (open_fds (proc st))
     then Ok (st\<lparr>proc := (proc st)\<lparr>open_fds := remove1 fd (open_fds (proc st))\<rparr>\<rparr>) else Exit_proxy)"
  by (auto simp: proxy_Close_def)

section \<open>String functions\<close>

definition starts_with :: "chars \<Rightarrow> chars \<Rightarrow> bool" where
  "starts_with p s \<longleftrightarrow> take (length p) s = p"

text \<open>\<open>strstr\<close>: the offset of the first occurrence.\<close>

fun strstr :: "chars \<Rightarrow> chars \<Rightarrow> nat option" where
  "strstr [] p = (if p = [] then Some 0 else None)"
| "strstr (c # s) p = (if starts_with p (c # s) then Some 0 else map_option Suc (strstr s p))"

text \<open>Writing bytes at an offset of an array, with the number of bytes that fall behind its end.\<close>

definition store_at :: "nat \<Rightarrow> bytes \<Rightarrow> memory \<Rightarrow> memory" where
  "store_at k bs m = take k m @ take (length m - k) (map Some bs) @ drop (k + length bs) m"

definition behind :: "nat \<Rightarrow> bytes \<Rightarrow> memory \<Rightarrow> nat" where
  "behind k bs m = (k + length bs) - length m"

text \<open>\<open>safe_strncpy(dst, src, n)\<close> with \<open>dst\<close> at offset \<open>k\<close>: \<open>strncat\<close> onto the empty
  string copies at most \<open>n\<close> characters, stops at a NUL, and ends with one.\<close>

definition strncpy_text :: "bytes \<Rightarrow> nat \<Rightarrow> chars" where
  "strncpy_text src n = takeWhile (\<lambda>c. c \<noteq> 0) (take n src)"

definition safe_strncpy :: "nat \<Rightarrow> bytes \<Rightarrow> nat \<Rightarrow> memory \<Rightarrow> memory \<times> nat" where
  "safe_strncpy k src n m =
     (let bs = strncpy_text src n @ [0] in (store_at k bs m, behind k bs m))"

section \<open>Headers\<close>

definition insert_header :: "header \<Rightarrow> proxy \<Rightarrow> proxy" where
  "insert_header h st = st\<lparr>headers := headers st @ [h]\<rparr>"

fun header_by_key :: "chars \<Rightarrow> header list \<Rightarrow> header option" where
  "header_by_key k [] = None"
| "header_by_key k (h # hs) = (if h_name h = k then Some h else header_by_key k hs)"

definition get_header_by_key :: "chars \<Rightarrow> proxy \<Rightarrow> header option" where
  "get_header_by_key k st = header_by_key k (headers st)"

text \<open>\<open>parse_header\<close>; the length \<open>pdata - pname - 2\<close> is unsigned, so that a negative one copies
  the whole rest. A line without a colon or an end is skipped, but its memory is allocated and lost.\<close>

definition record_header :: "chars \<Rightarrow> proxy \<Rightarrow> proxy" where
  "record_header buf st =
     (case (strstr buf (codes '': ''), strstr buf [13, 10]) of
        (Some pname, Some pdata) \<Rightarrow>
          (let rest = drop (pname + 2) buf;
               data = (if pname + 2 \<le> pdata then take (pdata - pname - 2) rest else rest)
           in insert_header \<lparr>h_name = take pname buf, h_data = data\<rparr> st)
      | _ \<Rightarrow> st)"

definition parse_header :: "chars \<Rightarrow> proxy \<Rightarrow> proxy outcome" where
  "parse_header buf st = outcome_bind (proxy_Malloc st) (\<lambda>st. Ok (record_header buf st))"

definition user_agent_hdr :: chars where
  "user_agent_hdr = codes ''Agent: Mozilla/5.0 (X11; Linux x86_64; rv:10.0.3) Gecko/20120305 Firefox/10.0.3''"

definition default_header :: "chars \<Rightarrow> chars option \<Rightarrow> proxy \<Rightarrow> proxy outcome" where
  "default_header name data st =
     (case get_header_by_key name st of
        None \<Rightarrow> outcome_bind (proxy_Malloc st) (\<lambda>st.
          case data of None \<Rightarrow> Undefined | Some d \<Rightarrow> Ok (insert_header \<lparr>h_name = name, h_data = d\<rparr> st))
      | Some _ \<Rightarrow> Ok st)"

text \<open>Copying the host name the request line did not give is undefined.\<close>

definition init_header :: "request \<Rightarrow> proxy \<Rightarrow> proxy outcome" where
  "init_header req st =
     outcome_bind (default_header (codes ''Host'') (rq_hostname req) st) (\<lambda>st.
     outcome_bind (default_header (codes ''User-Agent'') (Some user_agent_hdr) st) (\<lambda>st.
     outcome_bind (default_header (codes ''Connection'') (Some (codes ''close'')) st) (\<lambda>st.
       default_header (codes ''Proxy-Connection'') (Some (codes ''close'')) st)))"

section \<open>The request line\<close>

text \<open>\<open>sscanf\<close> with \<open>%s\<close>: white space separates the fields.\<close>

definition is_space :: "8 word \<Rightarrow> bool" where
  "is_space c \<longleftrightarrow> c = 32 \<or> (9 \<le> c \<and> c \<le> 13)"

definition scan_word :: "chars \<Rightarrow> chars \<times> chars" where
  "scan_word s = (let s = dropWhile is_space s in (takeWhile (\<lambda>c. \<not> is_space c) s, dropWhile (\<lambda>c. \<not> is_space c) s))"

text \<open>\<open>parse_request\<close>: a field that is missing or too long for its array is undefined. The host
  name and the path stay uninitialised unless the method is \<open>GET\<close> and the URI contains
  \<open>http://\<close>.\<close>

definition parse_request :: "chars \<Rightarrow> request outcome" where
  "parse_request buf =
     (let (method, r1) = scan_word buf; (uri, r2) = scan_word r1; (version, _) = scan_word r2 in
      if method = [] \<or> uri = [] \<or> version = [] \<or> 10 \<le> length method \<or> 200 \<le> length uri \<or> 100 \<le> length version
      then Undefined
      else
        let req = \<lparr>rq_method = method, rq_uri = uri, rq_hostname = None, rq_path = None, rq_version = version\<rparr> in
        if method \<noteq> codes ''GET'' then Ok req
        else case strstr uri (codes ''http://'') of
          None \<Rightarrow> Ok req
        | Some k \<Rightarrow>
            (let host_start = drop (k + 7) uri in
             case strstr host_start (codes ''/'') of
               None \<Rightarrow> Ok (req\<lparr>rq_hostname := Some host_start, rq_path := Some (codes ''/'')\<rparr>)
             | Some p \<Rightarrow> Ok (req\<lparr>rq_hostname := Some (take p host_start), rq_path := Some (drop p host_start)\<rparr>)))"

text \<open>\<open>client_handler\<close>: header lines until the empty line. \<open>buf\<close> is cleared before each
  read, so at the end of file it is the empty string, which is not the empty line: the loop goes on, and every round
  allocates a header. A line is the text before the first NUL.\<close>

definition line_text :: "bytes \<Rightarrow> chars" where
  "line_text bs = takeWhile (\<lambda>c. c \<noteq> 0) bs"

lemma parse_header_mallocs: "parse_header buf st = Ok st' \<Longrightarrow> mallocs st' < mallocs st"
  by (auto simp: parse_header_def proxy_Malloc_eq record_header_def insert_header_def Let_def split: if_splits option.splits)

function header_loop :: "rio_t \<Rightarrow> chars \<Rightarrow> proxy \<Rightarrow> proxy outcome" where
  "header_loop rp buf st =
     (if buf = [13, 10] then Ok st
      else case parse_header buf st of
        Exit_proxy \<Rightarrow> Exit_proxy
      | Undefined \<Rightarrow> Undefined
      | Ok st1 \<Rightarrow>
          (case Rio_readlineb rp PROXY_MAXLINE of
             Exits \<Rightarrow> Exit_proxy
           | Returns ((_, bs, _), rp') \<Rightarrow> header_loop rp' (line_text bs) st1))"
  by pat_completeness auto
termination by (relation "measure (\<lambda>(rp, buf, st). mallocs st)") (auto dest: parse_header_mallocs)

declare header_loop.simps [simp del]

definition client_handler :: "source \<Rightarrow> proxy \<Rightarrow> (request \<times> proxy) outcome" where
  "client_handler fd st =
     (let rp = Rio_readinitb \<lparr>rio_fd = [], rio_cnt = 0, rio_bufptr = 0, rio_buf = replicate RIO_BUFSIZE 0\<rparr> fd in
      case Rio_readlineb rp PROXY_MAXLINE of
        Exits \<Rightarrow> Exit_proxy
      | Returns ((_, l, _), rp1) \<Rightarrow>
          outcome_bind (parse_request (line_text l)) (\<lambda>req.
            case Rio_readlineb rp1 PROXY_MAXLINE of
              Exits \<Rightarrow> Exit_proxy
            | Returns ((_, l, _), rp2) \<Rightarrow>
                outcome_bind (header_loop rp2 (line_text l) st) (\<lambda>st.
                outcome_bind (init_header req st) (\<lambda>st. Ok (req, st)))))"

section \<open>The cache\<close>

definition init_cache_root :: "int \<Rightarrow> cached" where
  "init_cache_root now = \<lparr>c_hostname = [], c_path = [], c_size = 0, c_data = [], c_time = now\<rparr>"

text \<open>A pointer to an item is its index in the chain; \<open>search_cache\<close> starts at the dummy.\<close>

fun search_from :: "nat \<Rightarrow> chars \<Rightarrow> chars \<Rightarrow> cached list \<Rightarrow> nat option" where
  "search_from i p h [] = None"
| "search_from i p h (c # cs) =
     (if p = c_path c \<and> h = c_hostname c then Some i else search_from (Suc i) p h cs)"

definition search_cache :: "chars \<Rightarrow> chars \<Rightarrow> proxy \<Rightarrow> nat option" where
  "search_cache p h st = search_from 0 p h (cache st)"

definition update_time :: "nat \<Rightarrow> int \<Rightarrow> proxy \<Rightarrow> proxy" where
  "update_time i now st = st\<lparr>cache := (cache st)[i := (cache st ! i)\<lparr>c_time := now\<rparr>]\<rparr>"

text \<open>\<open>LRU\<close>: the first item behind the dummy with the smallest time; \<open>None\<close> when there is none
  and a null pointer is followed.\<close>

fun lru_from :: "nat \<Rightarrow> int \<Rightarrow> nat \<Rightarrow> cached list \<Rightarrow> nat" where
  "lru_from ev least i [] = ev"
| "lru_from ev least i (c # cs) =
     (if least > c_time c then lru_from i (c_time c) (Suc i) cs else lru_from ev least (Suc i) cs)"

definition LRU :: "proxy \<Rightarrow> nat option" where
  "LRU st = (case tl (cache st) of [] \<Rightarrow> None | c # cs \<Rightarrow> Some (lru_from 1 (c_time c) 1 (c # cs)))"

definition delete_cache :: "nat \<Rightarrow> proxy \<Rightarrow> proxy" where
  "delete_cache i st =
     st\<lparr>cache := take i (cache st) @ drop (Suc i) (cache st),
        cache_volume := cache_volume st - int (c_size (cache st ! i))\<rparr>"

lemma LRU_range: "LRU st = Some i \<Longrightarrow> 0 < i \<and> i < length (cache st)"
proof -
  have r: "lru_from ev t k cs = ev \<or> (k \<le> lru_from ev t k cs \<and> lru_from ev t k cs < k + length cs)" for ev t k cs
    by (induction ev t k cs rule: lru_from.induct) auto
  assume "LRU st = Some i"
  then obtain c cs where c: "tl (cache st) = c # cs" "i = lru_from 1 (c_time c) 1 (c # cs)"
    by (auto simp: LRU_def split: list.splits)
  moreover have "length (cache st) = Suc (length (c # cs))" using c(1) by (cases "cache st") auto
  ultimately show ?thesis using r [of 1 "c_time c" 1 "c # cs"] by auto
qed

text \<open>The eviction loop of \<open>send_request\<close>.\<close>

function evict_loop :: "nat \<Rightarrow> proxy \<Rightarrow> proxy option" where
  "evict_loop sz st =
     (if cache_volume st + int sz > MAX_CACHE_SIZE
      then case LRU st of None \<Rightarrow> None | Some i \<Rightarrow> evict_loop sz (delete_cache i st)
      else Some st)"
  by pat_completeness auto
termination evict_loop
  by (relation "measure (\<lambda>(sz, st). length (cache st))") (auto simp: delete_cache_def dest!: LRU_range)

declare evict_loop.simps [simp del]

text \<open>\<open>create_cache\<close> and the filling of the new item. \<open>data\<close> is allocated with exactly
  \<open>cache_size\<close> bytes. The bytes of \<open>cache_buf\<close> that were never written are unknown;
  \<open>strncat\<close> reads them as \<open>junk\<close>. The NUL behind a text of \<open>cache_size\<close> bytes falls behind \<open>data\<close>, as does one behind a full
  \<open>cache_buf\<close>; taken as undefined this would leave nothing to say of a cached response, so the model counts such bytes in \<open>stray\<close> and
  goes on, as the program does when they fall on bytes that nobody uses.\<close>

definition read_bytes :: "8 word \<Rightarrow> memory \<Rightarrow> bytes" where
  "read_bytes junk m = map (\<lambda>b. case b of Some x \<Rightarrow> x | None \<Rightarrow> junk) m"

definition add_cached :: "8 word \<Rightarrow> chars \<Rightarrow> chars \<Rightarrow> memory \<Rightarrow> nat \<Rightarrow> int \<Rightarrow> proxy \<Rightarrow> proxy" where
  "add_cached junk host path buf cache_size now st =
     (let (data, over) = safe_strncpy 0 (read_bytes junk buf) cache_size (replicate cache_size None) in
      st\<lparr>cache := cache st @ [\<lparr>c_hostname = host, c_path = path, c_size = cache_size, c_data = data, c_time = now\<rparr>],
         cache_volume := cache_volume st + int cache_size,
         stray := stray st + over\<rparr>)"

section \<open>Relaying a response\<close>

record relay =
  r_rio :: rio_t
  r_client :: sink
  r_cachable :: bool
  r_buf :: memory
  r_ptr :: nat
  r_stray :: nat

partial_function (option) relay_loop :: "relay \<Rightarrow> relay outcome option" where
  "relay_loop r =
     (case Rio_readnb (r_rio r) PROXY_MAXLINE of
        Exits \<Rightarrow> Some Exit_proxy
      | Returns (bs, rp) \<Rightarrow>
          if bs = [] then Some (Ok (r\<lparr>r_rio := rp\<rparr>))
          else case Rio_writen bs (r_client r) of
            Exits \<Rightarrow> Some Exit_proxy
          | Returns k \<Rightarrow>
              relay_loop
                (if r_cachable r
                 then if length bs + r_ptr r \<le> MAX_OBJECT_SIZE
                      then (let (m, over) = safe_strncpy (r_ptr r) bs (length bs) (r_buf r) in
                            r\<lparr>r_rio := rp, r_client := k, r_buf := m, r_ptr := r_ptr r + length bs,
                              r_stray := r_stray r + over\<rparr>)
                      else r\<lparr>r_rio := rp, r_client := k, r_cachable := False\<rparr>
                 else r\<lparr>r_rio := rp, r_client := k\<rparr>))"

declare relay_loop.simps [code]

section \<open>A request to the server\<close>

definition crlf :: chars where "crlf = [13, 10]"

text \<open>The text sent: the concatenations start on what the uninitialised \<open>Request_buf\<close> holds
  (\<open>stale\<close>).\<close>

definition request_text :: "chars \<Rightarrow> request \<Rightarrow> chars \<Rightarrow> header list \<Rightarrow> chars" where
  "request_text stale req path hs =
     stale @ rq_method req @ codes '' '' @ path @ codes '' '' @ codes ''HTTP/1.0'' @ crlf
     @ concat (map (\<lambda>h. h_name h @ codes '': '' @ h_data h @ crlf) hs) @ crlf"

definition server_address :: "chars \<Rightarrow> chars \<times> chars" where
  "server_address domain =
     (case strstr domain (codes '':'') of
        Some k \<Rightarrow> (take k domain, drop (Suc k) domain)
      | None \<Rightarrow> (domain, codes ''80''))"

text \<open>
  The servers: what \<open>getaddrinfo\<close> and the kernel answer for an address, how the chosen server takes the request, the response as
  it arrives, and whether closing the two descriptors succeeds.
\<close>

record network =
  addresses :: "chars \<times> chars \<Rightarrow> unit + attempt list"
  upstream :: sink
  response :: "chars \<times> chars \<Rightarrow> chars \<Rightarrow> source"
  closes_server :: bool
  closes_client :: bool

definition fresh_relay :: "source \<Rightarrow> sink \<Rightarrow> relay" where
  "fresh_relay fd client = \<lparr>r_rio = Rio_readinitb \<lparr>rio_fd = [], rio_cnt = 0, rio_bufptr = 0,
        rio_buf = replicate RIO_BUFSIZE 0\<rparr> fd, r_client = client, r_cachable = True,
      r_buf = replicate MAX_OBJECT_SIZE None, r_ptr = 0, r_stray = 0\<rparr>"

text \<open>The cache part of \<open>send_request\<close>: room is made, the item and then its data are allocated, the texts are copied.\<close>

definition cache_response :: "8 word \<Rightarrow> int \<Rightarrow> header \<Rightarrow> chars \<Rightarrow> relay \<Rightarrow> proxy \<Rightarrow> proxy outcome" where
  "cache_response junk now header_host path r st =
     (if \<not> r_cachable r then Ok st
      else case evict_loop (r_ptr r) st of
        None \<Rightarrow> Undefined
      | Some st \<Rightarrow>
          outcome_bind (proxy_malloc st) (\<lambda>st.
            if 200 \<le> length (h_data header_host) \<or> 1000 \<le> length path then Undefined
            else outcome_bind (proxy_malloc st) (\<lambda>st.
              Ok (add_cached junk (h_data header_host) path (r_buf r) (r_ptr r) now st))))"

text \<open>
  \<open>send_request\<close>. Uninitialised host names and paths, and texts that do not fit their arrays,
  are undefined. Without a host the function returns and leaves \<open>clientfd\<close> open.
\<close>

definition send_request ::
  "network \<Rightarrow> 8 word \<Rightarrow> chars \<Rightarrow> int \<Rightarrow> int \<Rightarrow> sink \<Rightarrow> request \<Rightarrow> header \<Rightarrow> proxy \<Rightarrow> (sink \<times> proxy) outcome option" where
  "send_request net junk stale now clientfd client req header_host st =
     (case (rq_hostname req, rq_path req) of
        (Some host, Some path) \<Rightarrow>
          (case (if host \<noteq> [] then Some host else map_option h_data (get_header_by_key (codes ''Host'') st)) of
             None \<Rightarrow> Some (Ok (client, st))
           | Some domain \<Rightarrow>
               (let msg = request_text stale req path (headers st); address = server_address domain in
                if 200 \<le> length domain \<or> 10000 \<le> length msg then Some Undefined
                else case Open_clientfd (addresses net address) (proc st) of
                  (Exits, _) \<Rightarrow> Some Exit_proxy
                | (Returns serverfd, pr) \<Rightarrow>
                    (case Rio_writen msg (upstream net) of
                       Exits \<Rightarrow> Some Exit_proxy
                     | Returns _ \<Rightarrow>
                         map_option (\<lambda>relayed.
                             outcome_bind relayed (\<lambda>r.
                             outcome_bind (cache_response junk now header_host path r (st\<lparr>proc := pr, stray := stray st + r_stray r\<rparr>)) (\<lambda>st.
                             outcome_bind (proxy_Close (closes_server net) serverfd st) (\<lambda>st.
                             outcome_bind (proxy_Close (closes_client net) clientfd st) (\<lambda>st. Ok (r_client r, st))))))
                           (relay_loop (fresh_relay (response net address msg) client)))))
      | _ \<Rightarrow> Some Undefined)"

definition server_handler ::
  "network \<Rightarrow> 8 word \<Rightarrow> chars \<Rightarrow> int \<Rightarrow> int \<Rightarrow> sink \<Rightarrow> request \<Rightarrow> proxy \<Rightarrow> (sink \<times> proxy) outcome option" where
  "server_handler net junk stale now clientfd client req st =
     (case (get_header_by_key (codes ''Host'') st, rq_path req) of
        (Some header_host, Some path) \<Rightarrow>
          (case search_cache path (h_data header_host) st of
             Some i \<Rightarrow>
               (case Rio_writen (read_bytes junk (take (c_size (cache st ! i)) (c_data (cache st ! i)))) client of
                  Exits \<Rightarrow> Some Exit_proxy
                | Returns k \<Rightarrow> Some (outcome_bind (proxy_Close (closes_client net) clientfd (update_time i now st)) (\<lambda>st. Ok (k, st))))
           | None \<Rightarrow> send_request net junk stale now clientfd client req header_host st)
      | _ \<Rightarrow> Some Undefined)"

section \<open>Memory\<close>

lemma length_store_at [simp]: "k \<le> length m \<Longrightarrow> length (store_at k bs m) = length m"
  by (simp add: store_at_def)

lemma nth_store_at:
  "k \<le> length m \<Longrightarrow> i < length m \<Longrightarrow>
   store_at k bs m ! i = (if k \<le> i \<and> i < k + length bs then Some (bs ! (i - k)) else m ! i)"
  by (auto simp: store_at_def nth_append min_def not_less)

lemma take_store_at:
  assumes "k + length bs \<le> length m"
  shows "take (k + length bs) (store_at k (bs @ cs) m) = take k m @ map Some bs"
proof (rule nth_equalityI)
  show "length (take (k + length bs) (store_at k (bs @ cs) m)) = length (take k m @ map Some bs)"
    using assms by simp
  fix i assume "i < length (take (k + length bs) (store_at k (bs @ cs) m))"
  then show "take (k + length bs) (store_at k (bs @ cs) m) ! i = (take k m @ map Some bs) ! i"
    using assms by (auto simp: nth_store_at nth_append)
qed

lemma strncpy_text_no_nul: "0 \<notin> set bs \<Longrightarrow> strncpy_text bs (length bs) = bs"
  by (auto simp: strncpy_text_def)

section \<open>Headers and requests\<close>

lemma header_by_key_append:
  "header_by_key k hs = Some h \<Longrightarrow> header_by_key k (hs @ hs') = Some h"
  by (induction hs) auto

text \<open>What is done to the header list only appends to it.\<close>

definition extends :: "proxy \<Rightarrow> proxy \<Rightarrow> bool" where
  "extends st st' \<longleftrightarrow> (\<exists>hs. headers st' = headers st @ hs) \<and> cache st' = cache st \<and> cache_volume st' = cache_volume st
     \<and> stray st' = stray st \<and> proc st' = proc st"

lemma extends_refl [simp]: "extends st st"
  by (simp add: extends_def)

lemma extends_trans: "extends a b \<Longrightarrow> extends b c \<Longrightarrow> extends a c"
  by (auto simp: extends_def)

lemma extends_parse_header: "parse_header buf st = Ok st' \<Longrightarrow> extends st st'"
  by (auto simp: parse_header_def proxy_Malloc_eq record_header_def insert_header_def Let_def extends_def split: option.splits if_splits)

lemma extends_default_header: "default_header k d st = Ok st' \<Longrightarrow> extends st st'"
  by (auto simp: default_header_def proxy_Malloc_eq insert_header_def extends_def split: option.splits if_splits)

lemma extends_get: "extends st st' \<Longrightarrow> get_header_by_key k st = Some h \<Longrightarrow> get_header_by_key k st' = Some h"
  by (auto simp: extends_def get_header_by_key_def header_by_key_append)

lemma extends_init_header: "init_header req st = Ok st' \<Longrightarrow> extends st st'"
  by (auto simp: init_header_def outcome_bind_Ok intro: extends_trans dest!: extends_default_header)

lemma extends_header_loop: "header_loop rp buf st = Ok st' \<Longrightarrow> extends st st'"
proof (induction rp buf st rule: header_loop.induct)
  case (1 rp buf st)
  show ?case
  proof (cases "buf = [13, 10]")
    case True
    then show ?thesis using "1.prems" by (simp add: header_loop.simps [of rp "[13, 10]"])
  next
    case False
    then obtain st1 rc bs nul rp' where p: "parse_header buf st = Ok st1" "Rio_readlineb rp PROXY_MAXLINE = Returns ((rc, bs, nul), rp')"
      "header_loop rp' (line_text bs) st1 = Ok st'"
      using "1.prems" by (subst (asm) header_loop.simps) (auto split: outcome.splits call_result.splits)
    have "extends st1 st'" by (rule "1.IH" [OF False p(1,2) refl refl refl p(3)])
    then show ?thesis by (rule extends_trans [OF extends_parse_header [OF p(1)]])
  qed
qed

lemma extends_client_handler:
  assumes "client_handler fd st = Ok (req, st')"
  shows "extends st st'"
proof -
  let ?rp = "Rio_readinitb \<lparr>rio_fd = [], rio_cnt = 0, rio_bufptr = 0, rio_buf = replicate RIO_BUFSIZE 0\<rparr> fd"
  obtain rc l nul rp1 where 1: "Rio_readlineb ?rp PROXY_MAXLINE = Returns ((rc, l, nul), rp1)"
    using assms by (auto simp: client_handler_def Let_def split: call_result.splits)
  obtain rc2 l2 nul2 rp2 where 2: "Rio_readlineb rp1 PROXY_MAXLINE = Returns ((rc2, l2, nul2), rp2)"
    using assms by (cases "Rio_readlineb rp1 PROXY_MAXLINE") (auto simp: client_handler_def 1 outcome_bind_Ok)
  show ?thesis using assms
    by (auto simp: client_handler_def 1 2 outcome_bind_Ok dest!: extends_header_loop extends_init_header intro: extends_trans)
qed

lemma starts_with_append [simp]: "starts_with p (p @ s)"
  by (simp add: starts_with_def)

lemma strstr_skip:
  assumes "c \<notin> set a"
  shows "strstr (a @ c # s) (c # p) = map_option (\<lambda>k. length a + k) (strstr (c # s) (c # p))"
  using assms by (induction a) (auto simp: starts_with_def option.map_comp o_def)

lemma strstr_at:
  assumes "c \<notin> set a"
  shows "strstr (a @ c # p @ s) (c # p) = Some (length a)"
  using strstr_skip [OF assms, of "p @ s" p] starts_with_append [of "c # p" s] by simp

text \<open>A header line \<open>name: data\<close> is recorded as that name and that data, behind the
  headers there are.\<close>

definition header_line :: "header \<Rightarrow> chars" where
  "header_line h = h_name h @ codes '': '' @ h_data h @ crlf"

definition line_header :: "header \<Rightarrow> bool" where
  "line_header h \<longleftrightarrow> set (h_name h) \<inter> {0, 10, 13, 58} = {} \<and> set (h_data h) \<inter> {0, 10, 13} = {} \<and> length (header_line h) < PROXY_MAXLINE"

lemma record_header_line:
  assumes "line_header h"
  shows "record_header (header_line h) st = insert_header h st"
proof -
  have n: "58 \<notin> set (h_name h)" "13 \<notin> set (h_name h)" "13 \<notin> set (h_data h)" using assms by (auto simp: line_header_def)
  let ?buf = "header_line h"
  have c: "codes '': '' = [58, 32]" by (simp add: codes_def)
  have "strstr ?buf (codes '': '') = Some (length (h_name h))"
    using strstr_at [OF n(1), of "[32]" "h_data h @ crlf"] by (simp add: c header_line_def)
  moreover have "strstr ?buf [13, 10] = Some (length (h_name h) + 2 + length (h_data h))"
    using strstr_at [of 13 "h_name h @ [58, 32] @ h_data h" "[10]" "[]"] n by (simp add: c crlf_def header_line_def)
  moreover have "take (length (h_name h)) ?buf = h_name h" "take (length (h_data h)) (drop (length (h_name h) + 2) ?buf) = h_data h"
    by (simp_all add: c header_line_def)
  ultimately show ?thesis by (cases h) (simp add: record_header_def Let_def)
qed

lemma parse_header_line:
  "line_header h \<Longrightarrow> 0 < mallocs st \<Longrightarrow> parse_header (header_line h) st = Ok (insert_header h (st\<lparr>mallocs := mallocs st - 1\<rparr>))"
  by (simp add: parse_header_def proxy_Malloc_eq record_header_line)

lemma scan_word_word:
  assumes "w \<noteq> []" and "\<forall>c \<in> set w. \<not> is_space c" and "is_space s"
  shows "scan_word (w @ s # r) = (w, s # r)"
proof -
  have "dropWhile is_space (w @ s # r) = w @ s # r" using assms(1,2) by (cases w) auto
  moreover have "takeWhile (\<lambda>c. \<not> is_space c) (w @ s # r) = w" "dropWhile (\<lambda>c. \<not> is_space c) (w @ s # r) = s # r"
    using assms(2,3) by (simp_all add: takeWhile_append dropWhile_append)
  ultimately show ?thesis by (simp add: scan_word_def)
qed

lemma scan_word_space: "is_space s \<Longrightarrow> scan_word (s # r) = scan_word r"
  by (simp add: scan_word_def)

text \<open>The request line \<open>GET http://host/path version\<close> gives the host and the path, and the
  default path where there is none.\<close>

theorem parse_request_line:
  assumes "\<forall>c \<in> set (host @ path). \<not> is_space c" and "47 \<notin> set host" and "path = [] \<or> hd path = 47"
    and "length host + length path < 190"
  shows "parse_request (codes ''GET http://'' @ host @ path @ codes '' HTTP/1.0'' @ crlf) =
    Ok \<lparr>rq_method = codes ''GET'', rq_uri = codes ''http://'' @ host @ path, rq_hostname = Some host,
        rq_path = Some (if path = [] then codes ''/'' else path), rq_version = codes ''HTTP/1.0''\<rparr>"
proof -
  let ?uri = "codes ''http://'' @ host @ path"
  have split: "codes ''GET http://'' @ host @ path @ codes '' HTTP/1.0'' @ crlf =
      codes ''GET'' @ 32 # ?uri @ 32 # codes ''HTTP/1.0'' @ 13 # [10]"
    by (simp add: codes_def crlf_def)
  have sp: "is_space 32" "is_space 13" by (simp_all add: is_space_def)
  define G where "G = codes ''GET''"
  define V where "V = codes ''HTTP/1.0''"
  define U where "U = ?uri"
  have w1: "scan_word (G @ 32 # r) = (G, 32 # r)" for r
    by (rule scan_word_word) (simp_all add: G_def codes_def is_space_def)
  have w2: "scan_word (32 # U @ 32 # r) = (U, 32 # r)" for r
    unfolding scan_word_space [OF sp(1)]
    by (rule scan_word_word) (use assms(1) in \<open>auto simp: U_def codes_def is_space_def\<close>)
  have w3: "scan_word (32 # V @ 13 # r) = (V, 13 # r)" for r
    unfolding scan_word_space [OF sp(1)]
    by (rule scan_word_word) (simp_all add: V_def codes_def is_space_def)
  have ok: "G \<noteq> []" "U \<noteq> []" "V \<noteq> []" "\<not> 10 \<le> length G" "\<not> 200 \<le> length U" "\<not> 100 \<le> length V"
    using assms(4) by (simp_all add: G_def U_def V_def codes_def)
  have http: "strstr U (codes ''http://'') = Some 0" by (simp add: U_def codes_def starts_with_def)
  have host: "drop 7 U = host @ path" by (simp add: U_def codes_def)
  have slash: "strstr (host @ path) (codes ''/'') = (if path = [] then None else Some (length host))"
  proof (cases path)
    case Nil
    have "strstr host [47] = None" using assms(2) by (induction host) (auto simp: starts_with_def)
    then show ?thesis using Nil by (simp add: codes_def)
  next
    case (Cons c cs)
    then show ?thesis using assms(3) strstr_at [OF assms(2), of "[]" cs] by (simp add: codes_def)
  qed
  have "parse_request (G @ 32 # U @ 32 # V @ 13 # [10]) =
    Ok \<lparr>rq_method = G, rq_uri = U, rq_hostname = Some host,
        rq_path = Some (if path = [] then codes ''/'' else path), rq_version = V\<rparr>"
    unfolding parse_request_def by (simp add: Let_def w1 w2 w3 ok http host slash G_def [symmetric])
  then show ?thesis unfolding split by (simp only: G_def U_def V_def)
qed

theorem parse_request_line_witness:
  "parse_request (codes ''GET http://a.org/x HTTP/1.0'' @ crlf) =
    Ok \<lparr>rq_method = codes ''GET'', rq_uri = codes ''http://a.org/x'', rq_hostname = Some (codes ''a.org''),
        rq_path = Some (codes ''/x''), rq_version = codes ''HTTP/1.0''\<rparr>"
proof -
  have "\<forall>c \<in> set (codes ''a.org'' @ codes ''/x''). \<not> is_space c" "47 \<notin> set (codes ''a.org'')"
    by (simp_all add: codes_def is_space_def)
  then show ?thesis using parse_request_line [of "codes ''a.org''" "codes ''/x''"] by (simp add: codes_def)
qed

section \<open>The cache\<close>

definition cache_inv :: "proxy \<Rightarrow> bool" where
  "cache_inv st \<longleftrightarrow> cache st \<noteq> [] \<and> c_size (hd (cache st)) = 0
     \<and> cache_volume st = int (sum_list (map c_size (tl (cache st))))
     \<and> cache_volume st \<le> MAX_CACHE_SIZE"

text \<open>\<open>LRU\<close> picks an item no younger than any other.\<close>

lemma lru_from_least:
  assumes "\<forall>d \<in> set pre. t \<le> c_time d" and "ev < length pre" and "c_time (pre ! ev) = t"
  shows "lru_from (Suc ev) t (Suc (length pre)) cs \<le> length (pre @ cs)
    \<and> 0 < lru_from (Suc ev) t (Suc (length pre)) cs
    \<and> (\<forall>d \<in> set (pre @ cs). c_time ((pre @ cs) ! (lru_from (Suc ev) t (Suc (length pre)) cs - 1)) \<le> c_time d)"
  using assms
proof (induction cs arbitrary: pre ev t)
  case Nil
  then show ?case by simp
next
  case (Cons c cs)
  show ?case
  proof (cases "t > c_time c")
    case True
    have "\<forall>d \<in> set (pre @ [c]). c_time c \<le> c_time d" using Cons.prems True by force
    then show ?thesis using Cons.IH [of "pre @ [c]" "c_time c" "length pre"] True by (simp add: nth_append)
  next
    case False
    have "\<forall>d \<in> set (pre @ [c]). t \<le> c_time d" using Cons.prems False by auto
    then show ?thesis using Cons.IH [of "pre @ [c]" t ev] Cons.prems False by (simp add: nth_append)
  qed
qed

lemma LRU_least:
  assumes "cache st = root # items" and "items \<noteq> []"
  shows "\<exists>i. LRU st = Some (Suc i) \<and> i < length items \<and> (\<forall>d \<in> set items. c_time (items ! i) \<le> c_time d)"
proof -
  obtain c cs where items: "items = c # cs" using assms(2) by (cases items) auto
  let ?k = "lru_from (Suc 0) (c_time c) (Suc (length [c])) cs"
  have k: "?k \<le> length items" "0 < ?k" "\<forall>d \<in> set items. c_time (items ! (?k - 1)) \<le> c_time d"
    using lru_from_least [of "[c]" "c_time c" 0 cs] by (simp_all add: items)
  have "LRU st = Some ?k" by (simp add: LRU_def assms(1) items)
  moreover have "Suc (?k - 1) = ?k" using k(2) by simp
  ultimately show ?thesis using k by (intro exI [of _ "?k - 1"]) auto
qed

lemma remove_nth_mset: "i < length xs \<Longrightarrow> mset xs = add_mset (xs ! i) (mset (take i xs @ drop (Suc i) xs))"
  by (simp add: id_take_nth_drop [of i xs, symmetric] flip: mset.simps)
    (metis add_mset_add_single id_take_nth_drop mset.simps(2) mset_append union_mset_add_mset_right)

lemma sum_sizes_mset: "sum_list (map c_size xs) = (\<Sum>c \<in># mset xs. c_size c)"
  by (simp flip: sum_mset_sum_list)

text \<open>The eviction loop ends without following a null pointer, makes room, and throws out the
  oldest items: none of them is younger than one that stays.\<close>

lemma evict_loop_makes_room:
  assumes "cache_inv st" and "cache st = root # items" and "int sz \<le> MAX_CACHE_SIZE"
  shows "\<exists>st' items' ev. evict_loop sz st = Some st' \<and> cache st' = root # items' \<and> mset items = mset items' + ev
    \<and> (\<forall>c \<in># ev. \<forall>d \<in># mset items'. c_time c \<le> c_time d)
    \<and> cache_volume st' + int sz \<le> MAX_CACHE_SIZE \<and> cache_inv st'
    \<and> headers st' = headers st \<and> stray st' = stray st \<and> mallocs st' = mallocs st \<and> proc st' = proc st
    \<and> (cache_volume st + int sz \<le> MAX_CACHE_SIZE \<longrightarrow> st' = st)"
  using assms(1,2)
proof (induction "length items" arbitrary: st items)
  case 0
  then have "cache_volume st = 0" by (simp add: cache_inv_def)
  then have "evict_loop sz st = Some st" using assms(3) by (subst evict_loop.simps) simp
  then show ?case using 0 assms(3) \<open>cache_volume st = 0\<close> by (intro exI [of _ st] exI [of _ items] exI [of _ "{#}"]) simp
next
  case (Suc n)
  show ?case
  proof (cases "cache_volume st + int sz > MAX_CACHE_SIZE")
    case False
    then have "evict_loop sz st = Some st" by (subst evict_loop.simps) simp
    then show ?thesis using Suc.prems False by (intro exI [of _ st] exI [of _ items] exI [of _ "{#}"]) simp
  next
    case True
    obtain i where i: "LRU st = Some (Suc i)" "i < length items" "\<forall>d \<in> set items. c_time (items ! i) \<le> c_time d"
      using LRU_least [OF Suc.prems(2)] Suc.hyps(2) by force
    let ?items = "take i items @ drop (Suc i) items"
    let ?st = "delete_cache (Suc i) st"
    have m: "mset items = add_mset (items ! i) (mset ?items)" by (rule remove_nth_mset [OF i(2)])
    have c: "cache ?st = root # ?items" using Suc.prems(2) by (simp add: delete_cache_def)
    have v: "cache_volume ?st = cache_volume st - int (c_size (items ! i))"
      using Suc.prems(2) by (simp add: delete_cache_def)
    have s: "sum_list (map c_size items) = c_size (items ! i) + sum_list (map c_size ?items)"
      unfolding sum_sizes_mset m by simp
    have inv: "cache_inv ?st" using Suc.prems c v s by (simp add: cache_inv_def)
    have n: "n = length ?items" using Suc.hyps(2) i(2) by simp
    obtain st' items' ev where ih: "evict_loop sz ?st = Some st'" "cache st' = root # items'" "mset ?items = mset items' + ev"
      "\<forall>c \<in># ev. \<forall>d \<in># mset items'. c_time c \<le> c_time d" "cache_volume st' + int sz \<le> MAX_CACHE_SIZE" "cache_inv st'"
      "headers st' = headers ?st" "stray st' = stray ?st" "mallocs st' = mallocs ?st" "proc st' = proc ?st"
      using Suc.hyps(1) [OF n inv c] by blast
    have "evict_loop sz st = Some st'" using True i(1) ih(1) by (subst evict_loop.simps) simp
    moreover have "mset items = mset items' + add_mset (items ! i) ev" using m ih(3) by simp
    moreover have "\<forall>d \<in># mset items'. c_time (items ! i) \<le> c_time d"
      using i(3) ih(3) m by (metis add_mset_remove_trivial_eq in_multiset_in_set insert_iff set_mset_add_mset_insert union_iff)
    moreover have "headers st' = headers st" "stray st' = stray st" "mallocs st' = mallocs st" "proc st' = proc st"
      using ih by (simp_all add: delete_cache_def)
    ultimately show ?thesis using ih True
      by (intro exI [of _ st'] exI [of _ items'] exI [of _ "add_mset (items ! i) ev"]) auto
  qed
qed

section \<open>Relaying\<close>

definition sink_ok :: "sink \<Rightarrow> bool" where
  "sink_ok k \<longleftrightarrow> WFailing \<notin> set (rooms k) \<and> Accepts 0 \<notin> set (rooms k)"

lemma rio_writen_rooms: "set (rooms (snd (rio_writen bs k))) \<subseteq> set (rooms k)"
proof (induction bs k rule: rio_writen.induct)
  case (1 bs k)
  obtain r k' where w: "sys_write bs k = (r, k')" by fastforce
  have k': "set (rooms k') \<subseteq> set (rooms k)"
    using w by (auto simp: sys_write_def split: list.splits room.splits)
  consider "bs = []" | "bs \<noteq> []" "r \<le> 0" "errno_eintr k'" | "bs \<noteq> []" "r \<le> 0" "\<not> errno_eintr k'" | "bs \<noteq> []" "\<not> r \<le> 0"
    by blast
  then show ?case
  proof cases
    case 1
    then show ?thesis by (subst rio_writen.simps) simp
  next
    case 2
    then show ?thesis using "1.IH"(1) [OF 2(1) w [symmetric] 2(2,3)] w k'
      by (subst rio_writen.simps) (auto split: prod.splits)
  next
    case 3
    then show ?thesis using w k' by (subst rio_writen.simps) simp
  next
    case 4
    then show ?thesis using "1.IH"(2) [OF 4(1) w [symmetric] 4(2)] w k'
      by (subst rio_writen.simps) (auto split: prod.splits)
  qed
qed

lemma Rio_writen_ok:
  assumes "sink_ok k"
  shows "\<exists>k'. Rio_writen bs k = Returns k' \<and> written k' = written k @ bs \<and> sink_ok k'"
proof -
  obtain n k' where k': "rio_writen bs k = (n, k')" by fastforce
  have "set (rooms k') \<subseteq> set (rooms k)" using rio_writen_rooms [of bs k] k' by simp
  then show ?thesis using rio_writen_all [of k bs] assms k' by (auto simp: Rio_writen_def sink_ok_def)
qed

lemma Rio_readnb_ok:
  assumes "rio_inv rp"
  shows "\<exists>rp'. Rio_readnb rp n = Returns (take n (stream rp), rp') \<and> stream rp' = drop n (stream rp) \<and> rio_inv rp'"
  using readnb_loop_stream [OF assms, of n "[]"] by (auto simp: Rio_readnb_def rio_readnb_def)

definition keep_piece :: "bytes \<Rightarrow> rio_t \<Rightarrow> sink \<Rightarrow> relay \<Rightarrow> relay" where
  "keep_piece bs rp k r =
     (if r_cachable r
      then if length bs + r_ptr r \<le> MAX_OBJECT_SIZE
           then (let (m, over) = safe_strncpy (r_ptr r) bs (length bs) (r_buf r) in
                 r\<lparr>r_rio := rp, r_client := k, r_buf := m, r_ptr := r_ptr r + length bs,
                   r_stray := r_stray r + over\<rparr>)
           else r\<lparr>r_rio := rp, r_client := k, r_cachable := False\<rparr>
      else r\<lparr>r_rio := rp, r_client := k\<rparr>)"

lemma relay_loop_step:
  assumes "Rio_readnb (r_rio r) PROXY_MAXLINE = Returns (bs, rp)" and "bs \<noteq> []"
    and "Rio_writen bs (r_client r) = Returns k"
  shows "relay_loop r = relay_loop (keep_piece bs rp k r)"
  using assms by (subst relay_loop.simps) (simp add: keep_piece_def)

lemma keep_piece_same [simp]: "r_rio (keep_piece bs rp k r) = rp" "r_client (keep_piece bs rp k r) = k"
  by (simp_all add: keep_piece_def safe_strncpy_def Let_def)

lemma keep_piece_state:
  assumes "length (r_buf r) = MAX_OBJECT_SIZE" and "r_ptr r \<le> MAX_OBJECT_SIZE"
  shows "length (r_buf (keep_piece bs rp k r)) = MAX_OBJECT_SIZE" and "r_ptr (keep_piece bs rp k r) \<le> MAX_OBJECT_SIZE"
    and "r_cachable (keep_piece bs rp k r) \<longleftrightarrow> r_cachable r \<and> length bs + r_ptr r \<le> MAX_OBJECT_SIZE"
    and "r_cachable (keep_piece bs rp k r) \<Longrightarrow> r_ptr (keep_piece bs rp k r) = r_ptr r + length bs"
    and "r_cachable (keep_piece bs rp k r) \<Longrightarrow> 0 \<notin> set bs \<Longrightarrow>
      take (r_ptr r + length bs) (r_buf (keep_piece bs rp k r)) = take (r_ptr r) (r_buf r) @ map Some bs"
  using assms by (auto simp: keep_piece_def safe_strncpy_def Let_def strncpy_text_no_nul take_store_at split: if_splits)

lemma relay_loop_ok:
  assumes "rio_inv (r_rio r)" and "sink_ok (r_client r)"
    and "length (r_buf r) = MAX_OBJECT_SIZE" and "r_ptr r \<le> MAX_OBJECT_SIZE"
  shows "\<exists>r'. relay_loop r = Some (Ok r') \<and> written (r_client r') = written (r_client r) @ stream (r_rio r)
    \<and> (r_cachable r' \<longleftrightarrow> r_cachable r \<and> r_ptr r + length (stream (r_rio r)) \<le> MAX_OBJECT_SIZE)
    \<and> length (r_buf r') = MAX_OBJECT_SIZE
    \<and> (r_cachable r' \<longrightarrow> r_ptr r' = r_ptr r + length (stream (r_rio r))
        \<and> (0 \<notin> set (stream (r_rio r)) \<longrightarrow>
            take (r_ptr r') (r_buf r') = take (r_ptr r) (r_buf r) @ map Some (stream (r_rio r))))"
  using assms
proof (induction "length (stream (r_rio r))" arbitrary: r rule: less_induct)
  case less
  let ?S = "stream (r_rio r)"
  obtain rp where rp: "Rio_readnb (r_rio r) PROXY_MAXLINE = Returns (take PROXY_MAXLINE ?S, rp)"
    "stream rp = drop PROXY_MAXLINE ?S" "rio_inv rp" using Rio_readnb_ok [OF less.prems(1)] by blast
  have pos: "0 < PROXY_MAXLINE" by (simp add: PROXY_MAXLINE_def)
  show ?case
  proof (cases "?S = []")
    case True
    then have "relay_loop r = Some (Ok (r\<lparr>r_rio := rp\<rparr>))" using rp(1) by (subst relay_loop.simps) simp
    then show ?thesis using True less.prems by simp
  next
    case False
    let ?bs = "take PROXY_MAXLINE ?S"
    have ne: "?bs \<noteq> []" using False pos by simp
    obtain k where k: "Rio_writen ?bs (r_client r) = Returns k" "written k = written (r_client r) @ ?bs" "sink_ok k"
      using Rio_writen_ok [OF less.prems(2)] by blast
    let ?r = "keep_piece ?bs rp k r"
    note ks = keep_piece_state [OF less.prems(3,4), of ?bs rp k]
    have lt: "length (stream (r_rio ?r)) < length ?S" using False pos rp(2) by simp
    have sp: "?S = ?bs @ stream rp" using rp(2) by simp
    obtain r' where r': "relay_loop ?r = Some (Ok r')" "written (r_client r') = written (r_client ?r) @ stream (r_rio ?r)"
      "r_cachable r' \<longleftrightarrow> r_cachable ?r \<and> r_ptr ?r + length (stream (r_rio ?r)) \<le> MAX_OBJECT_SIZE"
      "length (r_buf r') = MAX_OBJECT_SIZE"
      "r_cachable r' \<longrightarrow> r_ptr r' = r_ptr ?r + length (stream (r_rio ?r))
        \<and> (0 \<notin> set (stream (r_rio ?r)) \<longrightarrow>
            take (r_ptr r') (r_buf r') = take (r_ptr ?r) (r_buf ?r) @ map Some (stream (r_rio ?r)))"
      using less.hyps [OF lt] rp(3) k(3) ks(1,2) by auto
    have step: "relay_loop r = Some (Ok r')" using relay_loop_step [OF rp(1) ne k(1)] r'(1) by simp
    have w: "written (r_client r') = written (r_client r) @ ?S"
    proof -
      have "written (r_client r') = (written (r_client r) @ ?bs) @ stream rp" using r'(2) k(2) by simp
      then show ?thesis using sp by (metis append.assoc)
    qed
    have len: "length ?S = length ?bs + length (stream rp)" using sp by (metis length_append)
    have c: "r_cachable r' \<longleftrightarrow> r_cachable r \<and> r_ptr r + length ?S \<le> MAX_OBJECT_SIZE"
    proof (cases "r_cachable ?r")
      case True
      then have "r_ptr ?r = r_ptr r + length ?bs" "r_cachable r" using ks(3,4) by blast+
      then show ?thesis using r'(3) True unfolding len keep_piece_same by (metis add.assoc)
    next
      case False
      then have "\<not> (r_cachable r \<and> length ?bs + r_ptr r \<le> MAX_OBJECT_SIZE)" using ks(3) by blast
      then have "\<not> (r_cachable r \<and> r_ptr r + length ?S \<le> MAX_OBJECT_SIZE)" unfolding len by linarith
      then show ?thesis using r'(3) False by blast
    qed
    have p: "r_ptr r' = r_ptr r + length ?S" if "r_cachable r'"
    proof -
      have "r_cachable ?r" using r'(3) that by blast
      then have "r_ptr ?r = r_ptr r + length ?bs" by (rule ks(4))
      then show ?thesis using r'(5) that unfolding len keep_piece_same by (metis add.assoc)
    qed
    have t: "take (r_ptr r') (r_buf r') = take (r_ptr r) (r_buf r) @ map Some ?S"
      if "r_cachable r'" "0 \<notin> set ?S"
    proof -
      have "0 \<notin> set ?bs" "0 \<notin> set (stream rp)" using that(2) sp by (metis Un_iff set_append)+
      then have "take (r_ptr r') (r_buf r') = (take (r_ptr r) (r_buf r) @ map Some ?bs) @ map Some (stream rp)"
      proof -
        have c: "r_cachable ?r" using r'(3) that(1) by blast
        note ks(4) [OF c] ks(5) [OF c \<open>0 \<notin> set ?bs\<close>]
        then show ?thesis using r'(5) that(1) \<open>0 \<notin> set (stream rp)\<close> unfolding keep_piece_same by metis
      qed
      also have "\<dots> = take (r_ptr r) (r_buf r) @ map Some (?bs @ stream rp)" by simp
      finally show ?thesis using sp by metis
    qed
    show ?thesis using step w c r'(4) p t by blast
  qed
qed

section \<open>Properties\<close>

lemma take_read_bytes: "take n (read_bytes junk m) = read_bytes junk (take n m)"
  by (simp add: read_bytes_def take_map)

lemma read_bytes_Some [simp]: "read_bytes junk (map Some bs) = bs"
  by (simp add: read_bytes_def o_def)

lemma fresh_relay_ok:
  assumes "clean fd" and "sink_ok client"
  shows "\<exists>r. relay_loop (fresh_relay fd client) = Some (Ok r) \<and> written (r_client r) = written client @ incoming fd
    \<and> (r_cachable r \<longleftrightarrow> length (incoming fd) \<le> MAX_OBJECT_SIZE)
    \<and> (r_cachable r \<longrightarrow> r_ptr r = length (incoming fd)
        \<and> (0 \<notin> set (incoming fd) \<longrightarrow> take (r_ptr r) (r_buf r) = map Some (incoming fd)))"
  using relay_loop_ok [of "fresh_relay fd client"] assms by (auto simp: fresh_relay_def Rio_readinitb_def)

text \<open>A request the proxy can send: the host and the path are known, the texts fit their
  arrays, and there is memory for the new item and its data.\<close>

definition sendable :: "chars \<Rightarrow> request \<Rightarrow> header \<Rightarrow> proxy \<Rightarrow> chars \<Rightarrow> chars \<Rightarrow> bool" where
  "sendable stale req hh st host path \<longleftrightarrow> rq_hostname req = Some host \<and> rq_path req = Some path
     \<and> host \<noteq> [] \<and> length host < 200 \<and> length path < 1000 \<and> length (h_data hh) < 200
     \<and> length (request_text stale req path (headers st)) < 10000 \<and> 2 \<le> mallocs st"

text \<open>A server that can be reached, takes the request and is closed without an error, as the client is.\<close>

definition reachable :: "network \<Rightarrow> chars \<times> chars \<Rightarrow> process \<Rightarrow> bool" where
  "reachable net address pr \<longleftrightarrow>
     (case addresses net address of Inl _ \<Rightarrow> False | Inr as \<Rightarrow> (\<forall>a \<in> set as. closes a) \<and> filter usable as \<noteq> []) \<and> \<not> addr_list pr
     \<and> sink_ok (upstream net) \<and> closes_server net \<and> closes_client net"

lemma reachableD:
  assumes "reachable net address pr"
  shows "\<exists>fd. Open_clientfd (addresses net address) pr = (Returns fd, pr\<lparr>open_fds := fd # open_fds pr\<rparr>)"
    and "\<exists>k. Rio_writen msg (upstream net) = Returns k" and "closes_server net" and "closes_client net"
  using assms Rio_writen_ok [of "upstream net" msg] by (auto simp: reachable_def intro: Open_clientfd_usable split: sum.splits)

lemma cache_response_result:
  assumes "cache_inv st" and "cache st = root # items" and "2 \<le> mallocs st" and "length (h_data hh) < 200" and "length path < 1000"
    and "r_cachable r" and "r_ptr r \<le> MAX_OBJECT_SIZE"
  shows "\<exists>st' items' new. cache_response junk now hh path r st = Ok st' \<and> cache st' = root # items' @ [new] \<and> mset items' \<subseteq># mset items
    \<and> cache_inv st' \<and> headers st' = headers st \<and> proc st' = proc st \<and> c_path new = path \<and> c_hostname new = h_data hh \<and> c_size new = r_ptr r
    \<and> c_time new = now \<and> (\<forall>bs. take (r_ptr r) (r_buf r) = map Some bs \<longrightarrow> length bs = r_ptr r \<longrightarrow> 0 \<notin> set bs \<longrightarrow> c_data new = map Some bs)"
proof -
  let ?n = "r_ptr r"
  have fit: "int ?n \<le> MAX_CACHE_SIZE" using assms(7) by (simp add: MAX_OBJECT_SIZE_def MAX_CACHE_SIZE_def)
  obtain st1 items' ev where e: "evict_loop ?n st = Some st1" "cache st1 = root # items'" "mset items = mset items' + ev"
    "cache_volume st1 + int ?n \<le> MAX_CACHE_SIZE" "cache_inv st1" "headers st1 = headers st" "mallocs st1 = mallocs st" "proc st1 = proc st"
    using evict_loop_makes_room [OF assms(1,2) fit] by blast
  let ?st2 = "st1\<lparr>mallocs := mallocs st1 - 1 - 1\<rparr>"
  let ?st' = "add_cached junk (h_data hh) path (r_buf r) ?n now ?st2"
  let ?data = "store_at 0 (strncpy_text (read_bytes junk (r_buf r)) ?n @ [0]) (replicate ?n None)"
  let ?new = "\<lparr>c_hostname = h_data hh, c_path = path, c_size = ?n, c_data = ?data, c_time = now\<rparr>"
  have new: "cache ?st' = root # items' @ [?new]" "cache_volume ?st' = cache_volume st1 + int ?n" "headers ?st' = headers st" "proc ?st' = proc st"
    using e(2,6,8) by (simp_all add: add_cached_def safe_strncpy_def Let_def)
  have inv: "cache_inv ?st'" using e(2,4,5) new by (simp add: cache_inv_def)
  have data: "?data = map Some bs" if "take ?n (r_buf r) = map Some bs" "length bs = ?n" "0 \<notin> set bs" for bs
  proof -
    have "take ?n (read_bytes junk (r_buf r)) = bs" using that(1) by (simp add: take_read_bytes)
    then have "strncpy_text (read_bytes junk (r_buf r)) ?n = bs" using that(3) by (auto simp: strncpy_text_def)
    then show ?thesis using that(2) by (simp add: store_at_def)
  qed
  have "cache_response junk now hh path r st = Ok ?st'"
    using assms(3-6) e(1,7) by (simp add: cache_response_def proxy_malloc_def)
  moreover have "mset items' \<subseteq># mset items" using e(3) by simp
  ultimately show ?thesis using new inv data by (intro exI [of _ ?st'] exI [of _ items'] exI [of _ ?new]) simp
qed

lemma send_request_result:
  assumes "sendable stale req hh st host path" and "reachable net (server_address host) (proc st)"
    and "clientfd \<in> set (open_fds (proc st))"
    and "response net (server_address host) (request_text stale req path (headers st)) = fd"
    and "clean fd" and "sink_ok client" and "cache_inv st" and "cache st = root # items"
  shows "\<exists>client' st'. send_request net junk stale now clientfd client req hh st = Some (Ok (client', st'))
    \<and> written client' = written client @ incoming fd \<and> cache_inv st' \<and> headers st' = headers st
    \<and> proc st' = (proc st)\<lparr>open_fds := remove1 clientfd (open_fds (proc st))\<rparr>
    \<and> (if length (incoming fd) \<le> MAX_OBJECT_SIZE
       then \<exists>items' new. cache st' = root # items' @ [new] \<and> mset items' \<subseteq># mset items
          \<and> c_path new = path \<and> c_hostname new = h_data hh \<and> c_size new = length (incoming fd)
          \<and> c_time new = now \<and> (0 \<notin> set (incoming fd) \<longrightarrow> c_data new = map Some (incoming fd))
       else cache st' = cache st)"
proof -
  note s = assms(1) [unfolded sendable_def]
  obtain sfd k where o: "Open_clientfd (addresses net (server_address host)) (proc st) = (Returns sfd, (proc st)\<lparr>open_fds := sfd # open_fds (proc st)\<rparr>)"
    "Rio_writen (request_text stale req path (headers st)) (upstream net) = Returns k" "closes_server net" "closes_client net"
    using reachableD [OF assms(2)] by metis
  obtain r where r: "relay_loop (fresh_relay fd client) = Some (Ok r)" "written (r_client r) = written client @ incoming fd"
    "r_cachable r \<longleftrightarrow> length (incoming fd) \<le> MAX_OBJECT_SIZE"
    "r_cachable r \<longrightarrow> r_ptr r = length (incoming fd)
        \<and> (0 \<notin> set (incoming fd) \<longrightarrow> take (r_ptr r) (r_buf r) = map Some (incoming fd))"
    using fresh_relay_ok [OF assms(5,6)] by blast
  let ?st = "st\<lparr>proc := (proc st)\<lparr>open_fds := sfd # open_fds (proc st)\<rparr>, stray := stray st + r_stray r\<rparr>"
  let ?fin = "\<lambda>st'. st'\<lparr>proc := (proc st)\<lparr>open_fds := remove1 clientfd (open_fds (proc st))\<rparr>\<rparr>"
  have eq: "send_request net junk stale now clientfd client req hh st = Some (Ok (r_client r, ?fin st'))"
    if "cache_response junk now hh path r ?st = Ok st'" "proc st' = proc ?st" for st'
    using s o r(1) assms(3,4) that by (simp add: send_request_def Let_def proxy_Close_eq)
  show ?thesis
  proof (cases "length (incoming fd) \<le> MAX_OBJECT_SIZE")
    case False
    then have "cache_response junk now hh path r ?st = Ok ?st" using r(3) by (simp add: cache_response_def)
    from eq [OF this] show ?thesis using r(2) False assms(7) by (simp add: cache_inv_def)
  next
    case True
    have inv: "cache_inv ?st" and c: "cache ?st = root # items" using assms(7,8) by (simp_all add: cache_inv_def)
    have p: "r_cachable r" "r_ptr r = length (incoming fd)" "0 \<notin> set (incoming fd) \<longrightarrow> take (r_ptr r) (r_buf r) = map Some (incoming fd)"
      using r(3,4) True by blast+
    obtain st' items' new where n: "cache_response junk now hh path r ?st = Ok st'" "cache st' = root # items' @ [new]" "mset items' \<subseteq># mset items"
      "cache_inv st'" "headers st' = headers ?st" "proc st' = proc ?st" "c_path new = path" "c_hostname new = h_data hh" "c_size new = r_ptr r"
      "c_time new = now" "\<forall>bs. take (r_ptr r) (r_buf r) = map Some bs \<longrightarrow> length bs = r_ptr r \<longrightarrow> 0 \<notin> set bs \<longrightarrow> c_data new = map Some bs"
      using cache_response_result [OF inv c, of hh path r junk now] s p True by auto
    have "cache_inv (?fin st')" using n(4) by (simp add: cache_inv_def)
    moreover have "0 \<notin> set (incoming fd) \<longrightarrow> c_data new = map Some (incoming fd)" using n(11) p by simp
    ultimately show ?thesis using eq [OF n(1,6)] r(2) n True p(2)
      by (intro exI [of _ "r_client r"] exI [of _ "?fin st'"]) auto
  qed
qed

text \<open>C13. The client gets exactly the bytes the server sent, whatever the pieces they come
  in; the cache keeps its invariant (the volume is the sum of the sizes and at most
  \<open>MAX_CACHE_SIZE\<close>), and the response is added, behind a part of the old items, exactly when
  it has at most \<open>MAX_OBJECT_SIZE\<close> bytes. Of the descriptors only the one of the client is closed in the end, and no new one stays open.\<close>

theorem response_relayed:
  assumes "sendable stale req hh st host path" and "reachable net (server_address host) (proc st)"
    and "clientfd \<in> set (open_fds (proc st))"
    and "response net (server_address host) (request_text stale req path (headers st)) = fd"
    and "clean fd" and "sink_ok client" and "cache_inv st"
  shows "\<exists>client' st'. send_request net junk stale now clientfd client req hh st = Some (Ok (client', st'))
    \<and> written client' = written client @ incoming fd
    \<and> cache st' \<noteq> [] \<and> cache_volume st' = int (sum_list (map c_size (tl (cache st')))) \<and> cache_volume st' \<le> MAX_CACHE_SIZE
    \<and> (if length (incoming fd) \<le> MAX_OBJECT_SIZE
       then \<exists>new. last (cache st') = new \<and> c_path new = path \<and> c_hostname new = h_data hh
          \<and> c_size new = length (incoming fd) \<and> set (butlast (cache st')) \<subseteq> set (cache st)
       else cache st' = cache st)
    \<and> proc st' = (proc st)\<lparr>open_fds := remove1 clientfd (open_fds (proc st))\<rparr>"
proof -
  obtain root items where c: "cache st = root # items" using assms(7) by (auto simp: cache_inv_def neq_Nil_conv)
  obtain client' st' where r: "send_request net junk stale now clientfd client req hh st = Some (Ok (client', st'))"
    "written client' = written client @ incoming fd" "cache_inv st'" "proc st' = (proc st)\<lparr>open_fds := remove1 clientfd (open_fds (proc st))\<rparr>"
    "if length (incoming fd) \<le> MAX_OBJECT_SIZE
       then \<exists>items' new. cache st' = root # items' @ [new] \<and> mset items' \<subseteq># mset items
          \<and> c_path new = path \<and> c_hostname new = h_data hh \<and> c_size new = length (incoming fd)
          \<and> c_time new = now \<and> (0 \<notin> set (incoming fd) \<longrightarrow> c_data new = map Some (incoming fd))
       else cache st' = cache st"
    using send_request_result [where junk = junk and now = now, OF assms c] by blast
  show ?thesis
  proof (cases "length (incoming fd) \<le> MAX_OBJECT_SIZE")
    case True
    then obtain items' new where n: "cache st' = root # items' @ [new]" "mset items' \<subseteq># mset items"
      "c_path new = path" "c_hostname new = h_data hh" "c_size new = length (incoming fd)" using r(5) by auto
    have "set items' \<subseteq> set items" using n(2) set_mset_mono by fastforce
    then have "set (butlast (cache st')) \<subseteq> set (cache st)" by (auto simp: n(1) c butlast_append)
    then show ?thesis using r(1-4) n True by (auto simp: cache_inv_def)
  next
    case False
    then show ?thesis using r by (auto simp: cache_inv_def)
  qed
qed

lemma search_from_append:
  "(\<forall>c \<in> set cs. \<not> (p = c_path c \<and> h = c_hostname c)) \<Longrightarrow>
   search_from i p h (cs @ ds) = search_from (i + length cs) p h ds"
  by (induction cs arbitrary: i) auto

lemma search_from_None: "search_from i p h cs = None \<longleftrightarrow> (\<forall>c \<in> set cs. \<not> (p = c_path c \<and> h = c_hostname c))"
  by (induction i p h cs rule: search_from.induct) auto

text \<open>C21. A text response of cachable size is served again from the cache: after the first
  request, a request for the same path under the same \<open>Host\<close> header gets the same bytes,
  without a server being asked (none can be reached), and both connections are closed.\<close>

theorem second_request_served_from_cache:
  assumes "sendable stale req hh st host path" and "reachable net (server_address host) (proc st)"
    and "clientfd \<in> set (open_fds (proc st))"
    and "response net (server_address host) (request_text stale req path (headers st)) = fd"
    and "clean fd" and "sink_ok client" and "cache_inv st"
    and "search_cache path (h_data hh) st = None" and "length (incoming fd) \<le> MAX_OBJECT_SIZE" and "0 \<notin> set (incoming fd)"
    and "get_header_by_key (codes ''Host'') st = Some hh" and "rq_path req2 = Some path" and "sink_ok client2"
    and "clientfd2 \<in> set (remove1 clientfd (open_fds (proc st)))" and "closes_client net2"
  shows "\<exists>client' st' client2' st2. send_request net junk stale now clientfd client req hh st = Some (Ok (client', st'))
    \<and> server_handler (net2\<lparr>addresses := \<lambda>_. Inl ()\<rparr>) junk2 stale2 now2 clientfd2 client2 req2 st' = Some (Ok (client2', st2))
    \<and> written client2' = written client2 @ incoming fd
    \<and> open_fds (proc st2) = remove1 clientfd2 (remove1 clientfd (open_fds (proc st)))"
proof -
  obtain root items where c: "cache st = root # items" using assms(7) by (auto simp: cache_inv_def neq_Nil_conv)
  obtain client' st' items' new where r: "send_request net junk stale now clientfd client req hh st = Some (Ok (client', st'))"
    "headers st' = headers st" "cache st' = root # items' @ [new]" "mset items' \<subseteq># mset items"
    "c_path new = path" "c_hostname new = h_data hh" "c_size new = length (incoming fd)" "c_data new = map Some (incoming fd)"
    "proc st' = (proc st)\<lparr>open_fds := remove1 clientfd (open_fds (proc st))\<rparr>"
    using send_request_result [where junk = junk and now = now, OF assms(1-7) c] assms(9,10) by auto
  have "set items' \<subseteq> set items" using r(4) set_mset_mono by fastforce
  moreover have "\<forall>c \<in> set (root # items). \<not> (path = c_path c \<and> h_data hh = c_hostname c)"
    using assms(8) by (simp only: search_cache_def search_from_None c not_False_eq_True)
  ultimately have "\<forall>c \<in> set (root # items'). \<not> (path = c_path c \<and> h_data hh = c_hostname c)" by auto
  from search_from_append [OF this, of 0 "[new]"]
  have hit: "search_cache path (h_data hh) st' = Some (Suc (length items'))"
    by (simp only: search_cache_def r(3,5,6) append_Cons search_from.simps if_True simp_thms list.size add_0
        add_Suc_right add_0_right One_nat_def)
  have item: "cache st' ! Suc (length items') = new" by (simp add: r(3) nth_append)
  obtain k where k: "Rio_writen (incoming fd) client2 = Returns k" "written k = written client2 @ incoming fd"
    using Rio_writen_ok [OF assms(13)] by blast
  let ?u = "update_time (Suc (length items')) now2 st'"
  have u: "proc ?u = (proc st)\<lparr>open_fds := remove1 clientfd (open_fds (proc st))\<rparr>" by (simp add: update_time_def r(9))
  have "get_header_by_key (codes ''Host'') st' = Some hh" using assms(11) r(2) by (simp add: get_header_by_key_def)
  then have "server_handler (net2\<lparr>addresses := \<lambda>_. Inl ()\<rparr>) junk2 stale2 now2 clientfd2 client2 req2 st' =
      Some (Ok (k, ?u\<lparr>proc := (proc st)\<lparr>open_fds := remove1 clientfd2 (remove1 clientfd (open_fds (proc st)))\<rparr>\<rparr>))"
    using hit item k(1) r(7,8) assms(12,14,15) u by (simp add: server_handler_def proxy_Close_eq)
  then show ?thesis using r(1) k(2) by fastforce
qed

text \<open>A concrete exchange for the witnesses.\<close>

definition proxy1 :: proxy where
  "proxy1 = \<lparr>cache = [init_cache_root 0], cache_volume = 0, headers = [\<lparr>h_name = codes ''Host'', h_data = codes ''a''\<rparr>], stray = 0,
     mallocs = 20, proc = \<lparr>open_fds = [5, 4, 2, 1, 0], addr_list = False\<rparr>\<rparr>"

definition request1 :: request where
  "request1 = \<lparr>rq_method = codes ''GET'', rq_uri = codes ''http://a/'', rq_hostname = Some (codes ''a''),
     rq_path = Some (codes ''/''), rq_version = codes ''HTTP/1.0''\<rparr>"

definition client1 :: sink where
  "client1 = \<lparr>rooms = [Accepts 1], errno_eintr = False, written = []\<rparr>"

definition server1 :: network where
  "server1 = \<lparr>addresses = (\<lambda>_. one_socket), upstream = client1, response = (\<lambda>_ _. [Data [72, 105], Interrupted, Data [33]]),
     closes_server = True, closes_client = True\<rparr>"

lemma exchange1:
  "sendable [] request1 \<lparr>h_name = codes ''Host'', h_data = codes ''a''\<rparr> proxy1 (codes ''a'') (codes ''/'')"
  "reachable server1 address (proc proxy1)" "4 \<in> set (open_fds (proc proxy1))" "5 \<in> set (remove1 4 (open_fds (proc proxy1)))"
  "response server1 address msg = [Data [72, 105], Interrupted, Data [33]]"
  "clean [Data [72, 105], Interrupted, Data [33]]" "sink_ok client1" "cache_inv proxy1"
  "search_cache (codes ''/'') (codes ''a'') proxy1 = None"
  "get_header_by_key (codes ''Host'') proxy1 = Some \<lparr>h_name = codes ''Host'', h_data = codes ''a''\<rparr>"
  by (simp_all add: sendable_def request1_def proxy1_def client1_def request_text_def codes_def crlf_def clean_def
      sink_ok_def cache_inv_def init_cache_root_def search_cache_def get_header_by_key_def MAX_CACHE_SIZE_def
      server1_def reachable_def one_socket_def usable_def)

theorem response_relayed_witness:
  "\<exists>client' st'. send_request server1 0 [] 5 4 client1 request1
       \<lparr>h_name = codes ''Host'', h_data = codes ''a''\<rparr> proxy1 = Some (Ok (client', st'))
     \<and> written client' = [72, 105, 33] \<and> c_size (last (cache st')) = 3 \<and> open_fds (proc st') = [5, 2, 1, 0]"
  using response_relayed [OF exchange1(1-3) refl, of client1 0 5] exchange1(6-8)
  by (fastforce simp: exchange1(5) client1_def proxy1_def MAX_OBJECT_SIZE_def)

theorem second_request_served_from_cache_witness:
  "\<exists>client' st' client2' st2. send_request server1 0 [] 5 4 client1 request1
       \<lparr>h_name = codes ''Host'', h_data = codes ''a''\<rparr> proxy1 = Some (Ok (client', st'))
     \<and> server_handler (server1\<lparr>addresses := \<lambda>_. Inl ()\<rparr>) 7 [] 6 5 client1 request1 st' = Some (Ok (client2', st2))
     \<and> written client2' = [72, 105, 33]"
  using second_request_served_from_cache [OF exchange1(1-3) exchange1(5,6,7,8) _ _ _ exchange1(10) _ exchange1(7,4),
      of request1 server1 0 5 7 "[]" 6] exchange1(9)
  by (fastforce simp: client1_def MAX_OBJECT_SIZE_def request1_def server1_def)

text \<open>C23. Making room for a response always ends without following a null pointer, leaves
  enough room, and evicts by age: no item that is thrown out is younger than one that stays,
  and nothing is thrown out when there is room already.\<close>

theorem eviction_is_lru:
  assumes "cache_inv st" and "int sz \<le> MAX_CACHE_SIZE"
  shows "\<exists>st' ev. evict_loop sz st = Some st' \<and> mset (cache st) = mset (cache st') + ev \<and> hd (cache st') = hd (cache st)
    \<and> (\<forall>c \<in># ev. \<forall>d \<in> set (tl (cache st')). c_time c \<le> c_time d)
    \<and> cache_volume st' + int sz \<le> MAX_CACHE_SIZE
    \<and> (cache_volume st + int sz \<le> MAX_CACHE_SIZE \<longrightarrow> st' = st)"
proof -
  obtain root items where c: "cache st = root # items" using assms(1) by (auto simp: cache_inv_def neq_Nil_conv)
  obtain st' items' ev where "evict_loop sz st = Some st'" "cache st' = root # items'" "mset items = mset items' + ev"
    "\<forall>c \<in># ev. \<forall>d \<in># mset items'. c_time c \<le> c_time d" "cache_volume st' + int sz \<le> MAX_CACHE_SIZE"
    "cache_volume st + int sz \<le> MAX_CACHE_SIZE \<longrightarrow> st' = st"
    using evict_loop_makes_room [OF assms(1) c assms(2)] by blast
  then show ?thesis by (intro exI [of _ st'] exI [of _ ev]) (simp add: c)
qed

definition full_proxy :: proxy where
  "full_proxy = \<lparr>cache = [init_cache_root 0,
       \<lparr>c_hostname = [], c_path = [1], c_size = 1000000, c_data = [], c_time = 9\<rparr>,
       \<lparr>c_hostname = [], c_path = [2], c_size = 40000, c_data = [], c_time = 4\<rparr>],
     cache_volume = 1040000, headers = [], stray = 0, mallocs = 0, proc = no_files\<rparr>"

theorem eviction_is_lru_witness:
  "\<exists>st'. evict_loop 20000 full_proxy = Some st' \<and> cache_volume st' + 20000 \<le> MAX_CACHE_SIZE
     \<and> (cache st' = take 2 (cache full_proxy))"
proof -
  have inv: "cache_inv full_proxy" by (simp add: cache_inv_def full_proxy_def init_cache_root_def MAX_CACHE_SIZE_def)
  obtain st' where st': "evict_loop 20000 full_proxy = Some st'" "cache_volume st' + 20000 \<le> MAX_CACHE_SIZE"
    using eviction_is_lru [OF inv, of 20000] by (auto simp: MAX_CACHE_SIZE_def)
  have "evict_loop 20000 full_proxy = Some (delete_cache 2 full_proxy)"
    by (subst evict_loop.simps, subst evict_loop.simps)
      (simp add: full_proxy_def LRU_def delete_cache_def MAX_CACHE_SIZE_def init_cache_root_def)
  then have "st' = delete_cache 2 full_proxy" using st'(1) by simp
  then have "cache st' = take 2 (cache full_proxy)" by (simp add: delete_cache_def full_proxy_def)
  then show ?thesis using st' by blast
qed

section \<open>Reading a request\<close>

lemma Rio_readlineb_ok:
  assumes "rio_inv rp" and "1 < n"
  shows "\<exists>rp' rc nul. Rio_readlineb rp n = Returns ((rc, line_of (n - 1) (stream rp), nul), rp')
    \<and> line_of (n - 1) (stream rp) @ stream rp' = stream rp \<and> rio_inv rp'"
  using readline_loop_stream [OF assms(1), of "n - 1" "[]"] line_of_prefix(1) [of "stream rp" "n - 1"]
  by (auto simp: Rio_readlineb_def rio_readlineb_def)

text \<open>A line of a request: it ends in a newline, has no other and no NUL, and fits the buffer.\<close>

definition is_line :: "chars \<Rightarrow> bool" where
  "is_line l \<longleftrightarrow> (\<exists>a. l = a @ [10] \<and> 10 \<notin> set a \<and> 0 \<notin> set a) \<and> length l < PROXY_MAXLINE"

lemma line_of_line:
  assumes "10 \<notin> set a" and "length a < m"
  shows "line_of m (a @ 10 # r) = a @ [10]"
  using assms
proof (induction a arbitrary: m)
  case Nil
  then show ?case by (cases m) auto
next
  case (Cons c a)
  then show ?case by (cases m) auto
qed

lemma read_line:
  assumes "rio_inv rp" and "stream rp = l @ r" and "is_line l"
  shows "\<exists>rp' rc nul. Rio_readlineb rp PROXY_MAXLINE = Returns ((rc, l, nul), rp') \<and> stream rp' = r \<and> rio_inv rp'
    \<and> line_text l = l"
proof -
  obtain a where a: "l = a @ [10]" "10 \<notin> set a" "0 \<notin> set a" "length l < PROXY_MAXLINE"
    using assms(3) by (auto simp: is_line_def)
  have "1 < PROXY_MAXLINE" by (simp add: PROXY_MAXLINE_def)
  moreover have "line_of (PROXY_MAXLINE - 1) (stream rp) = l"
    using line_of_line [OF a(2), of "PROXY_MAXLINE - 1" r] a(1,4) by (simp add: assms(2))
  moreover have "line_text l = l" using a(1,3) by (auto simp: line_text_def)
  ultimately show ?thesis using Rio_readlineb_ok [OF assms(1), of PROXY_MAXLINE] assms(2) by auto
qed

lemma is_line_crlf: "10 \<notin> set a \<Longrightarrow> 0 \<notin> set a \<Longrightarrow> length a + 2 < PROXY_MAXLINE \<Longrightarrow> is_line (a @ crlf)"
  unfolding is_line_def by (intro conjI exI [of _ "a @ [13]"]) (simp_all add: crlf_def)

lemma header_line_facts:
  assumes "line_header h"
  shows "is_line (header_line h)" and "header_line h \<noteq> [13, 10]"
proof -
  have "10 \<notin> set (h_name h @ codes '': '' @ h_data h)" "0 \<notin> set (h_name h @ codes '': '' @ h_data h)"
    "length (h_name h @ codes '': '' @ h_data h) + 2 < PROXY_MAXLINE"
    using assms by (auto simp: line_header_def header_line_def codes_def crlf_def)
  then have "is_line ((h_name h @ codes '': '' @ h_data h) @ crlf)" by (rule is_line_crlf)
  then show "is_line (header_line h)" by (simp add: header_line_def)
  show "header_line h \<noteq> [13, 10]" by (cases "h_name h") (auto simp: header_line_def codes_def)
qed

lemma is_line_blank: "is_line crlf"
  using is_line_crlf [of "[]"] by (simp add: PROXY_MAXLINE_def)

lemma header_loop_headers:
  assumes "rio_inv rp" and "stream rp = concat (map header_line hs) @ crlf @ r" and "\<forall>h \<in> set (h0 # hs). line_header h"
    and "length hs < mallocs st"
  shows "header_loop rp (header_line h0) st = Ok (st\<lparr>headers := headers st @ h0 # hs, mallocs := mallocs st - Suc (length hs)\<rparr>)"
  using assms
proof (induction hs arbitrary: rp h0 st)
  case Nil
  obtain rp' rc nul where l: "Rio_readlineb rp PROXY_MAXLINE = Returns ((rc, crlf, nul), rp')" "line_text crlf = crlf"
    using read_line [OF Nil.prems(1), of crlf r] Nil.prems(2) is_line_blank by auto
  have p: "parse_header (header_line h0) st = Ok (insert_header h0 (st\<lparr>mallocs := mallocs st - 1\<rparr>))"
    using parse_header_line [of h0 st] Nil.prems(3,4) by simp
  then have "header_loop rp (header_line h0) st = header_loop rp' crlf (insert_header h0 (st\<lparr>mallocs := mallocs st - 1\<rparr>))"
    using l header_line_facts(2) [of h0] Nil.prems(3) by (subst header_loop.simps) simp
  then show ?case by (simp add: header_loop.simps [of rp'] crlf_def insert_header_def)
next
  case (Cons h hs)
  have line: "is_line (header_line h)" using header_line_facts(1) Cons.prems(3) by simp
  obtain rp' rc nul where l: "Rio_readlineb rp PROXY_MAXLINE = Returns ((rc, header_line h, nul), rp')"
    "stream rp' = concat (map header_line hs) @ crlf @ r" "rio_inv rp'" "line_text (header_line h) = header_line h"
    using read_line [OF Cons.prems(1) _ line] Cons.prems(2) by auto
  let ?st = "insert_header h0 (st\<lparr>mallocs := mallocs st - 1\<rparr>)"
  have p: "parse_header (header_line h0) st = Ok ?st" using parse_header_line [of h0 st] Cons.prems(3,4) by simp
  then have "header_loop rp (header_line h0) st = header_loop rp' (header_line h) ?st"
    using l header_line_facts(2) [of h0] Cons.prems(3) by (subst header_loop.simps) simp
  then show ?case using Cons.IH [OF l(3,2), of h ?st] Cons.prems by (simp add: insert_header_def)
qed

text \<open>The default headers that are added to a list.\<close>

definition default_headers :: "chars \<Rightarrow> header list" where
  "default_headers host = [\<lparr>h_name = codes ''Host'', h_data = host\<rparr>, \<lparr>h_name = codes ''User-Agent'', h_data = user_agent_hdr\<rparr>,
     \<lparr>h_name = codes ''Connection'', h_data = codes ''close''\<rparr>, \<lparr>h_name = codes ''Proxy-Connection'', h_data = codes ''close''\<rparr>]"

definition missing_headers :: "chars \<Rightarrow> header list \<Rightarrow> header list" where
  "missing_headers host hs = filter (\<lambda>d. h_name d \<notin> h_name ` set hs) (default_headers host)"

lemma header_by_key_None: "header_by_key k hs = None \<longleftrightarrow> k \<notin> h_name ` set hs"
  by (induction hs) auto

fun add_defaults :: "header list \<Rightarrow> proxy \<Rightarrow> proxy outcome" where
  "add_defaults [] st = Ok st"
| "add_defaults (d # ds) st = outcome_bind (default_header (h_name d) (Some (h_data d)) st) (add_defaults ds)"

lemma add_defaults_missing:
  assumes "distinct (map h_name ds)" and "length (filter (\<lambda>d. h_name d \<notin> h_name ` set (headers st)) ds) \<le> mallocs st"
  shows "add_defaults ds st = Ok (st\<lparr>headers := headers st @ filter (\<lambda>d. h_name d \<notin> h_name ` set (headers st)) ds,
    mallocs := mallocs st - length (filter (\<lambda>d. h_name d \<notin> h_name ` set (headers st)) ds)\<rparr>)"
  using assms
proof (induction ds arbitrary: st)
  case (Cons d ds)
  show ?case
  proof (cases "h_name d \<in> h_name ` set (headers st)")
    case True
    then have "get_header_by_key (h_name d) st \<noteq> None" by (simp add: get_header_by_key_def header_by_key_None)
    then show ?thesis using Cons True by (auto simp: default_header_def)
  next
    case False
    then have "get_header_by_key (h_name d) st = None" by (simp add: get_header_by_key_def header_by_key_None)
    then have d: "default_header (h_name d) (Some (h_data d)) st = Ok (st\<lparr>mallocs := mallocs st - 1, headers := headers st @ [d]\<rparr>)"
      using Cons.prems(2) False by (simp add: default_header_def proxy_Malloc_eq insert_header_def)
    have f: "filter (\<lambda>e. h_name e \<notin> h_name ` set (headers st @ [d])) ds = filter (\<lambda>e. h_name e \<notin> h_name ` set (headers st)) ds"
      by (rule filter_cong) (use Cons.prems(1) in \<open>auto simp: image_iff\<close>)
    show ?thesis using Cons.IH [of "st\<lparr>mallocs := mallocs st - 1, headers := headers st @ [d]\<rparr>"] Cons.prems False f by (simp add: d)
  qed
qed simp

lemma init_header_missing:
  assumes "rq_hostname req = Some host" and "length (missing_headers host (headers st)) \<le> mallocs st"
  shows "init_header req st = Ok (st\<lparr>headers := headers st @ missing_headers host (headers st),
    mallocs := mallocs st - length (missing_headers host (headers st))\<rparr>)"
proof -
  have "outcome_bind r Ok = r" for r :: "proxy outcome" by (cases r) simp_all
  moreover have "add_defaults [] = Ok" by (rule ext) simp
  ultimately have l: "add_defaults [d] = default_header (h_name d) (Some (h_data d))" for d by (intro ext) (simp del: add_defaults.simps(1))
  have c: "add_defaults (d # e # ds) = (\<lambda>st. outcome_bind (default_header (h_name d) (Some (h_data d)) st) (add_defaults (e # ds)))" for d e ds
    by (rule ext) simp
  have "init_header req st = add_defaults (default_headers host) st"
    unfolding init_header_def default_headers_def assms(1) c l by simp
  moreover have "distinct (map h_name (default_headers host))" by (simp add: default_headers_def codes_def)
  ultimately show ?thesis using add_defaults_missing [of "default_headers host" st] assms(2) by (simp add: missing_headers_def)
qed

text \<open>A request line for a host and a path.\<close>

definition get_line :: "chars \<Rightarrow> chars \<Rightarrow> chars" where
  "get_line host path = codes ''GET http://'' @ host @ path @ codes '' HTTP/1.0'' @ crlf"

definition get_request :: "chars \<Rightarrow> chars \<Rightarrow> request" where
  "get_request host path = \<lparr>rq_method = codes ''GET'', rq_uri = codes ''http://'' @ host @ path, rq_hostname = Some host,
     rq_path = Some (if path = [] then codes ''/'' else path), rq_version = codes ''HTTP/1.0''\<rparr>"

definition plain_address :: "chars \<Rightarrow> chars \<Rightarrow> bool" where
  "plain_address host path \<longleftrightarrow> (\<forall>c \<in> set (host @ path). \<not> is_space c \<and> c \<noteq> 0) \<and> 47 \<notin> set host \<and> (path = [] \<or> hd path = 47)
     \<and> length host + length path < 190"

lemma get_line_facts:
  assumes "plain_address host path"
  shows "is_line (get_line host path)" and "parse_request (get_line host path) = Ok (get_request host path)"
proof -
  have c: "\<forall>c \<in> set (host @ path). \<not> is_space c \<and> c \<noteq> 0" "47 \<notin> set host" "path = [] \<or> hd path = 47" "length host + length path < 190"
    using assms by (auto simp: plain_address_def)
  have "is_space 10" by (simp add: is_space_def)
  then have "10 \<notin> set (host @ path)" "0 \<notin> set (host @ path)" using c(1) by blast+
  then have "is_line ((codes ''GET http://'' @ host @ path @ codes '' HTTP/1.0'') @ crlf)"
    using c(4) by (intro is_line_crlf) (auto simp: codes_def PROXY_MAXLINE_def)
  then show "is_line (get_line host path)" by (simp add: get_line_def)
  show "parse_request (get_line host path) = Ok (get_request host path)"
    unfolding get_line_def get_request_def by (rule parse_request_line) (use c in auto)
qed

lemma client_handler_result:
  assumes "clean fd" and "incoming fd = get_line host path @ concat (map header_line hs) @ crlf @ rest"
    and "plain_address host path" and "\<forall>h \<in> set hs. line_header h"
    and "length hs + length (missing_headers host (headers st @ hs)) \<le> mallocs st"
  shows "client_handler fd st = Ok (get_request host path,
    st\<lparr>headers := headers st @ hs @ missing_headers host (headers st @ hs),
       mallocs := mallocs st - (length hs + length (missing_headers host (headers st @ hs)))\<rparr>)"
proof -
  let ?rp = "Rio_readinitb \<lparr>rio_fd = [], rio_cnt = 0, rio_bufptr = 0, rio_buf = replicate RIO_BUFSIZE 0\<rparr> fd"
  have start: "rio_inv ?rp" "stream ?rp = incoming fd" using assms(1) by (simp_all add: Rio_readinitb_def)
  obtain rp1 rc nul where l0: "Rio_readlineb ?rp PROXY_MAXLINE = Returns ((rc, get_line host path, nul), rp1)"
    "stream rp1 = concat (map header_line hs) @ crlf @ rest" "rio_inv rp1" "line_text (get_line host path) = get_line host path"
    using read_line [OF start(1) _ get_line_facts(1) [OF assms(3)]] start(2) assms(2) by auto
  let ?st = "st\<lparr>headers := headers st @ hs, mallocs := mallocs st - length hs\<rparr>"
  have "\<exists>rp2 rc2 nul2 l. Rio_readlineb rp1 PROXY_MAXLINE = Returns ((rc2, l, nul2), rp2) \<and> header_loop rp2 (line_text l) st = Ok ?st"
  proof (cases hs)
    case Nil
    then obtain rp2 rc2 nul2 where "Rio_readlineb rp1 PROXY_MAXLINE = Returns ((rc2, crlf, nul2), rp2)" "line_text crlf = crlf"
      using read_line [OF l0(3), of crlf rest] l0(2) is_line_blank by auto
    then show ?thesis using Nil by (auto simp: header_loop.simps [of rp2] crlf_def)
  next
    case (Cons h hs')
    have line: "is_line (header_line h)" using header_line_facts(1) assms(4) Cons by simp
    obtain rp2 rc2 nul2 where l: "Rio_readlineb rp1 PROXY_MAXLINE = Returns ((rc2, header_line h, nul2), rp2)"
      "stream rp2 = concat (map header_line hs') @ crlf @ rest" "rio_inv rp2" "line_text (header_line h) = header_line h"
      using read_line [OF l0(3) _ line] l0(2) Cons by auto
    have "header_loop rp2 (header_line h) st = Ok (st\<lparr>headers := headers st @ h # hs', mallocs := mallocs st - Suc (length hs')\<rparr>)"
      by (rule header_loop_headers [OF l(3,2)]) (use assms(4,5) Cons in auto)
    then show ?thesis using l(1,4) Cons by auto
  qed
  moreover have "init_header (get_request host path) ?st = Ok (st\<lparr>headers := headers st @ hs @ missing_headers host (headers st @ hs),
       mallocs := mallocs st - (length hs + length (missing_headers host (headers st @ hs)))\<rparr>)"
    using init_header_missing [of "get_request host path" host ?st] assms(5) by (simp add: get_request_def)
  ultimately show ?thesis using l0(1,4) get_line_facts(2) [OF assms(3)] by (auto simp: client_handler_def Let_def)
qed

text \<open>C27. What \<open>client_handler\<close> makes of a complete request, however it arrives: the host and the path are those of the request
  line, and the header list grows by the headers of the request, in their order and with their names and values, and then by the
  default headers whose names do not occur in it, while \<open>malloc\<close> succeeds for each of them. Nothing else changes.\<close>

theorem client_handler_reads_request:
  assumes "clean fd" and "incoming fd = get_line host path @ concat (map header_line hs) @ crlf @ rest"
    and "plain_address host path" and "\<forall>h \<in> set hs. line_header h"
    and "length hs + length (missing_headers host (headers st @ hs)) \<le> mallocs st"
  shows "client_handler fd st = Ok
    (\<lparr>rq_method = codes ''GET'', rq_uri = codes ''http://'' @ host @ path, rq_hostname = Some host,
        rq_path = Some (if path = [] then codes ''/'' else path), rq_version = codes ''HTTP/1.0''\<rparr>,
     st\<lparr>headers := headers st @ hs @ missing_headers host (headers st @ hs),
        mallocs := mallocs st - (length hs + length (missing_headers host (headers st @ hs)))\<rparr>)"
  using client_handler_result [OF assms] by (simp add: get_request_def)

text \<open>The request of the witnesses, in two pieces.\<close>

definition request_text1 :: chars where
  "request_text1 = get_line (codes ''b'') (codes ''/'') @ concat (map header_line [\<lparr>h_name = codes ''Host'', h_data = codes ''b''\<rparr>]) @ crlf"

definition wire :: source where
  "wire = [Data (take 5 request_text1), Interrupted, Data (drop 5 request_text1)]"

definition request2 :: request where "request2 = get_request (codes ''b'') (codes ''/'')"

lemma wire_facts:
  "clean wire" "incoming wire = get_line (codes ''b'') (codes ''/'') @ concat (map header_line [\<lparr>h_name = codes ''Host'', h_data = codes ''b''\<rparr>]) @ crlf @ []"
  "plain_address (codes ''b'') (codes ''/'')" "\<forall>h \<in> set [\<lparr>h_name = codes ''Host'', h_data = codes ''b''\<rparr>]. line_header h"
  by (simp_all add: wire_def clean_def request_text1_def get_line_def plain_address_def is_space_def line_header_def header_line_def
      codes_def crlf_def PROXY_MAXLINE_def)

lemma wire_result:
  assumes "3 < mallocs st"
  shows "client_handler wire st = Ok (request2,
    st\<lparr>headers := headers st @ [\<lparr>h_name = codes ''Host'', h_data = codes ''b''\<rparr>]
        @ missing_headers (codes ''b'') (headers st @ [\<lparr>h_name = codes ''Host'', h_data = codes ''b''\<rparr>]),
       mallocs := mallocs st - (1 + length (missing_headers (codes ''b'') (headers st @ [\<lparr>h_name = codes ''Host'', h_data = codes ''b''\<rparr>])))\<rparr>)"
proof -
  let ?ds = "[\<lparr>h_name = codes ''User-Agent'', h_data = user_agent_hdr\<rparr>,
     \<lparr>h_name = codes ''Connection'', h_data = codes ''close''\<rparr>, \<lparr>h_name = codes ''Proxy-Connection'', h_data = codes ''close''\<rparr>]"
  let ?hs = "headers st @ [\<lparr>h_name = codes ''Host'', h_data = codes ''b''\<rparr>]"
  have "missing_headers (codes ''b'') ?hs = filter (\<lambda>d. h_name d \<notin> h_name ` set ?hs) ?ds"
    by (simp add: missing_headers_def default_headers_def)
  then have "length (missing_headers (codes ''b'') ?hs) \<le> length ?ds" using length_filter_le [of _ ?ds] by (simp only:)
  then show ?thesis using client_handler_result [OF wire_facts, of st] assms by (simp add: request2_def)
qed

definition no_headers :: proxy where
  "no_headers = \<lparr>cache = [], cache_volume = 0, headers = [], stray = 0, mallocs = 9, proc = no_files\<rparr>"

lemma client_handler_reads_request_witness:
  "client_handler wire no_headers = Ok
    (\<lparr>rq_method = codes ''GET'', rq_uri = codes ''http://b/'', rq_hostname = Some (codes ''b''), rq_path = Some (codes ''/''), rq_version = codes ''HTTP/1.0''\<rparr>,
     no_headers\<lparr>headers := [\<lparr>h_name = codes ''Host'', h_data = codes ''b''\<rparr>, \<lparr>h_name = codes ''User-Agent'', h_data = user_agent_hdr\<rparr>,
       \<lparr>h_name = codes ''Connection'', h_data = codes ''close''\<rparr>, \<lparr>h_name = codes ''Proxy-Connection'', h_data = codes ''close''\<rparr>], mallocs := 5\<rparr>)"
proof -
  have "missing_headers (codes ''b'') (headers no_headers @ [\<lparr>h_name = codes ''Host'', h_data = codes ''b''\<rparr>]) =
      [\<lparr>h_name = codes ''User-Agent'', h_data = user_agent_hdr\<rparr>, \<lparr>h_name = codes ''Connection'', h_data = codes ''close''\<rparr>,
       \<lparr>h_name = codes ''Proxy-Connection'', h_data = codes ''close''\<rparr>]"
    by (simp add: missing_headers_def default_headers_def no_headers_def codes_def)
  then show ?thesis using client_handler_reads_request [OF wire_facts, of no_headers] by (simp add: no_headers_def codes_def)
qed

text \<open>The header list is never emptied: whatever a later client sends, every header of an
  earlier request keeps its value for it, the \<open>Host\<close> in particular; and a cached page under
  that host is served for the path whatever host the new request line names.\<close>

theorem later_request_sees_first_host:
  assumes "get_header_by_key (codes ''Host'') st = Some hh" and "client_handler fd st = Ok (req, st')"
    and "rq_path req = Some path" and "search_cache path (h_data hh) st' = Some i" and "sink_ok client"
    and "clientfd \<in> set (open_fds (proc st'))" and "closes_client net"
  shows "get_header_by_key (codes ''Host'') st' = Some hh
    \<and> (\<exists>client' st2. server_handler net junk stale now clientfd client req st' = Some (Ok (client', st2))
        \<and> written client' = written client @ read_bytes junk (take (c_size (cache st' ! i)) (c_data (cache st' ! i))))"
proof
  show h: "get_header_by_key (codes ''Host'') st' = Some hh"
    by (rule extends_get [OF extends_client_handler [OF assms(2)] assms(1)])
  obtain k where "Rio_writen (read_bytes junk (take (c_size (cache st' ! i)) (c_data (cache st' ! i)))) client = Returns k"
    "written k = written client @ read_bytes junk (take (c_size (cache st' ! i)) (c_data (cache st' ! i)))"
    using Rio_writen_ok [OF assms(5)] by blast
  then show "\<exists>client' st2. server_handler net junk stale now clientfd client req st' = Some (Ok (client', st2))
        \<and> written client' = written client @ read_bytes junk (take (c_size (cache st' ! i)) (c_data (cache st' ! i)))"
    using h assms(3,4,6,7) by (simp add: server_handler_def proxy_Close_eq update_time_def)
qed

definition other_site :: proxy where
  "other_site = proxy1\<lparr>cache := [init_cache_root 0,
     \<lparr>c_hostname = codes ''a'', c_path = codes ''/'', c_size = 2, c_data = [Some 72, Some 105], c_time = 1\<rparr>], cache_volume := 2\<rparr>"

theorem later_request_sees_first_host_witness:
  "\<exists>st' client' st2. client_handler wire other_site = Ok (request2, st') \<and> rq_hostname request2 = Some (codes ''b'')
     \<and> server_handler server1 0 [] 5 4 client1 request2 st' = Some (Ok (client', st2))
     \<and> written client' = [72, 105]"
proof -
  have "3 < mallocs other_site" by (simp add: other_site_def proxy1_def)
  then obtain st' where st': "client_handler wire other_site = Ok (request2, st')" using wire_result by blast
  then have e: "extends other_site st'" by (rule extends_client_handler)
  then have c: "cache st' = cache other_site" "proc st' = proc proxy1" by (simp_all add: extends_def other_site_def)
  have "search_cache (codes ''/'') (codes ''a'') st' = Some 1"
    by (simp add: search_cache_def c other_site_def init_cache_root_def codes_def)
  moreover have "get_header_by_key (codes ''Host'') other_site = Some \<lparr>h_name = codes ''Host'', h_data = codes ''a''\<rparr>"
    by (simp add: other_site_def proxy1_def get_header_by_key_def)
  moreover have "closes_client server1" by (simp add: server1_def)
  ultimately show ?thesis
    using later_request_sees_first_host [OF _ st' _ _ exchange1(7), of "\<lparr>h_name = codes ''Host'', h_data = codes ''a''\<rparr>" "codes ''/''" 1 4 server1 0 "[]" 5]
      st' exchange1(3) by (auto simp: c request2_def get_request_def other_site_def client1_def read_bytes_def codes_def)
qed

section \<open>Requests that end early, and binary responses\<close>

text \<open>The pieces in which a text is read, line by line.\<close>

function read_lines :: "bytes \<Rightarrow> bytes list" where
  "read_lines s = (if s = [] then [] else line_of (PROXY_MAXLINE - 1) s # read_lines (drop (length (line_of (PROXY_MAXLINE - 1) s)) s))"
  by pat_completeness auto
termination
proof (relation "measure length")
  fix s :: bytes assume s: "s \<noteq> []"
  obtain m where "PROXY_MAXLINE - 1 = Suc m" using gr0_conv_Suc [of "PROXY_MAXLINE - 1"] by (auto simp: PROXY_MAXLINE_def)
  then have "line_of (PROXY_MAXLINE - 1) s \<noteq> []" using s by (cases s) simp_all
  then show "(drop (length (line_of (PROXY_MAXLINE - 1) s)) s, s) \<in> measure length" using s by simp
qed simp

declare read_lines.simps [simp del]

lemma read_lines_line:
  assumes "is_line l"
  shows "read_lines (l @ r) = l # read_lines r"
proof -
  obtain a where a: "l = a @ [10]" "10 \<notin> set a" "length l < PROXY_MAXLINE" using assms by (auto simp: is_line_def)
  then have "line_of (PROXY_MAXLINE - 1) (l @ r) = l" using line_of_line [OF a(2), of "PROXY_MAXLINE - 1" r] by simp
  moreover have "l @ r \<noteq> []" using a(1) by simp
  ultimately show ?thesis by (subst read_lines.simps) simp
qed

lemma read_lines_rest:
  assumes "10 \<notin> set r" and "r \<noteq> []" and "length r < PROXY_MAXLINE"
  shows "read_lines r = [r]"
proof -
  have "10 \<notin> set r \<Longrightarrow> length r \<le> m \<Longrightarrow> line_of m r = r" for m r by (induction m r rule: line_of.induct) auto
  then have "line_of (PROXY_MAXLINE - 1) r = r" using assms by simp
  then show ?thesis using assms(2) by (subst read_lines.simps) (simp add: read_lines.simps [of "[]"])
qed

lemma line_text_blank: "line_text (line_of m s) = [13, 10] \<Longrightarrow> line_of m s = [13, 10]"
proof -
  have "takeWhile (\<lambda>c. c \<noteq> 0) (line_of m s) = a @ [10] \<Longrightarrow> 10 \<notin> set a \<Longrightarrow> line_of m s = a @ [10]" for a
  proof (induction m s arbitrary: a rule: line_of.induct)
    case (3 m c s)
    then show ?case by (cases a) (auto split: if_splits)
  qed simp_all
  from this [of "[13]"] show "line_text (line_of m s) = [13, 10] \<Longrightarrow> line_of m s = [13, 10]" by (simp add: line_text_def)
qed

lemma read_lines_step:
  assumes "rio_inv rp"
  shows "\<exists>rp' rc nul l. Rio_readlineb rp PROXY_MAXLINE = Returns ((rc, l, nul), rp') \<and> rio_inv rp'
    \<and> (line_text l = [13, 10] \<longrightarrow> [13, 10] \<in> set (take 1 (read_lines (stream rp)))) \<and> read_lines (stream rp') = tl (read_lines (stream rp))
    \<and> (\<forall>l0 ls. read_lines (stream rp) = l0 # ls \<longrightarrow> l = l0)"
proof -
  let ?l = "line_of (PROXY_MAXLINE - 1) (stream rp)"
  obtain rp' rc nul where r: "Rio_readlineb rp PROXY_MAXLINE = Returns ((rc, ?l, nul), rp')" "?l @ stream rp' = stream rp" "rio_inv rp'"
    using Rio_readlineb_ok [OF assms, of PROXY_MAXLINE] by (auto simp: PROXY_MAXLINE_def)
  show ?thesis
  proof (cases "stream rp = []")
    case True
    then have "?l = []" "stream rp' = []" using r(2) by simp_all
    then show ?thesis using r(1,3) True by (auto simp: read_lines.simps [of "[]"] line_text_def)
  next
    case False
    then have "read_lines (stream rp) = ?l # read_lines (stream rp')" using r(2) by (subst read_lines.simps) (metis append_eq_conv_conj)
    moreover have "line_text ?l = [13, 10] \<longrightarrow> ?l = [13, 10]" using line_text_blank by blast
    ultimately show ?thesis using r(1,3) by auto
  qed
qed

lemma header_loop_unfinished:
  "rio_inv rp \<Longrightarrow> [13, 10] \<notin> set (read_lines (stream rp)) \<Longrightarrow> buf \<noteq> [13, 10] \<Longrightarrow> header_loop rp buf st = Exit_proxy"
proof (induction rp buf st rule: header_loop.induct)
  case (1 rp buf st)
  show ?case
  proof (cases "parse_header buf st")
    case (Ok st1)
    obtain rp' rc nul l where l: "Rio_readlineb rp PROXY_MAXLINE = Returns ((rc, l, nul), rp')" "rio_inv rp'"
      "line_text l = [13, 10] \<longrightarrow> [13, 10] \<in> set (take 1 (read_lines (stream rp)))" "read_lines (stream rp') = tl (read_lines (stream rp))"
      using read_lines_step [OF "1.prems"(1)] by blast
    have "[13, 10] \<notin> set (tl (read_lines (stream rp)))" "line_text l \<noteq> [13, 10]"
      using "1.prems"(2) l(3) set_take_subset [of 1 "read_lines (stream rp)"] list.set_sel(2) by (metis list.sel(2), blast)
    then have "header_loop rp' (line_text l) st1 = Exit_proxy"
      using "1.IH" [OF "1.prems"(3) Ok l(1) refl refl refl l(2)] l(4) by simp
    then show ?thesis using "1.prems"(3) Ok l(1) by (subst header_loop.simps) simp
  qed (use "1.prems"(3) in \<open>auto simp: header_loop.simps [of rp] parse_header_def proxy_Malloc_eq split: if_splits\<close>)
qed

lemma client_handler_unfinished:
  assumes "clean fd" and "read_lines (incoming fd) = l0 # ls" and "parse_request (line_text l0) = Ok req" and "[13, 10] \<notin> set ls"
  shows "client_handler fd st = Exit_proxy"
proof -
  let ?rp = "Rio_readinitb \<lparr>rio_fd = [], rio_cnt = 0, rio_bufptr = 0, rio_buf = replicate RIO_BUFSIZE 0\<rparr> fd"
  have start: "rio_inv ?rp" "stream ?rp = incoming fd" using assms(1) by (simp_all add: Rio_readinitb_def)
  obtain rp1 rc nul where l0: "Rio_readlineb ?rp PROXY_MAXLINE = Returns ((rc, l0, nul), rp1)" "rio_inv rp1" "read_lines (stream rp1) = ls"
    using read_lines_step [OF start(1)] assms(2) start(2) by auto
  obtain rp2 rc2 nul2 l where l: "Rio_readlineb rp1 PROXY_MAXLINE = Returns ((rc2, l, nul2), rp2)" "rio_inv rp2"
    "line_text l = [13, 10] \<longrightarrow> [13, 10] \<in> set (take 1 ls)" "read_lines (stream rp2) = tl ls"
    using read_lines_step [OF l0(2)] l0(3) by auto
  have "[13, 10] \<notin> set (tl ls)" "line_text l \<noteq> [13, 10]"
    using assms(4) l(3) set_take_subset [of 1 ls] list.set_sel(2) by (metis list.sel(2), blast)
  then have "header_loop rp2 (line_text l) st = Exit_proxy" using header_loop_unfinished [OF l(2)] l(4) by simp
  then show ?thesis using l0(1) l(1) assms(3) by (simp add: client_handler_def Let_def)
qed

lemma length_text_le: "bs ! k = 0 \<Longrightarrow> length (takeWhile (\<lambda>c. c \<noteq> 0) bs) \<le> k"
proof (induction bs arbitrary: k)
  case (Cons b bs)
  then show ?case by (cases k) auto
qed simp

text \<open>What is cached of a response is copied with \<open>strncat\<close>. If the response has no NUL,
  the terminating NUL is written one byte behind \<open>data\<close>, which is exactly as long as the
  response; if it has one, the bytes behind the first are never written, and a later hit sends
  uninitialised memory in their place.\<close>

theorem cached_copy_is_a_string:
  assumes "take n buf = map Some bs" and "length bs = n"
  shows "(0 \<notin> set bs \<longrightarrow> stray (add_cached junk host path buf n now st) = stray st + 1
          \<and> c_data (last (cache (add_cached junk host path buf n now st))) = map Some bs)
    \<and> (\<forall>k i. k < i \<longrightarrow> i < n \<longrightarrow> bs ! k = 0 \<longrightarrow>
          c_data (last (cache (add_cached junk host path buf n now st))) ! i = None)"
proof -
  have t: "take n (read_bytes junk buf) = bs" by (simp add: take_read_bytes assms(1))
  have data: "c_data (last (cache (add_cached junk host path buf n now st))) = store_at 0 (takeWhile (\<lambda>c. c \<noteq> 0) bs @ [0]) (replicate n None)"
    and over: "stray (add_cached junk host path buf n now st) = stray st + behind 0 (takeWhile (\<lambda>c. c \<noteq> 0) bs @ [0]) (replicate n None :: memory)"
    by (simp_all add: add_cached_def safe_strncpy_def strncpy_text_def t Let_def)
  show ?thesis
  proof (intro conjI impI allI)
    assume "0 \<notin> set bs"
    then have tw: "takeWhile (\<lambda>c. c \<noteq> 0) bs = bs" by auto
    show "stray (add_cached junk host path buf n now st) = stray st + 1"
      "c_data (last (cache (add_cached junk host path buf n now st))) = map Some bs"
      unfolding over data tw using assms(2) by (simp_all add: behind_def store_at_def)
  next
    fix k i assume ki: "k < i" "i < n" "bs ! k = 0"
    have "length (takeWhile (\<lambda>c. c \<noteq> 0) bs) \<le> k" using ki(3) by (rule length_text_le)
    then show "c_data (last (cache (add_cached junk host path buf n now st))) ! i = None"
      unfolding data using ki by (simp add: nth_store_at)
  qed
qed

theorem cached_copy_is_a_string_witness:
  "stray (add_cached 0 [] [] [Some 72, Some 105] 2 5 no_headers) = 1
   \<and> c_data (last (cache (add_cached 0 [] [] [Some 72, Some 0, Some 33] 3 5 no_headers))) ! 2 = None"
proof
  show "stray (add_cached 0 [] [] [Some 72, Some 105] 2 5 no_headers) = 1"
    using cached_copy_is_a_string [of 2 "[Some 72, Some 105]" "[72, 105]" 0 "[]" "[]" 5 no_headers]
    by (simp add: no_headers_def)
  have z: "take 3 [Some 72, Some 0, Some 33] = map Some [72, 0, 33 :: 8 word]" "length [72, 0, 33 :: 8 word] = 3"
    "[72, 0, 33 :: 8 word] ! 1 = 0" "(1 :: nat) < 2" "(2 :: nat) < 3" by simp_all
  show "c_data (last (cache (add_cached 0 [] [] [Some 72, Some 0, Some 33] 3 5 no_headers))) ! 2 = None"
    using cached_copy_is_a_string [OF z(1,2), of 0 "[]" "[]" 5 no_headers] z(3-5) by blast
qed

end
