(* ===== verification/Heap_Memory.thy ===== *)
theory Heap_Memory
  imports Lab_Prelude
begin

text \<open>
  Memory for the allocator of \<open>malloclab/src\<close>, and the simulated \<open>sbrk\<close> of \<open>memlib.c\<close>.

  The lab is built with \<open>-m32\<close>: words, sizes and addresses have 32 bits. Memory maps addresses
  to bytes; a word is four bytes, the lowest first. Addresses and sizes are integers, and a
  computation that can leave the range of \<open>size_t\<close> is reduced with \<open>u32\<close>.
\<close>

unbundle bit_operations_syntax

section \<open>Words in memory\<close>

lemma and_not_7: "(x :: int) AND NOT 7 = x - x mod 8"
proof -
  have m: "(7 :: int) = mask 3" by (simp add: mask_eq_exp_minus_1)
  have a: "x AND 7 = x mod 8" unfolding m using take_bit_eq_mask [of 3 x] by (simp add: take_bit_eq_mod)
  have d: "(x AND 7) AND (x AND NOT 7) = 0"
    unfolding m by (rule bit_eqI) (simp only: bit_and_iff bit_not_iff bit_0_eq, auto)
  have "(x AND 7) + (x AND NOT 7) = (x AND 7) OR (x AND NOT 7)"
    by (rule disjunctive_add_eq_or [OF d])
  also have "\<dots> = x" unfolding m by (rule bit_eqI) (simp only: bit_and_iff bit_or_iff bit_not_iff, auto)
  finally show ?thesis using a by linarith
qed

type_synonym memory = "int \<Rightarrow> 8 word"

definition u32 :: "int \<Rightarrow> int" where
  "u32 x = x mod 2 ^ 32"

definition GET :: "memory \<Rightarrow> int \<Rightarrow> int" where
  "GET m p = uint (m p) + 256 * uint (m (p + 1)) + 65536 * uint (m (p + 2)) + 16777216 * uint (m (p + 3))"

definition PUT :: "memory \<Rightarrow> int \<Rightarrow> int \<Rightarrow> memory" where
  "PUT m p v = m(p := word_of_int v, p + 1 := word_of_int (v div 256),
     p + 2 := word_of_int (v div 65536), p + 3 := word_of_int (v div 16777216))"

text \<open>\<open>memmove\<close> and, for ranges that do not overlap, \<open>memcpy\<close>.\<close>

definition copy_bytes :: "memory \<Rightarrow> int \<Rightarrow> int \<Rightarrow> int \<Rightarrow> memory" where
  "copy_bytes m dst src n = (\<lambda>a. if dst \<le> a \<and> a < dst + n then m (src + (a - dst)) else m a)"

lemma uint_byte: "uint (word_of_int k :: 8 word) = k mod 256"
  by (simp add: uint_word_of_int take_bit_eq_mod)

lemma four_bytes:
  fixes v :: int
  assumes "0 \<le> v" and "v < 2 ^ 32"
  shows "v mod 256 + 256 * (v div 256 mod 256) + 65536 * (v div 65536 mod 256) + 16777216 * (v div 16777216 mod 256) = v"
proof -
  have b: "v div 65536 = v div 256 div 256" using zdiv_zmult2_eq [of 256 v 256] by simp
  have c: "v div 16777216 = v div 65536 div 256" using zdiv_zmult2_eq [of 256 v 65536] by simp
  have "256 * (v div 256) + v mod 256 = v" "256 * (v div 65536) + v div 256 mod 256 = v div 256"
    "256 * (v div 16777216) + v div 65536 mod 256 = v div 65536"
    unfolding b c by simp_all
  moreover have "v div 16777216 mod 256 = v div 16777216" using assms by simp
  ultimately show ?thesis by linarith
qed

lemma PUT_bytes:
  "PUT m p v p = word_of_int v" "PUT m p v (p + 1) = word_of_int (v div 256)"
  "PUT m p v (p + 2) = word_of_int (v div 65536)" "PUT m p v (p + 3) = word_of_int (v div 16777216)"
  unfolding PUT_def by simp_all

lemma GET_PUT_same:
  assumes "0 \<le> v" and "v < 2 ^ 32"
  shows "GET (PUT m p v) p = v"
  unfolding GET_def PUT_bytes uint_byte using four_bytes [OF assms] .

lemma GET_PUT_other: "p + 4 \<le> q \<or> q + 4 \<le> p \<Longrightarrow> GET (PUT m p v) q = GET m q"
  by (auto simp: GET_def PUT_def)

lemma GET_range: "0 \<le> GET m p" "GET m p < 2 ^ 32"
proof -
  have "0 \<le> uint (m q)" "uint (m q) < 256" for q using uint_bounded [of "m q"] by simp_all
  note b = this [of p] this [of "p + 1"] this [of "p + 2"] this [of "p + 3"]
  show "0 \<le> GET m p" "GET m p < 2 ^ 32" using b unfolding GET_def by simp_all
qed

lemma GET_cong: "(\<And>a. p \<le> a \<Longrightarrow> a < p + 4 \<Longrightarrow> m' a = m a) \<Longrightarrow> GET m' p = GET m p"
  by (simp add: GET_def)

lemma PUT_frame: "a < p \<or> p + 4 \<le> a \<Longrightarrow> PUT m p v a = m a"
  by (auto simp: PUT_def)

text \<open>
  What the allocator relies on. A \<open>view\<close> is a finite set of words, by address, that the memory
  is known to hold; distinct words of a view do not overlap.
\<close>

locale word_memory =
  fixes get :: "'m \<Rightarrow> int \<Rightarrow> int" and put :: "'m \<Rightarrow> int \<Rightarrow> int \<Rightarrow> 'm"
  assumes get_put_same: "0 \<le> v \<Longrightarrow> v < 2 ^ 32 \<Longrightarrow> get (put m p v) p = v"
    and get_put_other: "p + 4 \<le> q \<or> q + 4 \<le> p \<Longrightarrow> get (put m p v) q = get m q"
begin

definition holds :: "'m \<Rightarrow> (int \<rightharpoonup> int) \<Rightarrow> bool" where
  "holds m f \<longleftrightarrow> (\<forall>a v. f a = Some v \<longrightarrow> get m a = v)"

lemma aligned_apart: "4 dvd (a :: int) \<Longrightarrow> 4 dvd b \<Longrightarrow> a \<noteq> b \<Longrightarrow> a + 4 \<le> b \<or> b + 4 \<le> a"
  by (auto elim!: dvdE)

lemma get_put_aligned: "4 dvd p \<Longrightarrow> 4 dvd q \<Longrightarrow> 0 \<le> v \<Longrightarrow> v < 2 ^ 32 \<Longrightarrow>
    get (put m p v) q = (if q = p then v else get m q)"
  using get_put_same get_put_other aligned_apart by auto

lemma holds_put:
  assumes "holds m f" and "4 dvd p" and "\<forall>a \<in> dom f. 4 dvd a" and "0 \<le> v" and "v < 2 ^ 32"
  shows "holds (put m p v) (f(p \<mapsto> v))"
  unfolding holds_def
proof (intro allI impI)
  fix a w assume a: "(f(p \<mapsto> v)) a = Some w"
  show "get (put m p v) a = w"
  proof (cases "a = p")
    case True
    then show ?thesis using a get_put_same [OF assms(4,5)] by simp
  next
    case False
    then have f: "f a = Some w" using a by simp
    then have "p + 4 \<le> a \<or> a + 4 \<le> p" using aligned_apart [of p a] assms(2,3) False by blast
    then show ?thesis using get_put_other f assms(1) by (simp add: holds_def)
  qed
qed

lemma holds_mono: "holds m f \<Longrightarrow> g \<subseteq>\<^sub>m f \<Longrightarrow> holds m g"
  by (auto simp: holds_def map_le_def dom_def)

end

interpretation bytes: word_memory GET PUT
  by unfold_locales (auto simp: GET_PUT_same GET_PUT_other)

section \<open>The simulated break\<close>

definition MAX_HEAP :: int where "MAX_HEAP = 20 * 2 ^ 20"

record memsys =
  mem_start_brk :: int
  mem_brk :: int
  mem_max_addr :: int

text \<open>\<open>mem_init\<close> with the address the library's \<open>malloc\<close> returns; \<open>None\<close> is its failure.\<close>

definition mem_init :: "int \<Rightarrow> memsys option" where
  "mem_init base = (if base = 0 then None
     else Some \<lparr>mem_start_brk = base, mem_brk = base, mem_max_addr = base + MAX_HEAP\<rparr>)"

definition mem_reset_brk :: "memsys \<Rightarrow> memsys" where
  "mem_reset_brk ms = ms\<lparr>mem_brk := mem_start_brk ms\<rparr>"

text \<open>The argument of \<open>mem_sbrk\<close> is an \<open>int\<close>; the result -1 is failure.\<close>

definition mem_sbrk :: "int \<Rightarrow> memsys \<Rightarrow> int \<times> memsys" where
  "mem_sbrk incr ms =
     (if incr < 0 \<or> mem_brk ms + incr > mem_max_addr ms then (-1, ms)
      else (mem_brk ms, ms\<lparr>mem_brk := mem_brk ms + incr\<rparr>))"

definition mem_heap_lo :: "memsys \<Rightarrow> int" where "mem_heap_lo ms = mem_start_brk ms"
definition mem_heap_hi :: "memsys \<Rightarrow> int" where "mem_heap_hi ms = mem_brk ms - 1"
definition mem_heapsize :: "memsys \<Rightarrow> int" where "mem_heapsize ms = mem_brk ms - mem_start_brk ms"

text \<open>What every allocator works on: the memory and the break. An allocator with global variables
  extends this record.\<close>

record machine =
  mem :: memory
  sys :: memsys

text \<open>The conversion of a \<open>size_t\<close> to the \<open>int\<close> argument of \<open>mem_sbrk\<close>.\<close>

definition to_int :: "int \<Rightarrow> int" where
  "to_int n = (if n < 2 ^ 31 then n else n - 2 ^ 32)"

definition sbrk :: "int \<Rightarrow> 'a machine_scheme \<Rightarrow> int \<times> 'a machine_scheme" where
  "sbrk n h = (case mem_sbrk (to_int n) (sys h) of (p, s) \<Rightarrow> (p, h\<lparr>sys := s\<rparr>))"

text \<open>The machine right after \<open>mem_init\<close> or \<open>mem_reset_brk\<close>: \<open>malloc\<close> returns aligned
  addresses, and the heap does not wrap around the end of the address space.\<close>

definition fresh_heap :: "'a machine_scheme \<Rightarrow> bool" where
  "fresh_heap h \<longleftrightarrow> 0 < mem_start_brk (sys h) \<and> 8 dvd mem_start_brk (sys h)
     \<and> mem_brk (sys h) = mem_start_brk (sys h) \<and> mem_max_addr (sys h) = mem_start_brk (sys h) + MAX_HEAP
     \<and> mem_max_addr (sys h) \<le> 2 ^ 32"

definition room :: "'a machine_scheme \<Rightarrow> int \<Rightarrow> bool" where
  "room h sz \<longleftrightarrow> mem_brk (sys h) + sz \<le> mem_max_addr (sys h)"

text \<open>The break moves up by at most \<open>c\<close>.\<close>

definition grows :: "int \<Rightarrow> 'a machine_scheme \<Rightarrow> 'a machine_scheme \<Rightarrow> bool" where
  "grows c h h' \<longleftrightarrow> mem_start_brk (sys h') = mem_start_brk (sys h) \<and> mem_max_addr (sys h') = mem_max_addr (sys h)
     \<and> mem_brk (sys h) \<le> mem_brk (sys h') \<and> mem_brk (sys h') \<le> mem_brk (sys h) + c"

lemma grows_refl: "grows 0 h h"
  by (simp add: grows_def)

lemma grows_same: "sys h' = sys h \<Longrightarrow> 0 \<le> c \<Longrightarrow> grows c h h'"
  by (simp add: grows_def)

lemma grows_trans: "grows c h h' \<Longrightarrow> grows d h' h'' \<Longrightarrow> grows (c + d) h h''"
  by (simp add: grows_def)

lemma grows_mono: "grows c h h' \<Longrightarrow> c \<le> d \<Longrightarrow> grows d h h'"
  by (simp add: grows_def)

text \<open>The bytes of the blocks \<open>T\<close>, as address and length, are the same.\<close>

definition same_at :: "(int \<times> int) set \<Rightarrow> 'a machine_scheme \<Rightarrow> 'a machine_scheme \<Rightarrow> bool" where
  "same_at T h h' \<longleftrightarrow> (\<forall>(p, t) \<in> T. \<forall>x. p \<le> x \<and> x < p + t \<longrightarrow> mem h' x = mem h x)"

lemma same_atD: "same_at T h h' \<Longrightarrow> (p, t) \<in> T \<Longrightarrow> p \<le> x \<Longrightarrow> x < p + t \<Longrightarrow> mem h' x = mem h x"
  unfolding same_at_def by blast

lemma same_at_refl: "same_at T h h"
  by (simp add: same_at_def)

lemma same_at_trans: "same_at T h h' \<Longrightarrow> same_at T h' h'' \<Longrightarrow> same_at T h h''"
  unfolding same_at_def by (auto split: prod.splits)

lemma same_at_mono: "same_at T h h' \<Longrightarrow> T' \<subseteq> T \<Longrightarrow> same_at T' h h'"
  unfolding same_at_def by blast

end
