(* ===== verification/Mm_Malloc.thy ===== *)
theory Mm_Malloc
  imports Heap_Memory
begin

text \<open>
  The allocator of \<open>malloclab/src/mm-2017-19651.c\<close>: boundary tags, 24 segregated free lists,
  immediate coalescing. Every function is the code's, with memory and break as explicit state;
  a walk along a free list that does not end is \<open>None\<close>. Reads and writes are not checked
  against the heap.
\<close>

unbundle bit_operations_syntax

section \<open>Constants and macros\<close>

definition WSIZE :: int where "WSIZE = 4"
definition DSIZE :: int where "DSIZE = 8"
definition CHUNKSIZE :: int where "CHUNKSIZE = 64"
definition DCHUNKSIZE :: int where "DCHUNKSIZE = 4096"
definition SEG_SIZE :: nat where "SEG_SIZE = 24"
definition MINSIZE :: int where "MINSIZE = 200"

definition ALIGN :: "int \<Rightarrow> int" where
  "ALIGN sz = u32 (sz + 7) AND NOT 7"

definition PACK :: "int \<Rightarrow> int \<Rightarrow> int" where
  "PACK sz al = sz OR al"

definition GET_SIZE :: "memory \<Rightarrow> int \<Rightarrow> int" where
  "GET_SIZE m p = GET m p AND NOT 7"

definition GET_ALLOC :: "memory \<Rightarrow> int \<Rightarrow> int" where
  "GET_ALLOC m p = GET m p AND 1"

definition HDRP :: "int \<Rightarrow> int" where "HDRP bp = bp - WSIZE"
definition FTRP :: "memory \<Rightarrow> int \<Rightarrow> int" where "FTRP m bp = bp + GET_SIZE m (HDRP bp) - DSIZE"
definition NEXT_BLKP :: "memory \<Rightarrow> int \<Rightarrow> int" where "NEXT_BLKP m bp = bp + GET_SIZE m (bp - WSIZE)"
definition PREV_BLKP :: "memory \<Rightarrow> int \<Rightarrow> int" where "PREV_BLKP m bp = bp - GET_SIZE m (bp - DSIZE)"
definition GET_BLK_SIZE :: "memory \<Rightarrow> int \<Rightarrow> int" where "GET_BLK_SIZE m p = GET_SIZE m (HDRP p)"

definition SEG_PREV_BLKP :: "memory \<Rightarrow> int \<Rightarrow> int" where "SEG_PREV_BLKP m bp = GET m bp"
definition SEG_NEXT_BLKP :: "memory \<Rightarrow> int \<Rightarrow> int" where "SEG_NEXT_BLKP m bp = GET m (bp + WSIZE)"

definition GET_SEG_LIST_PTR :: "memory \<Rightarrow> int \<Rightarrow> nat \<Rightarrow> int" where
  "GET_SEG_LIST_PTR m sp i = GET m (sp + WSIZE * int i)"
definition SET_SEG_LIST_PTR :: "memory \<Rightarrow> int \<Rightarrow> nat \<Rightarrow> int \<Rightarrow> memory" where
  "SET_SEG_LIST_PTR m sp i v = PUT m (sp + WSIZE * int i) v"

text \<open>The state: memory, break and the two global pointers.\<close>

record heap = machine +
  heap_ptr :: int
  seg_list_ptr :: int

text \<open>Writing a header and a footer: the footer's place is found with the new header.\<close>

definition put_tags :: "memory \<Rightarrow> int \<Rightarrow> int \<Rightarrow> memory" where
  "put_tags m bp v = (let m = PUT m (HDRP bp) v in PUT m (FTRP m bp) v)"

section \<open>The segregated lists\<close>

definition init_seglist :: "heap \<Rightarrow> heap" where
  "init_seglist h =
     (case sbrk (int SEG_SIZE * WSIZE) h of (p, h) \<Rightarrow>
        h\<lparr>seg_list_ptr := p, mem := fold (\<lambda>i m. SET_SEG_LIST_PTR m p i 0) [0..<SEG_SIZE] (mem h)\<rparr>)"

text \<open>The loop that finds the class: the index and what is left of the size.\<close>

fun class_loop :: "nat \<Rightarrow> nat \<Rightarrow> int \<Rightarrow> nat \<times> int" where
  "class_loop 0 index sz = (index, sz)"
| "class_loop (Suc n) index sz = (if sz \<le> 1 then (index, sz) else class_loop n (Suc index) (sz div 2))"

definition seg_class :: "int \<Rightarrow> nat \<times> int" where
  "seg_class sz = class_loop (SEG_SIZE - 1) 0 sz"

partial_function (option) seg_walk :: "memory \<Rightarrow> int \<Rightarrow> int \<Rightarrow> int \<Rightarrow> (int \<times> int) option" where
  "seg_walk m sz prev cur =
     (if cur \<noteq> 0 \<and> sz > GET_BLK_SIZE m cur then seg_walk m sz cur (SEG_PREV_BLKP m cur)
      else Some (prev, cur))"

declare seg_walk.simps [code]

definition add_seglist :: "int \<Rightarrow> int \<Rightarrow> heap \<Rightarrow> heap option" where
  "add_seglist bp blk_size h =
     (let (index, sz) = seg_class blk_size; sp = seg_list_ptr h; m = mem h in
      case seg_walk m sz 0 (GET_SEG_LIST_PTR m sp index) of
        None \<Rightarrow> None
      | Some (prev, cur) \<Rightarrow>
          Some (h\<lparr>mem :=
            (if cur \<noteq> 0 \<and> prev \<noteq> 0
             then PUT (PUT (PUT (PUT m prev bp) (bp + WSIZE) prev) bp cur) (cur + WSIZE) bp
             else if cur \<noteq> 0
             then SET_SEG_LIST_PTR (PUT (PUT (PUT m (cur + WSIZE) bp) bp cur) (bp + WSIZE) 0) sp index bp
             else if prev \<noteq> 0
             then PUT (PUT (PUT m (bp + WSIZE) prev) prev bp) bp 0
             else SET_SEG_LIST_PTR (PUT (PUT m (bp + WSIZE) 0) bp 0) sp index bp)\<rparr>))"

definition remove_seglist :: "int \<Rightarrow> heap \<Rightarrow> heap" where
  "remove_seglist bp h =
     (let m = mem h; sp = seg_list_ptr h;
          prev = SEG_PREV_BLKP m bp; next = SEG_NEXT_BLKP m bp;
          (index, _) = seg_class (GET_BLK_SIZE m bp)
      in h\<lparr>mem :=
           (if next = 0
            then (let m = SET_SEG_LIST_PTR m sp index prev; list_ptr = GET_SEG_LIST_PTR m sp index
                  in if list_ptr \<noteq> 0 then PUT m (list_ptr + WSIZE) 0 else m)
            else (let m = PUT m next prev in if prev \<noteq> 0 then PUT m (prev + WSIZE) next else m))\<rparr>)"

section \<open>Coalescing and placing\<close>

definition coalesce :: "int \<Rightarrow> heap \<Rightarrow> (int \<times> heap) option" where
  "coalesce bp h =
     (let prev_alloc = GET_ALLOC (mem h) (HDRP (PREV_BLKP (mem h) bp)) \<noteq> 0;
          next_alloc = GET_ALLOC (mem h) (HDRP (NEXT_BLKP (mem h) bp)) \<noteq> 0;
          sz = GET_SIZE (mem h) (HDRP bp) in
      if prev_alloc \<and> next_alloc then Some (bp, h)
      else
        let h = remove_seglist bp h;
            (bp', sz', h') =
              (if prev_alloc
               then (let sz = sz + GET_SIZE (mem h) (HDRP (NEXT_BLKP (mem h) bp));
                         h = remove_seglist (NEXT_BLKP (mem h) bp) h
                     in (bp, sz, h\<lparr>mem := put_tags (mem h) bp (PACK sz 0)\<rparr>))
               else if next_alloc
               then (let h = remove_seglist (PREV_BLKP (mem h) bp) h;
                         sz = sz + GET_SIZE (mem h) (HDRP (PREV_BLKP (mem h) bp));
                         m = PUT (mem h) (FTRP (mem h) bp) (PACK sz 0);
                         m = PUT m (HDRP (PREV_BLKP m bp)) (PACK sz 0)
                     in (PREV_BLKP m bp, sz, h\<lparr>mem := m\<rparr>))
               else (let sz = sz + (GET_SIZE (mem h) (HDRP (PREV_BLKP (mem h) bp))
                                + GET_SIZE (mem h) (FTRP (mem h) (NEXT_BLKP (mem h) bp)));
                         h = remove_seglist (PREV_BLKP (mem h) bp) h;
                         h = remove_seglist (NEXT_BLKP (mem h) bp) h;
                         m = PUT (mem h) (HDRP (PREV_BLKP (mem h) bp)) (PACK sz 0);
                         m = PUT m (FTRP m (NEXT_BLKP m bp)) (PACK sz 0)
                     in (PREV_BLKP m bp, sz, h\<lparr>mem := m\<rparr>)))
        in map_option (\<lambda>h. (bp', h)) (add_seglist bp' sz' h'))"

definition extend_heap :: "int \<Rightarrow> heap \<Rightarrow> (int \<times> heap) option" where
  "extend_heap words h =
     (let sz = u32 (if words mod 2 \<noteq> 0 then (words + 1) * WSIZE else words * WSIZE) in
      case sbrk sz h of (bp, h) \<Rightarrow>
        if bp = -1 then Some (0, h)
        else
          let m = put_tags (mem h) bp (PACK sz 0);
              m = PUT m (HDRP (NEXT_BLKP m bp)) (PACK 0 1)
          in Option.bind (add_seglist bp sz (h\<lparr>mem := m\<rparr>)) (coalesce bp))"

text \<open>\<open>find_fit\<close>: the scan of one list, and the recursion over the classes; the bound
  \<open>index > SEG_SIZE\<close> lets it read one word behind the table.\<close>

partial_function (option) fit_scan :: "memory \<Rightarrow> int \<Rightarrow> int \<Rightarrow> int option" where
  "fit_scan m asize p =
     (if p \<noteq> 0 \<and> asize > GET_BLK_SIZE m p then fit_scan m asize (SEG_PREV_BLKP m p) else Some p)"

declare fit_scan.simps [code]

function find_fit :: "memory \<Rightarrow> int \<Rightarrow> int \<Rightarrow> int \<Rightarrow> nat \<Rightarrow> int option" where
  "find_fit m sp asize csize index =
     (if index > SEG_SIZE then Some 0
      else let seg_ptr = GET_SEG_LIST_PTR m sp index in
        if csize \<le> 1 \<and> seg_ptr \<noteq> 0
        then (case fit_scan m asize seg_ptr of
                None \<Rightarrow> None
              | Some p \<Rightarrow> if p \<noteq> 0 then Some p else find_fit m sp asize (csize div 2) (Suc index))
        else find_fit m sp asize (csize div 2) (Suc index))"
  by pat_completeness auto
termination find_fit by (relation "measure (\<lambda>(m, sp, a, c, i). Suc SEG_SIZE - i)") auto

declare find_fit.simps [simp del]

definition place :: "int \<Rightarrow> int \<Rightarrow> heap \<Rightarrow> (int \<times> heap) option" where
  "place bp asize h =
     (let csize = GET_BLK_SIZE (mem h) bp;
          padding = u32 (csize - asize);
          h = remove_seglist bp h in
      if padding < 2 * DSIZE
      then Some (bp, h\<lparr>mem := put_tags (mem h) bp (PACK csize 1)\<rparr>)
      else if asize > MINSIZE
      then (let m = put_tags (mem h) bp (PACK asize 1);
                nbp = NEXT_BLKP m bp;
                m = put_tags m nbp (PACK padding 0)
            in map_option (\<lambda>h. (bp, h)) (add_seglist nbp padding (h\<lparr>mem := m\<rparr>)))
      else (let m = put_tags (mem h) bp (PACK padding 0);
                nbp = NEXT_BLKP m bp;
                m = put_tags m nbp (PACK asize 1)
            in map_option (\<lambda>h. (nbp, h)) (add_seglist bp padding (h\<lparr>mem := m\<rparr>))))"

section \<open>The interface\<close>

definition mm_init :: "heap \<Rightarrow> (int \<times> heap) option" where
  "mm_init h =
     (case sbrk (4 * WSIZE) (init_seglist h) of (p, h) \<Rightarrow>
        let h = h\<lparr>heap_ptr := p\<rparr> in
        if p = -1 then Some (-1, h)
        else
          let m = PUT (mem h) p 0;
              m = PUT m (p + 1 * WSIZE) (PACK DSIZE 1);
              m = PUT m (p + 2 * WSIZE) (PACK DSIZE 1);
              m = PUT m (p + 3 * WSIZE) (PACK 0 1)
          in case extend_heap (CHUNKSIZE div WSIZE) (h\<lparr>mem := m, heap_ptr := p + 2 * WSIZE\<rparr>) of
               None \<Rightarrow> None
             | Some (q, h) \<Rightarrow> Some (if q = 0 then -1 else 0, h))"

definition adjusted_size :: "int \<Rightarrow> int" where
  "adjusted_size sz = (if sz \<le> 2 * DSIZE then 3 * DSIZE else ALIGN (u32 (sz + DSIZE)))"

definition mm_malloc :: "int \<Rightarrow> heap \<Rightarrow> (int \<times> heap) option" where
  "mm_malloc sz h =
     (if sz \<le> 0 then Some (0, h)
      else
        let asize = adjusted_size sz in
        case find_fit (mem h) (seg_list_ptr h) asize asize 0 of
          None \<Rightarrow> None
        | Some bp \<Rightarrow>
            if bp \<noteq> 0 then place bp asize h
            else (case extend_heap (max asize DCHUNKSIZE div WSIZE) h of
                    None \<Rightarrow> None
                  | Some (bp, h) \<Rightarrow> if bp = 0 then Some (0, h) else place bp asize h))"

definition mm_free :: "int \<Rightarrow> heap \<Rightarrow> heap option" where
  "mm_free bp h =
     (let sz = GET_BLK_SIZE (mem h) bp;
          h = h\<lparr>mem := put_tags (mem h) bp (PACK sz 0)\<rparr>
      in map_option snd (Option.bind (add_seglist bp sz h) (coalesce bp)))"

text \<open>The part of \<open>mm_realloc\<close> that grows a block into its neighbours. The result is the padding,
  the block (0 while nothing fitted) and the heap.\<close>

definition grow :: "int \<Rightarrow> int \<Rightarrow> int \<Rightarrow> heap \<Rightarrow> int \<times> int \<times> heap" where
  "grow old_ptr csize asize h =
     (let next_ptr = NEXT_BLKP (mem h) old_ptr;
          prev_ptr = PREV_BLKP (mem h) old_ptr;
          nsize = (if next_ptr \<noteq> 0 then GET_BLK_SIZE (mem h) next_ptr else 0);
          psize = (if prev_ptr \<noteq> 0 then GET_BLK_SIZE (mem h) prev_ptr else 0);
          previous_merge = prev_ptr \<noteq> 0 \<and> GET_ALLOC (mem h) (HDRP prev_ptr) = 0;
          next_merge = next_ptr \<noteq> 0 \<and> GET_ALLOC (mem h) (HDRP next_ptr) = 0;
          (padding, new_ptr, h) =
            (if previous_merge
             then (if psize + csize \<ge> asize
                   then (let padding = csize + psize - asize;
                             h = remove_seglist prev_ptr h;
                             new_size = (if padding > DSIZE then asize + DSIZE else csize + psize + DSIZE);
                             m = PUT (mem h) (HDRP prev_ptr) (PACK new_size 1);
                             m = copy_bytes m prev_ptr old_ptr (csize + DSIZE);
                             m = PUT m (FTRP m prev_ptr) (PACK new_size 1)
                         in (padding, prev_ptr, h\<lparr>mem := m\<rparr>))
                   else (0, 0, h))
             else if next_merge
             then (if nsize + csize \<ge> asize
                   then (let padding = csize + nsize - asize;
                             h = remove_seglist next_ptr h;
                             new_size = (if padding > DSIZE then asize + DSIZE else csize + nsize + DSIZE)
                         in (padding, old_ptr, h\<lparr>mem := put_tags (mem h) old_ptr (PACK new_size 1)\<rparr>))
                   else (0, 0, h))
             else (0, 0, h));
          previous_next_merge = GET_ALLOC (mem h) (HDRP prev_ptr) = 0 \<and> GET_ALLOC (mem h) (HDRP next_ptr) = 0
      in if previous_next_merge \<and> psize + nsize + csize \<ge> asize
         then (let padding = csize + psize + nsize - asize;
                   h = remove_seglist next_ptr h;
                   h = remove_seglist prev_ptr h;
                   new_size = (if padding > DSIZE then asize + DSIZE else csize + psize + nsize + DSIZE);
                   m = PUT (mem h) (HDRP prev_ptr) (PACK new_size 1);
                   m = copy_bytes m prev_ptr old_ptr (csize + DSIZE);
                   m = PUT m (FTRP m prev_ptr) (PACK new_size 1)
               in (padding, prev_ptr, h\<lparr>mem := m\<rparr>))
         else (padding, new_ptr, h))"

text \<open>What is left behind the new block becomes a free block.\<close>

definition split_rest :: "int \<Rightarrow> int \<Rightarrow> heap \<Rightarrow> (int \<times> heap) option" where
  "split_rest padding new_ptr h =
     (if padding > DSIZE
      then (let ret = NEXT_BLKP (mem h) new_ptr;
                m = put_tags (mem h) ret (PACK padding 0)
            in Option.bind (add_seglist ret (GET_BLK_SIZE m ret) (h\<lparr>mem := m\<rparr>))
                 (\<lambda>h. map_option (\<lambda>(_, h). (new_ptr, h)) (coalesce ret h)))
      else Some (new_ptr, h))"

definition mm_realloc :: "int \<Rightarrow> int \<Rightarrow> heap \<Rightarrow> (int \<times> heap) option" where
  "mm_realloc ptr sz h =
     (if ptr = 0 then mm_malloc sz h
      else if sz = 0 then map_option (\<lambda>h. (ptr, h)) (mm_free ptr h)
      else
        let csize = u32 (GET_BLK_SIZE (mem h) ptr - DSIZE); asize = ALIGN sz in
        if asize = csize then Some (ptr, h)
        else if asize < csize
        then (let padding = csize - asize in
              if padding \<le> DSIZE then Some (ptr, h)
              else split_rest padding ptr (h\<lparr>mem := put_tags (mem h) ptr (PACK (asize + DSIZE) 1)\<rparr>))
        else case grow ptr csize asize h of (padding, new_ptr, h) \<Rightarrow>
          if new_ptr \<noteq> 0 then split_rest padding new_ptr h
          else (case mm_malloc sz h of
                  None \<Rightarrow> None
                | Some (new_ptr, h) \<Rightarrow>
                    if new_ptr = 0 then Some (0, h)
                    else map_option (\<lambda>h. (new_ptr, h))
                           (mm_free ptr (h\<lparr>mem := copy_bytes (mem h) new_ptr ptr (csize + DSIZE)\<rparr>))))"

end
