(* ===== verification/Mm_Heap.thy ===== *)
theory Mm_Heap
  imports Mm_Malloc
begin

text \<open>
  The heap behind the allocator: a row of blocks that tile the memory up to the break, with
  their boundary tags, and 24 doubly linked lists of free blocks. This theory states when
  memory represents such a heap and what the allocator's helper functions do to it.
\<close>

section \<open>Tags\<close>

definition tag :: "int \<Rightarrow> bool \<Rightarrow> int" where
  "tag s a = s + of_bool a"

lemma PACK_tag: "8 dvd s \<Longrightarrow> PACK s 0 = tag s False" "8 dvd s \<Longrightarrow> PACK s 1 = tag s True"
proof -
  show "PACK s 0 = tag s False" by (simp add: PACK_def tag_def)
  assume "8 dvd s"
  then have "even s" by (metis dvd_trans even_numeral numeral_Bit0_eq_double dvd_triv_left)
  then show "PACK s 1 = tag s True" by (simp add: PACK_def tag_def or_one_eq)
qed

lemma size_tag: "8 dvd s \<Longrightarrow> tag s a AND NOT 7 = s"
  unfolding and_not_7 tag_def by (cases a) (simp_all, presburger+)

lemma alloc_tag: "8 dvd s \<Longrightarrow> tag s a AND 1 = of_bool a"
  unfolding and_one_eq tag_def by (cases a) (simp_all, presburger+)

lemma tag_range: "0 \<le> s \<Longrightarrow> s < 2 ^ 31 \<Longrightarrow> 0 \<le> tag s a \<and> tag s a < 2 ^ 32"
  by (simp add: tag_def)

lemma GET_PUT_aligned:
  "4 dvd p \<Longrightarrow> 4 dvd q \<Longrightarrow> 0 \<le> v \<Longrightarrow> v < 2 ^ 32 \<Longrightarrow> GET (PUT m p v) q = (if q = p then v else GET m q)"
  by (rule bytes.get_put_aligned)

section \<open>Classes\<close>

definition class_of :: "int \<Rightarrow> nat" where
  "class_of s = fst (seg_class s)"

lemma class_loop_le: "fst (class_loop n i s) \<le> i + n"
  by (induction n i s rule: class_loop.induct) auto

lemma class_loop_rest: "0 \<le> s \<Longrightarrow> snd (class_loop n i s) \<le> max 1 (s div 2 ^ n)"
proof (induction n i s rule: class_loop.induct)
  case (2 n i s)
  have "s div 2 div 2 ^ n = s div 2 ^ Suc n" using zdiv_zmult2_eq [of "2 ^ n" s 2] by (simp add: mult.commute)
  then show ?case using 2 by auto
qed auto

lemma class_of_less: "class_of s < 24"
  using class_loop_le [of 23 0 s] by (simp add: class_of_def seg_class_def SEG_SIZE_def)

lemma seg_class_rest:
  assumes "0 \<le> s" and "s < 2 ^ 26"
  shows "snd (seg_class s) < 16"
proof -
  have "snd (seg_class s) \<le> max 1 (s div 2 ^ 23)"
    using class_loop_rest [OF assms(1), of 23 0] by (simp add: seg_class_def SEG_SIZE_def)
  moreover have "s div 2 ^ 23 < 16" using assms by simp
  ultimately show ?thesis by simp
qed

section \<open>Tiles\<close>

type_synonym block = "int \<times> int \<times> bool"

text \<open>Blocks, as payload address, size and allocation bit, that follow each other from \<open>lo\<close> to
  \<open>hi\<close>.\<close>

fun tile :: "int \<Rightarrow> block list \<Rightarrow> int \<Rightarrow> bool" where
  "tile lo [] hi = (lo = hi)"
| "tile lo ((q, s, a) # bl) hi = (q = lo \<and> 16 \<le> s \<and> 8 dvd s \<and> tile (lo + s) bl hi)"

lemma tile_le: "tile lo bl hi \<Longrightarrow> lo \<le> hi"
  by (induction lo bl hi rule: tile.induct) auto

lemma tile_append: "tile lo (xs @ ys) hi \<longleftrightarrow> (\<exists>mid. tile lo xs mid \<and> tile mid ys hi)"
  by (induction lo xs hi rule: tile.induct) auto

lemma tile_mem:
  assumes "tile lo bl hi" and "(q, s, a) \<in> set bl"
  shows "lo \<le> q \<and> q + s \<le> hi \<and> 16 \<le> s \<and> 8 dvd s \<and> (8 dvd lo \<longrightarrow> 8 dvd q)"
  using assms
proof (induction lo bl hi rule: tile.induct)
  case (2 lo q' s' a' bl hi)
  then have t: "tile (lo + s') bl hi" "q' = lo" "16 \<le> s'" "8 dvd s'" by auto
  then have "lo + s' \<le> hi" by (auto dest: tile_le)
  then show ?case using 2 t by (auto intro: dvd_add)
qed simp

lemma tile_apart:
  assumes "tile lo bl hi" and "(q, s, a) \<in> set bl" and "(q', s', a') \<in> set bl"
  shows "(q, s, a) = (q', s', a') \<or> q + s \<le> q' \<or> q' + s' \<le> q"
  using assms
proof (induction lo bl hi rule: tile.induct)
  case (2 lo p t b bl hi)
  then have tl: "tile (lo + t) bl hi" "p = lo" by auto
  show ?case using 2 tl tile_mem [OF tl(1)] by auto
qed simp

lemma tile_same: "tile lo bl hi \<Longrightarrow> (q, s, a) \<in> set bl \<Longrightarrow> (q, s', a') \<in> set bl \<Longrightarrow> s = s' \<and> a = a'"
  using tile_apart [of lo bl hi q s a q s' a'] tile_mem by fastforce

lemma tile_distinct: "tile lo bl hi \<Longrightarrow> distinct (map fst bl)"
proof (induction lo bl hi rule: tile.induct)
  case (2 lo q s a bl hi)
  then show ?case using tile_mem by fastforce
qed simp

lemma tile_bounds:
  assumes "tile lo bl hi" and "b \<in> set bl" and "8 dvd lo"
  shows "lo \<le> fst b" and "fst b + fst (snd b) \<le> hi" and "16 \<le> fst (snd b)" and "8 dvd fst (snd b)" and "8 dvd fst b"
  using tile_mem [OF assms(1), of "fst b" "fst (snd b)" "snd (snd b)"] assms(2,3) by simp_all

section \<open>Words that stay\<close>

text \<open>The bytes that the list operations may write: the 24 heads, and the two links in each free
  block.\<close>

definition link_bytes :: "int \<Rightarrow> block list \<Rightarrow> int set" where
  "link_bytes sp bl = {a. sp \<le> a \<and> a < sp + 96} \<union> {a. \<exists>(q, s, al) \<in> set bl. \<not> al \<and> q \<le> a \<and> a < q + 8}"

section \<open>Doubly linked lists\<close>

text \<open>A list from its newest block to its oldest: the first word of a block points to the next
  older block, the second to the next newer one.\<close>

definition front :: "int list \<Rightarrow> int \<Rightarrow> int" where
  "front xs e = (case xs of [] \<Rightarrow> e | x # _ \<Rightarrow> x)"

definition rear :: "int \<Rightarrow> int list \<Rightarrow> int" where
  "rear nx xs = (if xs = [] then nx else last xs)"

lemma front_simps [simp]: "front [] e = e" "front (x # xs) e = x"
  "front (xs @ ys) e = front xs (front ys e)"
  by (simp_all add: front_def split: list.split)

lemma rear_simps [simp]: "rear nx [] = nx" "rear nx (xs @ [x]) = x" "rear nx (x # xs) = rear x xs"
  by (simp_all add: rear_def)

fun chain :: "memory \<Rightarrow> int \<Rightarrow> int list \<Rightarrow> int \<Rightarrow> bool" where
  "chain m nx [] e = True"
| "chain m nx (x # xs) e = (GET m (x + 4) = nx \<and> GET m x = front xs e \<and> chain m x xs e)"

lemma chain_append:
  "chain m nx (xs @ ys) e \<longleftrightarrow> chain m nx xs (front ys e) \<and> chain m (rear nx xs) ys e"
  by (induction m nx xs e rule: chain.induct) auto

lemma chain_cong:
  "(\<And>x. x \<in> set xs \<Longrightarrow> GET m' x = GET m x \<and> GET m' (x + 4) = GET m (x + 4)) \<Longrightarrow> chain m' nx xs e = chain m nx xs e"
  by (induction m nx xs e rule: chain.induct) auto

lemma four_aligned: "8 dvd (x :: int) \<Longrightarrow> 4 dvd x" "8 dvd (x :: int) \<Longrightarrow> 4 dvd x + 4"
  "8 dvd (x :: int) \<Longrightarrow> 8 dvd y \<Longrightarrow> x + 4 \<noteq> y"
  by presburger+

text \<open>Relinking: a list whose last block gets a new older neighbour, or whose first block gets a new
  newer one.\<close>

lemma chain_new_end:
  assumes "chain m nx xs e" and "distinct xs" and "xs \<noteq> []" and "\<forall>x \<in> set xs. 8 dvd x"
    and "0 \<le> e'" and "e' < 2 ^ 32"
  shows "chain (PUT m (rear nx xs) e') nx xs e'"
proof -
  obtain ys z where xs: "xs = ys @ [z]" using assms(3) by (metis rev_exhaust)
  have z: "8 dvd z" using assms(4) xs by simp
  have g: "GET (PUT m z e') q = (if q = z then e' else GET m q)" if "4 dvd q" for q
    by (rule GET_PUT_aligned [OF four_aligned(1) [OF z] that assms(5,6)])
  have "chain (PUT m z e') nx ys z = chain m nx ys z"
  proof (rule chain_cong)
    fix x assume x: "x \<in> set ys"
    then have "8 dvd x" "x \<noteq> z" using assms(2,4) xs by auto
    then show "GET (PUT m z e') x = GET m x \<and> GET (PUT m z e') (x + 4) = GET m (x + 4)"
      using g [of x] g [of "x + 4"] four_aligned [of x] z by simp
  qed
  moreover have "GET (PUT m z e') (z + 4) = GET m (z + 4)" using g [of "z + 4"] four_aligned [OF z] by simp
  ultimately show ?thesis using assms(1) g [of z] four_aligned(1) [OF z] xs by (simp add: chain_append)
qed

lemma chain_new_start:
  assumes "chain m nx (x # xs) e" and "distinct (x # xs)" and "\<forall>y \<in> set (x # xs). 8 dvd y"
    and "0 \<le> nx'" and "nx' < 2 ^ 32"
  shows "chain (PUT m (x + 4) nx') nx' (x # xs) e"
proof -
  have x: "8 dvd x" using assms(3) by simp
  have g: "GET (PUT m (x + 4) nx') q = (if q = x + 4 then nx' else GET m q)" if "4 dvd q" for q
    by (rule GET_PUT_aligned [OF four_aligned(2) [OF x] that assms(4,5)])
  have "chain (PUT m (x + 4) nx') x xs e = chain m x xs e"
  proof (rule chain_cong)
    fix y assume "y \<in> set xs"
    then have "8 dvd y" "y \<noteq> x" using assms(2,3) by auto
    then show "GET (PUT m (x + 4) nx') y = GET m y \<and> GET (PUT m (x + 4) nx') (y + 4) = GET m (y + 4)"
      using g [of y] g [of "y + 4"] four_aligned [of y] four_aligned(3) [OF x, of y] by simp
  qed
  moreover have "GET (PUT m (x + 4) nx') x = GET m x" using g [of x] four_aligned [OF x] by simp
  ultimately show ?thesis using assms(1) g [of "x + 4"] four_aligned [OF x] by simp
qed

section \<open>Representation\<close>

definition tags_ok :: "memory \<Rightarrow> block list \<Rightarrow> bool" where
  "tags_ok m bl \<longleftrightarrow> (\<forall>(q, s, a) \<in> set bl. GET m (q - 4) = tag s a \<and> GET m (q + s - 8) = tag s a)"

text \<open>The members of the list of class \<open>i\<close> are free blocks of that class.\<close>

definition lists_ok :: "memory \<Rightarrow> int \<Rightarrow> block list \<Rightarrow> (nat \<Rightarrow> int list) \<Rightarrow> bool" where
  "lists_ok m sp bl L \<longleftrightarrow> (\<forall>i < 24. GET m (sp + 4 * int i) = front (L i) 0 \<and> chain m 0 (L i) 0
     \<and> distinct (L i) \<and> (\<forall>q \<in> set (L i). \<exists>s. (q, s, False) \<in> set bl \<and> class_of s = i))"

text \<open>From the start: 24 heads, a word of padding, the prologue, the blocks and the epilogue. The
  word of padding is 0.\<close>

definition frame_ok :: "memory \<Rightarrow> int \<Rightarrow> int \<Rightarrow> bool" where
  "frame_ok m sp hi \<longleftrightarrow> 0 < sp \<and> 8 dvd sp \<and> hi - sp \<le> MAX_HEAP \<and> hi \<le> 2 ^ 32 \<and>
     GET m (sp + 96) = 0 \<and> GET m (sp + 100) = 9 \<and> GET m (sp + 104) = 9 \<and> GET m (hi - 4) = 1"

definition rep :: "memory \<Rightarrow> int \<Rightarrow> int \<Rightarrow> block list \<Rightarrow> (nat \<Rightarrow> int list) \<Rightarrow> bool" where
  "rep m sp hi bl L \<longleftrightarrow> frame_ok m sp hi \<and> tile (sp + 112) bl hi \<and> tags_ok m bl \<and> lists_ok m sp bl L"

lemma repD:
  assumes "rep m sp hi bl L"
  shows "frame_ok m sp hi" and "tile (sp + 112) bl hi" and "tags_ok m bl" and "lists_ok m sp bl L"
    and "0 < sp" and "8 dvd sp" and "hi - sp \<le> MAX_HEAP" and "hi \<le> 2 ^ 32"
  using assms by (simp_all add: rep_def frame_ok_def)

lemma MAX_HEAP_eq: "MAX_HEAP = 20971520"
  by (simp add: MAX_HEAP_def)

lemma rep_block:
  assumes r: "rep m sp hi bl L" and b: "(q, s, a) \<in> set bl"
  shows "sp + 112 \<le> q" and "q + s \<le> hi" and "16 \<le> s" and "8 dvd s" and "8 dvd q"
    and "s < 20971520" and "0 < q" and "q < 2 ^ 32"
    and "GET m (q - 4) = tag s a" and "GET m (q + s - 8) = tag s a"
    and "GET_BLK_SIZE m q = s" and "GET_ALLOC m (HDRP q) = of_bool a"
proof -
  note d = repD [OF r]
  have al: "8 dvd sp + 112" using d(6) by presburger
  note t = tile_mem [OF d(2) b]
  show "sp + 112 \<le> q" "q + s \<le> hi" "16 \<le> s" "8 dvd s" "8 dvd q" using t al by blast+
  then show "s < 20971520" "0 < q" "q < 2 ^ 32" using d(5,7,8) by (simp_all add: MAX_HEAP_eq)
  show g: "GET m (q - 4) = tag s a" "GET m (q + s - 8) = tag s a" using d(3) b by (auto simp: tags_ok_def)
  show "GET_BLK_SIZE m q = s" using g(1) size_tag [of s a] t
    unfolding GET_BLK_SIZE_def GET_SIZE_def HDRP_def WSIZE_def by simp
  show "GET_ALLOC m (HDRP q) = of_bool a" using g(1) alloc_tag [of s a] t
    unfolding GET_ALLOC_def HDRP_def WSIZE_def by simp
qed

lemma lists_okD:
  assumes "lists_ok m sp bl L" and "i < 24"
  shows "GET m (sp + 4 * int i) = front (L i) 0" and "chain m 0 (L i) 0" and "distinct (L i)"
    and "q \<in> set (L i) \<Longrightarrow> \<exists>s. (q, s, False) \<in> set bl \<and> class_of s = i"
  using assms unfolding lists_ok_def by blast+

lemma listed_once:
  assumes r: "rep m sp hi bl L" and "i < 24" and "j < 24" and "q \<in> set (L i)" and "q \<in> set (L j)"
  shows "i = j"
proof -
  obtain s t where "(q, s, False) \<in> set bl" "class_of s = i" "(q, t, False) \<in> set bl" "class_of t = j"
    using lists_okD(4) [OF repD(4) [OF r]] assms(2-5) by metis
  then show ?thesis using tile_same [OF repD(2) [OF r]] by blast
qed

text \<open>What a list operation leaves: it writes link bytes only.\<close>

lemma not_link_byte:
  assumes r: "rep m sp hi bl L" and b: "(q, s, a) \<in> set bl"
    and x: "q - 4 \<le> x" "x < q + s - 4" and n: "a \<or> x < q \<or> q + 8 \<le> x"
  shows "x \<notin> link_bytes sp bl"
proof
  assume "x \<in> link_bytes sp bl"
  moreover have "sp + 108 \<le> x" using rep_block(1) [OF r b] x by simp
  ultimately obtain p t where p: "(p, t, False) \<in> set bl" and px: "p \<le> x" "x < p + 8"
    unfolding link_bytes_def by auto
  then show False using tile_apart [OF repD(2) [OF r] p b] rep_block(3) [OF r p] x n by auto
qed

lemma not_link_layout:
  assumes r: "rep m sp hi bl L" and x: "sp + 96 \<le> x \<and> x < sp + 108 \<or> hi - 4 \<le> x"
  shows "x \<notin> link_bytes sp bl"
proof
  assume "x \<in> link_bytes sp bl"
  then consider "sp \<le> x" "x < sp + 96" | p t where "(p, t, False) \<in> set bl" "p \<le> x" "x < p + 8"
    unfolding link_bytes_def by auto
  then show False
  proof cases
    case 1
    then show ?thesis using x tile_le [OF repD(2) [OF r]] by simp
  next
    case (2 p t)
    then show ?thesis using x rep_block(1,2,3) [OF r 2(1)] by simp
  qed
qed

lemma rep_relink:
  assumes r: "rep m sp hi bl L" and same: "\<And>x. x \<notin> link_bytes sp bl \<Longrightarrow> m' x = m x"
    and l: "lists_ok m' sp bl L'"
  shows "rep m' sp hi bl L'"
proof -
  note d = repD [OF r]
  have w: "GET m' p = GET m p" if "sp + 96 \<le> p \<and> p + 4 \<le> sp + 108 \<or> hi - 4 \<le> p" for p
  proof (rule GET_cong, rule same)
    fix x assume "p \<le> x" "x < p + 4"
    then show "x \<notin> link_bytes sp bl" by (intro not_link_layout [OF r]) (use that in linarith)
  qed
  have f: "frame_ok m' sp hi" using d(1) w [of "sp + 96"] w [of "sp + 100"] w [of "sp + 104"] w [of "hi - 4"]
    by (simp add: frame_ok_def)
  have "tags_ok m' bl"
    unfolding tags_ok_def
  proof (intro ballI, clarify)
    fix q s a assume b: "(q, s, a) \<in> set bl"
    note t = rep_block [OF r b]
    have "GET m' (q - 4) = GET m (q - 4)"
      by (rule GET_cong, rule same, rule not_link_byte [OF r b]) (use t(3) in auto)
    moreover have "GET m' (q + s - 8) = GET m (q + s - 8)"
      by (rule GET_cong, rule same, rule not_link_byte [OF r b]) (use t(3) in auto)
    ultimately show "GET m' (q - 4) = tag s a \<and> GET m' (q + s - 8) = tag s a" using t(9,10) by simp
  qed
  then show ?thesis using f d(2) l by (simp add: rep_def)
qed

text \<open>Lists whose words stay.\<close>

lemma link_words:
  assumes r: "rep m sp hi bl L" and "(q, s, False) \<in> set bl" and "(q', s', False) \<in> set bl" and "i < 24" and "j < 24"
  shows "4 dvd q" and "4 dvd q + 4" and "4 dvd sp + 4 * int i"
    and "q + 4 \<noteq> q'" and "sp + 4 * int i \<noteq> q" and "sp + 4 * int i \<noteq> q + 4" and "sp + 4 * int i = sp + 4 * int j \<longleftrightarrow> i = j"
proof -
  note a = rep_block [OF r assms(2)] and b = rep_block [OF r assms(3)]
  show "4 dvd q" "4 dvd q + 4" "q + 4 \<noteq> q'" using four_aligned a(5) b(5) by blast+
  have "4 dvd sp" using four_aligned repD(6) [OF r] by blast
  then show "4 dvd sp + 4 * int i" by simp
  have "4 * int i < 96" using assms(4) by simp
  then show "sp + 4 * int i \<noteq> q" "sp + 4 * int i \<noteq> q + 4" using a(1) by linarith+
qed simp

lemma link_byte_block: "(q, s, False) \<in> set bl \<Longrightarrow> q \<le> x \<Longrightarrow> x < q + 8 \<Longrightarrow> x \<in> link_bytes sp bl"
  by (auto simp: link_bytes_def)

lemma link_byte_head: "i < 24 \<Longrightarrow> sp + 4 * int i \<le> x \<Longrightarrow> x < sp + 4 * int i + 4 \<Longrightarrow> x \<in> link_bytes sp bl"
  by (auto simp: link_bytes_def)

definition relinked :: "memory \<Rightarrow> memory \<Rightarrow> (int \<rightharpoonup> int) \<Rightarrow> bool" where
  "relinked m m' f \<longleftrightarrow> (\<forall>p. 4 dvd p \<longrightarrow> GET m' p = (case f p of None \<Rightarrow> GET m p | Some v \<Rightarrow> v))"

lemma relinked_PUT:
  assumes "relinked m m' f" and "4 dvd p" and "0 \<le> v" and "v < 2 ^ 32"
  shows "relinked m (PUT m' p v) (f(p \<mapsto> v))"
  using assms GET_PUT_aligned [OF assms(2) _ assms(3,4)] by (auto simp: relinked_def)

lemma relinked_refl: "relinked m m Map.empty"
  by (simp add: relinked_def)

lemma relinked_same: "relinked m m' f \<Longrightarrow> 4 dvd p \<Longrightarrow> p \<notin> dom f \<Longrightarrow> GET m' p = GET m p"
  by (auto simp: relinked_def dom_def split: option.splits)

lemma relinked_new: "relinked m m' f \<Longrightarrow> 4 dvd p \<Longrightarrow> f p = Some v \<Longrightarrow> GET m' p = v"
  by (auto simp: relinked_def)

text \<open>A list none of whose words is written.\<close>

lemma other_list:
  assumes r: "rep m sp hi bl L" and w: "relinked m m' f" and j: "j < 24"
    and head: "sp + 4 * int j \<notin> dom f"
    and links: "\<And>x t. x \<in> set (L j) \<Longrightarrow> (x, t, False) \<in> set bl \<Longrightarrow> x \<notin> dom f \<and> x + 4 \<notin> dom f"
  shows "GET m' (sp + 4 * int j) = front (L j) 0 \<and> chain m' 0 (L j) 0"
proof -
  note l = lists_okD [OF repD(4) [OF r] j]
  have "4 dvd sp + 4 * int j" using repD(6) [OF r] by presburger
  then have "GET m' (sp + 4 * int j) = GET m (sp + 4 * int j)" using relinked_same [OF w _ head] by blast
  moreover have "chain m' 0 (L j) 0 = chain m 0 (L j) 0"
  proof (rule chain_cong)
    fix x assume x: "x \<in> set (L j)"
    obtain t where t: "(x, t, False) \<in> set bl" using l(4) [OF x] by blast
    then have "4 dvd x" "4 dvd x + 4" using four_aligned rep_block(5) [OF r t] by blast+
    then show "GET m' x = GET m x \<and> GET m' (x + 4) = GET m (x + 4)"
      using relinked_same [OF w] links [OF x t] by blast
  qed
  ultimately show ?thesis using l(1,2) by simp
qed

lemma lists_ok_add:
  assumes r: "rep m sp hi bl L" and b: "(q, s, False) \<in> set bl" and fresh: "\<And>i. i < 24 \<Longrightarrow> q \<notin> set (L i)"
    and i: "i = class_of s" and c: "c = front (L i) 0"
    and w: "relinked m m' ((if c \<noteq> 0 then [c + 4 \<mapsto> q] else Map.empty)(q \<mapsto> c, q + 4 \<mapsto> 0, sp + 4 * int i \<mapsto> q))"
      (is "relinked m m' ?f")
  shows "lists_ok m' sp bl (L(i := q # L i))"
  unfolding lists_ok_def
proof (intro allI impI)
  fix j assume j: "j < (24 :: nat)"
  have i24: "i < 24" using i class_of_less by simp
  note l = lists_okD [OF repD(4) [OF r] i24]
  have cb: "\<exists>t. (c, t, False) \<in> set bl \<and> c \<in> set (L i)" if "c \<noteq> 0"
    using that l(4) [of c] c by (cases "L i") (auto simp: front_def)
  note lw = link_words [OF r b b i24 j]
  have dom: "dom ?f = {q, q + 4, sp + 4 * int i} \<union> (if c \<noteq> 0 then {c + 4} else {})" by auto
  show "GET m' (sp + 4 * int j) = front ((L(i := q # L i)) j) 0 \<and> chain m' 0 ((L(i := q # L i)) j) 0 \<and>
      distinct ((L(i := q # L i)) j) \<and> (\<forall>p \<in> set ((L(i := q # L i)) j). \<exists>s. (p, s, False) \<in> set bl \<and> class_of s = j)"
  proof (cases "j = i")
    case False
    have "GET m' (sp + 4 * int j) = front (L j) 0 \<and> chain m' 0 (L j) 0"
    proof (rule other_list [OF r w j])
      show "sp + 4 * int j \<notin> dom ?f"
        using False cb link_words(6) [OF r _ _ j j] link_words(5,6) [OF r b b j j] unfolding dom by auto
      fix x t assume x: "x \<in> set (L j)" and t: "(x, t, False) \<in> set bl"
      have "x \<noteq> q" using fresh [OF j] x by blast
      moreover have "x \<noteq> c" if "c \<noteq> 0" using listed_once [OF r j i24 x] cb [OF that] False by blast
      ultimately show "x \<notin> dom ?f \<and> x + 4 \<notin> dom ?f"
        using cb link_words(4) [OF r t b j j] link_words(4) [OF r b t j j] link_words(5,6) [OF r t t i24 i24]
          link_words(4) [OF r _ t j j] link_words(4) [OF r t _ j j] unfolding dom by (auto split: if_splits)
    qed
    then show ?thesis using False lists_okD(3,4) [OF repD(4) [OF r] j] by simp
  next
    case True
    have g: "GET m' q = c" "GET m' (q + 4) = 0" "GET m' (sp + 4 * int i) = q"
      using relinked_new [OF w, of q] relinked_new [OF w, of "q + 4"] relinked_new [OF w, of "sp + 4 * int i"]
        link_words [OF r b b i24 i24] by auto
    have "chain m' q (L i) 0"
    proof (cases "L i")
      case (Cons x xs)
      then have cx: "c = x" "c \<in> set (L i)" using c by simp_all
      obtain t where t: "(c, t, False) \<in> set bl" using l(4) cx(2) by blast
      have c0: "c \<noteq> 0" using rep_block(7) [OF r t] by simp
      have cq: "c \<noteq> q" using fresh [OF i24] cx by blast
      note lc = link_words [OF r t t i24 i24] link_words(4) [OF r t b i24 i24] link_words(4) [OF r b t i24 i24]
      have "GET m' (c + 4) = q" using relinked_new [OF w, of "c + 4"] lc c0 cq by (auto split: if_splits)
      moreover have "GET m' c = GET m c" using relinked_same [OF w lc(1)] lc cq unfolding dom by auto
      moreover have "chain m' c xs 0 = chain m c xs 0"
      proof (rule chain_cong)
        fix y assume y: "y \<in> set xs"
        then have yL: "y \<in> set (L i)" and yc: "y \<noteq> c" using Cons cx l(3) by auto
        obtain u where u: "(y, u, False) \<in> set bl" using l(4) yL by blast
        have yq: "y \<noteq> q" using fresh [OF i24] yL by blast
        note ly = link_words [OF r u u i24 i24] link_words(4) [OF r u b i24 i24] link_words(4) [OF r b u i24 i24]
          link_words(4) [OF r u t i24 i24] link_words(4) [OF r t u i24 i24]
        show "GET m' y = GET m y \<and> GET m' (y + 4) = GET m (y + 4)"
          using relinked_same [OF w ly(1)] relinked_same [OF w ly(2)] ly yc yq unfolding dom by auto
      qed
      ultimately show ?thesis using l(2) Cons cx by simp
    qed simp
    moreover have "front (L i) 0 = c" using c by simp
    ultimately show ?thesis using True g l(3,4) fresh [OF i24] b i by auto
  qed
qed

lemma lists_ok_remove:
  assumes r: "rep m sp hi bl L" and i24: "i < 24" and Li: "L i = xs @ q # ys"
    and m1: "m1 = PUT m (if xs = [] then sp + 4 * int i else rear 0 xs) (front ys 0)"
    and m2: "m2 = (if ys = [] then m1 else PUT m1 (front ys 0 + 4) (rear 0 xs))"
  shows "lists_ok m2 sp bl (L(i := xs @ ys))"
  unfolding lists_ok_def
proof (intro allI impI)
  note l = lists_okD [OF repD(4) [OF r] i24]
  define d where "d = (if xs = [] then sp + 4 * int i else rear 0 xs)"
  have mem: "\<exists>t. (x, t, False) \<in> set bl" if "x \<in> set (xs @ q # ys)" for x using l(4) that Li by metis
  obtain s where b: "(q, s, False) \<in> set bl" using mem by auto
  have al: "8 dvd x \<and> 0 < x \<and> x < 2 ^ 32" if "x \<in> set (xs @ q # ys)" for x
    using mem [OF that] rep_block(5,7,8) [OF r] by blast
  have nx: "rear 0 xs = 0 \<or> rear 0 xs \<in> set xs" by (auto simp: rear_def)
  have pv: "front ys 0 = 0 \<or> front ys 0 \<in> set ys" by (cases ys) auto
  have rng: "0 \<le> rear 0 xs" "rear 0 xs < 2 ^ 32" "0 \<le> front ys 0" "front ys 0 < 2 ^ 32"
    using nx pv al by fastforce+
  have d4: "4 dvd d" using al four_aligned(1) nx link_words(3) [OF r b b i24 i24] unfolding d_def rear_def by auto
  have dist: "distinct (xs @ ys)" "q \<notin> set xs" "q \<notin> set ys" using l(3) Li by auto
  have p4: "4 dvd front ys 0 + 4" if "ys \<noteq> []" using that al four_aligned(2) by (cases ys) auto
  have ch: "chain m 0 xs q" "chain m q ys 0" using l(2) Li by (simp_all add: chain_append)
  have w1: "relinked m m1 [d \<mapsto> front ys 0]"
    using relinked_PUT [OF relinked_refl d4 rng(3,4), of m] m1 d_def by simp
  have w2: "relinked m m2 (if ys = [] then [d \<mapsto> front ys 0] else [d \<mapsto> front ys 0, front ys 0 + 4 \<mapsto> rear 0 xs])"
    (is "relinked m m2 ?f") using w1 relinked_PUT [OF w1 p4 rng(1,2)] m2 by (cases "ys = []") simp_all
  have dom: "dom ?f = {d} \<union> (if ys = [] then {} else {front ys 0 + 4})" by auto
  have dcase: "d = sp + 4 * int i \<and> xs = [] \<or> d \<in> set xs \<and> xs \<noteq> []" by (auto simp: d_def rear_def)
  fix j assume j: "j < (24 :: nat)"
  show "GET m2 (sp + 4 * int j) = front ((L(i := xs @ ys)) j) 0 \<and> chain m2 0 ((L(i := xs @ ys)) j) 0 \<and>
      distinct ((L(i := xs @ ys)) j) \<and> (\<forall>p \<in> set ((L(i := xs @ ys)) j). \<exists>s. (p, s, False) \<in> set bl \<and> class_of s = j)"
  proof (cases "j = i")
    case False
    have "GET m2 (sp + 4 * int j) = front (L j) 0 \<and> chain m2 0 (L j) 0"
    proof (rule other_list [OF r w2 j])
      have "sp + 4 * int j \<noteq> x \<and> sp + 4 * int j \<noteq> x + 4" if "x \<in> set (xs @ q # ys)" for x
        using mem [OF that] link_words(5,6) [OF r _ _ j j] by blast
      then show "sp + 4 * int j \<notin> dom ?f" using False dcase pv al unfolding dom by (cases ys) auto
      fix x t assume x: "x \<in> set (L j)" and t: "(x, t, False) \<in> set bl"
      have "x \<notin> set (L i)" using listed_once [OF r j i24 x] False by blast
      moreover have "x + 4 \<noteq> y" "y + 4 \<noteq> x" if "y \<in> set (xs @ q # ys)" for y
        using mem [OF that] link_words(4) [OF r t _ j j] link_words(4) [OF r _ t j j] by blast+
      moreover have "x \<noteq> sp + 4 * int i" "x + 4 \<noteq> sp + 4 * int i" using link_words(5,6) [OF r t t i24 i24] by auto
      ultimately show "x \<notin> dom ?f \<and> x + 4 \<notin> dom ?f"
        using dcase Li unfolding dom by (cases ys) auto
    qed
    then show ?thesis using False lists_okD(3,4) [OF repD(4) [OF r] j] by simp
  next
    case True
    have notd: "x \<noteq> d \<and> x + 4 \<noteq> d" if xy: "x \<in> set ys" for x
    proof -
      obtain t where t: "(x, t, False) \<in> set bl" using mem [of x] xy by auto
      show ?thesis using dcase
      proof
        assume "d = sp + 4 * int i \<and> xs = []"
        then show ?thesis using link_words(5,6) [OF r t t i24 i24] by auto
      next
        assume dx: "d \<in> set xs \<and> xs \<noteq> []"
        then obtain u where "(d, u, False) \<in> set bl" using mem [of d] by auto
        then have "x + 4 \<noteq> d" using link_words(4) [OF r t _ i24 i24] by blast
        then show ?thesis using dx dist(1) xy by auto
      qed
    qed
    have c1: "chain m1 0 xs (front ys 0)"
    proof (cases "xs = []")
      case False
      then show ?thesis using chain_new_end [OF ch(1) _ False _ rng(3,4)] dist(1) al m1 by simp
    qed simp
    have c2: "chain m1 q ys 0"
    proof -
      have "chain m1 q ys 0 = chain m q ys 0"
      proof (rule chain_cong)
        fix x assume x: "x \<in> set ys"
        then have "8 dvd x" using al by simp
        then show "GET m1 x = GET m x \<and> GET m1 (x + 4) = GET m (x + 4)"
          using relinked_same [OF w1, of x] relinked_same [OF w1, of "x + 4"] notd [OF x] four_aligned [of x] by auto
      qed
      then show ?thesis using ch(2) by simp
    qed
    have c3: "chain m2 0 xs (front ys 0)"
    proof (cases ys)
      case (Cons y zs)
      have "chain m2 0 xs (front ys 0) = chain m1 0 xs (front ys 0)"
      proof (rule chain_cong)
        fix x assume x: "x \<in> set xs"
        obtain t u where t: "(x, t, False) \<in> set bl" "(y, u, False) \<in> set bl" using mem x Cons by (metis Un_iff list.set_intros set_append)
        have xy: "x \<noteq> y" using dist(1) x Cons by auto
        have "y + 4 \<noteq> x" by (rule link_words(4) [OF r t(2,1) i24 i24])
        then show "GET m2 x = GET m1 x \<and> GET m2 (x + 4) = GET m1 (x + 4)"
          using GET_PUT_aligned [OF _ _ rng(1,2)] link_words(1,2) [OF r t(1) t(1) i24 i24] link_words(2) [OF r t(2,2) i24 i24] xy
          unfolding m2 using Cons by simp
      qed
      then show ?thesis using c1 by simp
    qed (use c1 m2 in simp)
    have c4: "chain m2 (rear 0 xs) ys 0"
    proof (cases ys)
      case (Cons y zs)
      then show ?thesis using chain_new_start [of m1 q y zs 0 "rear 0 xs"] c2 dist(1) al rng(1,2) m2 by simp
    qed simp
    have hx: "sp + 4 * int i \<noteq> x \<and> sp + 4 * int i \<noteq> x + 4" if "x \<in> set (xs @ q # ys)" for x
      using mem [OF that] link_words(5,6) [OF r _ _ i24 i24] by blast
    have hy: "sp + 4 * int i \<noteq> front ys 0 + 4" if "ys \<noteq> []"
      using hx [of "front ys 0"] that by (cases ys) simp_all
    have "GET m2 (sp + 4 * int i) = front (xs @ ys) 0"
    proof (cases "xs = []")
      case True
      have "?f d = Some (front ys 0)" using hy True by (auto simp: d_def)
      then have "GET m2 d = front ys 0" by (rule relinked_new [OF w2 d4])
      then show ?thesis using True by (simp add: d_def)
    next
      case False
      then have "d \<in> set xs" using dcase by blast
      then have "sp + 4 * int i \<noteq> d" using hx [of d] by simp
      then have "sp + 4 * int i \<notin> dom ?f" using hy unfolding dom by auto
      then show ?thesis using relinked_same [OF w2 link_words(3) [OF r b b i24 i24]] l(1) Li False by (cases xs) simp_all
    qed
    then show ?thesis using True c3 c4 dist(1) l(4) Li by (simp add: chain_append)
  qed
qed

end
