(* ===== verification/Mm_Ops.thy ===== *)
theory Mm_Ops
  imports Mm_Heap
begin

text \<open>
  What the helper functions of the allocator do to a represented heap: insertion into and removal
  from the free lists, and the replacement of a stretch of blocks by another.
\<close>

section \<open>The heap and its free blocks\<close>

text \<open>\<open>F\<close> is the set of blocks in the free lists. Between two operations it is the set of all free
  blocks; inside an operation a free block may not be listed yet.\<close>

definition listed :: "(nat \<Rightarrow> int list) \<Rightarrow> int set" where
  "listed L = (\<Union>i \<in> {..<24}. set (L i))"

definition heap_rep :: "heap \<Rightarrow> block list \<Rightarrow> int set \<Rightarrow> bool" where
  "heap_rep h bl F \<longleftrightarrow> (\<exists>L. rep (mem h) (seg_list_ptr h) (mem_brk (sys h)) bl L \<and> F = listed L)
     \<and> heap_ptr h = seg_list_ptr h + 104 \<and> mem_start_brk (sys h) = seg_list_ptr h
     \<and> mem_max_addr (sys h) = seg_list_ptr h + MAX_HEAP \<and> seg_list_ptr h + MAX_HEAP \<le> 2 ^ 32"

definition writes :: "int set \<Rightarrow> heap \<Rightarrow> heap \<Rightarrow> bool" where
  "writes A h h' \<longleftrightarrow> (\<exists>m. h' = h\<lparr>mem := m\<rparr> \<and> (\<forall>x. x \<notin> A \<longrightarrow> m x = mem h x))"

lemma writes_refl: "writes A h h"
  by (auto simp: writes_def intro: exI [of _ "mem h"])

lemma writes_trans: "writes A h h' \<Longrightarrow> writes B h' h'' \<Longrightarrow> writes (A \<union> B) h h''"
  by (auto simp: writes_def)

lemma writes_mono: "writes A h h' \<Longrightarrow> A \<subseteq> B \<Longrightarrow> writes B h h'"
  by (auto simp: writes_def)

lemma writesD:
  assumes "writes A h h'"
  shows "sys h' = sys h" and "seg_list_ptr h' = seg_list_ptr h" and "heap_ptr h' = heap_ptr h"
    and "x \<notin> A \<Longrightarrow> mem h' x = mem h x" and "h' = h\<lparr>mem := mem h'\<rparr>"
  using assms by (auto simp: writes_def)

lemma writes_mem: "(\<And>x. x \<notin> A \<Longrightarrow> m x = mem h x) \<Longrightarrow> writes A h (h\<lparr>mem := m\<rparr>)"
  by (auto simp: writes_def)

lemma heap_repE:
  assumes "heap_rep h bl F"
  obtains L where "rep (mem h) (seg_list_ptr h) (mem_brk (sys h)) bl L" and "F = listed L"
  using assms by (auto simp: heap_rep_def)

lemma heap_rep_writes:
  assumes "heap_rep h bl F" and "writes A h h'"
    and "rep (mem h') (seg_list_ptr h) (mem_brk (sys h)) bl' L'"
  shows "heap_rep h' bl' (listed L')"
  using assms(1,3) writesD(1-3) [OF assms(2)] unfolding heap_rep_def by auto

lemma heap_block:
  assumes "heap_rep h bl F" and "(q, s, a) \<in> set bl"
  shows "seg_list_ptr h + 112 \<le> q" and "q + s \<le> mem_brk (sys h)" and "16 \<le> s" and "8 dvd s" and "8 dvd q"
    and "s < 20971520" and "0 < q" and "q < 2 ^ 32"
    and "GET (mem h) (q - 4) = tag s a" and "GET (mem h) (q + s - 8) = tag s a"
    and "GET_BLK_SIZE (mem h) q = s" and "GET_ALLOC (mem h) (HDRP q) = of_bool a"
  using assms(1) by (auto elim!: heap_repE dest: rep_block [OF _ assms(2)])

lemma heap_tile: "heap_rep h bl F \<Longrightarrow> tile (seg_list_ptr h + 112) bl (mem_brk (sys h))"
  by (auto elim!: heap_repE simp: rep_def)

lemma heap_listed:
  assumes "heap_rep h bl F" and "q \<in> F"
  shows "\<exists>s. (q, s, False) \<in> set bl"
proof -
  obtain L where r: "rep (mem h) (seg_list_ptr h) (mem_brk (sys h)) bl L" and F: "F = listed L"
    using assms(1) by (rule heap_repE)
  then obtain i where "i < 24" "q \<in> set (L i)" using assms(2) by (auto simp: listed_def)
  then show ?thesis using lists_okD(4) [OF repD(4) [OF r]] by blast
qed

section \<open>Insertion\<close>

lemma heap_add_seglist:
  assumes h: "heap_rep h bl F" and b: "(q, s, False) \<in> set bl" and fresh: "q \<notin> F"
  shows "\<exists>h'. add_seglist q s h = Some h' \<and> heap_rep h' bl (insert q F) \<and> writes (link_bytes (seg_list_ptr h) bl) h h'
    \<and> GET_SEG_LIST_PTR (mem h') (seg_list_ptr h) (class_of s) = q"
proof -
  obtain L where r: "rep (mem h) (seg_list_ptr h) (mem_brk (sys h)) bl L" and F: "F = listed L"
    using h by (rule heap_repE)
  define i where "i = class_of s"
  define c where "c = front (L i) 0"
  let ?m = "mem h" and ?sp = "seg_list_ptr h"
  have i24: "i < 24" by (simp add: i_def class_of_less)
  note t = rep_block [OF r b] and lw = link_words [OF r b b i24 i24]
  obtain sz where sz: "seg_class s = (i, sz)" "sz < 16"
    using seg_class_rest [of s] t(3,6) by (cases "seg_class s") (auto simp: i_def class_of_def)
  have head: "GET_SEG_LIST_PTR ?m ?sp i = c"
    using lists_okD(1) [OF repD(4) [OF r] i24] by (simp add: GET_SEG_LIST_PTR_def WSIZE_def c_def)
  have cb: "\<exists>u. (c, u, False) \<in> set bl" if "c \<noteq> 0"
    using that lists_okD(4) [OF repD(4) [OF r] i24, of c] by (cases "L i") (auto simp: c_def)
  have walk: "seg_walk ?m sz 0 c = Some (0, c)"
    using cb sz(2) rep_block(3,11) [OF r] by (subst seg_walk.simps) fastforce
  have fr: "q \<notin> set (L j)" if "j < 24" for j using fresh F that by (auto simp: listed_def)
  have q: "0 \<le> q" "q < 2 ^ 32" using t by simp_all
  define m' where "m' = (if c \<noteq> 0 then PUT (PUT (PUT (PUT ?m (c + 4) q) q c) (q + 4) 0) (?sp + 4 * int i) q
    else PUT (PUT (PUT ?m (q + 4) 0) q 0) (?sp + 4 * int i) q)"
  have add: "add_seglist q s h = Some (h\<lparr>mem := m'\<rparr>)"
    by (simp add: add_seglist_def sz(1) head walk m'_def SET_SEG_LIST_PTR_def WSIZE_def)
  have w: "relinked ?m m' ((if c \<noteq> 0 then [c + 4 \<mapsto> q] else Map.empty)(q \<mapsto> c, q + 4 \<mapsto> 0, ?sp + 4 * int i \<mapsto> q))"
  proof (cases "c = 0")
    case True
    have "relinked ?m m' (Map.empty(q + 4 \<mapsto> 0, q \<mapsto> 0, ?sp + 4 * int i \<mapsto> q))"
      using True q lw by (auto simp: m'_def intro!: relinked_PUT relinked_refl)
    moreover have "Map.empty(q + 4 \<mapsto> 0, q \<mapsto> 0) = Map.empty(q \<mapsto> 0, q + 4 \<mapsto> (0 :: int))" by (rule fun_upd_twist) simp
    ultimately show ?thesis using True by simp
  next
    case False
    then obtain u where u: "(c, u, False) \<in> set bl" using cb by blast
    show ?thesis using False q lw link_words(2) [OF r u u i24 i24] rep_block(7,8) [OF r u]
      by (auto simp: m'_def intro!: relinked_PUT relinked_refl)
  qed
  have lo: "lists_ok m' ?sp bl (L(i := q # L i))"
    by (rule lists_ok_add [OF r b fr i_def c_def w])
  have same: "m' x = ?m x" if x: "x \<notin> link_bytes ?sp bl" for x
  proof -
    have "x < q \<or> q + 8 \<le> x" using link_byte_block [OF b, of x] x by fastforce
    moreover have "x < ?sp + 4 * int i \<or> ?sp + 4 * int i + 4 \<le> x" using link_byte_head [OF i24, of ?sp x bl] x by fastforce
    moreover have "x < c \<or> c + 8 \<le> x" if "c \<noteq> 0" using cb [OF that] link_byte_block [of c _ bl x ?sp] x by fastforce
    ultimately show ?thesis by (auto simp: m'_def PUT_frame)
  qed
  have wr: "writes (link_bytes ?sp bl) h (h\<lparr>mem := m'\<rparr>)" by (rule writes_mem) (rule same)
  have "rep m' ?sp (mem_brk (sys h)) bl (L(i := q # L i))" by (rule rep_relink [OF r same lo])
  then have "heap_rep (h\<lparr>mem := m'\<rparr>) bl (listed (L(i := q # L i)))"
    by (intro heap_rep_writes [OF h wr]) simp
  moreover have "listed (L(i := q # L i)) = insert q F" using i24 F by (auto simp: listed_def split: if_splits)
  moreover have "GET_SEG_LIST_PTR m' ?sp i = q"
    using lists_okD(1) [OF lo i24] by (simp add: GET_SEG_LIST_PTR_def WSIZE_def)
  ultimately show ?thesis using add wr by (auto simp: i_def)
qed

section \<open>Removal\<close>

lemma heap_remove_seglist:
  assumes h: "heap_rep h bl F" and q: "q \<in> F"
  shows "heap_rep (remove_seglist q h) bl (F - {q})" and "writes (link_bytes (seg_list_ptr h) bl) h (remove_seglist q h)"
proof -
  obtain L where r: "rep (mem h) (seg_list_ptr h) (mem_brk (sys h)) bl L" and F: "F = listed L"
    using h by (rule heap_repE)
  let ?m = "mem h" and ?sp = "seg_list_ptr h"
  obtain i where i24: "i < 24" and qi: "q \<in> set (L i)" using q F by (auto simp: listed_def)
  note l = lists_okD [OF repD(4) [OF r] i24]
  obtain xs ys where Li: "L i = xs @ q # ys" using qi by (meson split_list)
  have mem: "\<exists>t. (x, t, False) \<in> set bl" if "x \<in> set (xs @ q # ys)" for x using l(4) that Li by metis
  obtain s where b: "(q, s, False) \<in> set bl" and s: "class_of s = i" using l(4) qi by blast
  have pos: "0 < x" if "x \<in> set (xs @ q # ys)" for x using mem [OF that] rep_block(7) [OF r] by blast
  have idx: "fst (seg_class (GET_BLK_SIZE ?m q)) = i" using rep_block(11) [OF r b] s by (simp add: class_of_def)
  have prev: "SEG_PREV_BLKP ?m q = front ys 0" and nxt: "SEG_NEXT_BLKP ?m q = rear 0 xs"
    using l(2) Li by (simp_all add: chain_append SEG_PREV_BLKP_def SEG_NEXT_BLKP_def WSIZE_def)
  have n0: "rear 0 xs = 0 \<longleftrightarrow> xs = []" using pos by (auto simp: rear_def) (metis UnI1 last_in_set less_irrefl set_append)
  have p0: "front ys 0 = 0 \<longleftrightarrow> ys = []" using pos by (cases ys) auto
  define m1 where "m1 = PUT ?m (if xs = [] then ?sp + 4 * int i else rear 0 xs) (front ys 0)"
  define m2 where "m2 = (if ys = [] then m1 else PUT m1 (front ys 0 + 4) (rear 0 xs))"
  have rm: "remove_seglist q h = h\<lparr>mem := m2\<rparr>"
  proof -
    have "front ys 0 = 0 \<or> front ys 0 \<in> set (xs @ q # ys)" by (cases ys) simp_all
    then have "front ys 0 = 0 \<or> (\<exists>t. (front ys 0, t, False) \<in> set bl)" using mem by blast
    then have f: "0 \<le> front ys 0" "front ys 0 < 2 ^ 32" using rep_block(7,8) [OF r] by fastforce+
    have "GET m1 (?sp + 4 * int i) = front ys 0" if "xs = []" using that GET_PUT_same [OF f] by (simp add: m1_def)
    then show ?thesis using idx n0 p0
      by (cases "xs = []"; cases "ys = []")
        (simp_all add: remove_seglist_def Let_def prev nxt case_prod_unfold m1_def m2_def SET_SEG_LIST_PTR_def
          GET_SEG_LIST_PTR_def WSIZE_def)
  qed
  have lo: "lists_ok m2 ?sp bl (L(i := xs @ ys))"
    by (rule lists_ok_remove [OF r i24 Li m1_def m2_def])
  have same: "m2 x = ?m x" if x: "x \<notin> link_bytes ?sp bl" for x
  proof -
    have bb: "x < y \<or> y + 8 \<le> x" if "y \<in> set (xs @ q # ys)" for y
      using mem [OF that] link_byte_block [of y _ bl x ?sp] x by fastforce
    have "x < ?sp + 4 * int i \<or> ?sp + 4 * int i + 4 \<le> x" using link_byte_head [OF i24, of ?sp x bl] x by fastforce
    moreover have "x < rear 0 xs \<or> rear 0 xs + 8 \<le> x" if "xs \<noteq> []" using bb [of "last xs"] that by (simp add: rear_def)
    ultimately have m1x: "m1 x = ?m x" by (auto simp: m1_def PUT_frame)
    have "x < front ys 0 \<or> front ys 0 + 8 \<le> x" if "ys \<noteq> []" using bb [of "hd ys"] that by (cases ys) simp_all
    then show ?thesis using m1x by (auto simp: m2_def PUT_frame)
  qed
  show wr: "writes (link_bytes ?sp bl) h (remove_seglist q h)" unfolding rm by (rule writes_mem) (rule same)
  have "rep m2 ?sp (mem_brk (sys h)) bl (L(i := xs @ ys))" by (rule rep_relink [OF r same lo])
  then have "heap_rep (remove_seglist q h) bl (listed (L(i := xs @ ys)))"
    by (intro heap_rep_writes [OF h wr]) (simp add: rm)
  moreover have "listed (L(i := xs @ ys)) = F - {q}"
  proof (intro set_eqI iffI)
    fix x assume "x \<in> listed (L(i := xs @ ys))"
    then obtain j where j: "j < 24" "x \<in> set ((L(i := xs @ ys)) j)" by (auto simp: listed_def)
    then have xj: "x \<in> set (L j)" using Li by (auto split: if_splits)
    then have "x \<in> F" using F j(1) by (auto simp: listed_def)
    moreover have "x \<noteq> q" using listed_once [OF r j(1) i24 xj] qi l(3) Li j(2) by (cases "j = i") auto
    ultimately show "x \<in> F - {q}" by simp
  next
    fix x assume "x \<in> F - {q}"
    then obtain j where "j < 24" "x \<in> set (L j)" "x \<noteq> q" using F by (auto simp: listed_def)
    then show "x \<in> listed (L(i := xs @ ys))" using Li by (auto simp: listed_def intro!: bexI [of _ j])
  qed
  ultimately show "heap_rep (remove_seglist q h) bl (F - {q})" by simp
qed

section \<open>Replacing blocks\<close>

lemma tile_unique: "tile lo xs mid \<Longrightarrow> tile lo xs mid' \<Longrightarrow> mid = mid'"
  by (induction lo xs mid rule: tile.induct) auto

lemma tile_mid: "tile lo (xs @ (q, s, a) # ys) hi \<longleftrightarrow> tile lo xs q \<and> 16 \<le> s \<and> 8 dvd s \<and> tile (q + s) ys hi"
  by (auto simp: tile_append)

lemma tile_last: "tile lo (xs @ [(q, s, a)]) hi \<longleftrightarrow> tile lo xs q \<and> 16 \<le> s \<and> 8 dvd s \<and> hi = q + s"
  by (auto simp: tile_append)

lemma GET_outside:
  assumes "\<And>x. x < p - 4 \<or> e - 4 \<le> x \<Longrightarrow> m' x = m x" and "q + 4 \<le> p - 4 \<or> e - 4 \<le> q"
  shows "GET m' q = GET m q"
  by (rule GET_cong) (use assms in auto)

text \<open>Blocks \<open>old\<close> between \<open>p\<close> and \<open>e\<close> are replaced by blocks \<open>new\<close>; none of them is listed, and
  nothing else is written.\<close>

lemma rep_replace:
  assumes r: "rep m sp hi (xs @ old @ ys) L" and p: "tile (sp + 112) xs p" and old: "tile p old e" and new: "tile p new e"
    and out: "\<And>x. x < p - 4 \<or> e - 4 \<le> x \<Longrightarrow> m' x = m x" and tg: "tags_ok m' new"
    and unl: "listed L \<inter> fst ` set old = {}"
  shows "rep m' sp hi (xs @ new @ ys) L"
proof -
  note d = repD [OF r]
  have same: "GET m' q = GET m q" if "q + 4 \<le> p - 4 \<or> e - 4 \<le> q" for q
    by (rule GET_outside [of p e m' m q, OF out that])
  have e: "tile e ys hi" using d(2) p old by (auto simp: tile_append dest: tile_unique)
  note le = tile_le [OF p] tile_le [OF old] tile_le [OF e]
  have tl: "tile (sp + 112) (xs @ new @ ys) hi" using p new e by (auto simp: tile_append)
  have fr: "frame_ok m' sp hi" using d(1) le same [of "sp + 96"] same [of "sp + 100"] same [of "sp + 104"] same [of "hi - 4"]
    by (simp add: frame_ok_def)
  have rest: "q + s \<le> p \<or> e \<le> q" if "(q, s, a) \<in> set xs \<union> set ys" for q s a
    using that tile_mem [OF p, of q s a] tile_mem [OF e, of q s a] by auto
  have tags: "tags_ok m' (xs @ new @ ys)"
    unfolding tags_ok_def
  proof (intro ballI, clarify)
    fix q s a assume "(q, s, a) \<in> set (xs @ new @ ys)"
    then consider "(q, s, a) \<in> set new" | "(q, s, a) \<in> set xs \<union> set ys" by auto
    then show "GET m' (q - 4) = tag s a \<and> GET m' (q + s - 8) = tag s a"
    proof cases
      case 1
      then show ?thesis using tg by (auto simp: tags_ok_def)
    next
      case 2
      then have b: "(q, s, a) \<in> set (xs @ old @ ys)" by auto
      show ?thesis using rest [OF 2] rep_block(3,9,10) [OF r b] same [of "q - 4"] same [of "q + s - 8"] by auto
    qed
  qed
  have lists: "lists_ok m' sp (xs @ new @ ys) L"
    unfolding lists_ok_def
  proof (intro allI impI)
    fix i assume i: "i < (24 :: nat)"
    note l = lists_okD [OF d(4) i]
    have mem: "\<exists>s. (x, s, False) \<in> set xs \<union> set ys \<and> class_of s = i" if "x \<in> set (L i)" for x
    proof -
      obtain s where s: "(x, s, False) \<in> set (xs @ old @ ys)" "class_of s = i" using l(4) \<open>x \<in> set (L i)\<close> by blast
      have "x \<in> listed L" using \<open>x \<in> set (L i)\<close> i by (auto simp: listed_def)
      then have "x \<notin> fst ` set old" using unl by blast
      then have "(x, s, False) \<notin> set old" by force
      then show ?thesis using s by auto
    qed
    have "4 * int i < 96" using i by simp
    then have "GET m' (sp + 4 * int i) = GET m (sp + 4 * int i)" by (intro same) (use le in linarith)
    moreover have "chain m' 0 (L i) 0 = chain m 0 (L i) 0"
    proof (rule chain_cong)
      fix x assume "x \<in> set (L i)"
      then obtain s where s: "(x, s, False) \<in> set xs \<union> set ys" using mem by blast
      then have "(x, s, False) \<in> set (xs @ old @ ys)" by auto
      note t = rep_block(3) [OF r this]
      show "GET m' x = GET m x \<and> GET m' (x + 4) = GET m (x + 4)"
        using rest [OF s] t same [of x] same [of "x + 4"] by auto
    qed
    ultimately show "GET m' (sp + 4 * int i) = front (L i) 0 \<and> chain m' 0 (L i) 0 \<and> distinct (L i) \<and>
        (\<forall>q \<in> set (L i). \<exists>s. (q, s, False) \<in> set (xs @ new @ ys) \<and> class_of s = i)"
      using l(1-3) mem by fastforce
  qed
  show ?thesis using fr tl tags lists by (simp add: rep_def)
qed

lemma heap_replace:
  assumes h: "heap_rep h (xs @ old @ ys) F" and p: "tile (seg_list_ptr h + 112) xs p" and old: "tile p old e"
    and new: "tile p new e" and tg: "tags_ok (mem h') new" and w: "writes {p - 4..<e - 4} h h'"
    and unl: "F \<inter> fst ` set old = {}"
  shows "heap_rep h' (xs @ new @ ys) F"
proof -
  obtain L where r: "rep (mem h) (seg_list_ptr h) (mem_brk (sys h)) (xs @ old @ ys) L" and F: "F = listed L"
    using h by (rule heap_repE)
  have "rep (mem h') (seg_list_ptr h) (mem_brk (sys h)) (xs @ new @ ys) L"
    by (rule rep_replace [OF r p old new _ tg]) (use writesD(4) [OF w] unl F in auto)
  then show ?thesis using heap_rep_writes [OF h w] F by simp
qed

section \<open>Tags and neighbours\<close>

lemma put_tags_tag:
  assumes "8 dvd s" and "8 \<le> s" and "s < 2 ^ 31"
  shows "GET (put_tags m q (tag s a)) (q - 4) = tag s a" and "GET (put_tags m q (tag s a)) (q + s - 8) = tag s a"
    and "x < q - 4 \<or> q \<le> x \<and> x < q + s - 8 \<or> q + s - 4 \<le> x \<Longrightarrow> put_tags m q (tag s a) x = m x"
proof -
  have t: "0 \<le> tag s a" "tag s a < 2 ^ 32" using tag_range [of s a] assms by auto
  have "FTRP (PUT m (q - 4) (tag s a)) q = q + s - 8"
    unfolding FTRP_def GET_SIZE_def HDRP_def WSIZE_def DSIZE_def GET_PUT_same [OF t] size_tag [OF assms(1)] ..
  then have pt: "put_tags m q (tag s a) = PUT (PUT m (q - 4) (tag s a)) (q + s - 8) (tag s a)"
    by (simp add: put_tags_def HDRP_def WSIZE_def)
  show "GET (put_tags m q (tag s a)) (q + s - 8) = tag s a" unfolding pt by (rule GET_PUT_same [OF t])
  show "GET (put_tags m q (tag s a)) (q - 4) = tag s a"
  proof (cases "s = 8 - 4")
    case False
    then have "q + s - 8 + 4 \<le> q - 4 \<or> q - 4 + 4 \<le> q + s - 8" using assms by linarith
    then show ?thesis unfolding pt using GET_PUT_other GET_PUT_same [OF t] by simp
  qed (use assms in simp)
  show "put_tags m q (tag s a) x = m x" if "x < q - 4 \<or> q \<le> x \<and> x < q + s - 8 \<or> q + s - 4 \<le> x"
    unfolding pt using that assms(2) by (auto simp: PUT_frame)
qed

definition prev_free :: "block list \<Rightarrow> bool" where
  "prev_free xs \<longleftrightarrow> xs \<noteq> [] \<and> \<not> snd (snd (last xs))"

definition next_free :: "block list \<Rightarrow> bool" where
  "next_free ys \<longleftrightarrow> ys \<noteq> [] \<and> \<not> snd (snd (hd ys))"

lemma neighbours:
  assumes h: "heap_rep h (xs @ (q, s, a) # ys) F"
  shows "NEXT_BLKP (mem h) q = q + s" and "GET_SIZE (mem h) (HDRP q) = s"
    and "GET_ALLOC (mem h) (HDRP (q + s)) = of_bool (\<not> next_free ys)"
    and "xs = zs @ [(q', s', a')] \<Longrightarrow> PREV_BLKP (mem h) q = q' \<and> q = q' + s'"
    and "GET_ALLOC (mem h) (HDRP (PREV_BLKP (mem h) q)) = of_bool (\<not> prev_free xs)"
proof -
  let ?m = "mem h" and ?sp = "seg_list_ptr h"
  obtain L where r: "rep ?m ?sp (mem_brk (sys h)) (xs @ (q, s, a) # ys) L" using h by (rule heap_repE)
  have b: "(q, s, a) \<in> set (xs @ (q, s, a) # ys)" by simp
  have t: "tile (?sp + 112) xs q" "tile (q + s) ys (mem_brk (sys h))" using heap_tile [OF h] by (simp_all add: tile_mid)
  show sz: "GET_SIZE ?m (HDRP q) = s" using heap_block(11) [OF h b] by (simp add: GET_BLK_SIZE_def)
  then show "NEXT_BLKP ?m q = q + s" by (simp add: NEXT_BLKP_def HDRP_def)
  note lay = repD(1) [OF r, unfolded frame_ok_def]
  show "GET_ALLOC ?m (HDRP (q + s)) = of_bool (\<not> next_free ys)"
  proof (cases ys)
    case Nil
    then have "q + s = mem_brk (sys h)" using t(2) by simp
    then show ?thesis using lay Nil by (simp add: GET_ALLOC_def HDRP_def WSIZE_def next_free_def)
  next
    case (Cons y zs)
    obtain q' s' a' where y: "y = (q', s', a')" by (cases y) auto
    then have "q' = q + s" using t(2) Cons by simp
    then show ?thesis using heap_block(12) [OF h, of q' s' a'] Cons y by (simp add: next_free_def)
  qed
  show pv: "PREV_BLKP ?m q = q' \<and> q = q' + s'" if xs: "xs = zs @ [(q', s', a')]" for zs q' s' a'
  proof -
    have e: "q = q' + s'" using t(1) xs by (simp add: tile_last)
    have b': "(q', s', a') \<in> set (xs @ (q, s, a) # ys)" using xs by simp
    show ?thesis using heap_block(10) [OF h b'] size_tag [OF heap_block(4) [OF h b']] e
      by (simp add: PREV_BLKP_def GET_SIZE_def DSIZE_def)
  qed
  show "GET_ALLOC ?m (HDRP (PREV_BLKP ?m q)) = of_bool (\<not> prev_free xs)"
  proof (cases xs rule: rev_cases)
    case Nil
    then have q: "q = ?sp + 112" using t(1) by simp
    have "q - 8 = ?sp + 104" using q by simp
    then have "GET ?m (q - 8) = tag 8 True" using lay by (simp only: tag_def) simp
    then have "PREV_BLKP ?m q = ?sp + 104" using size_tag [of 8 True] q by (simp add: PREV_BLKP_def GET_SIZE_def DSIZE_def)
    then have "HDRP (PREV_BLKP ?m q) = ?sp + 100" by (simp add: HDRP_def WSIZE_def)
    moreover have "GET ?m (?sp + 100) = tag 8 True" using lay by (simp only: tag_def) simp
    ultimately show ?thesis using alloc_tag [of 8 True] Nil by (simp add: GET_ALLOC_def prev_free_def)
  next
    case (snoc zs z)
    obtain q' s' a' where z: "z = (q', s', a')" by (cases z) auto
    then have "PREV_BLKP ?m q = q'" using pv snoc by blast
    then show ?thesis using heap_block(12) [OF h, of q' s' a'] snoc z by (simp add: prev_free_def)
  qed
qed

end
