(* ===== verification/Mm_Blocks.thy ===== *)
theory Mm_Blocks
  imports Mm_Ops
begin

text \<open>
  The block level of the allocator: searching, placing, merging and extending, each against an
  abstract operation on the list of blocks.
\<close>

section \<open>Free and allocated blocks\<close>

definition frees :: "block list \<Rightarrow> int set" where
  "frees bl = {q. \<exists>s. (q, s, False) \<in> set bl}"

definition taken :: "block list \<Rightarrow> (int \<times> int) set" where
  "taken bl = {(q, s). (q, s, True) \<in> set bl}"

lemma frees_simps [simp]: "frees [] = {}" "frees ((q, s, a) # bl) = (if a then {} else {q}) \<union> frees bl"
  "frees (xs @ ys) = frees xs \<union> frees ys"
  by (auto simp: frees_def)

lemma taken_simps [simp]: "taken [] = {}" "taken ((q, s, a) # bl) = (if a then {(q, s)} else {}) \<union> taken bl"
  "taken (xs @ ys) = taken xs \<union> taken ys"
  by (auto simp: taken_def)

text \<open>The payloads \<open>T\<close> keep their contents.\<close>

definition kept :: "(int \<times> int) set \<Rightarrow> heap \<Rightarrow> heap \<Rightarrow> bool" where
  "kept T h h' \<longleftrightarrow> seg_list_ptr h' = seg_list_ptr h \<and> mem_brk (sys h) \<le> mem_brk (sys h')
     \<and> (\<forall>(p, t) \<in> T. \<forall>x. p \<le> x \<and> x < p + t - 8 \<longrightarrow> mem h' x = mem h x)"

lemma kept_refl: "kept T h h"
  by (simp add: kept_def)

lemma kept_trans: "kept T h h' \<Longrightarrow> kept T h' h'' \<Longrightarrow> kept T h h''"
  unfolding kept_def by (auto split: prod.splits)

lemma kept_mono: "kept T h h' \<Longrightarrow> T' \<subseteq> T \<Longrightarrow> kept T' h h'"
  unfolding kept_def by blast

lemma kept_links:
  assumes h: "heap_rep h bl F" and w: "writes (link_bytes (seg_list_ptr h) bl) h h'"
  shows "kept (taken bl) h h'"
proof -
  obtain L where r: "rep (mem h) (seg_list_ptr h) (mem_brk (sys h)) bl L" using h by (rule heap_repE)
  have "mem h' x = mem h x" if b: "(p, t, True) \<in> set bl" and x: "p \<le> x" "x < p + t - 8" for p t x
    using not_link_byte [OF r b, of x] x writesD(4) [OF w, of x] by simp
  then show ?thesis using writesD(1,2) [OF w] by (auto simp: kept_def taken_def)
qed

lemma kept_tags:
  assumes h: "heap_rep h (xs @ old @ ys) F" and p: "tile (seg_list_ptr h + 112) xs p" and old: "tile p old e"
    and w: "writes {p - 4..<e - 4} h h'"
  shows "kept (taken (xs @ ys)) h h'"
proof -
  have e: "tile e ys (mem_brk (sys h))" using heap_tile [OF h] p old by (auto simp: tile_append dest: tile_unique)
  have "mem h' x = mem h x" if b: "(q, t, True) \<in> set xs \<union> set ys" and x: "q \<le> x" "x < q + t - 8" for q t x
    using b tile_mem [OF p, of q t True] tile_mem [OF e, of q t True] tile_le [OF old] x by (intro writesD(4) [OF w]) auto
  then show ?thesis using writesD(1,2) [OF w] by (auto simp: kept_def taken_def)
qed

lemma add_kept:
  assumes "heap_rep h bl F" and "(q, s, False) \<in> set bl" and "q \<notin> F"
  obtains h' where "add_seglist q s h = Some h'" and "heap_rep h' bl (insert q F)" and "kept (taken bl) h h'" and "sys h' = sys h"
  using heap_add_seglist [OF assms] kept_links [OF assms(1)] writesD(1) by blast

lemma remove_kept:
  assumes "heap_rep h bl F" and "q \<in> F"
  shows "heap_rep (remove_seglist q h) bl (F - {q})" and "kept (taken bl) h (remove_seglist q h)"
    and "seg_list_ptr (remove_seglist q h) = seg_list_ptr h"
  using heap_remove_seglist [OF assms] kept_links [OF assms(1)] writesD(2) by blast+

text \<open>One block between others gives way to blocks of the same extent.\<close>

lemma replace_kept:
  assumes h: "heap_rep h (xs @ old @ ys) F" and p: "tile (seg_list_ptr h + 112) xs p" and old: "tile p old e"
    and new: "tile p new e" and tg: "tags_ok m new" and out: "\<And>x. x < p - 4 \<or> e - 4 \<le> x \<Longrightarrow> m x = mem h x"
    and unl: "F \<inter> fst ` set old = {}"
  shows "heap_rep (h\<lparr>mem := m\<rparr>) (xs @ new @ ys) F" and "kept (taken (xs @ ys)) h (h\<lparr>mem := m\<rparr>)"
proof -
  have w: "writes {p - 4..<e - 4} h (h\<lparr>mem := m\<rparr>)" by (rule writes_mem) (use out in auto)
  show "heap_rep (h\<lparr>mem := m\<rparr>) (xs @ new @ ys) F" by (rule heap_replace [OF h p old new _ w unl]) (simp add: tg)
  show "kept (taken (xs @ ys)) h (h\<lparr>mem := m\<rparr>)" by (rule kept_tags [OF h p old w])
qed

section \<open>Searching\<close>

lemma fit_scan_chain:
  assumes "chain m nx xs 0" and "\<forall>x \<in> set xs. x \<noteq> 0"
  shows "fit_scan m n (front xs 0) = Some (front (filter (\<lambda>x. n \<le> GET_BLK_SIZE m x) xs) 0)"
  using assms
proof (induction xs arbitrary: nx)
  case Nil
  then show ?case by (simp add: fit_scan.simps [of m n 0])
next
  case (Cons x xs)
  then have "SEG_PREV_BLKP m x = front xs 0" by (simp add: SEG_PREV_BLKP_def)
  then show ?case using Cons.prems Cons.IH [of x] by (simp add: fit_scan.simps [of m n x])
qed

lemma scan_class:
  assumes h: "heap_rep h bl F" and i: "i < 24"
  obtains c where "GET_SEG_LIST_PTR (mem h) (seg_list_ptr h) i = c" and "c = 0 \<longleftrightarrow> \<not> (\<exists>q s. q \<in> F \<and> (q, s, False) \<in> set bl \<and> class_of s = i)"
    and "\<exists>r. fit_scan (mem h) n c = Some r \<and> (r \<noteq> 0 \<longrightarrow> r \<in> F \<and> (\<exists>s. (r, s, False) \<in> set bl \<and> n \<le> s)) \<and>
      (r = 0 \<longrightarrow> \<not> (\<exists>q s. q \<in> F \<and> (q, s, False) \<in> set bl \<and> class_of s = i \<and> n \<le> s))"
proof -
  obtain L where r: "rep (mem h) (seg_list_ptr h) (mem_brk (sys h)) bl L" and F: "F = listed L"
    using h by (rule heap_repE)
  note l = lists_okD [OF repD(4) [OF r] i]
  have inL: "q \<in> set (L i)" if q: "q \<in> F" "(q, s, False) \<in> set bl" "class_of s = i" for q s
  proof -
    obtain j where j: "j < 24" "q \<in> set (L j)" using q(1) F by (auto simp: listed_def)
    obtain t where "(q, t, False) \<in> set bl" "class_of t = j" using lists_okD(4) [OF repD(4) [OF r] j(1) j(2)] by blast
    then show ?thesis using tile_same [OF repD(2) [OF r] q(2)] q(3) j by blast
  qed
  have bl: "\<exists>s. (x, s, False) \<in> set bl \<and> class_of s = i \<and> GET_BLK_SIZE (mem h) x = s \<and> x \<in> F \<and> x \<noteq> 0"
    if x: "x \<in> set (L i)" for x
  proof -
    obtain s where s: "(x, s, False) \<in> set bl" "class_of s = i" using l(4) x by blast
    then show ?thesis using rep_block(7,11) [OF r s(1)] x i F by (auto simp: listed_def)
  qed
  show ?thesis
  proof (rule that [of "front (L i) 0"])
    show "GET_SEG_LIST_PTR (mem h) (seg_list_ptr h) i = front (L i) 0"
      using l(1) by (simp add: GET_SEG_LIST_PTR_def WSIZE_def)
    have "front (L i) 0 = 0 \<longleftrightarrow> L i = []" using bl by (cases "L i") auto
    then show "front (L i) 0 = 0 \<longleftrightarrow> \<not> (\<exists>q s. q \<in> F \<and> (q, s, False) \<in> set bl \<and> class_of s = i)"
      using inL bl by (cases "L i") fastforce+
    let ?f = "filter (\<lambda>x. n \<le> GET_BLK_SIZE (mem h) x) (L i)"
    have scan: "fit_scan (mem h) n (front (L i) 0) = Some (front ?f 0)"
      by (rule fit_scan_chain [OF l(2)]) (use bl in blast)
    have f: "x \<in> set ?f \<longleftrightarrow> x \<in> set (L i) \<and> n \<le> GET_BLK_SIZE (mem h) x" for x by auto
    have "front ?f 0 \<noteq> 0 \<Longrightarrow> front ?f 0 \<in> set ?f" by (cases ?f) simp_all
    moreover have "front ?f 0 = 0 \<Longrightarrow> ?f = []"
      using bl by (cases ?f) (simp, metis f front_simps(2) list.set_intros(1))
    ultimately show "\<exists>r. fit_scan (mem h) n (front (L i) 0) = Some r \<and> (r \<noteq> 0 \<longrightarrow> r \<in> F \<and> (\<exists>s. (r, s, False) \<in> set bl \<and> n \<le> s)) \<and>
      (r = 0 \<longrightarrow> \<not> (\<exists>q s. q \<in> F \<and> (q, s, False) \<in> set bl \<and> class_of s = i \<and> n \<le> s))"
      unfolding scan using bl inL f rep_block(11) [OF r] by (metis list.set_intros(1) empty_iff list.set(1))
  qed
qed

lemma class_loop_div:
  assumes "0 \<le> s"
  shows "\<exists>j \<le> n. class_loop n i s = (i + j, s div 2 ^ j) \<and> (s div 2 ^ j \<le> 1 \<or> j = n)"
  using assms
proof (induction n i s rule: class_loop.induct)
  case (2 n i s)
  show ?case
  proof (cases "s \<le> 1")
    case False
    then obtain j where "j \<le> n" "class_loop n (Suc i) (s div 2) = (Suc i + j, s div 2 div 2 ^ j)"
      "s div 2 div 2 ^ j \<le> 1 \<or> j = n" using 2 by auto
    moreover have "s div 2 div 2 ^ j = s div 2 ^ Suc j" using zdiv_zmult2_eq [of "2 ^ j" s 2] by (simp add: mult.commute)
    ultimately show ?thesis using False by (intro exI [of _ "Suc j"]) simp
  qed (auto intro!: exI [of _ 0])
qed simp

lemma class_of_div:
  assumes "0 \<le> s"
  shows "s div 2 ^ class_of s \<le> 1 \<or> class_of s = 23"
  using class_loop_div [OF assms, of 23 0] by (auto simp: class_of_def seg_class_def SEG_SIZE_def)

lemma heap_find_fit:
  assumes h: "heap_rep h bl F" and n: "0 \<le> n"
  shows "\<exists>r. find_fit (mem h) (seg_list_ptr h) n (n div 2 ^ i) i = Some r
     \<and> (r \<noteq> 0 \<longrightarrow> r \<in> F \<and> (\<exists>s. (r, s, False) \<in> set bl \<and> n \<le> s))
     \<and> (r = 0 \<and> n < 2 ^ 24 \<longrightarrow> \<not> (\<exists>q s. q \<in> F \<and> (q, s, False) \<in> set bl \<and> n \<le> s \<and> i \<le> class_of s))"
proof (induction "25 - i" arbitrary: i)
  case 0
  then have i: "25 \<le> i" by simp
  have "\<not> i \<le> class_of s" for s using class_of_less [of s] i by simp
  moreover have "find_fit (mem h) (seg_list_ptr h) n (n div 2 ^ i) i = Some 0"
    using i by (subst find_fit.simps) (simp add: SEG_SIZE_def)
  ultimately show ?case by simp
next
  case (Suc k)
  let ?m = "mem h" and ?sp = "seg_list_ptr h"
  have dd: "n div 2 ^ i div 2 = n div 2 ^ Suc i" using zdiv_zmult2_eq [of 2 n "2 ^ i"] by (simp add: mult.commute)
  have i24: "i \<le> 24" and k: "k = 25 - Suc i" using Suc.hyps(2) by auto
  obtain r where r: "find_fit ?m ?sp n (n div 2 ^ Suc i) (Suc i) = Some r"
    "r \<noteq> 0 \<longrightarrow> r \<in> F \<and> (\<exists>s. (r, s, False) \<in> set bl \<and> n \<le> s)"
    "r = 0 \<and> n < 2 ^ 24 \<longrightarrow> \<not> (\<exists>q s. q \<in> F \<and> (q, s, False) \<in> set bl \<and> n \<le> s \<and> Suc i \<le> class_of s)"
    using Suc.hyps(1) [OF k] by blast
  have step: "find_fit ?m ?sp n (n div 2 ^ i) i =
      (if n div 2 ^ i \<le> 1 \<and> GET_SEG_LIST_PTR ?m ?sp i \<noteq> 0
       then (case fit_scan ?m n (GET_SEG_LIST_PTR ?m ?sp i) of None \<Rightarrow> None | Some p \<Rightarrow> if p \<noteq> 0 then Some p else Some r)
       else Some r)"
    using i24 r(1) by (subst find_fit.simps) (simp add: SEG_SIZE_def dd Let_def split: option.split)
  show ?case
  proof (cases "i = 24")
    case True
    obtain L where rp: "rep ?m ?sp (mem_brk (sys h)) bl L" using h by (rule heap_repE)
    have "GET_SEG_LIST_PTR ?m ?sp i = 0"
      using repD(1) [OF rp] True by (simp add: frame_ok_def GET_SEG_LIST_PTR_def WSIZE_def)
    then have "find_fit ?m ?sp n (n div 2 ^ i) i = Some r" using step by simp
    moreover have "\<not> 24 \<le> class_of s" for s using class_of_less [of s] by simp
    ultimately show ?thesis using r True by blast
  next
    case False
    then have "i < 24" using i24 by simp
    from scan_class [OF h this, where n = n] obtain c where c: "GET_SEG_LIST_PTR ?m ?sp i = c"
      "c = 0 \<longleftrightarrow> \<not> (\<exists>q s. q \<in> F \<and> (q, s, False) \<in> set bl \<and> class_of s = i)"
      "\<exists>p. fit_scan ?m n c = Some p \<and> (p \<noteq> 0 \<longrightarrow> p \<in> F \<and> (\<exists>s. (p, s, False) \<in> set bl \<and> n \<le> s)) \<and>
        (p = 0 \<longrightarrow> \<not> (\<exists>q s. q \<in> F \<and> (q, s, False) \<in> set bl \<and> class_of s = i \<and> n \<le> s))"
      by blast
    obtain p where p: "fit_scan ?m n c = Some p" "p \<noteq> 0 \<longrightarrow> p \<in> F \<and> (\<exists>s. (p, s, False) \<in> set bl \<and> n \<le> s)"
      "p = 0 \<longrightarrow> \<not> (\<exists>q s. q \<in> F \<and> (q, s, False) \<in> set bl \<and> class_of s = i \<and> n \<le> s)" using c(3) by blast
    have visit: "n div 2 ^ i \<le> 1" if "class_of s = i" "n \<le> s" "n < 2 ^ 24" for s
    proof -
      have "n div 2 ^ i \<le> s div 2 ^ i" using that by (intro zdiv_mono1) simp_all
      moreover have "n div 2 ^ 23 \<le> 1" using that(3) by simp
      moreover have "0 \<le> s" using n that by simp
      ultimately show ?thesis using class_of_div [of s] that(1) by fastforce
    qed
    have none: "\<not> (\<exists>q s. q \<in> F \<and> (q, s, False) \<in> set bl \<and> n \<le> s \<and> i \<le> class_of s)"
      if "r = 0" "n < 2 ^ 24" "\<not> (\<exists>q s. q \<in> F \<and> (q, s, False) \<in> set bl \<and> class_of s = i \<and> n \<le> s)"
      using r(3) that by (metis Suc_leI le_neq_implies_less)
    show ?thesis
    proof (cases "n div 2 ^ i \<le> 1 \<and> c \<noteq> 0 \<and> p \<noteq> 0")
      case True
      then show ?thesis using step c(1) p by simp
    next
      case False
      then have e: "find_fit ?m ?sp n (n div 2 ^ i) i = Some r" using step c(1) p(1) by auto
      have "\<not> (\<exists>q s. q \<in> F \<and> (q, s, False) \<in> set bl \<and> class_of s = i \<and> n \<le> s)" if "n < 2 ^ 24"
        using False visit [OF _ _ that] c(2) p(3) by blast
      then show ?thesis using e r(2) none by blast
    qed
  qed
qed

section \<open>Placing\<close>

lemma tags_ok_Cons: "tags_ok m ((q, s, a) # bl) \<longleftrightarrow> GET m (q - 4) = tag s a \<and> GET m (q + s - 8) = tag s a \<and> tags_ok m bl"
  by (auto simp: tags_ok_def)

lemma tags_ok_Nil: "tags_ok m []"
  by (simp add: tags_ok_def)

lemma one_block_tags:
  assumes "8 dvd s" and "16 \<le> s" and "s < 2 ^ 31"
  shows "tags_ok (put_tags m q (tag s a)) [(q, s, a)]"
    and "x < q - 4 \<or> q + s - 4 \<le> x \<Longrightarrow> put_tags m q (tag s a) x = m x"
  using put_tags_tag [where s = s and m = m and q = q and a = a] assms by (auto simp: tags_ok_Cons tags_ok_Nil)

text \<open>A block cut in two: the second is found with the new header of the first.\<close>

lemma two_block_tags:
  assumes s: "8 dvd s" "16 \<le> s" "s < 2 ^ 31" and t: "8 dvd t" "16 \<le> t" "t < 2 ^ 31"
    and m1: "m1 = put_tags m q (tag s a)" and m2: "m2 = put_tags m1 (q + s) (tag t b)"
  shows "NEXT_BLKP m1 q = q + s" and "tags_ok m2 [(q, s, a), (q + s, t, b)]"
    and "x < q - 4 \<or> q + (s + t) - 4 \<le> x \<Longrightarrow> m2 x = m x"
proof -
  note p1 = put_tags_tag [where s = s and m = m and q = q and a = a]
    and p2 = put_tags_tag [where s = t and m = m1 and q = "q + s" and a = b]
  have h: "GET m1 (q - 4) = tag s a" "GET m1 (q + s - 8) = tag s a" unfolding m1 by (rule p1; use s in linarith)+
  then show "NEXT_BLKP m1 q = q + s" using size_tag [OF s(1)] by (simp add: NEXT_BLKP_def GET_SIZE_def WSIZE_def)
  have "GET m2 p = GET m1 p" if "p + 4 \<le> q + s - 4" for p
    by (rule GET_cong, unfold m2, rule p2(3)) (use t that in auto)
  then show "tags_ok m2 [(q, s, a), (q + s, t, b)]"
    using h p2(1,2) s t m2 by (simp add: tags_ok_Cons tags_ok_Nil)
  show "m2 x = m x" if "x < q - 4 \<or> q + (s + t) - 4 \<le> x"
  proof -
    have "m2 x = m1 x" unfolding m2 by (rule p2(3)) (use that s t in auto)
    also have "m1 x = m x" unfolding m1 by (rule p1(3)) (use that s t in auto)
    finally show ?thesis .
  qed
qed

text \<open>A free block of size \<open>s\<close> with a request of size \<open>n\<close>: used whole, or cut in front or
  behind.\<close>

definition placed :: "int \<Rightarrow> int \<Rightarrow> int \<Rightarrow> block list" where
  "placed q s n = (if s - n < 16 then [(q, s, True)]
     else if 200 < n then [(q, n, True), (q + n, s - n, False)]
     else [(q, s - n, False), (q + (s - n), n, True)])"

definition placed_at :: "int \<Rightarrow> int \<Rightarrow> int \<Rightarrow> int" where
  "placed_at q s n = (if 16 \<le> s - n \<and> n \<le> 200 then q + (s - n) else q)"

lemma heap_place:
  assumes h: "heap_rep h (xs @ (q, s, False) # ys) F" and q: "q \<in> F" and n: "16 \<le> n" "n \<le> s" "8 dvd n"
  obtains h' where "place q n h = Some (placed_at q s n, h')"
    and "heap_rep h' (xs @ placed q s n @ ys) (F - {q} \<union> frees (placed q s n))" and "kept (taken (xs @ ys)) h h'"
proof -
  let ?sp = "seg_list_ptr h"
  define h1 where "h1 = remove_seglist q h"
  have b: "(q, s, False) \<in> set (xs @ (q, s, False) # ys)" by simp
  note t = heap_block [OF h b]
  have r1: "heap_rep h1 (xs @ [(q, s, False)] @ ys) (F - {q})" and k1: "kept (taken (xs @ ys)) h h1" and sp: "seg_list_ptr h1 = ?sp"
    using remove_kept [OF h q] by (simp_all add: h1_def)
  have tx: "tile (?sp + 112) xs q" and old: "tile q [(q, s, False)] (q + s)" using heap_tile [OF h] t by (simp_all add: tile_mid)
  have pad: "u32 (s - n) = s - n" using n t by (simp add: u32_def)
  have csize: "GET_BLK_SIZE (mem h) q = s" by (rule t(11))
  have pl: "place q n h =
      (if s - n < 16 then Some (q, h1\<lparr>mem := put_tags (mem h1) q (PACK s 1)\<rparr>)
      else if n > 200
      then (let m = put_tags (mem h1) q (PACK n 1); nbp = NEXT_BLKP m q; m = put_tags m nbp (PACK (s - n) 0)
            in map_option (\<lambda>h. (q, h)) (add_seglist nbp (s - n) (h1\<lparr>mem := m\<rparr>)))
      else (let m = put_tags (mem h1) q (PACK (s - n) 0); nbp = NEXT_BLKP m q; m = put_tags m nbp (PACK n 1)
            in map_option (\<lambda>h. (nbp, h)) (add_seglist q (s - n) (h1\<lparr>mem := m\<rparr>))))"
    by (simp add: place_def csize pad h1_def DSIZE_def MINSIZE_def Let_def)
  have unl: "(F - {q}) \<inter> fst ` set [(q, s, False)] = {}" by simp
  have d: "8 dvd s - n" using t(4) n(3) by presburger
  note tags = PACK_tag [OF t(4)] PACK_tag [OF n(3)] PACK_tag [OF d]
  consider (whole) "s - n < 16" | (front) "\<not> s - n < 16" "n > 200" | (rear) "\<not> s - n < 16" "\<not> n > 200" by blast
  then show ?thesis
  proof cases
    case whole
    let ?m = "put_tags (mem h1) q (tag s True)"
    have s: "8 dvd s" "16 \<le> s" "s < 2 ^ 31" using t by simp_all
    have new: "tile q [(q, s, True)] (q + s)" using t by simp
    have "heap_rep (h1\<lparr>mem := ?m\<rparr>) (xs @ [(q, s, True)] @ ys) (F - {q})" "kept (taken (xs @ ys)) h1 (h1\<lparr>mem := ?m\<rparr>)"
      using replace_kept [OF r1 _ old new one_block_tags(1) [OF s] one_block_tags(2) [OF s] unl] tx sp by simp_all
    then show ?thesis using whole that [of "h1\<lparr>mem := ?m\<rparr>"] pl tags kept_trans [OF k1] by (simp add: placed_def placed_at_def)
  next
    case front
    define m1 where "m1 = put_tags (mem h1) q (tag n True)"
    define m2 where "m2 = put_tags m1 (q + n) (tag (s - n) False)"
    have s: "16 \<le> s - n" "s - n < 2 ^ 31" "n < 2 ^ 31" "n + (s - n) = s" using front n t by simp_all
    note tt = two_block_tags [OF n(3,1) s(3) d s(1,2) m1_def m2_def]
    have new: "tile q [(q, n, True), (q + n, s - n, False)] (q + s)" using front n d by simp
    let ?h2 = "h1\<lparr>mem := m2\<rparr>" and ?bl = "xs @ [(q, n, True), (q + n, s - n, False)] @ ys"
    have r2: "heap_rep ?h2 ?bl (F - {q})"
      and k2: "kept (taken (xs @ ys)) h1 ?h2"
      using replace_kept [OF r1 _ old new tt(2) _ unl] tt(3) tx sp s(4) by simp_all
    have b2: "(q + n, s - n, False) \<in> set ?bl" by simp
    have fresh: "q + n \<notin> F - {q}"
    proof
      assume "q + n \<in> F - {q}"
      then obtain u where "(q + n, u, False) \<in> set (xs @ (q, s, False) # ys)" using heap_listed [OF h] by blast
      then show False using tile_apart [OF heap_tile [OF h] _ b, of "q + n" u False] heap_block(3) [OF h] n(1) front by fastforce
    qed
    obtain h3 where h3: "add_seglist (q + n) (s - n) ?h2 = Some h3" "heap_rep h3 ?bl (insert (q + n) (F - {q}))"
      "kept (taken ?bl) ?h2 h3" using add_kept [OF r2 b2 fresh] by metis
    have "place q n h = Some (q, h3)" using pl front tags tt(1) h3(1) by (simp add: m1_def m2_def Let_def)
    moreover have "kept (taken (xs @ ys)) h h3"
      by (rule kept_trans [OF k1 kept_trans [OF k2 kept_mono [OF h3(3)]]]) auto
    ultimately show ?thesis using that [of h3] front h3(2) by (simp add: placed_def placed_at_def)
  next
    case rear
    define m1 where "m1 = put_tags (mem h1) q (tag (s - n) False)"
    define m2 where "m2 = put_tags m1 (q + (s - n)) (tag n True)"
    have s: "16 \<le> s - n" "s - n < 2 ^ 31" "n < 2 ^ 31" "s - n + n = s" using rear n t by simp_all
    note tt = two_block_tags [OF d s(1,2) n(3,1) s(3) m1_def m2_def]
    have new: "tile q [(q, s - n, False), (q + (s - n), n, True)] (q + s)" using rear n d by simp
    let ?h2 = "h1\<lparr>mem := m2\<rparr>" and ?bl = "xs @ [(q, s - n, False), (q + (s - n), n, True)] @ ys"
    have r2: "heap_rep ?h2 ?bl (F - {q})"
      and k2: "kept (taken (xs @ ys)) h1 ?h2"
      using replace_kept [OF r1 _ old new tt(2) _ unl] tt(3) tx sp s(4) by simp_all
    have b2: "(q, s - n, False) \<in> set ?bl" by simp
    obtain h3 where h3: "add_seglist q (s - n) ?h2 = Some h3" "heap_rep h3 ?bl (insert q (F - {q}))"
      "kept (taken ?bl) ?h2 h3" using add_kept [OF r2 b2, of thesis] by simp
    have "place q n h = Some (q + (s - n), h3)" using pl rear tags tt(1) h3(1) by (simp add: m1_def m2_def Let_def)
    moreover have "kept (taken (xs @ ys)) h h3"
      by (rule kept_trans [OF k1 kept_trans [OF k2 kept_mono [OF h3(3)]]]) auto
    ultimately show ?thesis using that [of h3] rear h3(2) by (simp add: placed_def placed_at_def)
  qed
qed

section \<open>Merging\<close>

definition merge_prev :: "block list \<Rightarrow> int \<Rightarrow> int \<Rightarrow> block list \<times> int \<times> int" where
  "merge_prev xs q s = (if prev_free xs then (butlast xs, fst (last xs), fst (snd (last xs)) + s) else (xs, q, s))"

definition merge_next :: "int \<Rightarrow> block list \<Rightarrow> int \<times> block list" where
  "merge_next s ys = (if next_free ys then (s + fst (snd (hd ys)), tl ys) else (s, ys))"

definition merged :: "block list \<Rightarrow> int \<Rightarrow> int \<Rightarrow> block list \<Rightarrow> int \<times> block list" where
  "merged xs q s ys = (case merge_prev xs q s of (xs', p, t) \<Rightarrow> case merge_next t ys of (u, ys') \<Rightarrow>
     (p, xs' @ (p, u, False) # ys'))"

lemma prev_freeE:
  assumes "prev_free xs"
  obtains zs q s where "xs = zs @ [(q, s, False)]"
  using assms by (cases xs rule: rev_cases) (auto simp: prev_free_def)

lemma next_freeE:
  assumes "next_free ys"
  obtains zs q s where "ys = (q, s, False) # zs"
  using assms by (cases ys) (auto simp: next_free_def)

lemma frees_fst: "frees bl \<subseteq> fst ` set bl"
  by (force simp: frees_def)

lemma put_both:
  assumes "8 dvd u" and "16 \<le> u" and "u < 2 ^ 31"
    and ab: "a = p - 4 \<and> b = p + u - 8 \<or> a = p + u - 8 \<and> b = p - 4"
  shows "tags_ok (PUT (PUT m a (tag u False)) b (tag u False)) [(p, u, False)]"
    and "x < p - 4 \<or> p + u - 4 \<le> x \<Longrightarrow> PUT (PUT m a (tag u False)) b (tag u False) x = m x"
proof -
  let ?m = "PUT (PUT m a (tag u False)) b (tag u False)"
  have t: "0 \<le> tag u False" "tag u False < 2 ^ 32" using tag_range [of u False] assms by auto
  have "GET ?m b = tag u False" by (rule GET_PUT_same [OF t])
  moreover have "GET ?m a = GET (PUT m a (tag u False)) a" using ab assms(2) by (intro GET_PUT_other) auto
  then have "GET ?m a = tag u False" using GET_PUT_same [OF t] by simp
  ultimately show "tags_ok ?m [(p, u, False)]" using ab by (auto simp: tags_ok_Cons tags_ok_Nil)
  show "?m x = m x" if "x < p - 4 \<or> p + u - 4 \<le> x" using that ab assms(2) by (auto simp: PUT_frame)
qed

text \<open>The free blocks \<open>old\<close> become one; \<open>m\<close> is the memory after the writing of its tags.\<close>

lemma finish_merge:
  assumes h: "heap_rep h (xs @ old @ ys) F" and p: "tile (seg_list_ptr h + 112) xs p" and old: "tile p old (p + u)"
    and u: "8 dvd u" "16 \<le> u" and tg: "tags_ok m [(p, u, False)]" and out: "\<And>x. x < p - 4 \<or> p + u - 4 \<le> x \<Longrightarrow> m x = mem h x"
    and F: "F = frees (xs @ ys)" and "old \<noteq> []"
  obtains h' where "add_seglist p u (h\<lparr>mem := m\<rparr>) = Some h'" and "heap_rep h' (xs @ (p, u, False) # ys) (frees (xs @ (p, u, False) # ys))"
    and "kept (taken (xs @ ys)) h h'"
proof -
  have d: "distinct (map fst (xs @ old @ ys))" by (rule tile_distinct [OF heap_tile [OF h]])
  have "fst ` set (xs @ ys) \<inter> fst ` set old = {}" using d by (simp only: map_append distinct_append set_append set_map image_Un) blast
  then have unl: "F \<inter> fst ` set old = {}" using frees_fst [of "xs @ ys"] unfolding F by blast
  have new: "tile p [(p, u, False)] (p + u)" using u by simp
  note r = replace_kept [OF h p old new tg out unl]
  have "p \<in> fst ` set old" using old \<open>old \<noteq> []\<close> by (cases old) auto
  then have fresh: "p \<notin> F" using unl by blast
  obtain h' where h': "add_seglist p u (h\<lparr>mem := m\<rparr>) = Some h'" "heap_rep h' (xs @ [(p, u, False)] @ ys) (insert p F)"
    "kept (taken (xs @ [(p, u, False)] @ ys)) (h\<lparr>mem := m\<rparr>) h'"
    using add_kept [OF r(1), of p u] fresh by (metis append.assoc append_Cons in_set_conv_decomp)
  show ?thesis
  proof (rule that [OF h'(1)])
    show "heap_rep h' (xs @ (p, u, False) # ys) (frees (xs @ (p, u, False) # ys))" using h'(2) F by simp
    show "kept (taken (xs @ ys)) h h'" by (rule kept_trans [OF r(2) kept_mono [OF h'(3)]]) auto
  qed
qed

lemma heap_coalesce:
  assumes h: "heap_rep h (xs @ (q, s, False) # ys) (frees (xs @ (q, s, False) # ys))"
  obtains h' where "coalesce q h = Some (fst (merged xs q s ys), h')"
    and "heap_rep h' (snd (merged xs q s ys)) (frees (snd (merged xs q s ys)))" and "kept (taken (xs @ ys)) h h'"
proof -
  let ?bl = "xs @ (q, s, False) # ys" and ?sp = "seg_list_ptr h"
  note nb = neighbours [OF h]
  have b: "(q, s, False) \<in> set ?bl" by simp
  note t = heap_block [OF h b]
  have tl: "tile (?sp + 112) xs q" "tile (q + s) ys (mem_brk (sys h))" using heap_tile [OF h] by (simp_all add: tile_mid)
  have d: "distinct (map fst ?bl)" by (rule tile_distinct [OF heap_tile [OF h]])
  define h1 where "h1 = remove_seglist q h"
  have qF: "q \<in> frees ?bl" by simp
  have r1: "heap_rep h1 ?bl (frees (xs @ ys))" and k1: "kept (taken (xs @ ys)) h h1" and sp1: "seg_list_ptr h1 = ?sp"
  proof -
    have "frees ?bl - {q} = frees (xs @ ys)" using d frees_fst [of xs] frees_fst [of ys] by auto
    then show "heap_rep h1 ?bl (frees (xs @ ys))" using remove_kept(1) [OF h qF] by (simp add: h1_def)
    show "kept (taken (xs @ ys)) h h1" "seg_list_ptr h1 = ?sp" using remove_kept(2,3) [OF h qF] by (simp_all add: h1_def)
  qed
  note nb1 = neighbours [OF r1]
  consider (both) "\<not> prev_free xs" "\<not> next_free ys" | (nxt) "\<not> prev_free xs" "next_free ys"
    | (prv) "prev_free xs" "\<not> next_free ys" | (all) "prev_free xs" "next_free ys" by blast
  then show ?thesis
  proof cases
    case both
    then have "coalesce q h = Some (q, h)" using nb(1,3,5) by (simp add: coalesce_def Let_def)
    then show ?thesis using that [of h] both h kept_refl by (simp add: merged_def merge_prev_def merge_next_def)
  next
    case nxt
    obtain zs q2 s2 where ys: "ys = (q2, s2, False) # zs" using nxt(2) by (rule next_freeE)
    have q2: "q2 = q + s" using tl(2) ys by simp
    have b2: "(q2, s2, False) \<in> set ?bl" using ys by simp
    note t2 = heap_block [OF h b2]
    define h2 where "h2 = remove_seglist q2 h1"
    have F2: "q2 \<in> frees (xs @ ys)" using ys by simp
    have "frees (xs @ ys) - {q2} = frees (xs @ zs)" using d frees_fst [of xs] frees_fst [of zs] ys by auto
    then have r2: "heap_rep h2 (xs @ [(q, s, False), (q2, s2, False)] @ zs) (frees (xs @ zs))"
      and k2: "kept (taken (xs @ zs)) h1 h2" and sp2: "seg_list_ptr h2 = ?sp"
      using remove_kept [OF r1 F2] ys sp1 by (simp_all add: h2_def)
    have u: "8 dvd s + s2" "16 \<le> s + s2" "s + s2 < 2 ^ 31" using t(3,4,6) t2(3,4,6) by simp_all
    have sz2: "GET_SIZE (mem h1) (HDRP q2) = s2" using heap_block(11) [OF r1 b2] by (simp add: GET_BLK_SIZE_def)
    let ?m = "put_tags (mem h2) q (tag (s + s2) False)"
    have c: "coalesce q h = map_option (\<lambda>h. (q, h)) (add_seglist q (s + s2) (h2\<lparr>mem := ?m\<rparr>))"
      using nxt nb(1-3,5) nb1(1) q2 sz2 PACK_tag(1) [OF u(1)] h1_def h2_def by (simp add: coalesce_def Let_def)
    obtain h3 where h3: "add_seglist q (s + s2) (h2\<lparr>mem := ?m\<rparr>) = Some h3"
      "heap_rep h3 (xs @ (q, s + s2, False) # zs) (frees (xs @ (q, s + s2, False) # zs))" "kept (taken (xs @ zs)) h2 h3"
      by (rule finish_merge [OF r2 _ _ u(1,2) one_block_tags(1) [OF u] one_block_tags(2) [OF u] refl])
        (use tl sp2 t t2 q2 in auto)
    have "kept (taken (xs @ ys)) h h3"
      by (rule kept_trans [OF k1 kept_mono [OF kept_trans [OF k2 h3(3)]]]) (use ys in auto)
    then show ?thesis using that [of h3] c h3(1,2) nxt ys by (simp add: merged_def merge_prev_def merge_next_def)
  next
    case prv
    obtain zs q0 s0 where xs: "xs = zs @ [(q0, s0, False)]" using prv(1) by (rule prev_freeE)
    have q0: "q = q0 + s0" "tile (?sp + 112) zs q0" using tl(1) xs by (simp_all add: tile_last)
    have b0: "(q0, s0, False) \<in> set ?bl" using xs by simp
    note t0 = heap_block [OF h b0]
    define h2 where "h2 = remove_seglist q0 h1"
    have F2: "q0 \<in> frees (xs @ ys)" using xs by simp
    have "frees (xs @ ys) - {q0} = frees (zs @ ys)" using d frees_fst [of zs] frees_fst [of ys] xs by auto
    then have r2: "heap_rep h2 (zs @ [(q0, s0, False), (q, s, False)] @ ys) (frees (zs @ ys))"
      and r2': "heap_rep h2 ?bl (frees (zs @ ys))"
      and k2: "kept (taken (zs @ ys)) h1 h2" and sp2: "seg_list_ptr h2 = ?sp"
      using remove_kept [OF r1 F2] xs sp1 by (simp_all add: h2_def)
    note nb2 = neighbours [OF r2']
    have pv: "PREV_BLKP (mem h1) q = q0" "PREV_BLKP (mem h2) q = q0" using nb1(4) nb2(4) xs by blast+
    have u: "8 dvd s + s0" "16 \<le> s + s0" "s + s0 < 2 ^ 31" using t(3,4,6) t0(3,4,6) by simp_all
    have sz0: "GET_SIZE (mem h2) (HDRP q0) = s0" using heap_block(11) [OF r2' b0] by (simp add: GET_BLK_SIZE_def)
    have ft: "FTRP (mem h2) q = q + s - 8" using nb2(2) by (simp add: FTRP_def DSIZE_def)
    let ?m1 = "PUT (mem h2) (q + s - 8) (tag (s + s0) False)"
    let ?m = "PUT ?m1 (q0 - 4) (tag (s + s0) False)"
    have "GET ?m1 (q - 8) = GET (mem h2) (q - 8)" "GET ?m (q - 8) = GET ?m1 (q - 8)"
      by (rule GET_PUT_other; use t(3) t0(3) q0 in simp)+
    then have pm: "PREV_BLKP ?m1 q = q0" "PREV_BLKP ?m q = q0" using pv(2) by (simp_all add: PREV_BLKP_def GET_SIZE_def DSIZE_def)
    have c: "coalesce q h = map_option (\<lambda>h. (q0, h)) (add_seglist q0 (s + s0) (h2\<lparr>mem := ?m\<rparr>))"
      using prv nb(1-3,5) pv sz0 ft pm PACK_tag(1) [OF u(1)] h1_def h2_def
      by (simp add: coalesce_def Let_def HDRP_def WSIZE_def)
    have ab: "q + s - 8 = q0 - 4 \<and> q0 - 4 = q0 + (s + s0) - 8 \<or> q + s - 8 = q0 + (s + s0) - 8 \<and> q0 - 4 = q0 - 4"
      using q0 by simp
    obtain h3 where h3: "add_seglist q0 (s + s0) (h2\<lparr>mem := ?m\<rparr>) = Some h3"
      "heap_rep h3 (zs @ (q0, s + s0, False) # ys) (frees (zs @ (q0, s + s0, False) # ys))" "kept (taken (zs @ ys)) h2 h3"
      by (rule finish_merge [OF r2 _ _ u(1,2) put_both(1) [OF u ab] put_both(2) [OF u ab] refl])
        (use tl sp2 t t0 q0 in auto)
    have "kept (taken (xs @ ys)) h h3"
      by (rule kept_trans [OF k1 kept_mono [OF kept_trans [OF k2 h3(3)]]]) (use xs in auto)
    then show ?thesis using that [of h3] c h3(1,2) prv xs by (simp add: merged_def merge_prev_def merge_next_def add.commute)
  next
    case all
    obtain zs q0 s0 where xs: "xs = zs @ [(q0, s0, False)]" using all(1) by (rule prev_freeE)
    obtain ws q2 s2 where ys: "ys = (q2, s2, False) # ws" using all(2) by (rule next_freeE)
    have q0: "q = q0 + s0" "tile (?sp + 112) zs q0" using tl(1) xs by (simp_all add: tile_last)
    have q2: "q2 = q + s" using tl(2) ys by simp
    have b0: "(q0, s0, False) \<in> set ?bl" and b2: "(q2, s2, False) \<in> set ?bl" using xs ys by simp_all
    note t0 = heap_block [OF h b0] and t2 = heap_block [OF h b2]
    define h2 where "h2 = remove_seglist q0 h1"
    have F2: "q0 \<in> frees (xs @ ys)" using xs by simp
    have "frees (xs @ ys) - {q0} = frees (zs @ ys)" using d frees_fst [of zs] frees_fst [of ys] xs by auto
    then have r2: "heap_rep h2 ?bl (frees (zs @ ys))" and k2: "kept (taken (zs @ ys)) h1 h2" and sp2: "seg_list_ptr h2 = ?sp"
      using remove_kept [OF r1 F2] xs sp1 by (simp_all add: h2_def)
    define h3 where "h3 = remove_seglist q2 h2"
    have F3: "q2 \<in> frees (zs @ ys)" using ys by simp
    have "frees (zs @ ys) - {q2} = frees (zs @ ws)" using d frees_fst [of zs] frees_fst [of ws] xs ys by auto
    then have r3: "heap_rep h3 (zs @ [(q0, s0, False), (q, s, False), (q2, s2, False)] @ ws) (frees (zs @ ws))"
      and r3': "heap_rep h3 ?bl (frees (zs @ ws))"
      and k3: "kept (taken (zs @ ws)) h2 h3" and sp3: "seg_list_ptr h3 = ?sp"
      using remove_kept [OF r2 F3] xs ys sp2 by (simp_all add: h3_def)
    note nb2 = neighbours [OF r2] and nb3 = neighbours [OF r3']
    have pv: "PREV_BLKP (mem h1) q = q0" "PREV_BLKP (mem h3) q = q0" using nb1(4) nb3(4) xs by blast+
    have u: "8 dvd s + (s0 + s2)" "16 \<le> s + (s0 + s2)" "s + (s0 + s2) < 2 ^ 31"
      using t(3,4,6) t0(3,4,6) t2(3,4,6) by simp_all
    have sz0: "GET_SIZE (mem h1) (HDRP q0) = s0" using heap_block(11) [OF r1 b0] by (simp add: GET_BLK_SIZE_def)
    have szn: "GET_SIZE (mem h1) (HDRP q2) = s2" using heap_block(11) [OF r1 b2] by (simp add: GET_BLK_SIZE_def)
    have "FTRP (mem h1) q2 = q2 + s2 - 8" using szn by (simp add: FTRP_def DSIZE_def)
    then have sz2: "GET_SIZE (mem h1) (FTRP (mem h1) q2) = s2"
      using heap_block(10) [OF r1 b2] size_tag [OF t2(4), of False] by (simp add: GET_SIZE_def)
    let ?v = "tag (s + (s0 + s2)) False"
    let ?m1 = "PUT (mem h3) (q0 - 4) ?v"
    let ?m = "PUT ?m1 (q2 + s2 - 8) ?v"
    have "GET ?m1 (q - 8) = GET (mem h3) (q - 8)" "GET ?m (q - 8) = GET ?m1 (q - 8)"
      "GET ?m1 (q - 4) = GET (mem h3) (q - 4)" "GET ?m1 (q2 - 4) = GET (mem h3) (q2 - 4)"
      by (rule GET_PUT_other; use t(3) t0(3) t2(3) q0 q2 in simp)+
    then have pm: "PREV_BLKP ?m q = q0" "NEXT_BLKP ?m1 q = q2" "FTRP ?m1 q2 = q2 + s2 - 8"
      using pv(2) nb3(1) heap_block(11) [OF r3' b2] q2
      by (simp_all add: PREV_BLKP_def NEXT_BLKP_def FTRP_def GET_SIZE_def GET_BLK_SIZE_def DSIZE_def HDRP_def WSIZE_def)
    have c: "coalesce q h = map_option (\<lambda>h. (q0, h)) (add_seglist q0 (s + (s0 + s2)) (h3\<lparr>mem := ?m\<rparr>))"
      using all nb(1-3,5) nb1(1) nb2(1) nb3(1) q2 pv sz0 sz2 pm PACK_tag(1) [OF u(1)] h1_def h2_def h3_def
      by (simp add: coalesce_def Let_def HDRP_def WSIZE_def)
    have ab: "q0 - 4 = q0 - 4 \<and> q2 + s2 - 8 = q0 + (s + (s0 + s2)) - 8 \<or>
        q0 - 4 = q0 + (s + (s0 + s2)) - 8 \<and> q2 + s2 - 8 = q0 - 4"
      using q0 q2 by simp
    obtain h4 where h4: "add_seglist q0 (s + (s0 + s2)) (h3\<lparr>mem := ?m\<rparr>) = Some h4"
      "heap_rep h4 (zs @ (q0, s + (s0 + s2), False) # ws) (frees (zs @ (q0, s + (s0 + s2), False) # ws))" "kept (taken (zs @ ws)) h3 h4"
      by (rule finish_merge [OF r3 _ _ u(1,2) put_both(1) [OF u ab] put_both(2) [OF u ab] refl])
        (use tl sp3 t t0 t2 q0 q2 in auto)
    have "kept (taken (xs @ ys)) h h4"
      by (rule kept_trans [OF k1 kept_mono [OF kept_trans [OF k2 kept_mono [OF kept_trans [OF k3 h4(3)]]]]])
        (use xs ys in auto)
    then show ?thesis using that [of h4] c h4(1,2) all xs ys
      by (simp add: merged_def merge_prev_def merge_next_def add.commute add.left_commute)
  qed
qed

end
