(* ===== verification/Mm_Correct.thy ===== *)
theory Mm_Correct
  imports Mm_Blocks
begin

text \<open>
  The interface of the allocator: \<open>mm_init\<close>, \<open>mm_malloc\<close> and \<open>mm_free\<close> refine operations on an
  abstract list of blocks, and what follows for the caller.
\<close>

section \<open>Growing the heap\<close>

lemma rep_grow:
  assumes r: "rep m sp hi bl L" and sz: "8 dvd sz" "16 \<le> sz" and top: "hi + sz - sp \<le> MAX_HEAP" "hi + sz \<le> 2 ^ 32"
    and out: "\<And>x. x < hi - 4 \<Longrightarrow> m' x = m x"
    and tg: "tags_ok m' [(hi, sz, False)]" and ep: "GET m' (hi + sz - 4) = 1"
  shows "rep m' sp (hi + sz) (bl @ [(hi, sz, False)]) L"
proof -
  note d = repD [OF r]
  have le: "sp + 112 \<le> hi" by (rule tile_le [OF d(2)])
  have same: "GET m' q = GET m q" if "q + 4 \<le> hi - 4" for q by (rule GET_cong, rule out) (use that in auto)
  have fr: "frame_ok m' sp (hi + sz)" using d(1) le ep top same [of "sp + 96"] same [of "sp + 100"] same [of "sp + 104"]
    by (simp add: frame_ok_def)
  have tl: "tile (sp + 112) (bl @ [(hi, sz, False)]) (hi + sz)" using d(2) sz by (simp add: tile_last)
  have tags: "tags_ok m' (bl @ [(hi, sz, False)])"
    unfolding tags_ok_def
  proof (intro ballI, clarify)
    fix q s a assume "(q, s, a) \<in> set (bl @ [(hi, sz, False)])"
    then consider "(q, s, a) \<in> set bl" | "(q, s, a) \<in> set [(hi, sz, False)]" by auto
    then show "GET m' (q - 4) = tag s a \<and> GET m' (q + s - 8) = tag s a"
    proof cases
      case 1
      then show ?thesis using rep_block(2,3,9,10) [OF r 1] same [of "q - 4"] same [of "q + s - 8"] by auto
    next
      case 2
      then show ?thesis using tg by (auto simp: tags_ok_def)
    qed
  qed
  have lists: "lists_ok m' sp (bl @ [(hi, sz, False)]) L"
    unfolding lists_ok_def
  proof (intro allI impI)
    fix i assume i: "i < (24 :: nat)"
    note l = lists_okD [OF d(4) i]
    have "4 * int i < 96" using i by simp
    then have "GET m' (sp + 4 * int i) = GET m (sp + 4 * int i)" by (intro same) (use le in linarith)
    moreover have "chain m' 0 (L i) 0 = chain m 0 (L i) 0"
    proof (rule chain_cong)
      fix x assume "x \<in> set (L i)"
      then obtain s where s: "(x, s, False) \<in> set bl" using l(4) by blast
      show "GET m' x = GET m x \<and> GET m' (x + 4) = GET m (x + 4)"
        using rep_block(2,3) [OF r s] same [of x] same [of "x + 4"] by auto
    qed
    ultimately show "GET m' (sp + 4 * int i) = front (L i) 0 \<and> chain m' 0 (L i) 0 \<and> distinct (L i) \<and>
        (\<forall>q \<in> set (L i). \<exists>s. (q, s, False) \<in> set (bl @ [(hi, sz, False)]) \<and> class_of s = i)"
      using l by fastforce
  qed
  show ?thesis using fr tl tags lists by (simp add: rep_def)
qed

lemma heap_brk:
  assumes "heap_rep h bl F"
  shows "seg_list_ptr h + 112 \<le> mem_brk (sys h)" and "0 < seg_list_ptr h" and "8 dvd seg_list_ptr h"
    and "mem_max_addr (sys h) = seg_list_ptr h + 20971520" and "mem_max_addr (sys h) \<le> 2 ^ 32"
    and "8 dvd mem_brk (sys h)"
proof -
  obtain L where r: "rep (mem h) (seg_list_ptr h) (mem_brk (sys h)) bl L" using assms by (rule heap_repE)
  have al: "8 dvd mid" if "tile lo xs mid" "8 dvd lo" for lo xs mid
    using that by (induction lo xs mid rule: tile.induct) (auto intro: dvd_add)
  show "seg_list_ptr h + 112 \<le> mem_brk (sys h)" "0 < seg_list_ptr h" "8 dvd seg_list_ptr h"
    using repD(2,5,6) [OF r] tile_le by blast+
  then have "8 dvd seg_list_ptr h + 112" by presburger
  then show "8 dvd mem_brk (sys h)" using al [OF repD(2) [OF r]] by blast
  show "mem_max_addr (sys h) = seg_list_ptr h + 20971520" "mem_max_addr (sys h) \<le> 2 ^ 32"
    using assms by (simp_all add: heap_rep_def MAX_HEAP_eq)
qed

lemma sbrk_room:
  assumes h: "heap_rep h bl F" and n: "0 \<le> n" "n < 2 ^ 32"
  shows "sbrk n h = (if room h n then (mem_brk (sys h), h\<lparr>sys := (sys h)\<lparr>mem_brk := mem_brk (sys h) + n\<rparr>\<rparr>) else (-1, h))"
  using heap_brk(1,4) [OF h] n by (simp add: sbrk_def mem_sbrk_def room_def to_int_def)

lemma heap_extend:
  assumes h: "heap_rep h bl (frees bl)" and words: "words mod 2 = 0" and sz: "sz = words * 4" "16 \<le> sz" "sz < 2 ^ 32"
    and rm: "room h sz"
  obtains h' where "extend_heap words h = Some (fst (merged bl (mem_brk (sys h)) sz []), h')"
    and "heap_rep h' (snd (merged bl (mem_brk (sys h)) sz [])) (frees (snd (merged bl (mem_brk (sys h)) sz [])))"
    and "kept (taken bl) h h'"
proof -
  let ?hi = "mem_brk (sys h)" and ?sp = "seg_list_ptr h"
  note hb = heap_brk [OF h]
  have s8: "8 dvd sz" using words sz(1) by presburger
  have s31: "sz < 2 ^ 31" using rm hb unfolding room_def by simp
  obtain L where r: "rep (mem h) ?sp ?hi bl L" and F: "frees bl = listed L" using h by (rule heap_repE)
  define m1 where "m1 = put_tags (mem h) ?hi (tag sz False)"
  define m2 where "m2 = PUT m1 (?hi + sz - 4) 1"
  define h1 where "h1 = h\<lparr>sys := (sys h)\<lparr>mem_brk := ?hi + sz\<rparr>, mem := m2\<rparr>"
  note pt = put_tags_tag [where s = sz and m = "mem h" and q = ?hi and a = False]
  have g1: "GET m1 (?hi - 4) = tag sz False" "GET m1 (?hi + sz - 8) = tag sz False"
    unfolding m1_def by (rule pt; use s8 sz s31 in simp)+
  have nb: "NEXT_BLKP m1 ?hi = ?hi + sz" using g1(1) size_tag [OF s8] by (simp add: NEXT_BLKP_def GET_SIZE_def WSIZE_def)
  have g2: "GET m2 p = GET m1 p" if "p + 4 \<le> ?hi + sz - 4" for p
    unfolding m2_def by (rule GET_PUT_other) (use that in simp)
  have tg: "tags_ok m2 [(?hi, sz, False)]" using g1 g2 [of "?hi - 4"] g2 [of "?hi + sz - 8"] sz
    by (simp add: tags_ok_Cons tags_ok_Nil)
  have out: "m2 x = mem h x" if "x < ?hi - 4" for x
  proof -
    have "m2 x = m1 x" unfolding m2_def by (rule PUT_frame) (use that sz in simp)
    also have "m1 x = mem h x" unfolding m1_def by (rule pt(3)) (use that s8 sz s31 in auto)
    finally show ?thesis .
  qed
  have "GET m2 (?hi + sz - 4) = 1" unfolding m2_def by (rule GET_PUT_same) simp_all
  then have "rep m2 ?sp (?hi + sz) (bl @ [(?hi, sz, False)]) L"
    by (intro rep_grow [OF r s8 sz(2)] out tg) (use rm hb in \<open>simp_all add: room_def MAX_HEAP_eq\<close>)
  then have r1: "heap_rep h1 (bl @ [(?hi, sz, False)]) (frees bl)"
    using h F unfolding heap_rep_def h1_def by auto
  have k1: "kept (taken bl) h h1"
  proof -
    have "mem h1 x = mem h x" if "(p, t, True) \<in> set bl" "x < p + t - 8" for p t x
      unfolding h1_def using rep_block(2) [OF r that(1)] that(2) by (simp add: out)
    then show ?thesis using sz by (auto simp: kept_def h1_def taken_def)
  qed
  have fresh: "?hi \<notin> frees bl" using tile_mem [OF repD(2) [OF r]] by (fastforce simp: frees_def)
  obtain h2 where h2: "add_seglist ?hi sz h1 = Some h2" "heap_rep h2 (bl @ [(?hi, sz, False)]) (insert ?hi (frees bl))"
    "kept (taken (bl @ [(?hi, sz, False)])) h1 h2"
    using add_kept [OF r1, of ?hi sz] fresh by (metis in_set_conv_decomp)
  have r2: "heap_rep h2 (bl @ (?hi, sz, False) # []) (frees (bl @ (?hi, sz, False) # []))" using h2(2) by simp
  obtain h3 where h3: "coalesce ?hi h2 = Some (fst (merged bl ?hi sz []), h3)"
    "heap_rep h3 (snd (merged bl ?hi sz [])) (frees (snd (merged bl ?hi sz [])))" "kept (taken (bl @ [])) h2 h3"
    using heap_coalesce [OF r2] by metis
  have u: "u32 sz = sz" using sz by (simp add: u32_def)
  have p1: "PACK sz 0 = tag sz False" "PACK 0 1 = 1" using PACK_tag(1) [OF s8] by (simp_all add: PACK_def)
  have "extend_heap words h = Option.bind (add_seglist ?hi sz h1) (coalesce ?hi)"
    using sbrk_room [OF h, of sz] rm words sz u hb(1,2) p1 nb [unfolded m1_def]
    by (simp add: extend_heap_def WSIZE_def HDRP_def Let_def m1_def m2_def h1_def)
  then have "extend_heap words h = Some (fst (merged bl ?hi sz []), h3)" using h2(1) h3(1) by simp
  moreover have "kept (taken bl) h h3"
    using kept_trans [OF k1 kept_trans [OF kept_mono [OF h2(3), of "taken bl"] kept_mono [OF h3(3), of "taken bl"]]] by simp
  ultimately show ?thesis using that h3(2) by blast
qed

lemma heap_extend_fails:
  assumes h: "heap_rep h bl F" and words: "words mod 2 = 0" and sz: "sz = words * 4" "0 \<le> sz" "sz < 2 ^ 32"
    and rm: "\<not> room h sz"
  shows "extend_heap words h = Some (0, h)"
  using sbrk_room [OF h, of sz] rm words sz by (simp add: extend_heap_def WSIZE_def u32_def)

section \<open>The invariant\<close>

text \<open>No two neighbouring blocks are both free.\<close>

fun separated :: "block list \<Rightarrow> bool" where
  "separated [] = True"
| "separated [a] = True"
| "separated (a # b # bl) = ((snd (snd a) \<or> snd (snd b)) \<and> separated (b # bl))"

lemma separated_append:
  "separated (xs @ ys) \<longleftrightarrow> separated xs \<and> separated ys \<and> \<not> (prev_free xs \<and> next_free ys)"
proof (induction xs rule: separated.induct)
  case (2 a)
  then show ?case by (cases ys) (auto simp: prev_free_def next_free_def)
qed (auto simp: prev_free_def)

lemma prev_free_simps [simp]: "\<not> prev_free []" "prev_free (xs @ [(q, s, a)]) = (\<not> a)"
  by (simp_all add: prev_free_def)

lemma next_free_simps [simp]: "\<not> next_free []" "next_free ((q, s, a) # xs) = (\<not> a)"
  by (simp_all add: next_free_def)

lemma separated_Cons: "separated ((q, s, a) # ys) \<longleftrightarrow> separated ys \<and> (a \<or> \<not> next_free ys)"
  by (cases ys) (auto simp: next_free_def)

definition heap_inv :: "heap \<Rightarrow> block list \<Rightarrow> bool" where
  "heap_inv h bl \<longleftrightarrow> heap_rep h bl (frees bl) \<and> separated bl"

lemma merged_taken: "taken (snd (merged xs q s ys)) = taken (xs @ ys)"
  by (auto simp: merged_def merge_prev_def merge_next_def elim!: prev_freeE next_freeE)

lemma merged_separated:
  assumes "separated xs" and "separated ys"
  shows "separated (snd (merged xs q s ys))"
  using assms
  by (auto simp: merged_def merge_prev_def merge_next_def separated_append separated_Cons
      elim!: prev_freeE next_freeE)

lemma merged_last:
  "\<exists>zs u. snd (merged xs q s []) = zs @ [(fst (merged xs q s []), u, False)] \<and> (0 \<le> fst (snd (last xs)) \<or> xs = [] \<longrightarrow> s \<le> u)
     \<and> (separated xs \<longrightarrow> separated zs)"
  by (auto simp: merged_def merge_prev_def merge_next_def separated_append elim!: prev_freeE)

lemma taken_fst: "fst ` taken bl \<subseteq> fst ` set bl"
  by (force simp: taken_def)

definition placed_size :: "int \<Rightarrow> int \<Rightarrow> int" where
  "placed_size s n = (if s - n < 16 then s else n)"

lemma placed_taken: "taken (placed q s n) = {(placed_at q s n, placed_size s n)}"
  by (auto simp: placed_def placed_at_def placed_size_def)

lemma placed_separated:
  assumes "separated (xs @ (q, s, False) # ys)"
  shows "separated (xs @ placed q s n @ ys)"
  using assms by (auto simp: placed_def separated_append separated_Cons)

text \<open>Placing in a free block: the allocated blocks gain one of at least the requested size.\<close>

lemma inv_place:
  assumes i: "heap_inv h (xs @ (q, s, False) # ys)" and n: "16 \<le> n" "n \<le> s" "8 dvd n"
  obtains p t h' where "place q n h = Some (p, h')" and "heap_inv h' (xs @ placed q s n @ ys)" and "n \<le> t"
    and "taken (xs @ placed q s n @ ys) = insert (p, t) (taken (xs @ ys))" and "p \<notin> fst ` taken (xs @ ys)"
    and "kept (taken (xs @ ys)) h h'"
proof -
  let ?bl = "xs @ (q, s, False) # ys"
  have h: "heap_rep h ?bl (frees ?bl)" and sep: "separated ?bl" using i by (auto simp: heap_inv_def)
  have "distinct (map fst ?bl)" by (rule tile_distinct [OF heap_tile [OF h]])
  then have "frees ?bl - {q} \<union> frees (placed q s n) = frees (xs @ placed q s n @ ys)"
    using frees_fst [of xs] frees_fst [of ys] by auto
  then obtain h' where h': "place q n h = Some (placed_at q s n, h')" "heap_inv h' (xs @ placed q s n @ ys)" "kept (taken (xs @ ys)) h h'"
    using heap_place [OF h _ n, of thesis] placed_separated [OF sep, of n] by (auto simp: heap_inv_def)
  have "distinct (map fst (xs @ placed q s n @ ys))" by (rule tile_distinct [OF heap_tile]) (use h'(2) heap_inv_def in blast)
  then have "placed_at q s n \<notin> fst ` set (xs @ ys)" by (auto simp: placed_def placed_at_def split: if_splits)
  then have "placed_at q s n \<notin> fst ` taken (xs @ ys)" using taken_fst by blast
  then show ?thesis using that [OF h'(1,2), of "placed_size s n"] h'(3) n by (simp add: placed_taken placed_size_def)
qed

section \<open>Requests\<close>

lemma adjusted_size_ok:
  assumes "0 < n" and "n + 15 < 2 ^ 32"
  shows "n + 8 \<le> adjusted_size n" and "24 \<le> adjusted_size n" and "8 dvd adjusted_size n" and "adjusted_size n \<le> n + 23"
    and "adjusted_size n < 2 ^ 32"
proof -
  have "adjusted_size n = (if n \<le> 16 then 24 else n + 15 - (n + 15) mod 8)"
    using assms unfolding adjusted_size_def ALIGN_def and_not_7 by (simp add: DSIZE_def u32_def add.commute)
  moreover have "(n + 15) mod 8 < 8" "0 \<le> (n + 15) mod 8" by simp_all
  moreover have "8 dvd n + 15 - (n + 15) mod 8" by presburger
  ultimately show "n + 8 \<le> adjusted_size n" "24 \<le> adjusted_size n" "8 dvd adjusted_size n" "adjusted_size n \<le> n + 23"
    "adjusted_size n < 2 ^ 32"
    using assms by auto
qed

lemma inv_malloc:
  assumes i: "heap_inv h bl" and n: "0 < n" "n + 15 < 2 ^ 32"
  shows "\<exists>p h'. mm_malloc n h = Some (p, h') \<and>
     (p = 0 \<and> h' = h \<and> \<not> room h (max (adjusted_size n) 4096) \<and>
        (adjusted_size n < 2 ^ 24 \<longrightarrow> \<not> (\<exists>q s. (q, s, False) \<in> set bl \<and> adjusted_size n \<le> s))
      \<or> p \<noteq> 0 \<and> (\<exists>bl' t. heap_inv h' bl' \<and> adjusted_size n \<le> t \<and> taken bl' = insert (p, t) (taken bl) \<and>
          p \<notin> fst ` taken bl \<and> kept (taken bl) h h'))"
proof -
  let ?a = "adjusted_size n"
  note a = adjusted_size_ok [OF n]
  have a16: "16 \<le> ?a" using a(2) by simp
  have h: "heap_rep h bl (frees bl)" and sep: "separated bl" using i by (auto simp: heap_inv_def)
  obtain r where r: "find_fit (mem h) (seg_list_ptr h) ?a ?a 0 = Some r"
    "r \<noteq> 0 \<longrightarrow> r \<in> frees bl \<and> (\<exists>s. (r, s, False) \<in> set bl \<and> ?a \<le> s)"
    "r = 0 \<and> ?a < 2 ^ 24 \<longrightarrow> \<not> (\<exists>q s. q \<in> frees bl \<and> (q, s, False) \<in> set bl \<and> ?a \<le> s \<and> 0 \<le> class_of s)"
    using heap_find_fit [OF h, of ?a 0] a(2) by auto
  have pos: "p \<noteq> 0" if "heap_inv h' bl'" "(p, t) \<in> taken bl'" for h' bl' p t
    using heap_block(7) [of h' bl' "frees bl'" p t True] that by (auto simp: heap_inv_def taken_def)
  show ?thesis
  proof (cases "r = 0")
    case False
    then obtain s where s: "(r, s, False) \<in> set bl" "?a \<le> s" using r(2) by blast
    obtain xs ys where bl: "bl = xs @ (r, s, False) # ys" using split_list [OF s(1)] by blast
    obtain p t h' where p: "place r ?a h = Some (p, h')" "heap_inv h' (xs @ placed r s ?a @ ys)" "?a \<le> t"
      "taken (xs @ placed r s ?a @ ys) = insert (p, t) (taken (xs @ ys))" "p \<notin> fst ` taken (xs @ ys)" "kept (taken (xs @ ys)) h h'"
      by (rule inv_place [OF i [unfolded bl] a16 s(2) a(3)]) (rule that)
    have "mm_malloc n h = Some (p, h')" using n r(1) p(1) False by (simp add: mm_malloc_def Let_def)
    moreover have "p \<noteq> 0" by (rule pos [OF p(2)]) (use p(4) in blast)
    moreover have "taken (xs @ ys) = taken bl" using bl by simp
    ultimately show ?thesis using p(2-6) by metis
  next
    case True
    define sz where "sz = max ?a 4096"
    have s8: "8 dvd sz" using a(3) by (simp add: sz_def max_def)
    have w: "sz div 4 mod 2 = 0" "sz = sz div 4 * 4" using s8 by presburger+
    have w': "16 \<le> sz" "sz < 2 ^ 32" "0 \<le> sz" using a(5) by (simp_all add: sz_def)
    have mm: "mm_malloc n h = (case extend_heap (sz div 4) h of None \<Rightarrow> None
        | Some (bp, h) \<Rightarrow> if bp = 0 then Some (0, h) else place bp ?a h)"
      using n r(1) True by (simp add: mm_malloc_def Let_def DCHUNKSIZE_def WSIZE_def sz_def)
    show ?thesis
    proof (cases "room h sz")
      case False
      then have "mm_malloc n h = Some (0, h)" using heap_extend_fails [OF h w w'(3,2)] mm by simp
      moreover have "\<not> (\<exists>q s. (q, s, False) \<in> set bl \<and> ?a \<le> s)" if "?a < 2 ^ 24"
        using r(3) True that by (auto simp: frees_def)
      ultimately show ?thesis using False by (auto simp: sz_def)
    next
      case True
      let ?mg = "merged bl (mem_brk (sys h)) sz []"
      obtain h1 where h1: "extend_heap (sz div 4) h = Some (fst ?mg, h1)" "heap_rep h1 (snd ?mg) (frees (snd ?mg))"
        "kept (taken bl) h h1" by (rule heap_extend [OF h w w'(1,2) True])
      have sep1: "separated (snd ?mg)" using merged_separated [OF sep] by simp
      have "0 \<le> fst (snd (last bl)) \<or> bl = []"
        using heap_block(3) [OF h, of "fst (last bl)" "fst (snd (last bl))" "snd (snd (last bl))"] by fastforce
      then obtain zs u where u: "snd ?mg = zs @ [(fst ?mg, u, False)]" "sz \<le> u"
        using merged_last [of bl "mem_brk (sys h)" sz] by blast
      have i1: "heap_inv h1 (zs @ (fst ?mg, u, False) # [])" using h1(2) sep1 u(1) by (simp add: heap_inv_def)
      have au: "?a \<le> u" using u(2) by (simp add: sz_def)
      obtain p t h' where p: "place (fst ?mg) ?a h1 = Some (p, h')" "heap_inv h' (zs @ placed (fst ?mg) u ?a @ [])" "?a \<le> t"
        "taken (zs @ placed (fst ?mg) u ?a @ []) = insert (p, t) (taken (zs @ []))" "p \<notin> fst ` taken (zs @ [])" "kept (taken (zs @ [])) h1 h'"
        by (rule inv_place [OF i1 a16 au a(3)]) (rule that)
      have tz: "taken (zs @ []) = taken bl" using merged_taken [of bl "mem_brk (sys h)" sz "[]"] u(1) by simp
      have "0 < fst ?mg" using heap_block(7) [of h1 "snd ?mg" _ "fst ?mg" u False] h1(2) u(1) by simp
      then have "mm_malloc n h = Some (p, h')" using mm h1(1) p(1) by simp
      moreover have "p \<noteq> 0" by (rule pos [OF p(2)]) (use p(4) in blast)
      moreover have "kept (taken bl) h h'" using kept_trans [OF h1(3)] p(6) tz by simp
      ultimately show ?thesis using p(2,3,4,5) tz by metis
    qed
  qed
qed

lemma inv_free:
  assumes i: "heap_inv h (xs @ (q, s, True) # ys)"
  obtains h' where "mm_free q h = Some h'" and "heap_inv h' (snd (merged xs q s ys))" and "kept (taken (xs @ ys)) h h'"
proof -
  let ?bl = "xs @ (q, s, True) # ys"
  have h: "heap_rep h (xs @ [(q, s, True)] @ ys) (frees (xs @ ys))" and sep: "separated ?bl" using i by (auto simp: heap_inv_def)
  have b: "(q, s, True) \<in> set (xs @ [(q, s, True)] @ ys)" by simp
  note t = heap_block [OF h b]
  have tl: "tile (seg_list_ptr h + 112) xs q" using heap_tile [OF h] by (simp add: tile_mid)
  have d: "distinct (map fst (xs @ [(q, s, True)] @ ys))" by (rule tile_distinct [OF heap_tile [OF h]])
  have fresh: "q \<notin> frees (xs @ ys)" using d frees_fst [of xs] frees_fst [of ys] by auto
  have s: "8 dvd s" "16 \<le> s" "s < 2 ^ 31" using t by simp_all
  let ?m = "put_tags (mem h) q (tag s False)" and ?bl1 = "xs @ [(q, s, False)] @ ys"
  have unl: "frees (xs @ ys) \<inter> fst ` set [(q, s, True)] = {}" using fresh by simp
  have old: "tile q [(q, s, True)] (q + s)" and new: "tile q [(q, s, False)] (q + s)" using s by simp_all
  have r1: "heap_rep (h\<lparr>mem := ?m\<rparr>) ?bl1 (frees (xs @ ys))" and k1: "kept (taken (xs @ ys)) h (h\<lparr>mem := ?m\<rparr>)"
    using replace_kept [OF h tl old new one_block_tags(1) [OF s] one_block_tags(2) [OF s] unl] by simp_all
  have b1: "(q, s, False) \<in> set ?bl1" by simp
  obtain h2 where h2: "add_seglist q s (h\<lparr>mem := ?m\<rparr>) = Some h2" "heap_rep h2 ?bl1 (insert q (frees (xs @ ys)))"
    "kept (taken ?bl1) (h\<lparr>mem := ?m\<rparr>) h2" by (rule add_kept [OF r1 b1 fresh])
  have r2: "heap_rep h2 (xs @ (q, s, False) # ys) (frees (xs @ (q, s, False) # ys))" using h2(2) by simp
  obtain h3 where h3: "coalesce q h2 = Some (fst (merged xs q s ys), h3)"
    "heap_rep h3 (snd (merged xs q s ys)) (frees (snd (merged xs q s ys)))" "kept (taken (xs @ ys)) h2 h3"
    by (rule heap_coalesce [OF r2])
  have "mm_free q h = Some h3" using t(11) PACK_tag(1) [OF s(1)] h2(1) h3(1) by (simp add: mm_free_def Let_def)
  moreover have "separated xs" "separated ys" using sep by (auto simp: separated_append separated_Cons)
  then have "heap_inv h3 (snd (merged xs q s ys))" using h3(2) merged_separated by (simp add: heap_inv_def)
  moreover have "kept (taken (xs @ ys)) h h3" using kept_trans [OF k1 kept_trans [OF _ h3(3)]] h2(3) by simp
  ultimately show ?thesis using that by blast
qed

lemma zero_heads:
  assumes "j < n"
  shows "GET (fold (\<lambda>i m. SET_SEG_LIST_PTR m p i 0) [0..<n] m) (p + 4 * int j) = 0"
  using assms
proof (induction n)
  case (Suc n)
  let ?m = "fold (\<lambda>i m. SET_SEG_LIST_PTR m p i 0) [0..<n] m"
  have "GET (PUT ?m (p + 4 * int n) 0) (p + 4 * int j) = (if j = n then 0 else GET ?m (p + 4 * int j))"
  proof (cases "j = n")
    case False
    then show ?thesis using Suc.prems by (simp, intro GET_PUT_other) linarith
  qed (simp add: GET_PUT_same)
  then show ?case using Suc by (auto simp: SET_SEG_LIST_PTR_def WSIZE_def)
qed simp

lemma inv_init:
  assumes f: "fresh_heap h"
  obtains h' where "mm_init h = Some (0, h')" and "heap_inv h' [(mem_start_brk (sys h) + 112, 64, False)]"
    and "seg_list_ptr h' = mem_start_brk (sys h)"
proof -
  define b where "b = mem_start_brk (sys h)"
  define mx where "mx = mem_max_addr (sys h)"
  have fb: "0 < b" "8 dvd b" "mem_brk (sys h) = b" "mx = b + 20971520" "b + 20971520 \<le> 2 ^ 32"
    using f by (simp_all add: fresh_heap_def b_def mx_def MAX_HEAP_eq)
  define m0 where "m0 = fold (\<lambda>i m. SET_SEG_LIST_PTR m b i 0) [0..<24] (mem h)"
  define m1 where "m1 = PUT (PUT (PUT (PUT m0 (b + 96) 0) (b + 100) 9) (b + 104) 9) (b + 108) 1"
  define h1 where "h1 = h\<lparr>seg_list_ptr := b, sys := (sys h)\<lparr>mem_brk := b + 112\<rparr>, mem := m1, heap_ptr := b + 104\<rparr>"
  have i1: "init_seglist h = h\<lparr>sys := (sys h)\<lparr>mem_brk := b + 96\<rparr>, seg_list_ptr := b, mem := m0\<rparr>"
    using fb by (simp add: init_seglist_def sbrk_def mem_sbrk_def to_int_def SEG_SIZE_def WSIZE_def m0_def mx_def [symmetric])
  have init: "mm_init h = (case extend_heap 16 h1 of None \<Rightarrow> None | Some (q, h) \<Rightarrow> Some (if q = 0 then -1 else 0, h))"
    using fb unfolding mm_init_def i1
    by (simp add: sbrk_def mem_sbrk_def to_int_def WSIZE_def DSIZE_def CHUNKSIZE_def PACK_def Let_def mx_def [symmetric]
        h1_def m1_def add.commute)
  have g: "GET m1 (b + 96) = 0" "GET m1 (b + 100) = 9" "GET m1 (b + 104) = 9" "GET m1 (b + 108) = 1"
    by (simp_all add: m1_def GET_PUT_other GET_PUT_same)
  have heads: "GET m1 (b + 4 * int i) = 0" if "i < 24" for i
  proof -
    have "GET m1 (b + 4 * int i) = GET m0 (b + 4 * int i)" unfolding m1_def using that by (simp add: GET_PUT_other)
    then show ?thesis using zero_heads [OF that] by (simp add: m0_def)
  qed
  have r: "rep m1 b (b + 112) [] (\<lambda>_. [])"
    using fb g heads unfolding rep_def frame_ok_def lists_ok_def tags_ok_def by (simp add: MAX_HEAP_eq add.commute)
  have "listed (\<lambda>_. []) = {}" by (simp add: listed_def)
  then have h: "heap_rep h1 [] (frees [])"
    using r fb unfolding heap_rep_def h1_def by (auto simp: b_def mx_def MAX_HEAP_eq)
  have rm: "room h1 64" using fb by (simp add: room_def h1_def mx_def [symmetric])
  obtain h2 where h2: "extend_heap 16 h1 = Some (fst (merged [] (mem_brk (sys h1)) 64 []), h2)"
    "heap_rep h2 (snd (merged [] (mem_brk (sys h1)) 64 [])) (frees (snd (merged [] (mem_brk (sys h1)) 64 [])))" "kept (taken []) h1 h2"
    by (rule heap_extend [OF h, of 16 64]) (use rm in simp_all)
  have mg: "merged [] (mem_brk (sys h1)) 64 [] = (b + 112, [(b + 112, 64, False)])"
    by (simp add: merged_def merge_prev_def merge_next_def h1_def)
  show ?thesis
  proof (rule that)
    show "mm_init h = Some (0, h2)" using init h2(1) mg fb(1) by simp
    show "heap_inv h2 [(mem_start_brk (sys h) + 112, 64, False)]" using h2(2) mg by (simp add: heap_inv_def b_def)
    show "seg_list_ptr h2 = mem_start_brk (sys h)" using h2(3) by (simp add: kept_def h1_def b_def)
  qed
qed

end
