(* ===== verification/Mm_Realloc.thy ===== *)
theory Mm_Realloc
  imports Mm_Correct
begin

text \<open>
  \<open>mm_realloc\<close>: shrinking in place, growing into free neighbours, and moving.
\<close>

section \<open>Finishing a block\<close>

lemma kept_at: "kept T h h' \<Longrightarrow> (p, t) \<in> T \<Longrightarrow> p \<le> x \<Longrightarrow> x < p + t - 8 \<Longrightarrow> mem h' x = mem h x"
  unfolding kept_def by blast

text \<open>After the tags of the reallocated block are written: what is left behind it becomes a free
  block and is merged with its successor.\<close>

definition rest_blocks :: "block list \<Rightarrow> int \<Rightarrow> int \<Rightarrow> int \<Rightarrow> block list \<Rightarrow> block list" where
  "rest_blocks xs q n pd ys = (if 8 < pd then snd (merged (xs @ [(q, n, True)]) (q + n) pd ys) else xs @ (q, n, True) # ys)"

lemma rest_taken: "taken (rest_blocks xs q n pd ys) = insert (q, n) (taken (xs @ ys))"
  by (auto simp: rest_blocks_def merged_taken)

lemma rest_separated:
  assumes "separated xs" and "separated ys"
  shows "separated (rest_blocks xs q n pd ys)"
  using assms by (auto simp: rest_blocks_def separated_append separated_Cons intro!: merged_separated)

lemma split_rest_ok:
  assumes h: "heap_rep h (xs @ old @ ys) (frees (xs @ ys))" and q: "tile (seg_list_ptr h + 112) xs q" and old: "tile q old (q + u)"
    and n: "8 dvd n" "16 \<le> n" and pd: "if 8 < pd then n + pd = u \<and> 8 dvd pd else n = u" and "old \<noteq> []" and u: "u < 2 ^ 31"
    and tg: "tags_ok m [(q, n, True)]" and out: "\<And>x. x < q - 4 \<or> q + u - 4 \<le> x \<Longrightarrow> m x = mem h x"
  obtains h' where "split_rest pd q (h\<lparr>mem := m\<rparr>) = Some (q, h')"
    and "heap_rep h' (rest_blocks xs q n pd ys) (frees (rest_blocks xs q n pd ys))"
    and "kept (taken (xs @ ys)) h h'" and "\<forall>x. q \<le> x \<and> x < q + n - 8 \<longrightarrow> mem h' x = m x"
proof -
  have d: "distinct (map fst (xs @ old @ ys))" by (rule tile_distinct [OF heap_tile [OF h]])
  have "fst ` set (xs @ ys) \<inter> fst ` set old = {}" using d by (simp only: map_append distinct_append set_append set_map image_Un) blast
  then have unl: "frees (xs @ ys) \<inter> fst ` set old = {}" using frees_fst [of "xs @ ys"] by blast
  show ?thesis
  proof (cases "8 < pd")
    case False
    then have nu: "n = u" using pd by simp
    have new: "tile q [(q, n, True)] (q + u)" using n nu by simp
    note r = replace_kept [OF h q old new tg out unl]
    show ?thesis
      by (rule that [of "h\<lparr>mem := m\<rparr>"]) (use r False in \<open>simp_all add: split_rest_def rest_blocks_def DSIZE_def\<close>)
  next
    case True
    then have p: "n + pd = u" "8 dvd pd" "16 \<le> pd" "pd < 2 ^ 31" using pd n u by (auto elim!: dvdE)
    define m2 where "m2 = put_tags m (q + n) (tag pd False)"
    note pt = put_tags_tag [where s = pd and m = m and q = "q + n" and a = False]
    have nb: "NEXT_BLKP m q = q + n" using tg size_tag [OF n(1)] by (simp add: tags_ok_Cons NEXT_BLKP_def GET_SIZE_def WSIZE_def)
    have g: "GET m2 x = GET m x" if "x + 4 \<le> q + n - 4" for x
      by (rule GET_cong, unfold m2_def, rule pt(3)) (use p that in auto)
    have g2: "GET m2 (q + n - 4) = tag pd False" "GET m2 (q + n + pd - 8) = tag pd False"
      unfolding m2_def by (rule pt; use p in simp)+
    have tg2: "tags_ok m2 [(q, n, True), (q + n, pd, False)]"
      using tg n g [of "q - 4"] g [of "q + n - 8"] g2 by (simp add: tags_ok_Cons tags_ok_Nil)
    have out2: "m2 x = mem h x" if x: "x < q - 4 \<or> q + u - 4 \<le> x" for x
    proof -
      have "m2 x = m x" unfolding m2_def by (rule pt(3)) (use p x n in auto)
      then show ?thesis using out x by simp
    qed
    have new: "tile q [(q, n, True), (q + n, pd, False)] (q + u)" using n p by simp
    let ?bl = "xs @ [(q, n, True), (q + n, pd, False)] @ ys"
    have r: "heap_rep (h\<lparr>mem := m2\<rparr>) ?bl (frees (xs @ ys))" and k: "kept (taken (xs @ ys)) h (h\<lparr>mem := m2\<rparr>)"
      using replace_kept [OF h q old new tg2 out2 unl] by blast+
    have b2: "(q + n, pd, False) \<in> set ?bl" by simp
    have sz: "GET_BLK_SIZE m2 (q + n) = pd" using heap_block(11) [OF r b2] by simp
    have "distinct (map fst ?bl)" by (rule tile_distinct [OF heap_tile [OF r]])
    then have fresh: "q + n \<notin> frees (xs @ ys)" using frees_fst [of xs] frees_fst [of ys] by auto
    obtain h2 where h2: "add_seglist (q + n) pd (h\<lparr>mem := m2\<rparr>) = Some h2"
      "heap_rep h2 ?bl (insert (q + n) (frees (xs @ ys)))" "kept (taken ?bl) (h\<lparr>mem := m2\<rparr>) h2"
      by (rule add_kept [OF r b2 fresh])
    have r2: "heap_rep h2 ((xs @ [(q, n, True)]) @ (q + n, pd, False) # ys) (frees ((xs @ [(q, n, True)]) @ (q + n, pd, False) # ys))"
      using h2(2) by simp
    let ?mg = "merged (xs @ [(q, n, True)]) (q + n) pd ys"
    obtain h3 where h3: "coalesce (q + n) h2 = Some (fst ?mg, h3)" "heap_rep h3 (snd ?mg) (frees (snd ?mg))"
      "kept (taken ((xs @ [(q, n, True)]) @ ys)) h2 h3" by (rule heap_coalesce [OF r2])
    have "kept (taken ((xs @ [(q, n, True)]) @ ys)) (h\<lparr>mem := m2\<rparr>) h3"
      by (rule kept_trans [OF kept_mono [OF h2(3)] h3(3)]) auto
    then have k3: "kept (insert (q, n) (taken (xs @ ys))) (h\<lparr>mem := m2\<rparr>) h3" by simp
    show ?thesis
    proof (rule that)
      show "split_rest pd q (h\<lparr>mem := m\<rparr>) = Some (q, h3)"
        using True nb PACK_tag(1) [OF p(2)] sz h2(1) h3(1) by (simp add: split_rest_def DSIZE_def Let_def m2_def)
      show "heap_rep h3 (rest_blocks xs q n pd ys) (frees (rest_blocks xs q n pd ys))"
        using h3(2) True by (simp add: rest_blocks_def)
      show "kept (taken (xs @ ys)) h h3" by (rule kept_trans [OF k kept_mono [OF k3]]) blast
      have "mem h3 x = m x" if x: "q \<le> x" "x < q + n - 8" for x
      proof -
        have "mem h3 x = m2 x" using kept_at [OF k3, of q n x] x by simp
        also have "m2 x = m x" unfolding m2_def by (rule pt(3)) (use p x in auto)
        finally show ?thesis .
      qed
      then show "\<forall>x. q \<le> x \<and> x < q + n - 8 \<longrightarrow> mem h3 x = m x" by blast
    qed
  qed
qed

section \<open>Writing a payload\<close>

lemma heap_payload:
  assumes h: "heap_rep h bl (frees bl)" and b: "(p, t, True) \<in> set bl" and w: "writes {p..<p + t - 8} h h'"
  shows "heap_rep h' bl (frees bl)"
proof -
  obtain xs ys where bl: "bl = xs @ [(p, t, True)] @ ys" using split_list [OF b] by auto
  note hb = heap_block [OF h b]
  have tl: "tile (seg_list_ptr h + 112) xs p" using heap_tile [OF h] bl by (simp add: tile_mid)
  have one: "tile p [(p, t, True)] (p + t)" using hb by simp
  have same: "GET (mem h') x = GET (mem h) x" if "x + 4 \<le> p \<or> p + t - 8 \<le> x" for x
    by (rule GET_cong, rule writesD(4) [OF w]) (use that in auto)
  have "tags_ok (mem h') [(p, t, True)]" using hb same [of "p - 4"] same [of "p + t - 8"] by (simp add: tags_ok_Cons tags_ok_Nil)
  moreover have "distinct (map fst bl)" by (rule tile_distinct [OF heap_tile [OF h]])
  then have "frees bl \<inter> fst ` set [(p, t, True)] = {}" using frees_fst [of xs] frees_fst [of ys] bl by auto
  moreover have "writes {p - 4..<p + t - 4} h h'" by (rule writes_mono [OF w]) auto
  ultimately show ?thesis using heap_replace [OF h [unfolded bl] tl one one] bl by simp
qed

lemma kept_payload:
  assumes h: "heap_rep h bl F" and b: "(p, t, True) \<in> set bl" and w: "writes {p..<p + t - 8} h h'"
  shows "kept (taken bl - {(p, t)}) h h'"
proof -
  have "mem h' x = mem h x" if q: "(q, s, True) \<in> set bl" "(q, s) \<noteq> (p, t)" and x: "q \<le> x" "x < q + s - 8" for q s x
    using tile_apart [OF heap_tile [OF h] q(1) b] q(2) x heap_block(3) [OF h b] by (intro writesD(4) [OF w]) auto
  then show ?thesis using writesD(1,2) [OF w] by (auto simp: kept_def taken_def)
qed

section \<open>Moving down into the previous block\<close>

text \<open>The memory after header, \<open>memmove\<close> and footer: \<open>q\<close> is the new and \<open>p\<close> the old block.\<close>

definition moved_mem :: "memory \<Rightarrow> int \<Rightarrow> int \<Rightarrow> int \<Rightarrow> int \<Rightarrow> memory" where
  "moved_mem m q p s n =
     PUT (copy_bytes (PUT m (q - 4) (tag n True)) q p s) (q + n - 8) (tag n True)"

lemma copy_bytes_frame: "x < dst \<or> dst + n \<le> x \<Longrightarrow> copy_bytes m dst src n x = m x"
  by (auto simp: copy_bytes_def)

lemma moved_mem_ok:
  assumes n: "8 dvd n" "s + 8 \<le> n" "n < 2 ^ 31" "0 \<le> s" and pq: "q \<le> p"
  shows "FTRP (copy_bytes (PUT m (q - 4) (tag n True)) q p s) q = q + n - 8"
    and "tags_ok (moved_mem m q p s n) [(q, n, True)]"
    and "x < q - 4 \<or> q + n - 4 \<le> x \<Longrightarrow> moved_mem m q p s n x = m x"
    and "0 \<le> k \<Longrightarrow> k < s \<Longrightarrow> moved_mem m q p s n (q + k) = m (p + k)"
proof -
  have t: "0 \<le> tag n True" "tag n True < 2 ^ 32" using tag_range [of n True] n by auto
  let ?m1 = "PUT m (q - 4) (tag n True)"
  let ?m2 = "copy_bytes ?m1 q p s"
  have "GET ?m2 (q - 4) = GET ?m1 (q - 4)" by (rule GET_cong, rule copy_bytes_frame) simp
  then have g: "GET ?m2 (q - 4) = tag n True" using GET_PUT_same [OF t] by simp
  then show "FTRP ?m2 q = q + n - 8" using size_tag [OF n(1)] by (simp add: FTRP_def GET_SIZE_def HDRP_def WSIZE_def DSIZE_def)
  have "GET (moved_mem m q p s n) (q - 4) = GET ?m2 (q - 4)" unfolding moved_mem_def by (rule GET_PUT_other) (use n in simp)
  moreover have "GET (moved_mem m q p s n) (q + n - 8) = tag n True" unfolding moved_mem_def by (rule GET_PUT_same [OF t])
  ultimately show "tags_ok (moved_mem m q p s n) [(q, n, True)]" using g by (simp add: tags_ok_Cons tags_ok_Nil)
  show "moved_mem m q p s n x = m x" if "x < q - 4 \<or> q + n - 4 \<le> x"
    unfolding moved_mem_def using that n by (auto simp: PUT_frame copy_bytes_def)
  show "moved_mem m q p s n (q + k) = m (p + k)" if "0 \<le> k" "k < s"
    unfolding moved_mem_def using that n pq by (simp add: PUT_frame copy_bytes_def)
qed

section \<open>The neighbours of an allocated block\<close>

lemma prev_block:
  assumes h: "heap_rep h (xs @ (p, s, a) # ys) F"
  shows "PREV_BLKP (mem h) p = (if xs = [] then seg_list_ptr h + 104 else fst (last xs))"
    and "0 < PREV_BLKP (mem h) p" and "PREV_BLKP (mem h) p \<le> p - 8"
proof -
  let ?bl = "xs @ (p, s, a) # ys" and ?sp = "seg_list_ptr h"
  have tl: "tile (?sp + 112) xs p" using heap_tile [OF h] by (simp add: tile_mid)
  have *: "PREV_BLKP (mem h) p = (if xs = [] then ?sp + 104 else fst (last xs)) \<and> 0 < PREV_BLKP (mem h) p \<and> PREV_BLKP (mem h) p \<le> p - 8"
  proof (cases xs rule: rev_cases)
    case Nil
    then have p: "p = ?sp + 112" using tl by simp
    obtain L where r: "rep (mem h) ?sp (mem_brk (sys h)) ?bl L" using h by (rule heap_repE)
    have "GET (mem h) (p - 8) = tag 8 True" using repD(1) [OF r] p by (simp add: frame_ok_def tag_def add.commute)
    then have "PREV_BLKP (mem h) p = p - 8" using size_tag [of 8 True] by (simp add: PREV_BLKP_def GET_SIZE_def DSIZE_def)
    then show ?thesis using Nil p repD(5) [OF r] by simp
  next
    case (snoc zs z)
    obtain q t b where z: "z = (q, t, b)" by (cases z) auto
    have m: "(q, t, b) \<in> set ?bl" using snoc z by simp
    have "xs = zs @ [(q, t, b)]" using snoc z by simp
    then have e: "PREV_BLKP (mem h) p = q" "p = q + t" using neighbours(4) [OF h] by blast+
    show ?thesis unfolding e(1) using heap_block(3,7) [OF h m] e(2) snoc z by simp
  qed
  then show "PREV_BLKP (mem h) p = (if xs = [] then ?sp + 104 else fst (last xs))" "0 < PREV_BLKP (mem h) p"
    "PREV_BLKP (mem h) p \<le> p - 8" by blast+
qed

lemma next_block:
  assumes h: "heap_rep h (xs @ (p, s, a) # ys) F"
  shows "NEXT_BLKP (mem h) p = p + s" and "p + s \<noteq> 0"
    and "ys = (q, t, b) # zs \<Longrightarrow> q = p + s \<and> GET_BLK_SIZE (mem h) (p + s) = t"
proof -
  let ?bl = "xs @ (p, s, a) # ys"
  have b: "(p, s, a) \<in> set ?bl" by simp
  show "NEXT_BLKP (mem h) p = p + s" by (rule neighbours(1) [OF h])
  show "p + s \<noteq> 0" using heap_block(3,7) [OF h b] by simp
  assume ys: "ys = (q, t, b) # zs"
  then have "q = p + s" using heap_tile [OF h] by (simp add: tile_mid)
  then show "q = p + s \<and> GET_BLK_SIZE (mem h) (p + s) = t" using heap_block(11) [OF h, of q t b] ys by simp
qed

section \<open>Growing\<close>

lemma tag_alloc_set: "8 dvd n \<Longrightarrow> GET m (q - 4) = tag n True \<Longrightarrow> GET_ALLOC m (HDRP q) = 1"
  using alloc_tag [of n True] by (simp add: GET_ALLOC_def HDRP_def WSIZE_def)

lemma grow_prev:
  assumes h: "heap_rep h (xs @ (p, s, True) # ys) F" and xs: "xs = zs @ [(q, t, False)]"
    and a: "a \<le> t + (s - 8)" "s \<le> a" "8 dvd a"
  defines "pd \<equiv> s - 8 + t - a"
  defines "n \<equiv> (if 8 < pd then a + 8 else s + t)"
  shows "grow p (s - 8) a h = (pd, q, (remove_seglist q h)\<lparr>mem := moved_mem (mem (remove_seglist q h)) q p s n\<rparr>)"
proof -
  let ?bl = "xs @ (p, s, True) # ys"
  have b: "(p, s, True) \<in> set ?bl" and bq: "(q, t, False) \<in> set ?bl" using xs by simp_all
  note hp = heap_block [OF h b] and hq = heap_block [OF h bq]
  have pv: "PREV_BLKP (mem h) p = q" "p = q + t" using prev_block(1) [OF h] neighbours(4) [OF h xs] xs by simp_all
  have n: "8 dvd n" "s + 8 \<le> n" "n < 2 ^ 31" "0 \<le> s" using hp hq a by (auto simp: n_def pd_def)
  have ft: "FTRP (copy_bytes (PUT m (q - 4) (tag n True)) q p s) q = q + n - 8" for m
    by (rule moved_mem_ok(1) [OF n]) (use hq pv in simp)
  have al: "GET_ALLOC (moved_mem m q p s n) (q - 4) = 1" for m
    using moved_mem_ok(2) [OF n, of q p m] hq pv tag_alloc_set [OF n(1), of _ q]
    by (simp add: tags_ok_Cons HDRP_def WSIZE_def)
  have "PACK n 1 = tag n True" by (rule PACK_tag(2) [OF n(1)])
  moreover have "GET_ALLOC (mem h) (HDRP q) = 0" using hq(12) by simp
  ultimately show ?thesis
    using a(1) hq(7,11) next_block(1,2) [OF h] ft al
    unfolding grow_def Let_def pv(1) DSIZE_def HDRP_def WSIZE_def
    by (simp add: pd_def [symmetric] n_def [symmetric] moved_mem_def) (auto simp: n_def pd_def add_ac split: if_splits)
qed

lemma grow_next:
  assumes h: "heap_rep h (xs @ (p, s, True) # ys) (frees (xs @ ys))" and xs: "\<not> prev_free xs" and ys: "ys = (q, t, False) # zs"
    and a: "a \<le> t + (s - 8)" "s \<le> a" "8 dvd a"
  defines "pd \<equiv> s - 8 + t - a"
  defines "n \<equiv> (if 8 < pd then a + 8 else s + t)"
  shows "grow p (s - 8) a h = (pd, p, (remove_seglist q h)\<lparr>mem := put_tags (mem (remove_seglist q h)) p (tag n True)\<rparr>)"
proof -
  let ?bl = "xs @ (p, s, True) # ys"
  have b: "(p, s, True) \<in> set ?bl" and bq: "(q, t, False) \<in> set ?bl" using ys by simp_all
  note hp = heap_block [OF h b] and hq = heap_block [OF h bq]
  define h1 where "h1 = remove_seglist q h"
  have qF: "q \<in> frees (xs @ ys)" using ys by simp
  have r1: "heap_rep h1 ?bl (frees (xs @ ys) - {q})" and sp: "seg_list_ptr h1 = seg_list_ptr h"
    using remove_kept(1,3) [OF h qF] by (simp_all add: h1_def)
  have qs: "q = p + s" using next_block(3) [OF h ys] by simp
  have n: "8 dvd n" "s + 8 \<le> n" "n < 2 ^ 31" using hp hq a by (auto simp: n_def pd_def)
  define m where "m = put_tags (mem h1) p (tag n True)"
  let ?prev = "PREV_BLKP (mem h) p"
  have pe: "PREV_BLKP (mem h1) p = ?prev" using prev_block(1) [OF h] prev_block(1) [OF r1] sp by simp
  have "GET m (?prev - 4) = GET (mem h1) (?prev - 4)"
    by (rule GET_cong, unfold m_def, rule put_tags_tag(3)) (use n hp(3) prev_block(3) [OF h] in auto)
  then have al: "GET_ALLOC m (HDRP ?prev) = 1"
    using neighbours(5) [OF r1] xs pe by (simp add: GET_ALLOC_def HDRP_def WSIZE_def)
  have al0: "GET_ALLOC (mem h) (HDRP ?prev) = 1" using neighbours(5) [OF h] xs by simp
  have alq: "GET_ALLOC (mem h) (HDRP (p + s)) = 0" using hq(12) qs by simp
  have szq: "GET_BLK_SIZE (mem h) (p + s) = t" using hq(11) qs by simp
  have m': "put_tags (mem (remove_seglist (p + s) h)) p (PACK n 1) = m"
    using PACK_tag(2) [OF n(1)] qs by (simp add: m_def h1_def)
  have pn: "?prev \<noteq> 0" using prev_block(2) [OF h] by simp
  have "grow p (s - 8) a h = (pd, p, (remove_seglist q h)\<lparr>mem := m\<rparr>)"
    using al al0 alq szq pn next_block(1,2) [OF h] a(1) m' hp(3)
    unfolding grow_def Let_def DSIZE_def qs
    by (simp add: pd_def [symmetric] n_def [symmetric] add_ac) (auto simp: n_def pd_def add_ac split: if_splits)
  then show ?thesis by (simp add: m_def h1_def)
qed

lemma grow_both:
  assumes h: "heap_rep h (xs @ (p, s, True) # ys) F" and xs: "xs = zs @ [(q, t, False)]" and ys: "ys = (q2, t2, False) # ws"
    and a: "t + (s - 8) < a" "a \<le> t + t2 + (s - 8)" "s \<le> a" "8 dvd a"
  defines "pd \<equiv> s - 8 + t + t2 - a"
  defines "n \<equiv> (if 8 < pd then a + 8 else s + t + t2)"
  defines "h2 \<equiv> remove_seglist q (remove_seglist q2 h)"
  shows "grow p (s - 8) a h = (pd, q, h2\<lparr>mem := moved_mem (mem h2) q p s n\<rparr>)"
proof -
  let ?bl = "xs @ (p, s, True) # ys"
  have b: "(p, s, True) \<in> set ?bl" and bq: "(q, t, False) \<in> set ?bl" and b2: "(q2, t2, False) \<in> set ?bl" using xs ys by simp_all
  note hp = heap_block [OF h b] and hq = heap_block [OF h bq] and h2' = heap_block [OF h b2]
  have pv: "PREV_BLKP (mem h) p = q" "p = q + t" using prev_block(1) [OF h] neighbours(4) [OF h xs] xs by simp_all
  have n: "8 dvd n" "s + 8 \<le> n" "n < 2 ^ 31" "0 \<le> s" using hp hq h2' a by (auto simp: n_def pd_def)
  have ft: "FTRP (copy_bytes (PUT m (q - 4) (tag n True)) q p s) q = q + n - 8" for m
    by (rule moved_mem_ok(1) [OF n]) (use hq pv in simp)
  have qs: "q2 = p + s" using next_block(3) [OF h ys] by simp
  have al: "GET_ALLOC (mem h) (q - 4) = 0" "GET_ALLOC (mem h) (p + s - 4) = 0"
    using hq(12) h2'(12) qs by (simp_all add: HDRP_def WSIZE_def)
  have sz: "GET_BLK_SIZE (mem h) q = t" "GET_BLK_SIZE (mem h) (p + s) = t2" using hq(11) h2'(11) qs by simp_all
  have q0: "q \<noteq> 0" "p + s \<noteq> 0" using hq(7) next_block(2) [OF h] by simp_all
  have pk: "PACK n 1 = tag n True" by (rule PACK_tag(2) [OF n(1)])
  show ?thesis
    using a(1,2) al sz q0 next_block(1) [OF h] ft pk qs
    unfolding grow_def Let_def pv(1) DSIZE_def HDRP_def WSIZE_def
    by (simp add: pd_def [symmetric] n_def [symmetric] moved_mem_def h2_def) (auto simp: n_def pd_def add_ac split: if_splits)
qed

definition size_before :: "block list \<Rightarrow> int" where
  "size_before xs = (if prev_free xs then fst (snd (last xs)) else 0)"

definition size_behind :: "block list \<Rightarrow> int" where
  "size_behind ys = (if next_free ys then fst (snd (hd ys)) else 0)"

lemma grow_none:
  assumes h: "heap_rep h (xs @ (p, s, True) # ys) F"
    and no: "size_before xs + size_behind ys + (s - 8) < a"
  shows "grow p (s - 8) a h = (0, 0, h)"
proof -
  let ?bl = "xs @ (p, s, True) # ys"
  let ?prev = "PREV_BLKP (mem h) p"
  have sb: "0 \<le> size_before xs" "0 \<le> size_behind ys"
    using heap_block(3) [OF h] by (auto simp: size_before_def size_behind_def elim!: prev_freeE next_freeE) fastforce+
  have pf: "GET_BLK_SIZE (mem h) ?prev = size_before xs" if c: "prev_free xs"
  proof -
    obtain zs q t where xs: "xs = zs @ [(q, t, False)]" using c by (rule prev_freeE)
    then have m: "(q, t, False) \<in> set ?bl" by simp
    show ?thesis using heap_block(11) [OF h m] prev_block(1) [OF h] xs by (simp add: size_before_def)
  qed
  have nf: "GET_BLK_SIZE (mem h) (p + s) = size_behind ys" if c: "next_free ys"
  proof -
    obtain zs q t where ys: "ys = (q, t, False) # zs" using c by (rule next_freeE)
    then show ?thesis using next_block(3) [OF h ys] by (simp add: size_behind_def)
  qed
  have al: "GET_ALLOC (mem h) (HDRP ?prev) = of_bool (\<not> prev_free xs)" "GET_ALLOC (mem h) (HDRP (p + s)) = of_bool (\<not> next_free ys)"
    by (rule neighbours [OF h])+
  show ?thesis
    unfolding grow_def Let_def next_block(1) [OF h] al
    using prev_block(2) [OF h] next_block(2) [OF h] no sb pf nf al by (cases "prev_free xs"; cases "next_free ys") simp_all
qed

section \<open>Reallocation\<close>

text \<open>What a successful reallocation of \<open>(p, s)\<close> to \<open>n\<close> bytes leaves: one block at \<open>r\<close> in its
  place, with room for \<open>n\<close> bytes, with the contents of the old one as far as both reach, and all
  other allocated blocks with their contents.\<close>

definition reallocated :: "heap \<Rightarrow> block list \<Rightarrow> int \<Rightarrow> int \<Rightarrow> int \<Rightarrow> int \<Rightarrow> heap \<Rightarrow> bool" where
  "reallocated h bl p s n r h' \<longleftrightarrow> r \<noteq> 0 \<and> (\<exists>bl' t. heap_inv h' bl' \<and> n + 8 \<le> t
     \<and> taken bl' = insert (r, t) (taken bl - {(p, s)}) \<and> r \<notin> fst ` (taken bl - {(p, s)})
     \<and> kept (taken bl - {(p, s)}) h h'
     \<and> (\<forall>k. 0 \<le> k \<and> k < min n (s - 8) \<longrightarrow> mem h' (r + k) = mem h (p + k)))"

lemma finish_realloc:
  assumes i: "heap_inv h (xs @ old @ ys)" and told: "taken old = {(p, s)}"
    and h1: "heap_rep h1 (xs @ old @ ys) (frees (xs @ ys))" and k1: "kept (taken (xs @ old @ ys)) h h1"
    and q: "tile (seg_list_ptr h + 112) xs q" and old: "tile q old (q + u)"
    and nn: "8 dvd nn" "16 \<le> nn" "n + 8 \<le> nn"
    and pd: "if 8 < pd then nn + pd = u \<and> 8 dvd pd else nn = u" and u: "u < 2 ^ 31"
    and tg: "tags_ok m [(q, nn, True)]" and out: "\<And>x. x < q - 4 \<or> q + u - 4 \<le> x \<Longrightarrow> m x = mem h1 x"
    and con: "\<And>k. 0 \<le> k \<Longrightarrow> k < n \<Longrightarrow> k < s - 8 \<Longrightarrow> m (q + k) = mem h1 (p + k)"
  shows "\<exists>h'. split_rest pd q (h1\<lparr>mem := m\<rparr>) = Some (q, h') \<and> reallocated h (xs @ old @ ys) p s n q h'"
proof -
  let ?bl = "xs @ old @ ys"
  have h: "heap_rep h ?bl (frees ?bl)" and sep: "separated xs" "separated ys" using i by (auto simp: heap_inv_def separated_append)
  have sp: "seg_list_ptr h1 = seg_list_ptr h" using k1 by (simp add: kept_def)
  have ne: "old \<noteq> []" using told by auto
  obtain h' where h': "split_rest pd q (h1\<lparr>mem := m\<rparr>) = Some (q, h')"
    "heap_rep h' (rest_blocks xs q nn pd ys) (frees (rest_blocks xs q nn pd ys))"
    "kept (taken (xs @ ys)) h1 h'" "\<forall>x. q \<le> x \<and> x < q + nn - 8 \<longrightarrow> mem h' x = m x"
    by (rule split_rest_ok [OF h1 q [folded sp] old nn(1,2) pd ne u tg out])
  have d: "distinct (map fst ?bl)" by (rule tile_distinct [OF heap_tile [OF h]])
  have t0: "taken ?bl - {(p, s)} = taken (xs @ ys)"
  proof -
    have "p \<in> fst ` set old" using told by (force simp: taken_def)
    then have "p \<notin> fst ` set xs" "p \<notin> fst ` set ys" using d by auto
    then have "(p, s) \<notin> taken (xs @ ys)" using taken_fst [of xs] taken_fst [of ys] by force
    then show ?thesis using told by auto
  qed
  have "q \<in> fst ` set old" using old ne by (cases old) auto
  then have "q \<notin> fst ` set xs" "q \<notin> fst ` set ys" using d by auto
  then have fresh: "q \<notin> fst ` taken (xs @ ys)" using taken_fst [of xs] taken_fst [of ys] by auto
  have "heap_inv h' (rest_blocks xs q nn pd ys)" using h'(2) rest_separated [OF sep] by (simp add: heap_inv_def)
  moreover have "kept (taken (xs @ ys)) h h'" by (rule kept_trans [OF kept_mono [OF k1] h'(3)]) auto
  moreover have "mem h' (q + k) = mem h (p + k)" if k: "0 \<le> k" "k < min n (s - 8)" for k
  proof -
    have "mem h' (q + k) = m (q + k)" using k nn h'(4) by auto
    also have "\<dots> = mem h1 (p + k)" using k by (intro con) auto
    also have "\<dots> = mem h (p + k)" using k told by (intro kept_at [OF k1, of p s]) auto
    finally show ?thesis .
  qed
  moreover have "q \<noteq> 0" using tile_le [OF q] heap_brk(2) [OF h] by simp
  ultimately have "reallocated h ?bl p s n q h'"
    unfolding reallocated_def t0 using rest_taken [of xs q nn pd ys] nn(3) fresh by blast
  then show ?thesis using h'(1) by blast
qed

lemma ALIGN_ok:
  assumes "0 < n" and "n + 15 < 2 ^ 32"
  shows "n \<le> ALIGN n" and "8 dvd ALIGN n" and "8 \<le> ALIGN n" and "ALIGN n \<le> n + 7" and "ALIGN n + 8 \<le> adjusted_size n"
proof -
  have al: "ALIGN n = n + 7 - (n + 7) mod 8"
    using assms unfolding ALIGN_def and_not_7 by (simp add: u32_def)
  have ad: "adjusted_size n = (if n \<le> 16 then 24 else n + 15 - (n + 15) mod 8)"
    using assms unfolding adjusted_size_def ALIGN_def and_not_7 by (simp add: DSIZE_def u32_def add.commute)
  define r where "r = (n + 7) mod 8"
  have r: "0 \<le> r" "r < 8" by (simp_all add: r_def)
  have "(n + 15) mod 8 = r" unfolding r_def by presburger
  then have ad': "adjusted_size n = (if n \<le> 16 then 24 else n + 15 - r)" using ad by simp
  have al': "ALIGN n = n + 7 - r" using al by (simp add: r_def)
  show d: "8 dvd ALIGN n" unfolding al by presburger
  show "n \<le> ALIGN n" "ALIGN n \<le> n + 7" using al' r by linarith+
  have "ALIGN n \<le> 16" if "n \<le> 16"
  proof -
    have "ALIGN n \<le> 23" using that al' r by linarith
    then show ?thesis using d by (auto elim!: dvdE)
  qed
  then show "ALIGN n + 8 \<le> adjusted_size n" using ad' al' by auto
  have "0 < ALIGN n" using al' r assms(1) by linarith
  then show "8 \<le> ALIGN n" using d by (auto elim!: dvdE)
qed

text \<open>The move: the new block is allocated before the old one is freed.\<close>

lemma realloc_move:
  assumes i: "heap_inv h bl" and b: "(p, s) \<in> taken bl" and n: "0 < n" "n + 15 < 2 ^ 32" and s: "s \<le> ALIGN n"
    and mv: "mm_malloc n h = Some (r, h1)"
  shows "r = 0 \<and> h1 = h \<or> (\<exists>h'. map_option (\<lambda>h. (r, h)) (mm_free p (h1\<lparr>mem := copy_bytes (mem h1) r p s\<rparr>)) = Some (r, h')
      \<and> r \<noteq> 0 \<and> reallocated h bl p s n r h')"
proof (cases "r = 0")
  case True
  then show ?thesis using inv_malloc [OF i n] mv by auto
next
  case False
  then obtain bl1 t where m: "heap_inv h1 bl1" "adjusted_size n \<le> t" "taken bl1 = insert (r, t) (taken bl)"
    "r \<notin> fst ` taken bl" "kept (taken bl) h h1" using inv_malloc [OF i n] mv by auto
  note al = ALIGN_ok [OF n]
  have h1: "heap_rep h1 bl1 (frees bl1)" using m(1) by (simp add: heap_inv_def)
  have rb: "(r, t, True) \<in> set bl1" and pb: "(p, s, True) \<in> set bl1" using m(3) b by (auto simp: taken_def)
  have pr: "p \<noteq> r" using m(4) b by force
  have s16: "16 \<le> s" by (rule heap_block(3) [OF h1 pb])
  define h2 where "h2 = h1\<lparr>mem := copy_bytes (mem h1) r p s\<rparr>"
  have w: "writes {r..<r + t - 8} h1 h2"
    unfolding h2_def by (rule writes_mem) (use s al m(2) in \<open>auto simp: copy_bytes_def\<close>)
  have i2: "heap_inv h2 bl1" using heap_payload [OF h1 rb w] m(1) by (simp add: heap_inv_def)
  have k2: "kept (taken bl1 - {(r, t)}) h1 h2" by (rule kept_payload [OF h1 rb w])
  obtain xs ys where bl1: "bl1 = xs @ (p, s, True) # ys" using split_list [OF pb] by blast
  obtain h3 where h3: "mm_free p h2 = Some h3" "heap_inv h3 (snd (merged xs p s ys))" "kept (taken (xs @ ys)) h2 h3"
    by (rule inv_free [OF i2 [unfolded bl1]])
  have d: "distinct (map fst bl1)" by (rule tile_distinct [OF heap_tile [OF h1]])
  have "(p, s) \<notin> taken (xs @ ys)" using d taken_fst [of xs] taken_fst [of ys] bl1 by (force simp: image_iff)
  then have t1: "taken (xs @ ys) = taken bl1 - {(p, s)}" using bl1 by auto
  have t2: "taken (xs @ ys) = insert (r, t) (taken bl - {(p, s)})" using t1 m(3) pr by auto
  have fresh: "r \<notin> fst ` (taken bl - {(p, s)})" using m(4) by blast
  have "kept (taken bl - {(p, s)}) h h3"
  proof (rule kept_trans [OF kept_mono [OF m(5)] kept_trans [OF kept_mono [OF k2] kept_mono [OF h3(3)]]])
    show "taken bl - {(p, s)} \<subseteq> taken bl1 - {(r, t)}" using m(3) fresh by force
    show "taken bl - {(p, s)} \<subseteq> taken (xs @ ys)" using t2 by blast
  qed blast
  moreover have "mem h3 (r + k) = mem h (p + k)" if k: "0 \<le> k" "k < min n (s - 8)" for k
  proof -
    have "mem h3 (r + k) = mem h2 (r + k)" using k m(2) al t2 by (intro kept_at [OF h3(3), of r t]) auto
    also have "\<dots> = mem h1 (p + k)" using k by (simp add: h2_def copy_bytes_def)
    also have "\<dots> = mem h (p + k)" using k by (intro kept_at [OF m(5) b]) auto
    finally show ?thesis .
  qed
  moreover have "taken (snd (merged xs p s ys)) = insert (r, t) (taken bl - {(p, s)})" using merged_taken t2 by simp
  moreover have "n + 8 \<le> t" using m(2) al by linarith
  ultimately have "reallocated h bl p s n r h3" unfolding reallocated_def using False h3(2) fresh by blast
  then show ?thesis using h3(1) False by (simp add: h2_def)
qed

lemma inv_realloc:
  assumes i: "heap_inv h bl" and b: "(p, s) \<in> taken bl" and n: "0 < n" "n + 15 < 2 ^ 32"
  shows "\<exists>r h'. mm_realloc p n h = Some (r, h') \<and> (r = 0 \<and> h' = h \<and> mm_malloc n h = Some (0, h) \<or> reallocated h bl p s n r h')"
proof -
  let ?a = "ALIGN n"
  note al = ALIGN_ok [OF n]
  have "(p, s, True) \<in> set bl" using b by (simp add: taken_def)
  then obtain xs ys where bl: "bl = xs @ (p, s, True) # ys" using split_list by metis
  have h: "heap_rep h (xs @ (p, s, True) # ys) (frees (xs @ ys))" using i bl by (auto simp: heap_inv_def)
  have pb: "(p, s, True) \<in> set (xs @ (p, s, True) # ys)" by simp
  note hp = heap_block [OF h pb]
  have tl: "tile (seg_list_ptr h + 112) xs p" "tile (p + s) ys (mem_brk (sys h))" using heap_tile [OF h] by (simp_all add: tile_mid)
  have cs: "u32 (GET_BLK_SIZE (mem h) p - DSIZE) = s - 8" using hp by (simp add: u32_def DSIZE_def)
  have p0: "p \<noteq> 0" using hp(7) by simp
  have same: "reallocated h bl p s n p h" if "?a \<le> s - 8"
  proof -
    have "taken bl = insert (p, s) (taken bl - {(p, s)})" using b by blast
    moreover have "p \<notin> fst ` (taken bl - {(p, s)})"
    proof
      assume "p \<in> fst ` (taken bl - {(p, s)})"
      then obtain x where "x \<in> taken bl" "x \<noteq> (p, s)" "fst x = p" by auto
      then obtain t where t: "(p, t, True) \<in> set bl" "t \<noteq> s" by (cases x) (simp add: taken_def)
      then have "t = s" using tile_same [OF heap_tile [OF h] _ pb] bl by blast
      then show False using t(2) by simp
    qed
    moreover have "n + 8 \<le> s" using al(1) that by simp
    ultimately show ?thesis unfolding reallocated_def using p0 i kept_refl [of "taken bl - {(p, s)}" h] by blast
  qed
  have re: "mm_realloc p n h =
      (if ?a = s - 8 then Some (p, h)
       else if ?a < s - 8
       then (let padding = s - 8 - ?a in if padding \<le> 8 then Some (p, h)
             else split_rest padding p (h\<lparr>mem := put_tags (mem h) p (PACK (?a + 8) 1)\<rparr>))
       else case grow p (s - 8) ?a h of (padding, new_ptr, h) \<Rightarrow>
          if new_ptr \<noteq> 0 then split_rest padding new_ptr h
          else (case mm_malloc n h of None \<Rightarrow> None
                | Some (new_ptr, h) \<Rightarrow> if new_ptr = 0 then Some (0, h)
                    else map_option (\<lambda>h. (new_ptr, h)) (mm_free p (h\<lparr>mem := copy_bytes (mem h) new_ptr p s\<rparr>))))"
    unfolding mm_realloc_def Let_def cs unfolding DSIZE_def diff_add_cancel using p0 n(1) by simp
  have i1: "heap_inv h (xs @ [(p, s, True)] @ ys)" using i bl by simp
  consider (keep) "?a = s - 8 \<or> ?a < s - 8 \<and> s - 8 - ?a \<le> 8" | (shrink) "8 < s - 8 - ?a"
    | (prev) "s - 8 < ?a" "prev_free xs" "?a \<le> size_before xs + (s - 8)"
    | (nxt) "s - 8 < ?a" "\<not> prev_free xs" "next_free ys" "?a \<le> size_behind ys + (s - 8)"
    | (both) "s - 8 < ?a" "prev_free xs" "next_free ys" "size_before xs + (s - 8) < ?a" "?a \<le> size_before xs + size_behind ys + (s - 8)"
    | (move) "s - 8 < ?a" "size_before xs + size_behind ys + (s - 8) < ?a"
    unfolding size_before_def size_behind_def by (cases "prev_free xs"; cases "next_free ys") (simp_all, linarith+)
  then show ?thesis
  proof cases
    case keep
    then have "mm_realloc p n h = Some (p, h)" unfolding re by (auto simp: Let_def)
    then show ?thesis using same keep by auto
  next
    case shrink
    let ?m = "put_tags (mem h) p (tag (?a + 8) True)"
    have a8: "8 dvd ?a + 8" "16 \<le> ?a + 8" "?a + 8 < 2 ^ 31" using al(2,3) hp(6) shrink by simp_all
    have "8 dvd s - 8 - ?a" using hp(4) al(2) by presburger
    then have pd: "if 8 < s - 8 - ?a then ?a + 8 + (s - 8 - ?a) = s \<and> 8 dvd s - 8 - ?a else ?a + 8 = s" using shrink by simp
    have "\<exists>h'. split_rest (s - 8 - ?a) p (h\<lparr>mem := ?m\<rparr>) = Some (p, h') \<and> reallocated h (xs @ [(p, s, True)] @ ys) p s n p h'"
    proof (rule finish_realloc [OF i1 _ _ kept_refl tl(1) _ a8(1,2) _ pd])
      show "tags_ok ?m [(p, ?a + 8, True)]" by (rule one_block_tags(1) [OF a8])
      show "?m x = mem h x" if "x < p - 4 \<or> p + s - 4 \<le> x" for x using that shrink by (intro one_block_tags(2) [OF a8]) auto
      show "?m (p + k) = mem h (p + k)" if "0 \<le> k" "k < n" "k < s - 8" for k
        using that al(1) a8 by (intro put_tags_tag(3)) auto
    qed (use h hp al in auto)
    then show ?thesis unfolding re using shrink PACK_tag(2) [OF a8(1)] bl by (auto simp: Let_def)
  next
    case prev
    obtain zs q t where xs: "xs = zs @ [(q, t, False)]" using prev(2) by (rule prev_freeE)
    have sb: "size_before xs = t" using xs by (simp add: size_before_def)
    have as: "s \<le> ?a" using prev(1) hp(4) al(2) by (auto elim!: dvdE)
    have at: "?a \<le> t + (s - 8)" using prev(3) sb by simp
    have qb: "(q, t, False) \<in> set (xs @ (p, s, True) # ys)" using xs by simp
    note hq = heap_block [OF h qb]
    have pq: "p = q + t" "tile (seg_list_ptr h + 112) zs q" using tl(1) xs by (simp_all add: tile_last)
    define pd where "pd = s - 8 + t - ?a"
    define nn where "nn = (if 8 < pd then ?a + 8 else s + t)"
    define h1 where "h1 = remove_seglist q h"
    have g: "grow p (s - 8) ?a h = (pd, q, h1\<lparr>mem := moved_mem (mem h1) q p s nn\<rparr>)"
      using grow_prev [OF h xs at as al(2)] by (simp add: pd_def nn_def h1_def)
    have i2: "heap_inv h (zs @ [(q, t, False), (p, s, True)] @ ys)" using i bl xs by simp
    have h2: "heap_rep h (zs @ [(q, t, False), (p, s, True)] @ ys) (frees (xs @ ys))" using h xs by simp
    have qF: "q \<in> frees (xs @ ys)" using xs by simp
    have d: "distinct (map fst (zs @ [(q, t, False), (p, s, True)] @ ys))" by (rule tile_distinct [OF heap_tile [OF h2]])
    then have "frees (xs @ ys) - {q} = frees (zs @ ys)" using xs frees_fst [of zs] frees_fst [of ys] by auto
    then have r1: "heap_rep h1 (zs @ [(q, t, False), (p, s, True)] @ ys) (frees (zs @ ys))"
      and k1: "kept (taken (zs @ [(q, t, False), (p, s, True)] @ ys)) h h1"
      using remove_kept(1,2) [OF h2 qF] by (simp_all add: h1_def)
    have dd: "8 dvd pd" using hp(4) hq(4) al(2) unfolding pd_def by presburger
    have nn: "8 dvd nn" "s + 8 \<le> nn" "nn < 2 ^ 31" "0 \<le> s" using hp hq al at as by (auto simp: nn_def pd_def)
    have pc: "if 8 < pd then nn + pd = t + s \<and> 8 dvd pd else nn = t + s" using dd by (simp add: nn_def pd_def)
    have "nn \<le> t + s" using at by (simp add: nn_def pd_def)
    moreover have "n + 8 \<le> nn" using al at by (simp add: nn_def pd_def)
    ultimately have le: "nn \<le> t + s" "n + 8 \<le> nn" .
    have qp: "q \<le> p" "16 \<le> nn" using pq(1) hq(3) hp(3) nn(2) by linarith+
    have "\<exists>h'. split_rest pd q (h1\<lparr>mem := moved_mem (mem h1) q p s nn\<rparr>) = Some (q, h') \<and>
        reallocated h (zs @ [(q, t, False), (p, s, True)] @ ys) p s n q h'"
    proof (rule finish_realloc [OF i2 _ r1 k1 pq(2) _ nn(1) qp(2) le(2) pc])
      show "tags_ok (moved_mem (mem h1) q p s nn) [(q, nn, True)]" by (rule moved_mem_ok(2) [OF nn qp(1)])
      show "moved_mem (mem h1) q p s nn x = mem h1 x" if "x < q - 4 \<or> q + (t + s) - 4 \<le> x" for x
        by (rule moved_mem_ok(3) [OF nn qp(1)]) (use that le(1) in linarith)
      show "moved_mem (mem h1) q p s nn (q + k) = mem h1 (p + k)" if "0 \<le> k" "k < n" "k < s - 8" for k
        by (rule moved_mem_ok(4) [OF nn qp(1)]) (use that in simp_all)
      show "tile q [(q, t, False), (p, s, True)] (q + (t + s))" using hp(3,4) hq(3,4) pq(1) by simp
      show "t + s < 2 ^ 31" using hp(6) hq(6) by simp
    qed simp
    moreover have "q \<noteq> 0" using hq(7) by simp
    ultimately show ?thesis unfolding re using prev(1) g bl xs by auto
  next
    case nxt
    obtain zs q t where ys: "ys = (q, t, False) # zs" using nxt(3) by (rule next_freeE)
    have sb: "size_behind ys = t" using ys by (simp add: size_behind_def)
    have as: "s \<le> ?a" using nxt(1) hp(4) al(2) by (auto elim!: dvdE)
    have at: "?a \<le> t + (s - 8)" using nxt(4) sb by simp
    have qb: "(q, t, False) \<in> set (xs @ (p, s, True) # ys)" using ys by simp
    note hq = heap_block [OF h qb]
    have pq: "q = p + s" using next_block(3) [OF h ys] by simp
    define pd where "pd = s - 8 + t - ?a"
    define nn where "nn = (if 8 < pd then ?a + 8 else s + t)"
    define h1 where "h1 = remove_seglist q h"
    have g: "grow p (s - 8) ?a h = (pd, p, h1\<lparr>mem := put_tags (mem h1) p (tag nn True)\<rparr>)"
      using grow_next [OF h nxt(2) ys at as al(2)] by (simp add: pd_def nn_def h1_def)
    have i2: "heap_inv h (xs @ [(p, s, True), (q, t, False)] @ zs)" using i bl ys by simp
    have h2: "heap_rep h (xs @ [(p, s, True), (q, t, False)] @ zs) (frees (xs @ ys))" using h ys by simp
    have qF: "q \<in> frees (xs @ ys)" using ys by simp
    have d: "distinct (map fst (xs @ [(p, s, True), (q, t, False)] @ zs))" by (rule tile_distinct [OF heap_tile [OF h2]])
    then have "frees (xs @ ys) - {q} = frees (xs @ zs)" using ys frees_fst [of xs] frees_fst [of zs] by auto
    then have r1: "heap_rep h1 (xs @ [(p, s, True), (q, t, False)] @ zs) (frees (xs @ zs))"
      and k1: "kept (taken (xs @ [(p, s, True), (q, t, False)] @ zs)) h h1"
      using remove_kept(1,2) [OF h2 qF] by (simp_all add: h1_def)
    have dd: "8 dvd pd" using hp(4) hq(4) al(2) unfolding pd_def by presburger
    have nn: "8 dvd nn" "16 \<le> nn" "nn < 2 ^ 31" "s + 8 \<le> nn" using hp hq al at as by (auto simp: nn_def pd_def)
    have pc: "if 8 < pd then nn + pd = s + t \<and> 8 dvd pd else nn = s + t" using dd by (simp add: nn_def pd_def)
    have le: "nn \<le> s + t" "n + 8 \<le> nn" using at al by (simp_all add: nn_def pd_def)
    have "\<exists>h'. split_rest pd p (h1\<lparr>mem := put_tags (mem h1) p (tag nn True)\<rparr>) = Some (p, h') \<and>
        reallocated h (xs @ [(p, s, True), (q, t, False)] @ zs) p s n p h'"
    proof (rule finish_realloc [OF i2 _ r1 k1 tl(1) _ nn(1,2) le(2) pc])
      show "tags_ok (put_tags (mem h1) p (tag nn True)) [(p, nn, True)]" by (rule one_block_tags(1) [OF nn(1-3)])
      show "put_tags (mem h1) p (tag nn True) x = mem h1 x" if "x < p - 4 \<or> p + (s + t) - 4 \<le> x" for x
        using that le by (intro one_block_tags(2) [OF nn(1-3)]) auto
      show "put_tags (mem h1) p (tag nn True) (p + k) = mem h1 (p + k)" if "0 \<le> k" "k < n" "k < s - 8" for k
        using that nn by (intro put_tags_tag(3)) auto
    qed (use hp hq pq in auto)
    then show ?thesis unfolding re using nxt(1) g bl ys p0 by auto
  next
    case both
    obtain zs q t where xs: "xs = zs @ [(q, t, False)]" using both(2) by (rule prev_freeE)
    obtain ws q2 t2 where ys: "ys = (q2, t2, False) # ws" using both(3) by (rule next_freeE)
    have sb: "size_before xs = t" "size_behind ys = t2" using xs ys by (simp_all add: size_before_def size_behind_def)
    have as: "s \<le> ?a" using both(1) hp(4) al(2) by (auto elim!: dvdE)
    have at: "t + (s - 8) < ?a" "?a \<le> t + t2 + (s - 8)" using both(4,5) sb by simp_all
    have qb: "(q, t, False) \<in> set (xs @ (p, s, True) # ys)" and q2b: "(q2, t2, False) \<in> set (xs @ (p, s, True) # ys)" using xs ys by simp_all
    note hq = heap_block [OF h qb] and hq2 = heap_block [OF h q2b]
    have pq: "p = q + t" "tile (seg_list_ptr h + 112) zs q" using tl(1) xs by (simp_all add: tile_last)
    have pq2: "q2 = p + s" using next_block(3) [OF h ys] by simp
    define pd where "pd = s - 8 + t + t2 - ?a"
    define nn where "nn = (if 8 < pd then ?a + 8 else s + t + t2)"
    define h1 where "h1 = remove_seglist q2 h"
    define h2 where "h2 = remove_seglist q h1"
    have g: "grow p (s - 8) ?a h = (pd, q, h2\<lparr>mem := moved_mem (mem h2) q p s nn\<rparr>)"
      using grow_both [OF h xs ys at as al(2)] by (simp add: pd_def nn_def h1_def h2_def)
    let ?bl = "zs @ [(q, t, False), (p, s, True), (q2, t2, False)] @ ws"
    have i2: "heap_inv h ?bl" using i bl xs ys by simp
    have r0: "heap_rep h ?bl (frees (xs @ ys))" using h xs ys by simp
    have d: "distinct (map fst ?bl)" by (rule tile_distinct [OF heap_tile [OF r0]])
    have q2F: "q2 \<in> frees (xs @ ys)" using ys by simp
    have "frees (xs @ ys) - {q2} = frees (xs @ ws)" using d xs ys frees_fst [of zs] frees_fst [of ws] by auto
    then have r1: "heap_rep h1 ?bl (frees (xs @ ws))" and k1: "kept (taken ?bl) h h1"
      using remove_kept(1,2) [OF r0 q2F] by (simp_all add: h1_def)
    have qF: "q \<in> frees (xs @ ws)" using xs by simp
    have "frees (xs @ ws) - {q} = frees (zs @ ws)" using d xs ys frees_fst [of zs] frees_fst [of ws] by auto
    then have r2: "heap_rep h2 ?bl (frees (zs @ ws))" and k2: "kept (taken ?bl) h1 h2"
      using remove_kept(1,2) [OF r1 qF] by (simp_all add: h2_def)
    have dd: "8 dvd pd" using hp(4) hq(4) hq2(4) al(2) unfolding pd_def by presburger
    have nn: "8 dvd nn" "s + 8 \<le> nn" "nn < 2 ^ 31" "0 \<le> s" using hp hq hq2 al at as by (auto simp: nn_def pd_def)
    have pc: "if 8 < pd then nn + pd = t + s + t2 \<and> 8 dvd pd else nn = t + s + t2" using dd by (simp add: nn_def pd_def)
    have le: "nn \<le> t + s + t2" "n + 8 \<le> nn" using at al by (simp_all add: nn_def pd_def)
    have qp: "q \<le> p" "16 \<le> nn" using pq(1) hq(3) hp(3) nn(2) by linarith+
    have "\<exists>h'. split_rest pd q (h2\<lparr>mem := moved_mem (mem h2) q p s nn\<rparr>) = Some (q, h') \<and> reallocated h ?bl p s n q h'"
    proof (rule finish_realloc [OF i2 _ r2 kept_trans [OF k1 k2] pq(2) _ nn(1) qp(2) le(2) pc])
      show "tags_ok (moved_mem (mem h2) q p s nn) [(q, nn, True)]" by (rule moved_mem_ok(2) [OF nn qp(1)])
      show "moved_mem (mem h2) q p s nn x = mem h2 x" if "x < q - 4 \<or> q + (t + s + t2) - 4 \<le> x" for x
        by (rule moved_mem_ok(3) [OF nn qp(1)]) (use that le(1) in linarith)
      show "moved_mem (mem h2) q p s nn (q + k) = mem h2 (p + k)" if "0 \<le> k" "k < n" "k < s - 8" for k
        by (rule moved_mem_ok(4) [OF nn qp(1)]) (use that in simp_all)
      show "tile q [(q, t, False), (p, s, True), (q2, t2, False)] (q + (t + s + t2))"
        using hp(3,4) hq(3,4) hq2(3,4) pq(1) pq2 by simp
      show "t + s + t2 < 2 ^ 31" using hp(6) hq(6) hq2(6) by simp
    qed simp
    moreover have "q \<noteq> 0" using hq(7) by simp
    ultimately show ?thesis unfolding re using both(1) g bl xs ys by auto
  next
    case move
    have g: "grow p (s - 8) ?a h = (0, 0, h)" by (rule grow_none [OF h move(2)])
    have as: "s \<le> ?a" using move(1) hp(4) al(2) by (auto elim!: dvdE)
    obtain r h1 where mv: "mm_malloc n h = Some (r, h1)" using inv_malloc [OF i n] by blast
    show ?thesis using realloc_move [OF i b n as mv] g mv move(1) unfolding re by auto
  qed
qed

end
