(* ===== verification/Allocator.thy ===== *)
theory Allocator
  imports Heap_Memory
begin

text \<open>
  The interface of \<open>mm.h\<close>: what a client may expect of an allocator that works on the simulated
  memory, whichever of the two implementations is linked. \<open>live h T\<close> says that \<open>T\<close> is the set of
  allocated blocks, each with its address and the number of bytes the client may use; \<open>cost n\<close>
  bounds the growth of the heap by a request of \<open>n\<close> bytes, \<open>reserve\<close> by \<open>mm_init\<close>.
\<close>

locale allocator =
  fixes m_init :: "'a machine_scheme \<Rightarrow> (int \<times> 'a machine_scheme) option"
    and m_malloc :: "int \<Rightarrow> 'a machine_scheme \<Rightarrow> (int \<times> 'a machine_scheme) option"
    and m_realloc :: "int \<Rightarrow> int \<Rightarrow> 'a machine_scheme \<Rightarrow> (int \<times> 'a machine_scheme) option"
    and m_free :: "int \<Rightarrow> 'a machine_scheme \<Rightarrow> 'a machine_scheme option"
    and live :: "'a machine_scheme \<Rightarrow> (int \<times> int) set \<Rightarrow> bool"
    and cost :: "int \<Rightarrow> int" and reserve :: int
  assumes init_ok: "fresh_heap h \<Longrightarrow> \<exists>h'. m_init h = Some (0, h') \<and> live h' {} \<and> grows reserve h h'"
    and cost_pos: "0 \<le> cost n"
    and live_block: "live h T \<Longrightarrow> (p, t) \<in> T \<Longrightarrow>
        0 < t \<and> 0 < p \<and> 8 dvd p \<and> mem_start_brk (sys h) \<le> p \<and> p + t \<le> mem_brk (sys h)"
    and live_apart: "live h T \<Longrightarrow> (p, t) \<in> T \<Longrightarrow> (q, u) \<in> T \<Longrightarrow> (p, t) = (q, u) \<or> p + t \<le> q \<or> q + u \<le> p"
    and live_write: "live h T \<Longrightarrow> (p, t) \<in> T \<Longrightarrow> (\<And>x. x < p \<or> p + t \<le> x \<Longrightarrow> m x = mem h x) \<Longrightarrow> live (h\<lparr>mem := m\<rparr>) T"
    and malloc_ok: "live h T \<Longrightarrow> 0 < n \<Longrightarrow> n < 2 ^ 31 \<Longrightarrow> \<exists>p h'. m_malloc n h = Some (p, h') \<and>
        (p = 0 \<and> h' = h \<and> \<not> room h (cost n)
         \<or> p \<noteq> 0 \<and> (\<exists>t. n \<le> t \<and> live h' (insert (p, t) T)) \<and> p \<notin> fst ` T \<and> same_at T h h' \<and> grows (cost n) h h')"
    and realloc_ok: "live h T \<Longrightarrow> (p, t) \<in> T \<Longrightarrow> 0 < n \<Longrightarrow> n < 2 ^ 31 \<Longrightarrow> \<exists>q h'. m_realloc p n h = Some (q, h') \<and>
        (q = 0 \<and> h' = h \<and> \<not> room h (cost n)
         \<or> q \<noteq> 0 \<and> (\<exists>u. n \<le> u \<and> live h' (insert (q, u) (T - {(p, t)}))) \<and> q \<notin> fst ` (T - {(p, t)})
           \<and> same_at (T - {(p, t)}) h h' \<and> grows (cost n) h h'
           \<and> (\<forall>k. 0 \<le> k \<and> k < min n t \<longrightarrow> mem h' (q + k) = mem h (p + k)))"
    and free_ok: "live h T \<Longrightarrow> (p, t) \<in> T \<Longrightarrow>
        \<exists>h'. m_free p h = Some h' \<and> live h' (T - {(p, t)}) \<and> same_at (T - {(p, t)}) h h' \<and> grows 0 h h'"

end
