(* ===== verification/Mm_Interface.thy ===== *)
theory Mm_Interface
  imports Mm_Realloc Allocator
begin

text \<open>
  The segregated-list allocator keeps the contract of \<open>Allocator\<close>, and the properties of its
  interface functions.
\<close>

section \<open>The break\<close>

text \<open>Only \<open>extend_heap\<close> moves the break.\<close>

lemma remove_seglist_sys: "sys (remove_seglist q h) = sys h"
  by (simp add: remove_seglist_def Let_def case_prod_unfold)

lemma add_seglist_sys: "add_seglist q s h = Some h' \<Longrightarrow> sys h' = sys h"
  by (auto simp: add_seglist_def Let_def case_prod_unfold split: option.splits)

lemma coalesce_sys:
  assumes "coalesce q h = Some (p, h')"
  shows "sys h' = sys h"
proof (cases "GET_ALLOC (mem h) (HDRP (PREV_BLKP (mem h) q)) \<noteq> 0 \<and> GET_ALLOC (mem h) (HDRP (NEXT_BLKP (mem h) q)) \<noteq> 0")
  case False
  then show ?thesis using assms
    by (auto simp: coalesce_def Let_def remove_seglist_sys dest!: add_seglist_sys split: if_splits)
qed (use assms in \<open>simp add: coalesce_def Let_def\<close>)

lemma place_sys: "place q n h = Some (p, h') \<Longrightarrow> sys h' = sys h"
  by (auto simp: place_def Let_def remove_seglist_sys dest!: add_seglist_sys split: if_splits)

lemma extend_heap_grows:
  assumes "extend_heap w h = Some (p, h')"
  shows "grows (u32 (if w mod 2 \<noteq> 0 then (w + 1) * WSIZE else w * WSIZE)) h h'"
proof -
  define sz where "sz = u32 (if w mod 2 \<noteq> 0 then (w + 1) * WSIZE else w * WSIZE)"
  have sz: "0 \<le> sz" by (simp add: sz_def u32_def)
  obtain q h1 where q: "sbrk sz h = (q, h1)" by (cases "sbrk sz h")
  have g: "grows sz h h1"
    using q sz by (auto simp: sbrk_def mem_sbrk_def to_int_def grows_def split: if_splits)
  have "sys h' = sys h1"
    using assms [unfolded extend_heap_def sz_def [symmetric]] q
    by (auto simp: Let_def dest!: coalesce_sys add_seglist_sys split: if_splits bind_splits)
  then show ?thesis using g by (simp add: grows_def sz_def)
qed

lemma mm_malloc_grows:
  assumes n: "0 < n" "n + 15 < 2 ^ 32" and m: "mm_malloc n h = Some (p, h')"
  shows "grows (max (adjusted_size n) 4096) h h'"
proof -
  define a where "a = max (adjusted_size n) 4096"
  have a: "0 \<le> a" "a < 2 ^ 32" "8 dvd a" using adjusted_size_ok [OF n] by (simp_all add: a_def max_def)
  then have w: "u32 (if a div 4 mod 2 \<noteq> 0 then (a div 4 + 1) * WSIZE else a div 4 * WSIZE) = a"
  proof -
    have "a div 4 mod 2 = 0" "a div 4 * 4 = a" using a(3) by presburger+
    then show ?thesis using a by (simp add: WSIZE_def u32_def)
  qed
  obtain r where r: "find_fit (mem h) (seg_list_ptr h) (adjusted_size n) (adjusted_size n) 0 = Some r"
    using m n by (auto simp: mm_malloc_def Let_def split: option.splits)
  show ?thesis
  proof (cases "r = 0")
    case False
    then have "place r (adjusted_size n) h = Some (p, h')" using m n r by (simp add: mm_malloc_def Let_def)
    then have "sys h' = sys h" by (rule place_sys)
    then show ?thesis using grows_same a(1) by (simp add: a_def)
  next
    case True
    then obtain q h1 where e: "extend_heap (a div 4) h = Some (q, h1)"
      and pl: "if q = 0 then p = 0 \<and> h' = h1 else place q (adjusted_size n) h1 = Some (p, h')"
      using m n r by (auto simp: mm_malloc_def Let_def a_def DCHUNKSIZE_def WSIZE_def split: option.splits if_splits)
    have "sys h' = sys h1" using pl place_sys by (auto split: if_splits)
    then show ?thesis using extend_heap_grows [OF e] w by (simp add: grows_def a_def)
  qed
qed

lemma mm_free_sys: "mm_free p h = Some h' \<Longrightarrow> sys h' = sys h"
  by (auto simp: mm_free_def Let_def dest!: coalesce_sys add_seglist_sys split: bind_splits)

lemma grow_sys: "grow p c a h = (pd, q, h') \<Longrightarrow> sys h' = sys h"
  by (auto simp: grow_def Let_def remove_seglist_sys split: if_splits)

lemma split_rest_sys: "split_rest pd q h = Some (r, h') \<Longrightarrow> sys h' = sys h"
  by (auto simp: split_rest_def Let_def dest!: coalesce_sys add_seglist_sys split: if_splits bind_splits)

lemma mm_realloc_grows:
  assumes n: "0 < n" "n + 15 < 2 ^ 32" and p: "p \<noteq> 0" and r: "mm_realloc p n h = Some (r, h')"
  shows "grows (max (adjusted_size n) 4096) h h'"
proof -
  define cs where "cs = u32 (GET_BLK_SIZE (mem h) p - DSIZE)"
  have z: "grows (max (adjusted_size n) 4096) h k" if "sys k = sys h" for k
    using that by (intro grows_same) simp_all
  obtain pd q h1 where g: "grow p cs (ALIGN n) h = (pd, q, h1)" by (cases "grow p cs (ALIGN n) h") auto
  note g1 = grow_sys [OF g]
  consider "h' = h" | (split) pd' p' m where "split_rest pd' p' (h\<lparr>mem := m\<rparr>) = Some (r, h')"
    | (grown) "split_rest pd q h1 = Some (r, h')"
    | (fresh) r1 h2 where "mm_malloc n h1 = Some (r1, h2)" "h' = h2 \<or> (\<exists>m. mm_free p (h2\<lparr>mem := m\<rparr>) = Some h')"
    using r p n g unfolding mm_realloc_def cs_def [symmetric] Let_def by (auto split: if_splits option.splits) blast
  then show ?thesis
  proof cases
    case split
    then show ?thesis using split_rest_sys z by fastforce
  next
    case grown
    then show ?thesis using split_rest_sys g1 z by metis
  next
    case fresh
    have "sys h' = sys h2" using fresh(2) mm_free_sys by fastforce
    then show ?thesis using mm_malloc_grows [OF n fresh(1)] g1 by (simp add: grows_def)
  qed (simp add: z)
qed

section \<open>The contract\<close>

definition payloads :: "block list \<Rightarrow> (int \<times> int) set" where
  "payloads bl = (\<lambda>(p, t). (p, t - 8)) ` taken bl"

definition mm_live :: "heap \<Rightarrow> (int \<times> int) set \<Rightarrow> bool" where
  "mm_live h T \<longleftrightarrow> (\<exists>bl. heap_inv h bl \<and> T = payloads bl)"

definition mm_cost :: "int \<Rightarrow> int" where
  "mm_cost n = (if 0 < n \<and> n + 15 < 2 ^ 32 then max (adjusted_size n) 4096 else 2 ^ 32)"

lemma payloads_image: "(\<lambda>(p, t). (p, t - 8)) ` insert (p, t) S = insert (p, t - (8 :: int)) ((\<lambda>(p, t). (p, t - 8)) ` S)"
  by auto

lemma payloads_diff:
  "(\<lambda>(p, t). (p, t - (8 :: int))) ` (S - {(p, t)}) = (\<lambda>(p, t). (p, t - 8)) ` S - {(p, t - 8)}"
  by (auto simp: image_iff)

lemma payloads_fst: "fst ` (\<lambda>(p, t). (p, t - (8 :: int))) ` S = fst ` S"
  by (force simp: image_iff)

lemma kept_same_at: "kept S h h' \<Longrightarrow> same_at ((\<lambda>(p, t). (p, t - 8)) ` S) h h'"
  by (fastforce simp: kept_def same_at_def)

lemma inv_payload:
  assumes i: "heap_inv h bl" and p: "(p, t) \<in> payloads bl"
  shows "(p, t + 8, True) \<in> set bl" and "0 < t" and "0 < p" and "8 dvd p" and "mem_start_brk (sys h) \<le> p" and "p + t \<le> mem_brk (sys h)"
proof -
  have h: "heap_rep h bl (frees bl)" using i by (simp add: heap_inv_def)
  show b: "(p, t + 8, True) \<in> set bl" using p by (auto simp: payloads_def taken_def)
  have "mem_start_brk (sys h) = seg_list_ptr h" using h by (simp add: heap_rep_def)
  then show "0 < t" "0 < p" "8 dvd p" "mem_start_brk (sys h) \<le> p" "p + t \<le> mem_brk (sys h)"
    using heap_block(1,2,3,5,7) [OF h b] by simp_all
qed

interpretation mm: allocator mm_init mm_malloc mm_realloc mm_free mm_live mm_cost 176
proof unfold_locales
  fix h :: heap assume f: "fresh_heap h"
  obtain h' where h': "mm_init h = Some (0, h')" "heap_inv h' [(mem_start_brk (sys h) + 112, 64, False)]"
    "seg_list_ptr h' = mem_start_brk (sys h)" by (rule inv_init [OF f])
  then have r: "heap_rep h' [(mem_start_brk (sys h) + 112, 64, False)] {mem_start_brk (sys h) + 112}" by (simp add: heap_inv_def)
  then have "grows 176 h h'" using f h'(3) heap_tile [OF r] by (simp add: grows_def fresh_heap_def heap_rep_def)
  moreover have "mm_live h' {}" using h'(2) by (auto simp: mm_live_def payloads_def intro!: exI)
  ultimately show "\<exists>h'. mm_init h = Some (0, h') \<and> mm_live h' {} \<and> grows 176 h h'" using h'(1) by blast
next
  fix n show "0 \<le> mm_cost n" by (simp add: mm_cost_def max_def)
next
  fix h :: heap and T p t assume l: "mm_live h T" "(p, t) \<in> T"
  then obtain bl where i: "heap_inv h bl" and T: "(p, t) \<in> payloads bl" by (auto simp: mm_live_def)
  show "0 < t \<and> 0 < p \<and> 8 dvd p \<and> mem_start_brk (sys h) \<le> p \<and> p + t \<le> mem_brk (sys h)"
    by (intro conjI inv_payload [OF i T])
next
  fix h :: heap and T p t q u assume l: "mm_live h T" "(p, t) \<in> T" "(q, u) \<in> T"
  then obtain bl where i: "heap_inv h bl" and T: "T = payloads bl" by (auto simp: mm_live_def)
  have h: "heap_rep h bl (frees bl)" using i by (simp add: heap_inv_def)
  show "(p, t) = (q, u) \<or> p + t \<le> q \<or> q + u \<le> p"
    using tile_apart [OF heap_tile [OF h] inv_payload(1) [OF i] inv_payload(1) [OF i], of p t q u] l T by auto
next
  fix h :: heap and T p t m assume l: "mm_live h T" "(p, t) \<in> T" and m: "\<And>x. x < p \<or> p + t \<le> x \<Longrightarrow> m x = mem h x"
  then obtain bl where i: "heap_inv h bl" and T: "T = payloads bl" by (auto simp: mm_live_def)
  have h: "heap_rep h bl (frees bl)" and s: "separated bl" using i by (simp_all add: heap_inv_def)
  have pb: "(p, t + 8, True) \<in> set bl" using inv_payload(1) [OF i] l T by simp
  have "writes {p..<p + (t + 8) - 8} h (h\<lparr>mem := m\<rparr>)" by (rule writes_mem) (use m in auto)
  then have "heap_rep (h\<lparr>mem := m\<rparr>) bl (frees bl)" by (rule heap_payload [OF h pb])
  then show "mm_live (h\<lparr>mem := m\<rparr>) T" using s T by (auto simp: mm_live_def heap_inv_def)
next
  fix h :: heap and T n assume l: "mm_live h T" and n: "0 < n" "n < (2 :: int) ^ 31"
  then obtain bl where i: "heap_inv h bl" and T: "T = payloads bl" by (auto simp: mm_live_def)
  have n': "n + 15 < 2 ^ 32" using n(2) by simp
  have c: "mm_cost n = max (adjusted_size n) 4096" using n(1) n' by (simp add: mm_cost_def)
  obtain p h' where m: "mm_malloc n h = Some (p, h')" and d: "p = 0 \<and> h' = h \<and> \<not> room h (max (adjusted_size n) 4096)
      \<or> p \<noteq> 0 \<and> (\<exists>bl' t. heap_inv h' bl' \<and> adjusted_size n \<le> t \<and> taken bl' = insert (p, t) (taken bl) \<and>
          p \<notin> fst ` taken bl \<and> kept (taken bl) h h')" using inv_malloc [OF i n(1) n'] by blast
  show "\<exists>p h'. mm_malloc n h = Some (p, h') \<and>
        (p = 0 \<and> h' = h \<and> \<not> room h (mm_cost n)
         \<or> p \<noteq> 0 \<and> (\<exists>t. n \<le> t \<and> mm_live h' (insert (p, t) T)) \<and> p \<notin> fst ` T \<and> same_at T h h' \<and> grows (mm_cost n) h h')"
  proof (cases "p = 0")
    case False
    then obtain bl' t where b: "heap_inv h' bl'" "adjusted_size n \<le> t" "taken bl' = insert (p, t) (taken bl)"
      "p \<notin> fst ` taken bl" "kept (taken bl) h h'" using d by blast
    have "payloads bl' = insert (p, t - 8) T" using b(3) T by (simp add: payloads_def payloads_image)
    then have "mm_live h' (insert (p, t - 8) T)" using b(1) by (auto simp: mm_live_def)
    moreover have "n \<le> t - 8" using adjusted_size_ok(1) [OF n(1) n'] b(2) by simp
    moreover have "p \<notin> fst ` T" using b(4) T by (simp add: payloads_def payloads_fst)
    moreover have "same_at T h h'" using kept_same_at [OF b(5)] T by (simp add: payloads_def)
    ultimately show ?thesis using m False mm_malloc_grows [OF n(1) n' m] c by metis
  qed (use m d c in auto)
next
  fix h :: heap and T p t n assume l: "mm_live h T" "(p, t) \<in> T" and n: "0 < n" "n < (2 :: int) ^ 31"
  then obtain bl where i: "heap_inv h bl" and T: "T = payloads bl" by (auto simp: mm_live_def)
  have n': "n + 15 < 2 ^ 32" using n(2) by simp
  have c: "mm_cost n = max (adjusted_size n) 4096" using n(1) n' by (simp add: mm_cost_def)
  have pb: "(p, t + 8) \<in> taken bl" using inv_payload(1) [OF i] l T by (simp add: taken_def)
  obtain q h' where m: "mm_realloc p n h = Some (q, h')" and d: "q = 0 \<and> h' = h \<and> mm_malloc n h = Some (0, h)
      \<or> reallocated h bl p (t + 8) n q h'" using inv_realloc [OF i pb n(1) n'] by blast
  have TD: "T - {(p, t)} = (\<lambda>(p, t). (p, t - 8)) ` (taken bl - {(p, t + 8)})"
    using payloads_diff [of "taken bl" p "t + 8"] T by (simp add: payloads_def)
  show "\<exists>q h'. mm_realloc p n h = Some (q, h') \<and>
        (q = 0 \<and> h' = h \<and> \<not> room h (mm_cost n)
         \<or> q \<noteq> 0 \<and> (\<exists>u. n \<le> u \<and> mm_live h' (insert (q, u) (T - {(p, t)}))) \<and> q \<notin> fst ` (T - {(p, t)})
           \<and> same_at (T - {(p, t)}) h h' \<and> grows (mm_cost n) h h'
           \<and> (\<forall>k. 0 \<le> k \<and> k < min n t \<longrightarrow> mem h' (q + k) = mem h (p + k)))"
    using d
  proof
    assume "q = 0 \<and> h' = h \<and> mm_malloc n h = Some (0, h)"
    moreover from this have "\<not> room h (max (adjusted_size n) 4096)" using inv_malloc [OF i n(1) n'] by auto
    ultimately show ?thesis using m c by auto
  next
    assume "reallocated h bl p (t + 8) n q h'"
    then obtain bl' u where b: "q \<noteq> 0" "heap_inv h' bl'" "n + 8 \<le> u" "taken bl' = insert (q, u) (taken bl - {(p, t + 8)})"
      "q \<notin> fst ` (taken bl - {(p, t + 8)})" "kept (taken bl - {(p, t + 8)}) h h'"
      "\<forall>k. 0 \<le> k \<and> k < min n (t + 8 - 8) \<longrightarrow> mem h' (q + k) = mem h (p + k)" unfolding reallocated_def by blast
    have "payloads bl' = insert (q, u - 8) (T - {(p, t)})" using b(4) TD by (simp add: payloads_def payloads_image)
    then have "mm_live h' (insert (q, u - 8) (T - {(p, t)}))" using b(2) by (auto simp: mm_live_def)
    moreover have "n \<le> u - 8" using b(3) by simp
    moreover have "q \<notin> fst ` (T - {(p, t)})" unfolding TD payloads_fst by (rule b(5))
    moreover have "same_at (T - {(p, t)}) h h'" unfolding TD by (rule kept_same_at [OF b(6)])
    moreover have "p \<noteq> 0" using inv_payload(3) [OF i] l T by auto
    then have "grows (mm_cost n) h h'" using mm_realloc_grows [OF n(1) n' _ m] c by simp
    ultimately show ?thesis using m b(1,7) by auto
  qed
next
  fix h :: heap and T p t assume l: "mm_live h T" "(p, t) \<in> T"
  then obtain bl where i: "heap_inv h bl" and T: "T = payloads bl" by (auto simp: mm_live_def)
  have h: "heap_rep h bl (frees bl)" using i by (simp add: heap_inv_def)
  have pb: "(p, t + 8, True) \<in> set bl" using inv_payload(1) [OF i] l T by simp
  obtain xs ys where bl: "bl = xs @ (p, t + 8, True) # ys" using split_list [OF pb] by blast
  obtain h' where h': "mm_free p h = Some h'" "heap_inv h' (snd (merged xs p (t + 8) ys))" "kept (taken (xs @ ys)) h h'"
    by (rule inv_free [OF i [unfolded bl]])
  have "distinct (map fst bl)" by (rule tile_distinct [OF heap_tile [OF h]])
  then have "(p, t + 8) \<notin> taken (xs @ ys)" using taken_fst [of xs] taken_fst [of ys] bl by (force simp: image_iff)
  then have tk: "taken (xs @ ys) = taken bl - {(p, t + 8)}" using bl by auto
  have TD: "T - {(p, t)} = (\<lambda>(p, t). (p, t - 8)) ` (taken bl - {(p, t + 8)})"
    using payloads_diff [of "taken bl" p "t + 8"] T by (simp add: payloads_def)
  have "payloads (snd (merged xs p (t + 8) ys)) = T - {(p, t)}"
    using merged_taken [of xs p "t + 8" ys] tk TD by (simp add: payloads_def)
  then have "mm_live h' (T - {(p, t)})" using h'(2) by (auto simp: mm_live_def)
  moreover have "same_at (T - {(p, t)}) h h'" unfolding TD using kept_same_at [OF h'(3)] tk by simp
  moreover have "grows 0 h h'" using mm_free_sys [OF h'(1)] by (simp add: grows_same)
  ultimately show "\<exists>h'. mm_free p h = Some h' \<and> mm_live h' (T - {(p, t)}) \<and> same_at (T - {(p, t)}) h h' \<and> grows 0 h h'"
    using h'(1) by blast
qed

end
