(* ===== verification/Mm_Results.thy ===== *)
theory Mm_Results
  imports Mm_Interface
begin

text \<open>
  The properties of the segregated-list allocator, and its self-check \<open>mm_check\<close>.
\<close>

section \<open>The self-check\<close>

datatype check_message = Alloc_bits_differ | Sizes_differ | Block_invalid | Free_invalid | Free_marked_alloc
  | Free_sizes_differ | Not_aligned | Should_be_coalesced

text \<open>Both walks return the error number and what is printed.\<close>

partial_function (option) check_blocks :: "memory \<Rightarrow> memsys \<Rightarrow> int \<Rightarrow> int \<times> (check_message \<times> int) list \<Rightarrow>
    (int \<times> (check_message \<times> int) list) option" where
  "check_blocks m ms cur r =
     (if cur \<noteq> 0 \<and> GET_SIZE m (HDRP cur) \<noteq> 0
      then let (e, out) = r;
               (e, out) = (if GET_ALLOC m (HDRP cur) \<noteq> GET_ALLOC m (FTRP m cur) then (-1, out @ [(Alloc_bits_differ, cur)]) else (e, out));
               (e, out) = (if GET_SIZE m (HDRP cur) \<noteq> GET_SIZE m (FTRP m cur) then (-1, out @ [(Sizes_differ, cur)]) else (e, out));
               out = (if cur < mem_heap_lo ms \<or> cur > mem_heap_hi ms then out @ [(Block_invalid, cur)] else out)
           in check_blocks m ms (NEXT_BLKP m cur) (e, out)
      else Some r)"

definition check_free :: "memory \<Rightarrow> memsys \<Rightarrow> int \<Rightarrow> int \<times> (check_message \<times> int) list \<Rightarrow> int \<times> (check_message \<times> int) list" where
  "check_free m ms blkp r =
     (let (e, out) = r;
          (e, out) = (if blkp < mem_heap_lo ms \<or> blkp > mem_heap_hi ms then (-1, out @ [(Free_invalid, blkp)]) else (e, out));
          (e, out) = (if GET_ALLOC m blkp \<noteq> 0 then (-1, out @ [(Free_marked_alloc, blkp)]) else (e, out));
          (e, out) = (if GET_SIZE m (HDRP blkp) \<noteq> GET_SIZE m (FTRP m blkp) then (-1, out @ [(Free_sizes_differ, blkp)]) else (e, out));
          (e, out) = (if blkp mod DSIZE \<noteq> 0 then (-1, out @ [(Not_aligned, blkp)]) else (e, out));
          nblkp = SEG_PREV_BLKP m blkp;
          (e, out) = (if nblkp \<noteq> 0 \<and> HDRP blkp - FTRP m blkp = DSIZE then (-1, out @ [(Should_be_coalesced, blkp)]) else (e, out))
      in (e, out))"

partial_function (option) check_list :: "memory \<Rightarrow> memsys \<Rightarrow> int \<Rightarrow> int \<times> (check_message \<times> int) list \<Rightarrow>
    (int \<times> (check_message \<times> int) list) option" where
  "check_list m ms blkp r =
     (if blkp \<noteq> 0 then check_list m ms (SEG_PREV_BLKP m blkp) (check_free m ms blkp r) else Some r)"

fun check_lists :: "memory \<Rightarrow> memsys \<Rightarrow> int \<Rightarrow> nat list \<Rightarrow> int \<times> (check_message \<times> int) list \<Rightarrow>
    (int \<times> (check_message \<times> int) list) option" where
  "check_lists m ms sp [] r = Some r"
| "check_lists m ms sp (i # is) r = Option.bind (check_list m ms (GET_SEG_LIST_PTR m sp i) r) (check_lists m ms sp is)"

definition mm_check :: "heap \<Rightarrow> (int \<times> (check_message \<times> int) list) option" where
  "mm_check h = Option.bind (check_blocks (mem h) (sys h) (heap_ptr h) (0, []))
     (check_lists (mem h) (sys h) (seg_list_ptr h) [0..<SEG_SIZE])"

lemma check_block_ok:
  assumes h: "GET m (q - 4) = tag s a" "GET m (q + s - 8) = tag s a" and s: "8 dvd s" "s \<noteq> 0"
    and q: "q \<noteq> 0" "mem_heap_lo ms \<le> q" "q \<le> mem_heap_hi ms"
  shows "check_blocks m ms q r = check_blocks m ms (q + s) r"
proof -
  have z: "GET_SIZE m (HDRP q) = s" "GET_ALLOC m (HDRP q) = of_bool a"
    using h(1) size_tag [OF s(1)] alloc_tag [OF s(1)] by (simp_all add: GET_SIZE_def GET_ALLOC_def HDRP_def WSIZE_def)
  then have f: "FTRP m q = q + s - 8" by (simp add: FTRP_def DSIZE_def)
  have "GET_SIZE m (FTRP m q) = s" "GET_ALLOC m (FTRP m q) = of_bool a"
    unfolding f using h(2) size_tag [OF s(1)] alloc_tag [OF s(1)] by (simp_all add: GET_SIZE_def GET_ALLOC_def)
  moreover have "NEXT_BLKP m q = q + s" using z(1) by (simp add: NEXT_BLKP_def HDRP_def)
  ultimately show ?thesis using z s q by (subst check_blocks.simps) (cases r, simp add: Let_def)
qed

lemma check_blocks_ok:
  assumes "tile lo bl hi" and "tags_ok m bl" and "GET m (hi - 4) = 1" and "0 < lo" and "mem_heap_lo ms \<le> lo" and "hi - 1 = mem_heap_hi ms"
  shows "check_blocks m ms lo r = Some r"
  using assms
proof (induction lo bl hi rule: tile.induct)
  case (1 lo hi)
  then have "GET_SIZE m (HDRP lo) = 0" using size_tag [of 0 True] by (simp add: GET_SIZE_def HDRP_def WSIZE_def tag_def)
  then show ?case by (subst check_blocks.simps) simp
next
  case (2 lo q s a bl hi)
  then have q: "q = lo" "16 \<le> s" "8 dvd s" "tile (lo + s) bl hi" by simp_all
  have "lo + s \<le> hi" by (rule tile_le [OF q(4)])
  moreover have "GET m (lo - 4) = tag s a" "GET m (lo + s - 8) = tag s a" "tags_ok m bl"
    using 2(3) q(1) by (simp_all add: tags_ok_Cons)
  ultimately show ?case using check_block_ok [of m lo s a ms r] 2 q by simp
qed

lemma check_free_ok:
  assumes h: "GET m (q - 4) = tag s a" "GET m (q + s - 8) = tag s a" and s: "8 dvd s" "16 \<le> s"
    and q: "8 dvd q" "mem_heap_lo ms \<le> q" "q \<le> mem_heap_hi ms" and al: "2 dvd SEG_PREV_BLKP m q"
  shows "check_free m ms q r = r"
proof -
  have z: "GET_SIZE m (HDRP q) = s"
    using h(1) size_tag [OF s(1)] by (simp add: GET_SIZE_def HDRP_def WSIZE_def)
  then have f: "FTRP m q = q + s - 8" by (simp add: FTRP_def DSIZE_def)
  have "GET_SIZE m (FTRP m q) = s" unfolding f using h(2) size_tag [OF s(1)] by (simp add: GET_SIZE_def)
  moreover have "GET_ALLOC m q = 0" using al by (simp add: GET_ALLOC_def SEG_PREV_BLKP_def and_one_eq)
  moreover have "q mod DSIZE = 0" using q(1) by (simp add: DSIZE_def)
  moreover have "HDRP q - FTRP m q \<noteq> DSIZE" unfolding f using s(2) by (simp add: HDRP_def WSIZE_def DSIZE_def)
  ultimately show ?thesis using z q by (cases r) (simp add: check_free_def Let_def)
qed

lemma check_list_ok:
  assumes "chain m nx xs 0" and "\<And>x. x \<in> set xs \<Longrightarrow> x \<noteq> 0 \<and> check_free m ms x r = r"
  shows "check_list m ms (front xs 0) r = Some r"
  using assms
proof (induction xs arbitrary: nx)
  case Nil
  then show ?case by (simp add: check_list.simps [of m ms 0])
next
  case (Cons x xs)
  then have "SEG_PREV_BLKP m x = front xs 0" by (simp add: SEG_PREV_BLKP_def)
  then show ?case using Cons.prems Cons.IH [of x] by (simp add: check_list.simps [of m ms x])
qed

section \<open>Properties\<close>

text \<open>\<open>mm_init\<close> on a machine whose break is at the start, whatever the memory contains,
  succeeds and leaves a heap with one free block of 64 bytes.\<close>

theorem mm_init_establishes:
  assumes "fresh_heap h"
  shows "\<exists>h'. mm_init h = Some (0, h') \<and> heap_inv h' [(mem_start_brk (sys h) + 112, 64, False)]"
  using inv_init [OF assms] by metis

definition machine0 :: "int \<Rightarrow> heap" where
  "machine0 b = \<lparr>mem = (\<lambda>_. 0), sys = \<lparr>mem_start_brk = b, mem_brk = b, mem_max_addr = b + MAX_HEAP\<rparr>,
     heap_ptr = 0, seg_list_ptr = 0\<rparr>"

lemma fresh_machine0: "0 < b \<Longrightarrow> 8 dvd b \<Longrightarrow> b + 20971520 \<le> 2 ^ 32 \<Longrightarrow> fresh_heap (machine0 b)"
  by (simp add: fresh_heap_def machine0_def MAX_HEAP_def)

lemma start_machine0: "mem_start_brk (sys (machine0 b)) = b"
  by (simp add: machine0_def)

lemma mm_init_establishes_witness:
  "\<exists>h'. mm_init (machine0 4096) = Some (0, h') \<and> heap_inv h' [(4208, 64, False)]"
proof -
  have "fresh_heap (machine0 4096)" by (rule fresh_machine0) simp_all
  from mm_init_establishes [OF this] show ?thesis unfolding start_machine0 by simp
qed

text \<open>A heap with one free block, for the witnesses.\<close>

definition heap0 :: heap where
  "heap0 = (case mm_init (machine0 4096) of Some (r, h) \<Rightarrow> h | None \<Rightarrow> machine0 4096)"

lemma heap0_inv: "heap_inv heap0 [(4208, 64, False)]"
proof -
  have "fresh_heap (machine0 4096)" by (rule fresh_machine0) simp_all
  then obtain h' where "mm_init (machine0 4096) = Some (0, h')" "heap_inv h' [(mem_start_brk (sys (machine0 4096)) + 112, 64, False)]"
    by (rule inv_init)
  then show ?thesis unfolding start_machine0 by (simp add: heap0_def)
qed

text \<open>And one with one allocated block.\<close>

lemma one_block:
  assumes n: "0 < n" "n + 15 < 2 ^ 32" and fit: "adjusted_size n \<le> 20000000"
  obtains p h bl t where "mm_malloc n heap0 = Some (p, h)" and "heap_inv h bl" and "adjusted_size n \<le> t" and "taken bl = {(p, t)}"
    and "grows (max (adjusted_size n) 4096) heap0 h"
proof -
  have r: "heap_rep heap0 [(4208, 64, False)] (frees [(4208, 64, False)])" using heap0_inv by (simp add: heap_inv_def)
  have "mem_brk (sys heap0) = 4272" "seg_list_ptr heap0 = 4096" using heap_tile [OF r] by simp_all
  moreover have "mem_max_addr (sys heap0) = seg_list_ptr heap0 + 20971520" by (rule heap_brk(4) [OF r])
  ultimately have "room heap0 (max (adjusted_size n) 4096)" using fit by (simp add: room_def)
  then obtain p h bl t where "mm_malloc n heap0 = Some (p, h)" "heap_inv h bl" "adjusted_size n \<le> t"
    "taken bl = insert (p, t) (taken [(4208, 64, False)])" using inv_malloc [OF heap0_inv n] by blast
  then show ?thesis using that mm_malloc_grows [OF n] by simp
qed

text \<open>C1. \<open>mm_malloc\<close> on a well-formed heap returns. Either it returns null and changes nothing, and
  then the heap cannot grow and, below 16 MB, no free block is large enough; or the result is a
  block for at least the requested bytes that was not allocated before, the heap is well formed
  with exactly this block added, and every other payload keeps its contents.\<close>

theorem mm_malloc_correct:
  assumes "heap_inv h bl" and "0 < n" and "n + 15 < 2 ^ 32"
  shows "\<exists>p h'. mm_malloc n h = Some (p, h') \<and>
     (p = 0 \<and> h' = h \<and> \<not> room h (max (adjusted_size n) 4096) \<and>
        (adjusted_size n < 2 ^ 24 \<longrightarrow> \<not> (\<exists>q s. (q, s, False) \<in> set bl \<and> adjusted_size n \<le> s))
      \<or> p \<noteq> 0 \<and> (\<exists>bl' t. heap_inv h' bl' \<and> n + 8 \<le> t \<and> taken bl' = insert (p, t) (taken bl)
          \<and> p \<notin> fst ` taken bl \<and> kept (taken bl) h h'))"
proof -
  have "n + 8 \<le> adjusted_size n" by (rule adjusted_size_ok(1) [OF assms(2,3)])
  then have le: "n + 8 \<le> t" if "adjusted_size n \<le> t" for t using that by simp
  show ?thesis using inv_malloc [OF assms] le by metis
qed

lemma mm_malloc_correct_witness:
  "\<exists>p h' bl' t. mm_malloc 40 heap0 = Some (p, h') \<and> p \<noteq> 0 \<and> heap_inv h' bl' \<and> 48 \<le> t \<and> taken bl' = {(p, t)}"
proof -
  have a: "adjusted_size 40 = 48" by code_simp
  show ?thesis using mm_malloc_correct [OF heap0_inv, of 40] a by auto
qed

text \<open>C3. \<open>mm_free\<close> of an allocated block returns and merges it with the free blocks before and
  behind it: the new heap is well formed (its free lists hold exactly the free blocks, and no two
  neighbours are free), the allocated blocks are the others, with their contents.\<close>

theorem mm_free_merges:
  assumes "heap_inv h (xs @ (q, s, True) # ys)"
  shows "\<exists>h'. mm_free q h = Some h' \<and> heap_inv h' (snd (merged xs q s ys))
    \<and> taken (snd (merged xs q s ys)) = taken (xs @ ys) \<and> kept (taken (xs @ ys)) h h'"
  using inv_free [OF assms] merged_taken by metis

lemma mm_free_merges_witness:
  "\<exists>h p t xs ys h'. heap_inv h (xs @ (p, t, True) # ys) \<and> mm_free p h = Some h' \<and> heap_inv h' (snd (merged xs p t ys))"
proof -
  have a: "adjusted_size 40 = 48" by code_simp
  obtain p h bl t where m: "heap_inv h bl" "taken bl = {(p, t)}" by (rule one_block [of 40]) (simp_all add: a)
  then have "(p, t, True) \<in> set bl" by (auto simp: taken_def)
  then obtain xs ys where bl: "bl = xs @ (p, t, True) # ys" using split_list by metis
  show ?thesis using mm_free_merges [OF m(1) [unfolded bl]] m(1) bl by blast
qed

text \<open>C2. \<open>mm_realloc\<close> of an allocated block returns. Either it returns null and leaves the heap as it
  was; or the old block is replaced by one with at least the requested bytes, wherever it lies,
  that holds the old contents as far as both reach, and all other payloads keep theirs.\<close>

theorem mm_realloc_correct:
  assumes "heap_inv h bl" and "(p, s) \<in> taken bl" and "0 < n" and "n + 15 < 2 ^ 32"
  shows "\<exists>r h'. mm_realloc p n h = Some (r, h') \<and>
    (r = 0 \<and> h' = h
     \<or> r \<noteq> 0 \<and> (\<exists>bl' t. heap_inv h' bl' \<and> n + 8 \<le> t \<and> taken bl' = insert (r, t) (taken bl - {(p, s)})
         \<and> r \<notin> fst ` (taken bl - {(p, s)}) \<and> kept (taken bl - {(p, s)}) h h'
         \<and> (\<forall>k. 0 \<le> k \<and> k < min n (s - 8) \<longrightarrow> mem h' (r + k) = mem h (p + k))))"
  using inv_realloc [OF assms] unfolding reallocated_def by metis

lemma mm_realloc_correct_witness:
  "\<exists>h p s r h'. mm_realloc p 5000 h = Some (r, h') \<and> (\<exists>bl. heap_inv h bl \<and> taken bl = {(p, s)})
    \<and> (r \<noteq> 0 \<longrightarrow> (\<forall>k. 0 \<le> k \<and> k < min 5000 (s - 8) \<longrightarrow> mem h' (r + k) = mem h (p + k)))"
proof -
  have a: "adjusted_size 40 = 48" by code_simp
  obtain p h bl s where m: "heap_inv h bl" "taken bl = {(p, s)}" by (rule one_block [of 40]) (simp_all add: a)
  have "(p, s) \<in> taken bl" using m(2) by simp
  from mm_realloc_correct [OF m(1) this, of 5000] obtain r h' where c: "mm_realloc p 5000 h = Some (r, h')"
    "r \<noteq> 0 \<longrightarrow> (\<forall>k. 0 \<le> k \<and> k < min 5000 (s - 8) \<longrightarrow> mem h' (r + k) = mem h (p + k))" by auto
  show ?thesis by (intro exI conjI) (rule c(1), rule m(1), rule m(2), rule c(2))
qed

text \<open>C17. \<open>find_fit\<close> ends on every well-formed heap, with a free block that is large enough exactly
  when there is one, for requests below 16 MB.\<close>

theorem find_fit_complete:
  assumes "heap_inv h bl" and "0 \<le> n" and "n < 2 ^ 24"
  shows "\<exists>r. find_fit (mem h) (seg_list_ptr h) n n 0 = Some r
    \<and> (if \<exists>q s. (q, s, False) \<in> set bl \<and> n \<le> s then \<exists>s. (r, s, False) \<in> set bl \<and> n \<le> s else r = 0)"
proof -
  have h: "heap_rep h bl (frees bl)" using assms(1) by (simp add: heap_inv_def)
  show ?thesis using heap_find_fit [OF h assms(2), of 0] assms(3) by (auto simp: frees_def)
qed

lemma find_fit_complete_witness:
  "find_fit (mem heap0) (seg_list_ptr heap0) 48 48 0 = Some 4208 \<and> find_fit (mem heap0) (seg_list_ptr heap0) 72 72 0 = Some 0"
  using find_fit_complete [OF heap0_inv, of 48] find_fit_complete [OF heap0_inv, of 72] by auto

lemma find_fit_large:
  assumes h: "heap_rep h bl F" and n: "2 ^ 24 \<le> n"
  shows "find_fit (mem h) (seg_list_ptr h) n (n div 2 ^ i) i = Some 0"
proof (induction "25 - i" arbitrary: i)
  case 0
  then show ?case by (subst find_fit.simps) (simp add: SEG_SIZE_def)
next
  case (Suc k)
  have dd: "n div 2 ^ i div 2 = n div 2 ^ Suc i" using zdiv_zmult2_eq [of 2 n "2 ^ i"] by (simp add: mult.commute)
  have rest: "find_fit (mem h) (seg_list_ptr h) n (n div 2 ^ Suc i) (Suc i) = Some 0"
    using Suc.hyps by (intro Suc.hyps(1)) simp
  have skip: "\<not> (n div 2 ^ i \<le> 1 \<and> GET_SEG_LIST_PTR (mem h) (seg_list_ptr h) i \<noteq> 0)"
  proof (cases "i = 24")
    case True
    obtain L where "rep (mem h) (seg_list_ptr h) (mem_brk (sys h)) bl L" using h by (rule heap_repE)
    then show ?thesis using True by (simp add: rep_def frame_ok_def GET_SEG_LIST_PTR_def WSIZE_def)
  next
    case False
    then have "i \<le> 23" using Suc.hyps(2) by simp
    then have "(2 :: int) ^ i \<le> 2 ^ 23" by (rule power_increasing) simp
    then have "2 * 2 ^ i \<le> n" using n by simp
    then have "2 * 2 ^ i div 2 ^ i \<le> n div 2 ^ i" by (intro zdiv_mono1) simp_all
    then show ?thesis by simp
  qed
  show ?case using skip rest by (subst find_fit.simps) (auto simp: dd Let_def)
qed

text \<open>From 16 MB on the class of the request is beyond the last list before its rest reaches 1,
  and no list is ever searched: when the heap cannot grow, the request fails however large the
  free blocks are.\<close>

theorem large_blocks_not_reused:
  assumes "heap_inv h bl" and "0 < n" and "n + 15 < 2 ^ 32" and "2 ^ 24 \<le> adjusted_size n" and "\<not> room h (adjusted_size n)"
  shows "mm_malloc n h = Some (0, h)"
proof -
  have h: "heap_rep h bl (frees bl)" using assms(1) by (simp add: heap_inv_def)
  note a = adjusted_size_ok [OF assms(2,3)]
  have "max (adjusted_size n) 4096 = adjusted_size n" using assms(4) by simp
  moreover have "find_fit (mem h) (seg_list_ptr h) (adjusted_size n) (adjusted_size n) 0 = Some 0"
    using find_fit_large [OF h assms(4), of 0] by simp
  moreover have "adjusted_size n div 4 mod 2 = 0" "adjusted_size n = adjusted_size n div 4 * 4" using a(3) by presburger+
  then have "extend_heap (adjusted_size n div 4) h = Some (0, h)"
    using heap_extend_fails [OF h, of "adjusted_size n div 4" "adjusted_size n"] a assms(5) by simp
  ultimately show ?thesis using assms(2) by (simp add: mm_malloc_def Let_def DCHUNKSIZE_def WSIZE_def)
qed

lemma large_blocks_not_reused_witness:
  "\<exists>h bl q s. heap_inv h bl \<and> (q, s, False) \<in> set bl \<and> 2 ^ 24 + 8 \<le> s \<and> mm_malloc (2 ^ 24) h = Some (0, h)"
proof -
  have a: "adjusted_size 16777216 = 16777224" by code_simp
  obtain p h bl t where m: "heap_inv h bl" "adjusted_size 16777216 \<le> t" "taken bl = {(p, t)}"
    by (rule one_block [of 16777216]) (simp_all add: a)
  then have tb: "(p, t, True) \<in> set bl" by (auto simp: taken_def)
  then obtain xs ys where bl: "bl = xs @ (p, t, True) # ys" using split_list by metis
  obtain h' where h': "heap_inv h' (snd (merged xs p t ys))" "mm_free p h = Some h'" by (rule inv_free [OF m(1) [unfolded bl]])
  have r: "heap_rep h bl (frees bl)" using m(1) by (simp add: heap_inv_def)
  have r': "heap_rep h' (snd (merged xs p t ys)) (frees (snd (merged xs p t ys)))" using h'(1) by (simp add: heap_inv_def)
  have s: "sys h' = sys h" by (rule mm_free_sys [OF h'(2)])
  have "\<not> room h' (adjusted_size 16777216)"
    using heap_block(1,2) [OF r tb] heap_brk(4) [OF r] m(2) a s by (simp add: room_def)
  then have "mm_malloc (2 ^ 24) h' = Some (0, h')" using a large_blocks_not_reused [OF h'(1), of 16777216] by simp
  moreover have "\<exists>q u. (q, u, False) \<in> set (snd (merged xs p t ys)) \<and> t \<le> u"
  proof -
    have "0 \<le> fst (snd (last xs)) \<or> xs = []"
      using heap_block(3) [OF r, of "fst (last xs)" "fst (snd (last xs))" "snd (snd (last xs))"] bl by fastforce
    moreover have "0 \<le> fst (snd (hd ys)) \<or> ys = []"
      using heap_block(3) [OF r, of "fst (hd ys)" "fst (snd (hd ys))" "snd (snd (hd ys))"] bl by (cases ys) fastforce+
    ultimately show ?thesis by (fastforce simp: merged_def merge_prev_def merge_next_def elim!: prev_freeE next_freeE)
  qed
  ultimately show ?thesis using h'(1) m(2) a by fastforce
qed

section \<open>The self-check on a well-formed heap\<close>

lemma check_lists_ok:
  assumes "\<And>i. i \<in> set is \<Longrightarrow> check_list m ms (GET_SEG_LIST_PTR m sp i) r = Some r"
  shows "check_lists m ms sp is r = Some r"
  using assms by (induction "is") simp_all

lemma mm_check_rep:
  assumes h: "heap_rep h bl F"
  shows "mm_check h = Some (0, [])"
proof -
  let ?m = "mem h" and ?ms = "sys h" and ?sp = "seg_list_ptr h"
  obtain L where r: "rep ?m ?sp (mem_brk ?ms) bl L" using h by (rule heap_repE)
  note d = repD [OF r] and k = heap_brk [OF h]
  have hp: "heap_ptr h = ?sp + 104" and lo: "mem_heap_lo ?ms = ?sp"
    using h by (simp_all add: heap_rep_def mem_heap_lo_def)
  have hi: "mem_heap_hi ?ms = mem_brk ?ms - 1" by (simp add: mem_heap_hi_def)
  have fr: "GET ?m (?sp + 100) = tag 8 True" "GET ?m (?sp + 104) = tag 8 True" "GET ?m (mem_brk ?ms - 4) = 1"
    using d(1) by (simp_all add: frame_ok_def tag_def)
  have "check_blocks ?m ?ms (?sp + 104) (0, []) = check_blocks ?m ?ms (?sp + 104 + 8) (0, [])"
    by (rule check_block_ok [where a = True]) (use fr k in \<open>simp_all add: lo hi add.commute\<close>)
  also have "?sp + 104 + 8 = ?sp + 112" by simp
  also have "check_blocks ?m ?ms (?sp + 112) (0, []) = Some (0, [])"
    by (rule check_blocks_ok [OF d(2,3) fr(3)]) (use k in \<open>simp_all add: lo hi\<close>)
  finally have b: "check_blocks ?m ?ms (heap_ptr h) (0, []) = Some (0, [])" unfolding hp .
  have "check_list ?m ?ms (GET_SEG_LIST_PTR ?m ?sp i) (0, []) = Some (0, [])" if i: "i \<in> set [0..<SEG_SIZE]" for i
  proof -
    have i24: "i < 24" using i by (simp add: SEG_SIZE_def)
    note l = lists_okD [OF d(4) i24]
    have al: "8 dvd x \<and> 0 < x" if "x \<in> set (L i)" for x
      using l(4) [OF that] heap_block(5,7) [OF h] by blast
    have "x \<noteq> 0 \<and> check_free ?m ?ms x (0, []) = (0, [])" if x: "x \<in> set (L i)" for x
    proof -
      obtain s where s: "(x, s, False) \<in> set bl" using l(4) [OF x] by blast
      obtain ys zs where L: "L i = ys @ x # zs" using x split_list by metis
      then have "SEG_PREV_BLKP ?m x = front zs 0" using l(2) by (simp add: chain_append SEG_PREV_BLKP_def)
      moreover have "2 dvd front zs 0"
      proof (cases zs)
        case (Cons z zs')
        then have "8 dvd z" using al [of z] L by simp
        then have "2 dvd z" by presburger
        then show ?thesis using Cons by simp
      qed simp
      ultimately have "check_free ?m ?ms x (0, []) = (0, [])"
        using heap_block(1-5,9,10) [OF h s] k(2)
        by (intro check_free_ok [where s = s and a = False]) (simp_all add: lo hi)
      then show ?thesis using al [OF x] by simp
    qed
    then show ?thesis using check_list_ok [OF l(2), of ?ms "(0, [])"] l(1) by (simp add: GET_SEG_LIST_PTR_def WSIZE_def)
  qed
  then have "check_lists ?m ?ms ?sp [0..<SEG_SIZE] (0, []) = Some (0, [])" by (rule check_lists_ok)
  then show ?thesis using b by (simp add: mm_check_def)
qed

text \<open>C19. \<open>mm_check\<close> ends on every well-formed heap, returns 0 and prints nothing.\<close>

theorem mm_check_accepts:
  assumes "heap_inv h bl"
  shows "mm_check h = Some (0, [])"
  using assms mm_check_rep by (auto simp: heap_inv_def)

lemma mm_check_accepts_witness: "mm_check heap0 = Some (0, [])"
  by (rule mm_check_accepts [OF heap0_inv])

lemma check_free_no_coalesce:
  "(Should_be_coalesced, b) \<in> set (snd (check_free m ms q r)) \<Longrightarrow> (Should_be_coalesced, b) \<in> set (snd r)"
proof -
  have "8 dvd GET_SIZE m (HDRP q)" unfolding GET_SIZE_def and_not_7 by presburger
  then have "HDRP q - FTRP m q \<noteq> DSIZE" unfolding FTRP_def HDRP_def WSIZE_def DSIZE_def by presburger
  then show "(Should_be_coalesced, b) \<in> set (snd (check_free m ms q r)) \<Longrightarrow> (Should_be_coalesced, b) \<in> set (snd r)"
    by (cases r) (auto simp: check_free_def Let_def split: if_splits)
qed

lemma check_list_no_coalesce:
  assumes "check_list m ms q r = Some r'"
  shows "(Should_be_coalesced, b) \<in> set (snd r') \<longrightarrow> (Should_be_coalesced, b) \<in> set (snd r)"
proof (rule check_list.raw_induct [where P = "\<lambda>m ms q r r'. (Should_be_coalesced, b) \<in> set (snd r') \<longrightarrow> (Should_be_coalesced, b) \<in> set (snd r)", OF _ assms], goal_cases)
  case (1 f m ms q r r')
  then show ?case using 1(1) [of m ms "SEG_PREV_BLKP m q" "check_free m ms q r" r'] check_free_no_coalesce [of b m ms q r]
    by (cases "q = 0") simp_all
qed

lemma check_blocks_no_coalesce:
  assumes "check_blocks m ms q r = Some r'"
  shows "(Should_be_coalesced, b) \<in> set (snd r') \<longrightarrow> (Should_be_coalesced, b) \<in> set (snd r)"
proof (rule check_blocks.raw_induct [where P = "\<lambda>m ms q r r'. (Should_be_coalesced, b) \<in> set (snd r') \<longrightarrow> (Should_be_coalesced, b) \<in> set (snd r)", OF _ assms], goal_cases)
  case (1 f m ms q r r')
  show ?case
  proof (cases "q \<noteq> 0 \<and> GET_SIZE m (HDRP q) \<noteq> 0")
    case True
    then obtain e out where "f m ms (NEXT_BLKP m q) (e, out) = Some r'"
      and "(Should_be_coalesced, b) \<in> set out \<longrightarrow> (Should_be_coalesced, b) \<in> set (snd r)"
      using 1(2) by (cases r) (simp add: Let_def split: if_splits)
    then show ?thesis using 1(1) [of m ms "NEXT_BLKP m q" "(e, out)" r'] by simp
  next
    case False
    then show ?thesis using 1(2) by auto
  qed
qed

lemma check_lists_no_coalesce:
  "check_lists m ms sp is r = Some r' \<Longrightarrow> (Should_be_coalesced, b) \<in> set (snd r') \<Longrightarrow> (Should_be_coalesced, b) \<in> set (snd r)"
  using check_list_no_coalesce by (induction "is" arbitrary: r) (auto simp: bind_eq_Some_conv)

text \<open>The test of \<open>mm_check\<close> for neighbours that should have been merged never fires, on any
  memory: it compares the header and the footer of one and the same block.\<close>

theorem coalesce_check_never_fires:
  assumes "mm_check h = Some (e, out)"
  shows "(Should_be_coalesced, b) \<notin> set out"
proof
  assume b: "(Should_be_coalesced, b) \<in> set out"
  obtain r where r: "check_blocks (mem h) (sys h) (heap_ptr h) (0, []) = Some r"
    and l: "check_lists (mem h) (sys h) (seg_list_ptr h) [0..<SEG_SIZE] r = Some (e, out)"
    using assms by (auto simp: mm_check_def bind_eq_Some_conv)
  have "(Should_be_coalesced, b) \<in> set (snd r)" using check_lists_no_coalesce [OF l] b by simp
  then show False using check_blocks_no_coalesce [OF r] by simp
qed

section \<open>Requests close to 4 GB\<close>

lemma huge_adjusted_size:
  assumes "2 ^ 32 - 8 < n" and "n < 2 ^ 32"
  shows "adjusted_size n = 8"
proof -
  have "(n + 8) mod 4294967296 = n - 4294967288"
    using mod_add_self2 [of "n - 4294967288" 4294967296] mod_pos_pos_trivial [of "n - 4294967288" 4294967296] assms
    by (simp add: add.commute del: mod_add_self1 mod_add_self2)
  then have "adjusted_size n = n - 4294967281 - (n - 4294967281) mod 8"
    using assms unfolding adjusted_size_def ALIGN_def and_not_7 by (simp add: DSIZE_def u32_def)
  moreover have "(m + 7) - (m + 7) mod 8 = 8" if "0 < m" "m < 8" for m :: int using that by presburger
  from this [of "n - 4294967288"] have "n - 4294967281 - (n - 4294967281) mod 8 = 8" using assms by simp
  ultimately show ?thesis by simp
qed

lemma place_8:
  assumes h: "heap_rep h bl (frees bl)" and b: "(q, s, False) \<in> set bl"
  obtains p h' where "place q 8 h = Some (p, h')" and "0 < p" and "GET_BLK_SIZE (mem h') p \<le> 16"
proof -
  let ?sp = "seg_list_ptr h"
  have qF: "q \<in> frees bl" using b by (auto simp: frees_def)
  define h1 where "h1 = remove_seglist q h"
  have h1: "heap_rep h1 bl (frees bl - {q})" and sp1: "seg_list_ptr h1 = ?sp"
    unfolding h1_def using heap_remove_seglist [OF h qF] writesD(2) by blast+
  note k = heap_block [OF h b] and k1 = heap_block [OF h1 b]
  have pad: "u32 (s - 8) = s - 8" using k(3,6) by (simp add: u32_def)
  show thesis
  proof (cases "s < 24")
    case True
    then have s: "s = 16" using k(3,4) by presburger
    have "GET_BLK_SIZE (put_tags (mem h1) q (tag 16 True)) q = 16"
      using put_tags_tag(1) [of 16 "mem h1" q True] size_tag [of 16 True]
      by (simp add: GET_BLK_SIZE_def GET_SIZE_def HDRP_def WSIZE_def)
    then show ?thesis
      using that [of q "h1\<lparr>mem := put_tags (mem h1) q (tag 16 True)\<rparr>"] k(7) k(11) s PACK_tag(2) [of 16]
      by (simp add: place_def Let_def DSIZE_def u32_def h1_def)
  next
    case False
    define w where "w = q + (s - 8)"
    define m2 where "m2 = put_tags (mem h1) q (tag (s - 8) False)"
    define m3 where "m3 = put_tags m2 w (tag 8 True)"
    have s8: "8 dvd s - 8" "8 \<le> s - 8" "s - 8 < 2 ^ 31" using k(3,4,6) False by simp_all
    have "GET m2 (q - 4) = tag (s - 8) False" unfolding m2_def by (rule put_tags_tag(1) [OF s8])
    then have nb: "NEXT_BLKP m2 q = w" using size_tag [OF s8(1), of False]
      by (simp add: NEXT_BLKP_def GET_SIZE_def WSIZE_def w_def)
    have m2: "m2 x = mem h1 x" if "x < q - 4 \<or> q + s - 4 \<le> x" for x
      unfolding m2_def by (rule put_tags_tag(3) [OF s8]) (use that in auto)
    have m3: "m3 x = mem h1 x" if "x < q - 4 \<or> q + s - 4 \<le> x" for x
    proof -
      have "x < w - 4 \<or> w \<le> x \<and> x < w + 8 - 8 \<or> w + 8 - 4 \<le> x" using that False by (auto simp: w_def)
      then show ?thesis unfolding m3_def using put_tags_tag(3) [of 8 x w m2 True] m2 [OF that] by simp
    qed
    have same: "GET m3 x = GET (mem h1) x" if "x + 4 \<le> q - 4 \<or> q + s - 4 \<le> x" for x
      by (rule GET_cong, rule m3) (use that in auto)
    have tg: "GET m3 (w - 4) = 9" unfolding m3_def using put_tags_tag(1) [of 8 m2 w True] by (simp add: tag_def)
    have pl: "place q 8 h = map_option (\<lambda>h. (w, h)) (add_seglist q (s - 8) (h1\<lparr>mem := m3\<rparr>))"
      using k(11) False pad nb PACK_tag(1) [OF s8(1)] PACK_tag(2) [of 8]
      by (simp add: place_def Let_def DSIZE_def MINSIZE_def h1_def m2_def m3_def)
    obtain i sz where sz: "seg_class (s - 8) = (i, sz)" "sz < 16"
      using seg_class_rest [of "s - 8"] s8 k(6) by (cases "seg_class (s - 8)") auto
    have i24: "i < 24" using class_of_less [of "s - 8"] sz by (simp add: class_of_def)
    define c where "c = GET (mem h1) (?sp + 4 * int i)"
    obtain L where r: "rep (mem h1) ?sp (mem_brk (sys h1)) bl L" and F: "frees bl - {q} = listed L"
      using h1 unfolding sp1 [symmetric] by (rule heap_repE)
    note l = lists_okD [OF repD(4) [OF r] i24]
    have cb: "\<exists>t. (c, t, False) \<in> set bl \<and> (c + t \<le> q \<or> q + s \<le> c)" if "c \<noteq> 0"
    proof -
      have ci: "c \<in> set (L i)" using that l(1) by (cases "L i") (simp_all add: c_def)
      then have "c \<in> frees bl - {q}" unfolding F listed_def using i24 by blast
      then obtain t where "(c, t, False) \<in> set bl" "c \<noteq> q" using l(4) [OF ci] by blast
      then show ?thesis using tile_apart [OF heap_tile [OF h] b] by blast
    qed
    have hd: "GET_SEG_LIST_PTR m3 ?sp i = c"
      unfolding GET_SEG_LIST_PTR_def WSIZE_def c_def by (rule same) (use k(1) i24 in simp)
    have walk: "seg_walk m3 sz 0 c = Some (0, c)"
    proof (cases "c = 0")
      case False
      then obtain t where t: "(c, t, False) \<in> set bl" "c + t \<le> q \<or> q + s \<le> c" using cb by blast
      note kc = heap_block [OF h1 t(1)]
      have "GET m3 (c - 4) = GET (mem h1) (c - 4)" by (rule same) (use t(2) kc(3) in auto)
      then have "GET_BLK_SIZE m3 c = t" using kc(11) by (simp add: GET_BLK_SIZE_def GET_SIZE_def HDRP_def WSIZE_def)
      then show ?thesis using kc(3) sz(2) by (subst seg_walk.simps) simp
    qed (subst seg_walk.simps, simp)
    define m4 where "m4 = (if c \<noteq> 0 then PUT (PUT (PUT (PUT m3 (c + 4) q) q c) (q + 4) 0) (?sp + 4 * int i) q
      else PUT (PUT (PUT m3 (q + 4) 0) q 0) (?sp + 4 * int i) q)"
    have add: "add_seglist q (s - 8) (h1\<lparr>mem := m3\<rparr>) = Some (h1\<lparr>mem := m4\<rparr>)"
      by (simp add: add_seglist_def sz(1) hd walk sp1 m4_def SET_SEG_LIST_PTR_def WSIZE_def)
    have "GET m4 (w - 4) = GET m3 (w - 4)"
    proof -
      have "m4 x = m3 x" if x: "w - 4 \<le> x" "x < w" for x
      proof (cases "c = 0")
        case True
        then show ?thesis using x False k(1) i24 by (simp add: m4_def w_def PUT_def)
      next
        case nz: False
        then obtain t where t: "(c, t, False) \<in> set bl" "c + t \<le> q \<or> q + s \<le> c" using cb by blast
        then show ?thesis using heap_block(3) [OF h1 t(1)] nz x False k(1) i24 by (auto simp: m4_def w_def PUT_def)
      qed
      then show ?thesis by (intro GET_cong) auto
    qed
    then have "GET_BLK_SIZE m4 w = 8" using tg size_tag [of 8 True]
      by (simp add: GET_BLK_SIZE_def GET_SIZE_def HDRP_def WSIZE_def tag_def)
    then show ?thesis using that [of w "h1\<lparr>mem := m4\<rparr>"] pl add k(7) False by (simp add: w_def)
  qed
qed

text \<open>A request of more than 4 GB less 8 bytes wraps around when the header is added: while there
  is a free block, \<open>mm_malloc\<close> answers it with a block of at most 16 bytes.\<close>

theorem huge_request_wraps:
  assumes "heap_inv h bl" and "\<exists>q s. (q, s, False) \<in> set bl" and "2 ^ 32 - 8 < n" and "n < 2 ^ 32"
  shows "\<exists>p h'. mm_malloc n h = Some (p, h') \<and> p \<noteq> 0 \<and> GET_BLK_SIZE (mem h') p \<le> 16"
proof -
  have h: "heap_rep h bl (frees bl)" using assms(1) by (simp add: heap_inv_def)
  note a = huge_adjusted_size [OF assms(3,4)]
  have "\<exists>q s. q \<in> frees bl \<and> (q, s, False) \<in> set bl \<and> 8 \<le> s"
    using assms(2) heap_block(3) [OF h] by (force simp: frees_def)
  then obtain q s where f: "find_fit (mem h) (seg_list_ptr h) 8 8 0 = Some q" "q \<noteq> 0" "(q, s, False) \<in> set bl"
    using heap_find_fit [OF h, of 8 0] by fastforce
  obtain p h' where "place q 8 h = Some (p, h')" "0 < p" "GET_BLK_SIZE (mem h') p \<le> 16" by (rule place_8 [OF h f(3)])
  then show ?thesis using f a assms(3) by (simp add: mm_malloc_def)
qed

lemma huge_request_wraps_witness:
  "\<exists>p h'. mm_malloc 4294967295 heap0 = Some (p, h') \<and> p \<noteq> 0 \<and> GET_BLK_SIZE (mem h') p \<le> 16"
  using huge_request_wraps [OF heap0_inv, of 4294967295] by simp

section \<open>Insertion is at the front\<close>

text \<open>\<open>add_seglist\<close> puts a block at the front of the list of its class whatever the sizes in the
  list are: what the class loop leaves of the size is below 16, so the walk to the sorted place
  stops at once.\<close>

theorem insertion_at_front:
  assumes "heap_rep h bl F" and "(q, s, False) \<in> set bl" and "q \<notin> F"
  shows "\<exists>h'. add_seglist q s h = Some h' \<and> heap_rep h' bl (insert q F)
    \<and> GET_SEG_LIST_PTR (mem h') (seg_list_ptr h) (fst (seg_class s)) = q"
  using heap_add_seglist [OF assms] unfolding class_of_def by blast

lemma insertion_at_front_witness:
  "\<exists>h h'. add_seglist 4208 64 h = Some h' \<and> heap_rep h' [(4208, 64, False)] {4208}"
proof -
  have "heap_rep heap0 [(4208, 64, False)] {4208}" using heap0_inv by (simp add: heap_inv_def frees_def)
  then have "heap_rep (remove_seglist 4208 heap0) [(4208, 64, False)] {}" using heap_remove_seglist(1) by fastforce
  from insertion_at_front [OF this] show ?thesis by auto
qed

end
