(* ===== verification/C_Text.thy ===== *)
theory C_Text
  imports Lab_Prelude "HOL-Library.Char_ord"
begin

text \<open>
  The conversions of \<open>scanf\<close> and \<open>printf\<close> that the programs use: \<open>%s\<close>, \<open>%d\<close>, \<open>%u\<close>, \<open>%llx\<close>. A conversion
  returns what it stored, if anything, and the rest of the input. \<open>fgets\<close> and the lines it delivers.
\<close>

section \<open>Characters\<close>

definition code :: "char \<Rightarrow> nat" where "code c = of_char c"

definition blank :: "char \<Rightarrow> bool" where
  "blank c \<longleftrightarrow> code c = 32 \<or> 9 \<le> code c \<and> code c \<le> 13"

definition digit :: "char \<Rightarrow> bool" where
  "digit c \<longleftrightarrow> 48 \<le> code c \<and> code c \<le> 57"

section \<open>Printing\<close>

fun decimal :: "nat \<Rightarrow> string" where
  "decimal n = (if n < 10 then [char_of (48 + n)] else decimal (n div 10) @ [char_of (48 + n mod 10)])"

declare decimal.simps [simp del]

definition show_int :: "int \<Rightarrow> string" where
  "show_int z = (if z < 0 then ''-'' @ decimal (nat (- z)) else decimal (nat z))"

section \<open>Scanning\<close>

definition number :: "string \<Rightarrow> int" where
  "number ds = foldl (\<lambda>n c. 10 * n + (int (code c) - 48)) 0 ds"

definition scan_number :: "string \<Rightarrow> int option \<times> string" where
  "scan_number s =
     (let s = dropWhile blank s;
          neg = (s \<noteq> [] \<and> hd s = CHR ''-'');
          s = (if s \<noteq> [] \<and> (hd s = CHR ''-'' \<or> hd s = CHR ''+'') then tl s else s);
          ds = takeWhile digit s
      in (if ds = [] then None else Some (if neg then - number ds else number ds), dropWhile digit s))"

text \<open>On a 32-bit machine \<open>%d\<close> and \<open>%u\<close> stop at the ends of the range; a sign is accepted by both.\<close>

definition scan_d :: "string \<Rightarrow> int option \<times> string" where
  "scan_d s = (case scan_number s of (v, r) \<Rightarrow> (map_option (\<lambda>z. max (- 2147483648) (min 2147483647 z)) v, r))"

definition scan_u :: "string \<Rightarrow> int option \<times> string" where
  "scan_u s = (case scan_number s of (v, r) \<Rightarrow>
     (map_option (\<lambda>z. if 4294967296 \<le> \<bar>z\<bar> then 4294967295 else z mod 4294967296) v, r))"

definition scan_str :: "string \<Rightarrow> (string \<times> string) option" where
  "scan_str s =
     (let s = dropWhile blank s in
      if s = [] then None else Some (takeWhile (\<lambda>c. \<not> blank c) s, dropWhile (\<lambda>c. \<not> blank c) s))"

section \<open>Scanning what was printed\<close>

lemma code_char: "n < 256 \<Longrightarrow> code (char_of n) = n"
  by (simp add: code_def)

lemma decimal_digits: "c \<in> set (decimal n) \<Longrightarrow> digit c"
proof (induction n arbitrary: c rule: less_induct)
  case (less n)
  show ?case
  proof (cases "n < 10")
    case True
    then show ?thesis using less.prems by (simp add: decimal.simps [of n] digit_def code_char)
  next
    case False
    then have "c \<in> set (decimal (n div 10)) \<or> c = char_of (48 + n mod 10)" using less.prems by (simp add: decimal.simps [of n] disj_commute)
    then show ?thesis using less.IH [of "n div 10"] False by (auto simp: digit_def code_char)
  qed
qed

lemma number_snoc: "number (ds @ [c]) = 10 * number ds + (int (code c) - 48)"
  by (simp add: number_def)

lemma number_decimal: "number (decimal n) = int n"
proof (induction n rule: less_induct)
  case (less n)
  show ?case
  proof (cases "n < 10")
    case True
    then show ?thesis by (simp add: decimal.simps [of n] number_def code_char)
  next
    case False
    then have "number (decimal n) = 10 * int (n div 10) + int (n mod 10)"
      using less.IH [of "n div 10"] by (simp add: decimal.simps [of n] number_snoc code_char)
    also have "\<dots> = 10 * (int n div 10) + int n mod 10" by (simp only: zdiv_int zmod_int of_nat_numeral)
    finally show ?thesis unfolding mult_div_mod_eq .
  qed
qed

lemma decimal_nonempty [simp]: "decimal n \<noteq> []"
  by (simp add: decimal.simps)

lemma digit_facts:
  "digit c \<Longrightarrow> \<not> blank c" "\<not> digit (CHR ''-'')" "\<not> digit (CHR ''+'')" "blank (CHR '' '')" "blank (CHR 0x0A)"
  by (auto simp: digit_def blank_def code_def)

lemma take_digits:
  assumes "\<forall>c \<in> set ds. P c" and "r = [] \<or> \<not> P (hd r)"
  shows "takeWhile P (ds @ r) = ds" and "dropWhile P (ds @ r) = r"
  using assms by (induction ds) (cases r; auto)+

lemma hd_decimal: "digit (hd (decimal n))"
  using decimal_digits [of "hd (decimal n)" n] by simp

lemma scan_number_decimal:
  assumes "\<forall>c \<in> set b. blank c" and "r = [] \<or> \<not> digit (hd r)"
  shows "scan_number (b @ decimal n @ r) = (Some (int n), r)"
proof -
  have "dropWhile blank (b @ decimal n @ r) = decimal n @ r"
    using assms(1) digit_facts(1) [OF hd_decimal [of n]] by (induction b) (cases "decimal n"; auto)+
  moreover have "hd (decimal n @ r) \<noteq> CHR ''-''" "hd (decimal n @ r) \<noteq> CHR ''+''"
    using hd_decimal [of n] digit_facts(2,3) by auto
  ultimately show ?thesis
    using take_digits [of "decimal n" digit r] assms(2) decimal_digits [of _ n] number_decimal [of n]
    by (simp add: scan_number_def Let_def)
qed

lemma scan_d_decimal:
  "\<forall>c \<in> set b. blank c \<Longrightarrow> r = [] \<or> \<not> digit (hd r) \<Longrightarrow> n < 2147483648 \<Longrightarrow> scan_d (b @ decimal n @ r) = (Some (int n), r)"
  by (simp add: scan_d_def scan_number_decimal)

lemma scan_u_decimal:
  "\<forall>c \<in> set b. blank c \<Longrightarrow> r = [] \<or> \<not> digit (hd r) \<Longrightarrow> n < 4294967296 \<Longrightarrow> scan_u (b @ decimal n @ r) = (Some (int n), r)"
  by (simp add: scan_u_def scan_number_decimal)

lemma scan_str_word:
  assumes "w \<noteq> []" and "\<forall>c \<in> set w. \<not> blank c" and "\<forall>c \<in> set b. blank c" and "r = [] \<or> blank (hd r)"
  shows "scan_str (b @ w @ r) = Some (w, r)"
proof -
  have "dropWhile blank (b @ w @ r) = w @ r" using assms(1-3) by (induction b) (cases w; auto)+
  then show ?thesis using take_digits [of w "\<lambda>c. \<not> blank c" r] assms by (simp add: scan_str_def Let_def)
qed

lemma scan_str_end: "\<forall>c \<in> set b. blank c \<Longrightarrow> scan_str b = None"
  by (simp add: scan_str_def)

lemma scan_str_shorter: "scan_str s = Some (w, r) \<Longrightarrow> length r < length s"
proof -
  assume s: "scan_str s = Some (w, r)"
  let ?t = "dropWhile blank s"
  have t: "?t \<noteq> []" "r = dropWhile (\<lambda>c. \<not> blank c) ?t" using s by (auto simp: scan_str_def Let_def split: if_splits)
  have "\<not> blank (hd ?t)" by (rule hd_dropWhile [OF t(1)])
  then have "length r < length ?t" using t by (cases ?t) (auto simp: length_dropWhile_le less_Suc_eq_le)
  then show ?thesis using length_dropWhile_le [of blank s] by simp
qed

lemma scan_number_shorter: "scan_number s = (v, r) \<Longrightarrow> length r \<le> length s"
proof -
  assume s: "scan_number s = (v, r)"
  let ?t = "dropWhile blank s"
  let ?u = "if ?t \<noteq> [] \<and> (hd ?t = CHR ''-'' \<or> hd ?t = CHR ''+'') then tl ?t else ?t"
  have r: "r = dropWhile digit ?u" using s unfolding scan_number_def Let_def by (simp only: prod.inject)
  have "length ?u \<le> length ?t" by simp
  then show ?thesis using length_dropWhile_le [of digit ?u] length_dropWhile_le [of blank s] unfolding r by linarith
qed

lemma scan_u_shorter: "scan_u s = (v, r) \<Longrightarrow> length r \<le> length s"
  by (auto simp: scan_u_def split: prod.splits dest: scan_number_shorter)

section \<open>Lines\<close>

text \<open>\<open>fgets(buf, n, stream)\<close> on the rest of the input: the text stored, what is left, and whether the
  end of the file was met. A null result is the empty text.\<close>

definition fgets :: "nat \<Rightarrow> string \<Rightarrow> string \<times> string \<times> bool" where
  "fgets n s =
     (let k = n - 1; pre = takeWhile (\<lambda>c. c \<noteq> CHR 0x0A) (take k s) in
      if length pre < length (take k s) then (pre @ [CHR 0x0A], drop (Suc (length pre)) s, False)
      else if k \<le> length s then (take k s, drop k s, False)
      else (s, [], True))"

lemma fgets_append: "fgets n s = (l, r, e) \<Longrightarrow> s = l @ r"
proof -
  assume f: "fgets n s = (l, r, e)"
  let ?p = "\<lambda>c. c \<noteq> CHR 0x0A" and ?t = "take (n - 1) s"
  have "s = takeWhile ?p ?t @ [CHR 0x0A] @ drop (Suc (length (takeWhile ?p ?t))) s" if "length (takeWhile ?p ?t) < length ?t"
  proof -
    have d: "dropWhile ?p ?t \<noteq> []" using that by (metis append_Nil2 less_irrefl takeWhile_dropWhile_id)
    then obtain w where w: "dropWhile ?p ?t = CHR 0x0A # w" using hd_dropWhile [OF d] by (cases "dropWhile ?p ?t") auto
    define pre where "pre = takeWhile ?p ?t"
    have "s = ?t @ drop (n - 1) s" by simp
    also have "?t = pre @ CHR 0x0A # w" unfolding pre_def w [symmetric] by simp
    finally have s: "s = pre @ CHR 0x0A # w @ drop (n - 1) s" by simp
    have "drop (Suc (length pre)) s = w @ drop (n - 1) s" by (subst s) simp
    then show ?thesis using s unfolding pre_def [symmetric] by simp
  qed
  then show ?thesis using f unfolding fgets_def Let_def
    by (cases "length (takeWhile ?p ?t) < length ?t"; cases "n - 1 \<le> length s") auto
qed

lemma fgets_line:
  assumes "CHR 0x0A \<notin> set l" and "length l < n - 1"
  shows "fgets n (l @ CHR 0x0A # rest) = (l @ [CHR 0x0A], rest, False)"
proof -
  have "takeWhile (\<lambda>c. c \<noteq> CHR 0x0A) (take (n - 1) (l @ CHR 0x0A # rest)) = l"
  proof -
    have n: "\<And>x. x \<in> set l \<Longrightarrow> x \<noteq> CHR 0x0A" using assms(1) by auto
    obtain k where "n - 1 - length l = Suc k" using assms(2) by (cases "n - 1 - length l") auto
    then have "take (n - 1) (l @ CHR 0x0A # rest) = l @ CHR 0x0A # take k rest" using assms(2) by simp
    then show ?thesis using n by (simp only: takeWhile_append2) simp
  qed
  then show ?thesis using assms(2) by (simp add: fgets_def Let_def)
qed

lemma fgets_last:
  assumes "CHR 0x0A \<notin> set l" and "length l < n - 1"
  shows "fgets n l = (l, [], True)"
proof -
  have "\<And>x. x \<in> set l \<Longrightarrow> x \<noteq> CHR 0x0A" using assms(1) by auto
  then have "takeWhile (\<lambda>c. c \<noteq> CHR 0x0A) (take (n - 1) l) = l" using assms(2) by simp
  then show ?thesis using assms(2) by (simp only: fgets_def Let_def) simp
qed

text \<open>All that a loop \<open>while (fgets(buf, n, stream) != NULL)\<close> sees.\<close>

function fgets_lines :: "nat \<Rightarrow> string \<Rightarrow> string list" where
  "fgets_lines n s = (case fgets n s of (l, r, _) \<Rightarrow> if l = [] then [] else l # fgets_lines n r)"
  by pat_completeness auto
termination
  by (relation "measure (\<lambda>(n, s). length s)") (auto dest!: fgets_append [OF sym])

declare fgets_lines.simps [simp del]

lemma fgets_lines_Nil [simp]: "fgets_lines n [] = []"
  by (simp add: fgets_lines.simps fgets_def Let_def)

lemma concat_fgets_lines:
  assumes "1 < n" shows "concat (fgets_lines n s) = s"
  using assms
proof (induction n s rule: fgets_lines.induct)
  case (1 n s)
  obtain l r e where f: "fgets n s = (l, r, e)" by (cases "fgets n s") auto
  show ?case
  proof (cases "l = []")
    case True
    then have "s = []" using f 1(2) by (auto simp: fgets_def Let_def split: if_splits)
    then show ?thesis by simp
  next
    case False
    then show ?thesis using 1 f fgets_append [OF f] by (subst fgets_lines.simps) simp
  qed
qed

definition short_line :: "nat \<Rightarrow> string \<Rightarrow> bool" where
  "short_line n s \<longleftrightarrow> (\<exists>l. s = l @ [CHR 0x0A] \<and> CHR 0x0A \<notin> set l \<and> length s < n)"

lemma short_line_code [code]: "short_line n s \<longleftrightarrow> s \<noteq> [] \<and> last s = CHR 0x0A \<and> CHR 0x0A \<notin> set (butlast s) \<and> length s < n"
  by (auto simp: short_line_def intro!: exI [of _ "butlast s"] dest: append_butlast_last_id)

lemma fgets_lines_concat: "\<forall>l \<in> set ls. short_line n l \<Longrightarrow> fgets_lines n (concat ls) = ls"
proof (induction ls)
  case (Cons s ls)
  then obtain l where l: "s = l @ [CHR 0x0A]" "CHR 0x0A \<notin> set l" "length l < n - 1" by (auto simp: short_line_def)
  have "fgets n (concat (s # ls)) = (s, concat ls, False)" using fgets_line [OF l(2,3)] l(1) by simp
  then show ?case using Cons l(1) by (subst fgets_lines.simps) simp
qed simp

section \<open>Hexadecimal numbers\<close>

definition hex_digit :: "char \<Rightarrow> int option" where
  "hex_digit c =
     (if digit c then Some (int (code c) - 48)
      else if 97 \<le> code c \<and> code c \<le> 102 then Some (int (code c) - 87)
      else if 65 \<le> code c \<and> code c \<le> 70 then Some (int (code c) - 55)
      else None)"

definition is_hex :: "char \<Rightarrow> bool" where
  "is_hex c \<longleftrightarrow> hex_digit c \<noteq> None"

definition hex_number :: "string \<Rightarrow> int" where
  "hex_number ds = foldl (\<lambda>n c. 16 * n + the (hex_digit c)) 0 ds"

text \<open>\<open>%llx\<close> of 64 bits: white space, a sign, \<open>0x\<close>, digits. The value stops at the end of the range.\<close>

definition has_0x :: "string \<Rightarrow> bool" where
  "has_0x s \<longleftrightarrow> (\<exists>c r. s = CHR ''0'' # c # r \<and> (c = CHR ''x'' \<or> c = CHR ''X''))"

lemma has_0x_code [code]: "has_0x s = (case s of a # c # r \<Rightarrow> a = CHR ''0'' \<and> (c = CHR ''x'' \<or> c = CHR ''X'') | _ \<Rightarrow> False)"
  by (auto simp: has_0x_def split: list.split)

definition scan_llx :: "string \<Rightarrow> int option \<times> string" where
  "scan_llx s =
     (let s = dropWhile blank s;
          neg = (s \<noteq> [] \<and> hd s = CHR ''-'');
          s = (if s \<noteq> [] \<and> (hd s = CHR ''-'' \<or> hd s = CHR ''+'') then tl s else s);
          s = (if has_0x s then drop 2 s else s);
          ds = takeWhile is_hex s; v = hex_number ds
      in (if ds = [] then None else Some (if 2 ^ 64 \<le> v then 2 ^ 64 - 1 else if neg then (- v) mod 2 ^ 64 else v), dropWhile is_hex s))"

fun hexadecimal :: "nat \<Rightarrow> string" where
  "hexadecimal n =
     (if n < 16 then [char_of (if n < 10 then 48 + n else 87 + n)]
      else hexadecimal (n div 16) @ [char_of (if n mod 16 < 10 then 48 + n mod 16 else 87 + n mod 16)])"

declare hexadecimal.simps [simp del]

lemma hex_char: "n < 16 \<Longrightarrow> hex_digit (char_of (if n < 10 then 48 + n else 87 + n)) = Some (int n)"
  by (auto simp: hex_digit_def digit_def code_char)

lemma hexadecimal_digits: "c \<in> set (hexadecimal n) \<Longrightarrow> is_hex c"
proof (induction n arbitrary: c rule: less_induct)
  case (less n)
  have m: "n mod 16 < 16" by simp
  show ?case
  proof (cases "n < 16")
    case True
    then show ?thesis using less.prems hex_char [OF True] by (auto simp: hexadecimal.simps [of n] is_hex_def)
  next
    case False
    then have "c \<in> set (hexadecimal (n div 16)) \<or> c = char_of (if n mod 16 < 10 then 48 + n mod 16 else 87 + n mod 16)"
      using less.prems by (subst (asm) hexadecimal.simps) auto
    then show ?thesis using less.IH [of "n div 16"] False hex_char [OF m] by (auto simp: is_hex_def)
  qed
qed

lemma hex_number_hexadecimal: "hex_number (hexadecimal n) = int n"
proof (induction n rule: less_induct)
  case (less n)
  have m: "n mod 16 < 16" by simp
  show ?case
  proof (cases "n < 16")
    case True
    then show ?thesis using hex_char [OF True] by (simp add: hexadecimal.simps [of n] hex_number_def)
  next
    case False
    then have "hex_number (hexadecimal n) = 16 * hex_number (hexadecimal (n div 16)) + int (n mod 16)"
      using hex_char [OF m] by (subst hexadecimal.simps) (simp add: hex_number_def)
    also have "\<dots> = int (16 * (n div 16) + n mod 16)" using less.IH [of "n div 16"] False
      by (simp only: of_nat_add of_nat_mult of_nat_numeral)
    finally show ?thesis by (simp only: mult_div_mod_eq)
  qed
qed

lemma hexadecimal_nonempty [simp]: "hexadecimal n \<noteq> []"
  by (simp add: hexadecimal.simps)

lemma hex_facts:
  "is_hex c \<Longrightarrow> \<not> blank c" "\<not> is_hex (CHR ''-'')" "\<not> is_hex (CHR ''+'')" "\<not> is_hex (CHR ''x'')" "\<not> is_hex (CHR ''X'')"
  "\<not> is_hex (CHR '','')" "\<not> is_hex (CHR '' '')"
  by (auto simp: is_hex_def hex_digit_def digit_def blank_def code_def split: if_splits)

lemma scan_llx_digits:
  assumes "\<forall>c \<in> set b. blank c" and "ds \<noteq> []" and "\<forall>c \<in> set ds. is_hex c"
    and "r = [] \<or> \<not> is_hex (hd r) \<and> hd r \<noteq> CHR ''x'' \<and> hd r \<noteq> CHR ''X''" and "hex_number ds < 2 ^ 64"
  shows "scan_llx (b @ ds @ r) = (Some (hex_number ds), r)"
proof -
  obtain d ds' where d: "ds = d # ds'" using assms(2) by (cases ds) auto
  have hd: "is_hex d" using assms(3) d by simp
  have s: "dropWhile blank (b @ ds @ r) = ds @ r"
    using assms(1) hex_facts(1) [OF hd] d by (induction b) auto
  have n0: "\<not> has_0x (ds @ r)"
  proof
    assume "has_0x (ds @ r)"
    then obtain c q where c: "ds @ r = CHR ''0'' # c # q" "c = CHR ''x'' \<or> c = CHR ''X''" by (auto simp: has_0x_def)
    show False
    proof (cases ds')
      case Nil
      then show ?thesis using c d assms(4) by auto
    next
      case (Cons e es)
      then have "is_hex c" using c d assms(3) by auto
      then show ?thesis using c(2) hex_facts(4,5) by auto
    qed
  qed
  have "d \<noteq> CHR ''-''" "d \<noteq> CHR ''+''" using hd hex_facts(2,3) by auto
  then show ?thesis using s n0 d assms(5) take_digits [of ds is_hex r] assms(3,4) unfolding scan_llx_def Let_def by auto
qed

lemma scan_llx_hexadecimal:
  assumes "\<forall>c \<in> set b. blank c" and "r = [] \<or> \<not> is_hex (hd r) \<and> hd r \<noteq> CHR ''x'' \<and> hd r \<noteq> CHR ''X''" and "n < 2 ^ 64"
  shows "scan_llx (b @ hexadecimal n @ r) = (Some (int n), r)"
  using scan_llx_digits [OF assms(1) hexadecimal_nonempty _ assms(2)] hexadecimal_digits assms(3)
  by (simp add: hex_number_hexadecimal)

lemma scan_llx_shorter: "scan_llx s = (v, r) \<Longrightarrow> length r \<le> length s"
proof -
  assume s: "scan_llx s = (v, r)"
  let ?t = "dropWhile blank s"
  let ?u = "if ?t \<noteq> [] \<and> (hd ?t = CHR ''-'' \<or> hd ?t = CHR ''+'') then tl ?t else ?t"
  let ?w = "if has_0x ?u then drop 2 ?u else ?u"
  have r: "r = dropWhile is_hex ?w" using s unfolding scan_llx_def Let_def by (simp only: prod.inject)
  have "length (if has_0x u then drop 2 u else u) \<le> length u" for u by auto
  then have "length ?w \<le> length ?u" .
  moreover have "length ?u \<le> length ?t" by simp
  ultimately have "length ?w \<le> length ?u" "length ?u \<le> length ?t" by blast+
  then show ?thesis using length_dropWhile_le [of is_hex ?w] length_dropWhile_le [of blank s] unfolding r by linarith
qed

lemma scan_d_shorter: "scan_d s = (v, r) \<Longrightarrow> length r \<le> length s"
  by (auto simp: scan_d_def split: prod.splits dest: scan_number_shorter)

text \<open>\<open>atoi\<close>; a text without a number is 0. Outside the range it is undefined in C, here the end of the range.\<close>

definition c_atoi :: "string \<Rightarrow> int" where
  "c_atoi s = (case fst (scan_d s) of None \<Rightarrow> 0 | Some n \<Rightarrow> n)"

lemma c_atoi_show_int: "0 \<le> n \<Longrightarrow> n < 2147483648 \<Longrightarrow> c_atoi (show_int n) = n"
  using scan_d_decimal [of "[]" "[]" "nat n"] by (simp add: c_atoi_def show_int_def nat_less_iff)

end
