(* ===== verification/Mm_Naive.thy ===== *)
theory Mm_Naive
  imports Allocator
begin

text \<open>
  The allocator of \<open>malloclab/src/mm.c\<close>: every request moves the break, nothing is reused. A block
  is preceded by a word with the requested size. It keeps the contract of \<open>Allocator\<close>, too.
\<close>

section \<open>The code\<close>

definition align8 :: "int \<Rightarrow> int" where
  "align8 sz = u32 (sz + 7) AND NOT 7"

definition SIZE_T_SIZE :: int where
  "SIZE_T_SIZE = align8 4"

definition naive_init :: "'a machine_scheme \<Rightarrow> (int \<times> 'a machine_scheme) option" where
  "naive_init h = Some (0, h)"

definition naive_malloc :: "int \<Rightarrow> 'a machine_scheme \<Rightarrow> (int \<times> 'a machine_scheme) option" where
  "naive_malloc sz h =
     (let newsize = align8 (u32 (sz + SIZE_T_SIZE)) in
      case sbrk newsize h of (p, h) \<Rightarrow>
        if p = -1 then Some (0, h)
        else Some (p + SIZE_T_SIZE, h\<lparr>mem := PUT (mem h) p sz\<rparr>))"

definition naive_free :: "int \<Rightarrow> 'a machine_scheme \<Rightarrow> 'a machine_scheme option" where
  "naive_free p h = Some h"

definition naive_realloc :: "int \<Rightarrow> int \<Rightarrow> 'a machine_scheme \<Rightarrow> (int \<times> 'a machine_scheme) option" where
  "naive_realloc oldptr sz h =
     (case naive_malloc sz h of
        None \<Rightarrow> None
      | Some (newptr, h) \<Rightarrow>
          if newptr = 0 then Some (0, h)
          else let copySize = GET (mem h) (oldptr - SIZE_T_SIZE);
                   copySize = (if sz < copySize then sz else copySize)
               in map_option (\<lambda>h. (newptr, h))
                    (naive_free oldptr (h\<lparr>mem := copy_bytes (mem h) newptr oldptr copySize\<rparr>)))"

section \<open>The contract\<close>

definition naive_live :: "'a machine_scheme \<Rightarrow> (int \<times> int) set \<Rightarrow> bool" where
  "naive_live h T \<longleftrightarrow> 0 < mem_start_brk (sys h) \<and> 8 dvd mem_brk (sys h) \<and> mem_start_brk (sys h) \<le> mem_brk (sys h)
     \<and> mem_max_addr (sys h) = mem_start_brk (sys h) + MAX_HEAP
     \<and> (\<forall>p t. (p, t) \<in> T \<longrightarrow> 0 < t \<and> t < 2 ^ 31 \<and> 8 dvd p \<and> mem_start_brk (sys h) + 8 \<le> p
          \<and> p + t \<le> mem_brk (sys h) \<and> GET (mem h) (p - 8) = t)
     \<and> (\<forall>p t q u. (p, t) \<in> T \<longrightarrow> (q, u) \<in> T \<longrightarrow> (p, t) = (q, u) \<or> p + t \<le> q - 8 \<or> q + u \<le> p - 8)"

definition naive_cost :: "int \<Rightarrow> int" where
  "naive_cost n = (if 0 \<le> n \<and> n < 2 ^ 31 then align8 (n + 8) else 0)"

lemma align8_eq: "align8 sz = u32 (sz + 7) - u32 (sz + 7) mod 8"
  unfolding align8_def and_not_7 ..

lemma SIZE_T_SIZE_8 [simp]: "SIZE_T_SIZE = 8"
  by (simp add: SIZE_T_SIZE_def align8_eq u32_def)

lemma naive_size:
  assumes "0 < n" and "n < 2 ^ 31"
  shows "n + 8 \<le> naive_cost n" and "8 dvd naive_cost n" and "0 \<le> naive_cost n" and "naive_cost n < 2 ^ 32"
    and "u32 (n + 8) = n + 8" and "align8 (n + 8) = naive_cost n"
proof -
  show u: "u32 (n + 8) = n + 8" and e: "align8 (n + 8) = naive_cost n" using assms by (simp_all add: u32_def naive_cost_def)
  have "u32 (n + 8 + 7) = n + 15" using assms by (simp add: u32_def)
  then have c: "naive_cost n = n + 15 - (n + 15) mod 8" using e by (simp only: align8_eq)
  have "(n + 15) mod 8 < 8" "0 \<le> (n + 15) mod 8" by simp_all
  then show "n + 8 \<le> naive_cost n" "0 \<le> naive_cost n" "naive_cost n < 2 ^ 32" using c assms by simp_all
  show "8 dvd naive_cost n" unfolding c by presburger
qed

lemma naive_liveD:
  assumes "naive_live h T" and "(p, t) \<in> T"
  shows "0 < t" and "t < 2 ^ 31" and "8 dvd p" and "mem_start_brk (sys h) + 8 \<le> p" and "p + t \<le> mem_brk (sys h)"
    and "GET (mem h) (p - 8) = t"
  using assms unfolding naive_live_def by blast+

lemma naive_apart:
  assumes "naive_live h T" and "(p, t) \<in> T" and "(q, u) \<in> T"
  shows "(p, t) = (q, u) \<or> p + t \<le> q - 8 \<or> q + u \<le> p - 8"
  using assms unfolding naive_live_def by blast

lemma naive_live_mono: "naive_live h T \<Longrightarrow> T' \<subseteq> T \<Longrightarrow> naive_live h T'"
  unfolding naive_live_def by blast

text \<open>Writing into a block.\<close>

lemma naive_write:
  assumes l: "naive_live h T" and p: "(p, t) \<in> T" and m: "\<And>x. x < p \<or> p + t \<le> x \<Longrightarrow> m x = mem h x"
  shows "naive_live (h\<lparr>mem := m\<rparr>) T"
proof -
  have "GET m (q - 8) = GET (mem h) (q - 8)" if "(q, u) \<in> T" for q u
    by (rule GET_cong, rule m) (use naive_apart [OF l p that] naive_liveD(1) [OF l p] naive_liveD(1) [OF l that] in auto)
  then show ?thesis using l unfolding naive_live_def by auto
qed

lemma naive_malloc_ok:
  assumes l: "naive_live h T" and n: "0 < n" "n < 2 ^ 31"
  shows "\<exists>p h'. naive_malloc n h = Some (p, h') \<and>
    (p = 0 \<and> h' = h \<and> \<not> room h (naive_cost n)
     \<or> p \<noteq> 0 \<and> naive_live h' (insert (p, n) T) \<and> p \<notin> fst ` T \<and> same_at T h h' \<and> grows (naive_cost n) h h')"
proof -
  note c = naive_size [OF n]
  let ?b = "mem_brk (sys h)"
  have g: "0 < mem_start_brk (sys h)" "8 dvd ?b" "mem_start_brk (sys h) \<le> ?b"
    "mem_max_addr (sys h) = mem_start_brk (sys h) + 20971520"
    using l by (simp_all add: naive_live_def MAX_HEAP_def)
  have sb: "sbrk (naive_cost n) h = (if room h (naive_cost n) then (?b, h\<lparr>sys := (sys h)\<lparr>mem_brk := ?b + naive_cost n\<rparr>\<rparr>) else (-1, h))"
    using g c by (simp add: sbrk_def mem_sbrk_def room_def to_int_def)
  show ?thesis
  proof (cases "room h (naive_cost n)")
    case False
    then show ?thesis using sb c by (simp add: naive_malloc_def)
  next
    case True
    let ?h = "h\<lparr>sys := (sys h)\<lparr>mem_brk := ?b + naive_cost n\<rparr>, mem := PUT (mem h) ?b n\<rparr>"
    have m: "naive_malloc n h = Some (?b + 8, ?h)" using sb True c g by (simp add: naive_malloc_def)
    have fr: "PUT (mem h) ?b n x = mem h x" if "x < ?b" for x by (rule PUT_frame) (use that in simp)
    have "GET (PUT (mem h) ?b n) ?b = n" by (rule GET_PUT_same) (use n in simp_all)
    moreover have "GET (PUT (mem h) ?b n) (q - 8) = u \<and> q + u \<le> ?b" if "(q, u) \<in> T" for q u
      using naive_liveD [OF l that] by (simp add: GET_PUT_other)
    ultimately have "naive_live ?h (insert (?b + 8, n) T)"
      using l n c g unfolding naive_live_def by (auto simp: MAX_HEAP_def) fastforce+
    moreover have "?b + 8 \<notin> fst ` T" using naive_liveD(1,5) [OF l] by fastforce
    moreover have "same_at T h ?h" using naive_liveD(5) [OF l] fr by (fastforce simp: same_at_def)
    moreover have "grows (naive_cost n) h ?h" using c by (simp add: grows_def)
    ultimately show ?thesis using m g by auto
  qed
qed

lemma naive_realloc_ok:
  assumes l: "naive_live h T" and p: "(p, t) \<in> T" and n: "0 < n" "n < 2 ^ 31"
  shows "\<exists>q h'. naive_realloc p n h = Some (q, h') \<and>
    (q = 0 \<and> h' = h \<and> \<not> room h (naive_cost n)
     \<or> q \<noteq> 0 \<and> naive_live h' (insert (q, n) (T - {(p, t)})) \<and> q \<notin> fst ` (T - {(p, t)})
       \<and> same_at (T - {(p, t)}) h h' \<and> grows (naive_cost n) h h'
       \<and> (\<forall>k. 0 \<le> k \<and> k < min n t \<longrightarrow> mem h' (q + k) = mem h (p + k)))"
proof -
  obtain q h1 where m: "naive_malloc n h = Some (q, h1)" and d: "q = 0 \<and> h1 = h \<and> \<not> room h (naive_cost n)
     \<or> q \<noteq> 0 \<and> naive_live h1 (insert (q, n) T) \<and> q \<notin> fst ` T \<and> same_at T h h1 \<and> grows (naive_cost n) h h1"
    using naive_malloc_ok [OF l n] by blast
  show ?thesis
  proof (cases "q = 0")
    case True
    then show ?thesis using m d by (simp add: naive_realloc_def)
  next
    case False
    then have l1: "naive_live h1 (insert (q, n) T)" and f: "q \<notin> fst ` T" and s: "same_at T h h1"
      and g: "grows (naive_cost n) h h1" using d by blast+
    have qT: "(q, n) \<in> insert (q, n) T" and pT: "(p, t) \<in> insert (q, n) T" using p by simp_all
    define h2 where "h2 = h1\<lparr>mem := copy_bytes (mem h1) q p (min n t)\<rparr>"
    have cs: "(if n < t then n else t) = min n t" by simp
    have r: "naive_realloc p n h = Some (q, h2)"
      using m False naive_liveD(6) [OF l1 pT] by (simp add: naive_realloc_def naive_free_def h2_def cs)
    have out: "copy_bytes (mem h1) q p (min n t) x = mem h1 x" if "x < q \<or> q + n \<le> x" for x
      using that by (auto simp: copy_bytes_def)
    have l2: "naive_live h2 (insert (q, n) T)" unfolding h2_def by (rule naive_write [OF l1 qT out])
    have s2: "same_at T h1 h2"
    proof -
      have "mem h2 x = mem h1 x" if a: "(a, b) \<in> T" "a \<le> x" "x < a + b" for a b x
        using naive_apart [OF l1 qT, of a b] a f unfolding h2_def by (simp, intro out) force
      then show ?thesis by (auto simp: same_at_def)
    qed
    have "naive_live h2 (insert (q, n) (T - {(p, t)}))" by (rule naive_live_mono [OF l2]) blast
    moreover have "same_at (T - {(p, t)}) h h2" by (rule same_at_mono [OF same_at_trans [OF s s2]]) blast
    moreover have "grows (naive_cost n) h h2" using g by (simp add: grows_def h2_def)
    moreover have "mem h2 (q + k) = mem h (p + k)" if k: "0 \<le> k" "k < min n t" for k
      using k same_atD [OF s p, of "p + k"] by (simp add: h2_def copy_bytes_def)
    moreover have "q \<notin> fst ` (T - {(p, t)})" using f by blast
    ultimately show ?thesis using r False by blast
  qed
qed

interpretation naive: allocator naive_init naive_malloc naive_realloc naive_free naive_live naive_cost 0
proof unfold_locales
  fix h :: "'a machine_scheme" assume "fresh_heap h"
  then show "\<exists>h'. naive_init h = Some (0, h') \<and> naive_live h' {} \<and> grows 0 h h'"
    by (auto simp: naive_init_def naive_live_def fresh_heap_def grows_def)
next
  fix n show "0 \<le> naive_cost n" using naive_size(3) [of n] by (cases "n = 0") (auto simp: naive_cost_def align8_eq u32_def)
next
  fix h :: "'a machine_scheme" and T p t assume l: "naive_live h T" "(p, t) \<in> T"
  have "0 < mem_start_brk (sys h)" using l(1) by (simp add: naive_live_def)
  then show "0 < t \<and> 0 < p \<and> 8 dvd p \<and> mem_start_brk (sys h) \<le> p \<and> p + t \<le> mem_brk (sys h)"
    using naive_liveD [OF l] by simp
next
  fix h :: "'a machine_scheme" and T p t q u assume l: "naive_live h T" "(p, t) \<in> T" "(q, u) \<in> T"
  then show "(p, t) = (q, u) \<or> p + t \<le> q \<or> q + u \<le> p" using naive_apart [OF l] by auto
next
  fix h :: "'a machine_scheme" and T p t m assume "naive_live h T" "(p, t) \<in> T" "\<And>x. x < p \<or> p + t \<le> x \<Longrightarrow> m x = mem h x"
  then show "naive_live (h\<lparr>mem := m\<rparr>) T" by (rule naive_write)
next
  fix h :: "'a machine_scheme" and T n assume "naive_live h T" "0 < n" "n < (2 :: int) ^ 31"
  from naive_malloc_ok [OF this] show "\<exists>p h'. naive_malloc n h = Some (p, h') \<and>
        (p = 0 \<and> h' = h \<and> \<not> room h (naive_cost n)
         \<or> p \<noteq> 0 \<and> (\<exists>t. n \<le> t \<and> naive_live h' (insert (p, t) T)) \<and> p \<notin> fst ` T \<and> same_at T h h' \<and> grows (naive_cost n) h h')"
    by (elim exE, blast)
next
  fix h :: "'a machine_scheme" and T p t n assume "naive_live h T" "(p, t) \<in> T" "0 < n" "n < (2 :: int) ^ 31"
  from naive_realloc_ok [OF this] show "\<exists>q h'. naive_realloc p n h = Some (q, h') \<and>
        (q = 0 \<and> h' = h \<and> \<not> room h (naive_cost n)
         \<or> q \<noteq> 0 \<and> (\<exists>u. n \<le> u \<and> naive_live h' (insert (q, u) (T - {(p, t)}))) \<and> q \<notin> fst ` (T - {(p, t)})
           \<and> same_at (T - {(p, t)}) h h' \<and> grows (naive_cost n) h h'
           \<and> (\<forall>k. 0 \<le> k \<and> k < min n t \<longrightarrow> mem h' (q + k) = mem h (p + k)))"
    by (elim exE, blast)
next
  fix h :: "'a machine_scheme" and T p t assume "naive_live h T" "(p, t) \<in> T"
  then have "naive_live h (T - {(p, t)})" by (blast intro: naive_live_mono)
  then show "\<exists>h'. naive_free p h = Some h' \<and> naive_live h' (T - {(p, t)}) \<and> same_at (T - {(p, t)}) h h' \<and> grows 0 h h'"
    by (simp add: naive_free_def same_at_refl grows_refl)
qed

end
