(* ===== verification/Mdriver.thy ===== *)
theory Mdriver
  imports Mm_Interface Mm_Naive
begin

text \<open>
  The driver of the malloc lab, \<open>mdriver.c\<close>: range list, trace files and the evaluation of an
  allocator on a trace. The driver is linked with one allocator; here the allocator is a
  \<open>package\<close>, an argument. In the context of \<open>allocator\<close> the driver accepts every trace that fits
  into the heap.
\<close>

section \<open>The driver's data\<close>

definition ALIGNMENT :: int where "ALIGNMENT = 8"

definition IS_ALIGNED :: "int \<Rightarrow> bool" where
  "IS_ALIGNED p = (u32 p mod ALIGNMENT = 0)"

record range_t =
  r_lo :: int
  r_hi :: int

datatype request_type = ALLOC | FREE | REALLOC

record traceop =
  op_type :: request_type
  op_index :: int
  op_size :: int

text \<open>The errors that \<open>malloc_error\<close> reports.\<close>

datatype complaint = Init_failed | Malloc_failed | Realloc_failed | Misaligned | Outside_heap | Overlap | Data_lost

record 'a package =
  init_fn :: "'a machine_scheme \<Rightarrow> (int \<times> 'a machine_scheme) option"
  malloc_fn :: "int \<Rightarrow> 'a machine_scheme \<Rightarrow> (int \<times> 'a machine_scheme) option"
  realloc_fn :: "int \<Rightarrow> int \<Rightarrow> 'a machine_scheme \<Rightarrow> (int \<times> 'a machine_scheme) option"
  free_fn :: "int \<Rightarrow> 'a machine_scheme \<Rightarrow> 'a machine_scheme option"

record 'a driver =
  mach :: "'a machine_scheme"
  ranges :: "range_t list"
  blocks :: "int list"
  block_sizes :: "int list"
  errors :: "(nat \<times> complaint) list"

text \<open>How a part of the driver ends: it goes on, it returns 0 after an error, the process ends by an
  assertion or \<open>app_error\<close>, an array is left, or the allocator does not return.\<close>

datatype 'b run = Next 'b | Failed 'b | Aborted | Crash | Stuck

definition malloc_error :: "nat \<Rightarrow> complaint \<Rightarrow> 'a driver \<Rightarrow> 'a driver" where
  "malloc_error opnum c d = d\<lparr>errors := errors d @ [(opnum, c)]\<rparr>"

section \<open>The range list\<close>

text \<open>\<open>None\<close> is the failed assertion.\<close>

definition add_range :: "memsys \<Rightarrow> int \<Rightarrow> int \<Rightarrow> range_t list \<Rightarrow> (complaint + range_t list) option" where
  "add_range ms lo sz rs =
     (let hi = lo + sz - 1 in
      if \<not> 0 < sz then None
      else if \<not> IS_ALIGNED lo then Some (Inl Misaligned)
      else if lo < mem_heap_lo ms \<or> lo > mem_heap_hi ms \<or> hi < mem_heap_lo ms \<or> hi > mem_heap_hi ms
      then Some (Inl Outside_heap)
      else if \<exists>p \<in> set rs. (lo \<ge> r_lo p \<and> lo \<le> r_hi p) \<or> (hi \<ge> r_lo p \<and> hi \<le> r_hi p) then Some (Inl Overlap)
      else Some (Inr (\<lparr>r_lo = lo, r_hi = hi\<rparr> # rs)))"

fun remove_range :: "range_t list \<Rightarrow> int \<Rightarrow> range_t list" where
  "remove_range [] lo = []"
| "remove_range (p # rs) lo = (if r_lo p = lo then rs else p # remove_range rs lo)"

definition clear_ranges :: "range_t list \<Rightarrow> range_t list" where
  "clear_ranges rs = []"

section \<open>Checking an allocator\<close>

definition memset :: "memory \<Rightarrow> int \<Rightarrow> int \<Rightarrow> int \<Rightarrow> memory" where
  "memset m p v n = (\<lambda>a. if p \<le> a \<and> a < p + n then word_of_int v else m a)"

text \<open>The comparison of the bytes, as \<open>char\<close>, with the low byte of the index.\<close>

definition data_kept :: "memory \<Rightarrow> int \<Rightarrow> int \<Rightarrow> int \<Rightarrow> bool" where
  "data_kept m newp index oldsize = list_all (\<lambda>j. sint (m (newp + int j)) = index AND 0xFF) [0..<nat oldsize]"

definition bad_index :: "int \<Rightarrow> 'a driver \<Rightarrow> bool" where
  "bad_index index d \<longleftrightarrow> index < 0 \<or> int (length (blocks d)) \<le> index \<or> int (length (block_sizes d)) \<le> index"

definition remember :: "int \<Rightarrow> int \<Rightarrow> int \<Rightarrow> 'a driver \<Rightarrow> 'a driver" where
  "remember index p sz d = d\<lparr>blocks := (blocks d)[nat index := p], block_sizes := (block_sizes d)[nat index := sz]\<rparr>"

definition valid_alloc :: "'a package \<Rightarrow> nat \<Rightarrow> int \<Rightarrow> int \<Rightarrow> 'a driver \<Rightarrow> 'a driver run" where
  "valid_alloc pk i index sz d =
     (case malloc_fn pk (u32 sz) (mach d) of
        None \<Rightarrow> Stuck
      | Some (p, h) \<Rightarrow>
          let d = d\<lparr>mach := h\<rparr> in
          if p = 0 then Failed (malloc_error i Malloc_failed d)
          else (case add_range (sys h) p sz (ranges d) of
                  None \<Rightarrow> Aborted
                | Some (Inl c) \<Rightarrow> Failed (malloc_error i c d)
                | Some (Inr rs) \<Rightarrow>
                    if bad_index index d then Crash
                    else Next (remember index p sz
                      (d\<lparr>ranges := rs, mach := h\<lparr>mem := memset (mem h) p (index AND 0xFF) sz\<rparr>\<rparr>))))"

definition valid_realloc :: "'a package \<Rightarrow> nat \<Rightarrow> int \<Rightarrow> int \<Rightarrow> 'a driver \<Rightarrow> 'a driver run" where
  "valid_realloc pk i index sz d =
     (if bad_index index d then Crash
      else let oldp = blocks d ! nat index in
        case realloc_fn pk oldp (u32 sz) (mach d) of
          None \<Rightarrow> Stuck
        | Some (newp, h) \<Rightarrow>
            let d = d\<lparr>mach := h\<rparr> in
            if newp = 0 then Failed (malloc_error i Realloc_failed d)
            else
              let d = d\<lparr>ranges := remove_range (ranges d) oldp\<rparr> in
              (case add_range (sys h) newp sz (ranges d) of
                 None \<Rightarrow> Aborted
               | Some (Inl c) \<Rightarrow> Failed (malloc_error i c d)
               | Some (Inr rs) \<Rightarrow>
                   let d = d\<lparr>ranges := rs\<rparr>;
                       oldsize = block_sizes d ! nat index;
                       oldsize = (if sz < oldsize then sz else oldsize)
                   in if \<not> data_kept (mem h) newp index oldsize then Failed (malloc_error i Data_lost d)
                      else Next (remember index newp sz
                        (d\<lparr>mach := h\<lparr>mem := memset (mem h) newp (index AND 0xFF) sz\<rparr>\<rparr>))))"

definition valid_free :: "'a package \<Rightarrow> nat \<Rightarrow> int \<Rightarrow> 'a driver \<Rightarrow> 'a driver run" where
  "valid_free pk i index d =
     (if bad_index index d then Crash
      else let p = blocks d ! nat index; d = d\<lparr>ranges := remove_range (ranges d) p\<rparr> in
        case free_fn pk p (mach d) of None \<Rightarrow> Stuck | Some h \<Rightarrow> Next (d\<lparr>mach := h\<rparr>))"

definition valid_op :: "'a package \<Rightarrow> nat \<Rightarrow> traceop \<Rightarrow> 'a driver \<Rightarrow> 'a driver run" where
  "valid_op pk i opr d =
     (case op_type opr of
        ALLOC \<Rightarrow> valid_alloc pk i (op_index opr) (op_size opr) d
      | REALLOC \<Rightarrow> valid_realloc pk i (op_index opr) (op_size opr) d
      | FREE \<Rightarrow> valid_free pk i (op_index opr) d)"

fun valid_ops :: "'a package \<Rightarrow> nat \<Rightarrow> traceop list \<Rightarrow> 'a driver \<Rightarrow> 'a driver run" where
  "valid_ops pk i [] d = Next d"
| "valid_ops pk i (opr # ops) d = (case valid_op pk i opr d of Next d \<Rightarrow> valid_ops pk (Suc i) ops d | r \<Rightarrow> r)"

definition reset_machine :: "'a machine_scheme \<Rightarrow> 'a machine_scheme" where
  "reset_machine h = h\<lparr>sys := mem_reset_brk (sys h)\<rparr>"

definition eval_mm_valid :: "'a package \<Rightarrow> traceop list \<Rightarrow> 'a driver \<Rightarrow> 'a driver run" where
  "eval_mm_valid pk ops d =
     (let d = d\<lparr>mach := reset_machine (mach d), ranges := clear_ranges (ranges d)\<rparr> in
      case init_fn pk (mach d) of
        None \<Rightarrow> Stuck
      | Some (r, h) \<Rightarrow>
          let d = d\<lparr>mach := h\<rparr> in
          if r < 0 then Failed (malloc_error 0 Init_failed d) else valid_ops pk 0 ops d)"

section \<open>What the driver knows\<close>

text \<open>The arrays, the range list and the memory, while the indices \<open>I\<close> are allocated, in blocks of
  capacity \<open>C\<close>: every payload is filled with the low byte of its index.\<close>

definition tracks :: "int list \<Rightarrow> int list \<Rightarrow> range_t list \<Rightarrow> memory \<Rightarrow> int set \<Rightarrow> (int \<Rightarrow> int) \<Rightarrow> bool" where
  "tracks bs ns rs m I C \<longleftrightarrow>
     (\<forall>i \<in> I. 0 \<le> i \<and> i < int (length bs) \<and> i < int (length ns) \<and> 0 < ns ! nat i \<and> ns ! nat i \<le> C i)
     \<and> inj_on (\<lambda>i. bs ! nat i) I
     \<and> set rs = (\<lambda>i. \<lparr>r_lo = bs ! nat i, r_hi = bs ! nat i + ns ! nat i - 1\<rparr>) ` I \<and> distinct (map r_lo rs)
     \<and> (\<forall>i \<in> I. \<forall>x. bs ! nat i \<le> x \<and> x < bs ! nat i + ns ! nat i \<longrightarrow> m x = word_of_int (i AND 0xFF))"

definition held :: "int list \<Rightarrow> int set \<Rightarrow> (int \<Rightarrow> int) \<Rightarrow> (int \<times> int) set" where
  "held bs I C = (\<lambda>i. (bs ! nat i, C i)) ` I"

lemma tracksD:
  assumes "tracks bs ns rs m I C" and "i \<in> I"
  shows "0 \<le> i" and "i < int (length bs)" and "i < int (length ns)" and "0 < ns ! nat i" and "ns ! nat i \<le> C i"
    and "(bs ! nat i, C i) \<in> held bs I C"
    and "bs ! nat i \<le> x \<Longrightarrow> x < bs ! nat i + ns ! nat i \<Longrightarrow> m x = word_of_int (i AND 0xFF)"
  using assms unfolding tracks_def held_def by blast+

lemma tracks_range:
  assumes "tracks bs ns rs m I C" and "r \<in> set rs"
  shows "\<exists>i \<in> I. r_lo r = bs ! nat i \<and> r_hi r = bs ! nat i + ns ! nat i - 1"
  using assms unfolding tracks_def by auto

lemma tracks_start: "tracks bs ns [] m {} C"
  by (simp add: tracks_def)

lemma remove_range_set:
  "distinct (map r_lo rs) \<Longrightarrow> set (remove_range rs p) = {r \<in> set rs. r_lo r \<noteq> p} \<and> distinct (map r_lo (remove_range rs p))"
  by (induction rs p rule: remove_range.induct) (auto, metis image_eqI)

lemma tracks_remove:
  assumes t: "tracks bs ns rs m I C" and i: "i \<in> I"
  shows "tracks bs ns (remove_range rs (bs ! nat i)) m (I - {i}) C"
    and "held bs (I - {i}) C = held bs I C - {(bs ! nat i, C i)}"
proof -
  have inj: "inj_on (\<lambda>i. bs ! nat i) I" and d: "distinct (map r_lo rs)"
    and s: "set rs = (\<lambda>i. \<lparr>r_lo = bs ! nat i, r_hi = bs ! nat i + ns ! nat i - 1\<rparr>) ` I"
    using t by (auto simp: tracks_def)
  have ne: "bs ! nat j \<noteq> bs ! nat i" if "j \<in> I - {i}" for j
    using inj i that by (auto simp: inj_on_def)
  show "held bs (I - {i}) C = held bs I C - {(bs ! nat i, C i)}" using ne by (auto simp: held_def)
  have "set (remove_range rs (bs ! nat i)) = (\<lambda>i. \<lparr>r_lo = bs ! nat i, r_hi = bs ! nat i + ns ! nat i - 1\<rparr>) ` (I - {i})"
    using remove_range_set [OF d, of "bs ! nat i"] s ne by auto
  then show "tracks bs ns (remove_range rs (bs ! nat i)) m (I - {i}) C"
    using t remove_range_set [OF d, of "bs ! nat i"] inj_on_subset [OF inj, of "I - {i}"] unfolding tracks_def by blast
qed

lemma tracks_add:
  assumes t: "tracks bs ns rs m I C" and i: "i \<notin> I" "0 \<le> i" "i < int (length bs)" "i < int (length ns)"
    and n: "0 < n" "n \<le> c" and p: "p \<notin> fst ` held bs I C" and m: "\<And>x. x < p \<or> p + n \<le> x \<Longrightarrow> m' x = m x"
    and apart: "\<And>q u. (q, u) \<in> held bs I C \<Longrightarrow> p + n \<le> q \<or> q + u \<le> p"
    and fill: "\<And>x. p \<le> x \<Longrightarrow> x < p + n \<Longrightarrow> m' x = word_of_int (i AND 0xFF)"
  shows "tracks (bs[nat i := p]) (ns[nat i := n]) (\<lparr>r_lo = p, r_hi = p + n - 1\<rparr> # rs) m' (insert i I) (C(i := c))"
    and "held (bs[nat i := p]) (insert i I) (C(i := c)) = insert (p, c) (held bs I C)"
proof -
  let ?bs = "bs[nat i := p]" and ?ns = "ns[nat i := n]"
  have own: "?bs ! nat i = p" "?ns ! nat i = n" using i by simp_all
  have oth: "?bs ! nat j = bs ! nat j \<and> ?ns ! nat j = ns ! nat j \<and> j \<noteq> i" if j: "j \<in> I" for j
  proof -
    have "j \<noteq> i" using j i(1) by blast
    then have "nat j \<noteq> nat i" using tracksD(1) [OF t j] i(2) by simp
    then show ?thesis using \<open>j \<noteq> i\<close> by simp
  qed
  show "held ?bs (insert i I) (C(i := c)) = insert (p, c) (held bs I C)" using own oth by (auto simp: held_def)
  have pn: "p \<noteq> bs ! nat j" if "j \<in> I" for j using p that by (force simp: held_def)
  have inj: "inj_on (\<lambda>j. ?bs ! nat j) (insert i I)"
    using t own oth pn unfolding tracks_def inj_on_def by (metis insert_iff)
  have rs: "set (\<lparr>r_lo = p, r_hi = p + n - 1\<rparr> # rs)
      = (\<lambda>j. \<lparr>r_lo = ?bs ! nat j, r_hi = ?bs ! nat j + ?ns ! nat j - 1\<rparr>) ` insert i I"
    using t own oth unfolding tracks_def by (auto simp: image_iff)
  have d: "distinct (map r_lo (\<lparr>r_lo = p, r_hi = p + n - 1\<rparr> # rs))"
    using t tracks_range [OF t] pn unfolding tracks_def by fastforce
  have content: "m' x = word_of_int (j AND 0xFF)" if j: "j \<in> insert i I" and x: "?bs ! nat j \<le> x" "x < ?bs ! nat j + ?ns ! nat j" for j x
  proof (cases "j = i")
    case True
    then show ?thesis using fill x own by simp
  next
    case False
    then have jI: "j \<in> I" using j by blast
    have "m' x = m x"
      using apart [OF tracksD(6) [OF t jI]] tracksD(5) [OF t jI] x oth [OF jI] by (intro m) auto
    then show ?thesis using tracksD(7) [OF t jI] x oth [OF jI] by simp
  qed
  have "0 \<le> j \<and> j < int (length ?bs) \<and> j < int (length ?ns) \<and> 0 < ?ns ! nat j \<and> ?ns ! nat j \<le> (C(i := c)) j"
    if j: "j \<in> insert i I" for j
  proof (cases "j = i")
    case True
    then show ?thesis using i n own by simp
  next
    case False
    then have jI: "j \<in> I" using j by blast
    then show ?thesis using tracksD(1-5) [OF t jI] oth [OF jI] False by simp
  qed
  then show "tracks ?bs ?ns (\<lparr>r_lo = p, r_hi = p + n - 1\<rparr> # rs) m' (insert i I) (C(i := c))"
    unfolding tracks_def using inj rs d content by blast
qed

lemma tracks_same:
  assumes t: "tracks bs ns rs m I C" and m: "\<And>q u x. (q, u) \<in> held bs I C \<Longrightarrow> q \<le> x \<Longrightarrow> x < q + u \<Longrightarrow> m' x = m x"
  shows "tracks bs ns rs m' I C"
proof -
  have "m' x = word_of_int (i AND 0xFF)" if i: "i \<in> I" and x: "bs ! nat i \<le> x" "x < bs ! nat i + ns ! nat i" for i x
    using m [OF tracksD(6) [OF t i], of x] tracksD(5,7) [OF t i] x by simp
  then show ?thesis using t unfolding tracks_def by blast
qed

section \<open>Traces\<close>

text \<open>The traces the driver is meant for: requests have a positive size, an index is in range and
  is allocated before it is reallocated or freed, and not twice.\<close>

fun well_formed :: "nat \<Rightarrow> int set \<Rightarrow> traceop list \<Rightarrow> bool" where
  "well_formed n I [] = True"
| "well_formed n I (opr # ops) =
     (let i = op_index opr; sz = op_size opr in
      case op_type opr of
        ALLOC \<Rightarrow> 0 \<le> i \<and> i < int n \<and> i \<notin> I \<and> 0 < sz \<and> sz < 2 ^ 31 \<and> well_formed n (insert i I) ops
      | REALLOC \<Rightarrow> i \<in> I \<and> 0 < sz \<and> sz < 2 ^ 31 \<and> well_formed n I ops
      | FREE \<Rightarrow> i \<in> I \<and> well_formed n (I - {i}) ops)"

text \<open>\<open>char\<close> is signed: the driver can only compare low bytes below 128.\<close>

definition comparable :: "traceop list \<Rightarrow> bool" where
  "comparable ops \<longleftrightarrow> (\<forall>opr \<in> set ops. op_type opr = REALLOC \<longrightarrow> op_index opr AND 0xFF < 128)"

definition incomparable_at :: "traceop list \<Rightarrow> nat \<Rightarrow> bool" where
  "incomparable_at ops j \<longleftrightarrow> j < length ops \<and> op_type (ops ! j) = REALLOC \<and> 128 \<le> op_index (ops ! j) AND 0xFF"

lemma comparable_not_at: "comparable ops \<Longrightarrow> \<not> incomparable_at ops j"
  by (auto simp: comparable_def incomparable_at_def)

text \<open>By how much a trace can move the break.\<close>

fun trace_cost :: "(int \<Rightarrow> int) \<Rightarrow> traceop list \<Rightarrow> int" where
  "trace_cost c [] = 0"
| "trace_cost c (opr # ops) = (if op_type opr = FREE then 0 else c (op_size opr)) + trace_cost c ops"

lemma trace_cost_pos: "(\<And>n. 0 \<le> c n) \<Longrightarrow> 0 \<le> trace_cost c ops"
  by (induction ops) auto

lemma low_byte: "0 \<le> i AND (0xFF :: int)" "i AND (0xFF :: int) = i mod 256"
  using take_bit_eq_mask [of 8 i] by (simp_all add: take_bit_eq_mod mask_eq_exp_minus_1)

lemma low_byte_char:
  "sint (word_of_int (i AND 0xFF) :: 8 word) = i AND 0xFF \<longleftrightarrow> i AND 0xFF < 128"
proof -
  define v where "v = i mod 256"
  have v: "0 \<le> v" "v < 256" by (simp_all add: v_def)
  have s: "sint (word_of_int v :: 8 word) = (v + 128) mod 256 - 128"
    by (simp add: sint_uint uint_word_of_int signed_take_bit_eq_take_bit_shift take_bit_eq_mod mod_add_left_eq)
  show ?thesis
  proof (cases "v < 128")
    case True
    then show ?thesis using s v by (simp add: low_byte(2) v_def [symmetric])
  next
    case False
    have "(v - 128 + 256) mod 256 = (v - 128) mod 256" by (rule mod_add_self2)
    moreover have "v - 128 + 256 = v + 128" by simp
    ultimately have "(v + 128) mod 256 = (v - 128) mod 256" by (simp only:)
    also have "\<dots> = v - 128" using v False by (intro mod_pos_pos_trivial) simp_all
    finally show ?thesis using s v False by (simp add: low_byte(2) v_def [symmetric])
  qed
qed

section \<open>Any allocator that keeps the contract is accepted\<close>

text \<open>What a run of a trace leaves for the next one.\<close>

definition carries_on :: "int \<Rightarrow> nat \<Rightarrow> 'a driver \<Rightarrow> 'a driver \<Rightarrow> bool" where
  "carries_on c n d d' \<longleftrightarrow> errors d' = errors d \<and> grows c (reset_machine (mach d)) (mach d')
     \<and> length (blocks d') = n \<and> length (block_sizes d') = n"

context allocator
begin

abbreviation pkg :: "'a package" where
  "pkg \<equiv> \<lparr>init_fn = m_init, malloc_fn = m_malloc, realloc_fn = m_realloc, free_fn = m_free\<rparr>"

definition good :: "'a driver \<Rightarrow> int set \<Rightarrow> (int \<Rightarrow> int) \<Rightarrow> bool" where
  "good d I C \<longleftrightarrow> tracks (blocks d) (block_sizes d) (ranges d) (mem (mach d)) I C \<and> live (mach d) (held (blocks d) I C)"

definition goes_on :: "'a driver \<Rightarrow> int set \<Rightarrow> int \<Rightarrow> 'a driver run \<Rightarrow> bool" where
  "goes_on d I c r \<longleftrightarrow> (\<exists>d' C. r = Next d' \<and> good d' I C \<and> grows c (mach d) (mach d') \<and> errors d' = errors d
     \<and> length (blocks d') = length (blocks d) \<and> length (block_sizes d') = length (block_sizes d))"

definition no_memory :: "nat \<Rightarrow> 'a driver \<Rightarrow> int \<Rightarrow> 'a driver run \<Rightarrow> bool" where
  "no_memory k d c r \<longleftrightarrow> (\<exists>d' e. r = Failed d' \<and> e \<in> {Malloc_failed, Realloc_failed} \<and> errors d' = errors d @ [(k, e)]
     \<and> \<not> room (mach d) c)"

definition data_lost :: "nat \<Rightarrow> 'a driver \<Rightarrow> 'a driver run \<Rightarrow> bool" where
  "data_lost k d r \<longleftrightarrow> (\<exists>d'. r = Failed d' \<and> errors d' = errors d @ [(k, Data_lost)])"

lemma range_accepted:
  assumes l: "live h T" and p: "(p, t) \<in> T" and n: "0 < n" "n \<le> t"
    and rs: "\<And>r. r \<in> set rs \<Longrightarrow> \<exists>u. (r_lo r, u) \<in> T \<and> (r_lo r, u) \<noteq> (p, t) \<and> r_lo r \<le> r_hi r \<and> r_hi r < r_lo r + u"
  shows "add_range (sys h) p n rs = Some (Inr (\<lparr>r_lo = p, r_hi = p + n - 1\<rparr> # rs))"
proof -
  note b = live_block [OF l p]
  have "8 dvd u32 p" using b unfolding u32_def by (simp add: dvd_mod)
  then have al: "IS_ALIGNED p" by (simp add: IS_ALIGNED_def ALIGNMENT_def)
  have ov: "\<not> (\<exists>r \<in> set rs. (p \<ge> r_lo r \<and> p \<le> r_hi r) \<or> (p + n - 1 \<ge> r_lo r \<and> p + n - 1 \<le> r_hi r))"
  proof
    assume "\<exists>r \<in> set rs. (p \<ge> r_lo r \<and> p \<le> r_hi r) \<or> (p + n - 1 \<ge> r_lo r \<and> p + n - 1 \<le> r_hi r)"
    then obtain r where r: "r \<in> set rs" "(p \<ge> r_lo r \<and> p \<le> r_hi r) \<or> (p + n - 1 \<ge> r_lo r \<and> p + n - 1 \<le> r_hi r)" by blast
    obtain u where u: "(r_lo r, u) \<in> T" "(r_lo r, u) \<noteq> (p, t)" "r_hi r < r_lo r + u" using rs [OF r(1)] by blast
    have "p + t \<le> r_lo r \<or> r_lo r + u \<le> p" using live_apart [OF l u(1) p] u(2) by blast
    then show False using r(2) u(3) n by linarith
  qed
  show ?thesis using n b al ov by (simp add: add_range_def Let_def mem_heap_lo_def mem_heap_hi_def)
qed

lemma range_of_held:
  assumes t: "tracks bs ns rs m I C" and r: "r \<in> set rs" and p: "p \<notin> fst ` held bs I C"
  shows "\<exists>u. (r_lo r, u) \<in> insert (p, c) (held bs I C) \<and> (r_lo r, u) \<noteq> (p, c) \<and> r_lo r \<le> r_hi r \<and> r_hi r < r_lo r + u"
proof -
  obtain i where i: "i \<in> I" "r_lo r = bs ! nat i" "r_hi r = bs ! nat i + ns ! nat i - 1" using tracks_range [OF t r] by blast
  note d = tracksD(4,5,6) [OF t i(1)]
  then have "r_lo r \<noteq> p" using p i(2) by force
  then show ?thesis using d i by (intro exI [of _ "C i"]) auto
qed

text \<open>The new block is recorded and filled.\<close>

lemma good_new:
  assumes t: "tracks (blocks d) (block_sizes d) rs (mem h) I C" and l: "live h (insert (p, c) (held (blocks d) I C))"
    and p: "p \<notin> fst ` held (blocks d) I C" and i: "i \<notin> I" "\<not> bad_index i d" and n: "0 < n" "n \<le> c"
  shows "good (remember i p n (d\<lparr>ranges := \<lparr>r_lo = p, r_hi = p + n - 1\<rparr> # rs, mach := h\<lparr>mem := memset (mem h) p (i AND 0xFF) n\<rparr>\<rparr>))
    (insert i I) (C(i := c))"
proof -
  let ?m = "memset (mem h) p (i AND 0xFF) n"
  have i': "0 \<le> i" "i < int (length (blocks d))" "i < int (length (block_sizes d))" using i(2) by (auto simp: bad_index_def)
  have pT: "(p, c) \<in> insert (p, c) (held (blocks d) I C)" by simp
  have out: "?m x = mem h x" if "x < p \<or> p + n \<le> x" for x using that by (auto simp: memset_def)
  have ap: "p + n \<le> q \<or> q + u \<le> p" if "(q, u) \<in> held (blocks d) I C" for q u
  proof -
    have "(q, u) \<noteq> (p, c)" using that p by force
    then show ?thesis using live_apart [OF l pT, of q u] that n by auto
  qed
  have fill: "?m x = word_of_int (i AND 0xFF)" if "p \<le> x" "x < p + n" for x using that by (simp add: memset_def)
  note a = tracks_add [OF t i(1) i' n p out ap fill]
  have "live (h\<lparr>mem := ?m\<rparr>) (insert (p, c) (held (blocks d) I C))"
    by (rule live_write [OF l pT]) (use out n in auto)
  then show ?thesis using a by (simp add: good_def remember_def)
qed

lemma alloc_step:
  assumes g: "good d I C" and i: "i \<notin> I" "\<not> bad_index i d" and n: "0 < n" "n < 2 ^ 31"
  shows "goes_on d (insert i I) (cost n) (valid_alloc pkg k i n d) \<or> no_memory k d (cost n) (valid_alloc pkg k i n d)"
proof -
  have t: "tracks (blocks d) (block_sizes d) (ranges d) (mem (mach d)) I C" and l: "live (mach d) (held (blocks d) I C)"
    using g by (simp_all add: good_def)
  have u: "u32 n = n" using n by (simp add: u32_def)
  obtain p h where m: "m_malloc n (mach d) = Some (p, h)"
    and alt: "p = 0 \<and> h = mach d \<and> \<not> room (mach d) (cost n)
      \<or> p \<noteq> 0 \<and> (\<exists>t. n \<le> t \<and> live h (insert (p, t) (held (blocks d) I C))) \<and> p \<notin> fst ` held (blocks d) I C
        \<and> same_at (held (blocks d) I C) (mach d) h \<and> grows (cost n) (mach d) h"
    using malloc_ok [OF l n] by blast
  show ?thesis
  proof (cases "p = 0")
    case True
    then have "valid_alloc pkg k i n d = Failed (malloc_error k Malloc_failed (d\<lparr>mach := h\<rparr>))"
      using m u by (simp add: valid_alloc_def)
    then show ?thesis using alt True by (simp add: no_memory_def malloc_error_def)
  next
    case False
    then obtain c where c: "n \<le> c" "live h (insert (p, c) (held (blocks d) I C))" "p \<notin> fst ` held (blocks d) I C"
      "same_at (held (blocks d) I C) (mach d) h" "grows (cost n) (mach d) h" using alt by blast
    have t': "tracks (blocks d) (block_sizes d) (ranges d) (mem h) I C"
      by (rule tracks_same [OF t]) (rule same_atD [OF c(4)])
    have ar: "add_range (sys h) p n (ranges d) = Some (Inr (\<lparr>r_lo = p, r_hi = p + n - 1\<rparr> # ranges d))"
      by (rule range_accepted [OF c(2) insertI1 n(1) c(1)]) (rule range_of_held [OF t' _ c(3)])
    have b: "\<not> bad_index i (d\<lparr>mach := h\<rparr>)" using i(2) by (simp add: bad_index_def)
    let ?d = "remember i p n (d\<lparr>ranges := \<lparr>r_lo = p, r_hi = p + n - 1\<rparr> # ranges d, mach := h\<lparr>mem := memset (mem h) p (i AND 0xFF) n\<rparr>\<rparr>)"
    have "valid_alloc pkg k i n d = Next ?d"
      using m u False ar b by (simp add: valid_alloc_def remember_def)
    moreover have "good ?d (insert i I) (C(i := c))" by (rule good_new [OF t' c(2,3) i n(1) c(1)])
    moreover have "grows (cost n) (mach d) (mach ?d)" using c(5) by (simp add: grows_def remember_def)
    ultimately show ?thesis unfolding goes_on_def by (simp add: remember_def) blast
  qed
qed

lemma free_step:
  assumes g: "good d I C" and i: "i \<in> I"
  shows "goes_on d (I - {i}) 0 (valid_free pkg k i d)"
proof -
  have t: "tracks (blocks d) (block_sizes d) (ranges d) (mem (mach d)) I C" and l: "live (mach d) (held (blocks d) I C)"
    using g by (simp_all add: good_def)
  let ?p = "blocks d ! nat i"
  note rm = tracks_remove [OF t i]
  obtain h where h: "m_free ?p (mach d) = Some h" "live h (held (blocks d) (I - {i}) C)"
    "same_at (held (blocks d) (I - {i}) C) (mach d) h" "grows 0 (mach d) h"
    using free_ok [OF l tracksD(6) [OF t i]] rm(2) by auto
  have b: "\<not> bad_index i d" using tracksD(1-3) [OF t i] by (simp add: bad_index_def)
  have "tracks (blocks d) (block_sizes d) (remove_range (ranges d) ?p) (mem h) (I - {i}) C"
    by (rule tracks_same [OF rm(1)]) (rule same_atD [OF h(3)])
  then show ?thesis using h b unfolding goes_on_def good_def valid_free_def by (auto simp: Let_def)
qed

text \<open>Reallocation: the old contents are there, and the driver sees it if it can compare the low byte
  of the index with a \<open>char\<close>.\<close>

lemma realloc_step:
  assumes g: "good d I C" and i: "i \<in> I" and n: "0 < n" "n < 2 ^ 31"
  shows "i AND 0xFF < 128 \<Longrightarrow> goes_on d I (cost n) (valid_realloc pkg k i n d) \<or> no_memory k d (cost n) (valid_realloc pkg k i n d)"
    and "\<not> i AND 0xFF < 128 \<Longrightarrow> room (mach d) (cost n) \<Longrightarrow>
      \<exists>d'. valid_realloc pkg k i n d = Failed d' \<and> errors d' = errors d @ [(k, Data_lost)]"
    and "\<not> i AND 0xFF < 128 \<Longrightarrow> no_memory k d (cost n) (valid_realloc pkg k i n d) \<or> data_lost k d (valid_realloc pkg k i n d)"
proof -
  have t: "tracks (blocks d) (block_sizes d) (ranges d) (mem (mach d)) I C" and l: "live (mach d) (held (blocks d) I C)"
    using g by (simp_all add: good_def)
  let ?p = "blocks d ! nat i" and ?n = "block_sizes d ! nat i"
  note rm = tracks_remove [OF t i] and ti = tracksD [OF t i]
  let ?T = "held (blocks d) (I - {i}) C"
  have u: "u32 n = n" using n by (simp add: u32_def)
  have b: "\<not> bad_index i d" using ti(1-3) by (simp add: bad_index_def)
  obtain q h where m: "m_realloc ?p n (mach d) = Some (q, h)"
    and alt: "q = 0 \<and> h = mach d \<and> \<not> room (mach d) (cost n)
      \<or> q \<noteq> 0 \<and> (\<exists>u. n \<le> u \<and> live h (insert (q, u) ?T)) \<and> q \<notin> fst ` ?T \<and> same_at ?T (mach d) h
        \<and> grows (cost n) (mach d) h \<and> (\<forall>k. 0 \<le> k \<and> k < min n (C i) \<longrightarrow> mem h (q + k) = mem (mach d) (?p + k))"
    using realloc_ok [OF l ti(6) n] rm(2) by auto
  define os where "os = (if n < ?n then n else ?n)"
  have os: "0 < os" using n ti(4) by (simp add: os_def)
  have some: "\<exists>c. n \<le> c \<and> live h (insert (q, c) ?T)" "q \<notin> fst ` ?T" "same_at ?T (mach d) h" "grows (cost n) (mach d) h"
    "\<forall>k. 0 \<le> k \<and> k < min n (C i) \<longrightarrow> mem h (q + k) = mem (mach d) (?p + k)" if "q \<noteq> 0" using alt that by blast+
  have step: "valid_realloc pkg k i n d =
      (if \<not> data_kept (mem h) q i os
       then Failed (malloc_error k Data_lost (d\<lparr>mach := h, ranges := \<lparr>r_lo = q, r_hi = q + n - 1\<rparr> # remove_range (ranges d) ?p\<rparr>))
       else Next (remember i q n (d\<lparr>ranges := \<lparr>r_lo = q, r_hi = q + n - 1\<rparr> # remove_range (ranges d) ?p,
              mach := h\<lparr>mem := memset (mem h) q (i AND 0xFF) n\<rparr>\<rparr>)))" if q: "q \<noteq> 0"
  proof -
    obtain c where c: "n \<le> c" "live h (insert (q, c) ?T)" using some(1) [OF q] by blast
    have t': "tracks (blocks d) (block_sizes d) (remove_range (ranges d) ?p) (mem h) (I - {i}) C"
      by (rule tracks_same [OF rm(1)]) (rule same_atD [OF some(3) [OF q]])
    have "add_range (sys h) q n (remove_range (ranges d) ?p) = Some (Inr (\<lparr>r_lo = q, r_hi = q + n - 1\<rparr> # remove_range (ranges d) ?p))"
      by (rule range_accepted [OF c(2) insertI1 n(1) c(1)]) (rule range_of_held [OF t' _ some(2) [OF q]])
    then show ?thesis using m u b q by (simp add: valid_realloc_def Let_def remember_def os_def)
  qed
  have bytes: "mem h (q + int j) = word_of_int (i AND 0xFF)" if q: "q \<noteq> 0" and j: "j < nat os" for j
  proof -
    have j': "int j < n" "int j < ?n" using j os by (auto simp: os_def split: if_splits)
    then have "mem h (q + int j) = mem (mach d) (?p + int j)" using some(5) [OF q] ti(5) by auto
    then show ?thesis using tracksD(7) [OF t i, of "?p + int j"] j' by simp
  qed
  have kept_iff: "data_kept (mem h) q i os \<longleftrightarrow> i AND 0xFF < 128" if q: "q \<noteq> 0"
  proof -
    have "data_kept (mem h) q i os \<longleftrightarrow> (\<forall>j < nat os. sint (word_of_int (i AND 0xFF) :: 8 word) = i AND 0xFF)"
      using bytes [OF q] by (auto simp: data_kept_def list_all_iff)
    moreover have "0 < nat os" using os by simp
    ultimately show ?thesis using low_byte_char by blast
  qed
  show "goes_on d I (cost n) (valid_realloc pkg k i n d) \<or> no_memory k d (cost n) (valid_realloc pkg k i n d)" if low: "i AND 0xFF < 128"
  proof (cases "q = 0")
    case True
    then have "valid_realloc pkg k i n d = Failed (malloc_error k Realloc_failed (d\<lparr>mach := h\<rparr>))"
      using m u b by (simp add: valid_realloc_def Let_def)
    then show ?thesis using alt True by (simp add: no_memory_def malloc_error_def)
  next
    case q: False
    obtain c where c: "n \<le> c" "live h (insert (q, c) ?T)" using some(1) [OF q] by blast
    have t': "tracks (blocks d) (block_sizes d) (remove_range (ranges d) ?p) (mem h) (I - {i}) C"
      by (rule tracks_same [OF rm(1)]) (rule same_atD [OF some(3) [OF q]])
    let ?d = "remember i q n (d\<lparr>ranges := \<lparr>r_lo = q, r_hi = q + n - 1\<rparr> # remove_range (ranges d) ?p,
              mach := h\<lparr>mem := memset (mem h) q (i AND 0xFF) n\<rparr>\<rparr>)"
    have "valid_realloc pkg k i n d = Next ?d" using step [OF q] kept_iff [OF q] low by simp
    moreover have "insert i (I - {i}) = I" using i by blast
    then have "good ?d I (C(i := c))" using good_new [OF t' c(2) some(2) [OF q] _ b n(1) c(1)] by simp
    moreover have "grows (cost n) (mach d) (mach ?d)" using some(4) [OF q] by (simp add: grows_def remember_def)
    ultimately show ?thesis unfolding goes_on_def by (simp add: remember_def) blast
  qed
  show "\<exists>d'. valid_realloc pkg k i n d = Failed d' \<and> errors d' = errors d @ [(k, Data_lost)]"
    if "\<not> i AND 0xFF < 128" "room (mach d) (cost n)"
  proof -
    have "q \<noteq> 0" using alt that(2) by blast
    then show ?thesis using step kept_iff that(1) by (simp add: malloc_error_def)
  qed
  show "no_memory k d (cost n) (valid_realloc pkg k i n d) \<or> data_lost k d (valid_realloc pkg k i n d)" if "\<not> i AND 0xFF < 128"
  proof (cases "q = 0")
    case True
    then have "valid_realloc pkg k i n d = Failed (malloc_error k Realloc_failed (d\<lparr>mach := h\<rparr>))"
      using m u b by (simp add: valid_realloc_def Let_def)
    then show ?thesis using alt True by (simp add: no_memory_def malloc_error_def)
  next
    case False
    then show ?thesis using step kept_iff that by (simp add: data_lost_def malloc_error_def)
  qed
qed

lemma room_mono: "grows c h h' \<Longrightarrow> c + e \<le> f \<Longrightarrow> room h f \<Longrightarrow> room h' e"
  by (simp add: grows_def room_def)

lemma trace_steps:
  assumes "good d I C" and "well_formed n I ops"
    and "length (blocks d) = n" and "length (block_sizes d) = n"
  shows "(\<exists>d' I'. valid_ops pkg k ops d = Next d' \<and> errors d' = errors d \<and> (\<exists>C'. good d' I' C') \<and> grows (trace_cost cost ops) (mach d) (mach d')
        \<and> length (blocks d') = n \<and> length (block_sizes d') = n)
     \<or> (\<exists>d' j e. valid_ops pkg k ops d = Failed d' \<and> errors d' = errors d @ [(k + j, e)]
          \<and> (e \<in> {Malloc_failed, Realloc_failed} \<and> \<not> room (mach d) (trace_cost cost ops) \<or> e = Data_lost \<and> incomparable_at ops j))"
  using assms
proof (induction ops arbitrary: d I C k)
  case Nil
  then show ?case using grows_refl by auto
next
  case (Cons opr ops)
  define i where "i = op_index opr"
  define sz where "sz = op_size opr"
  define c where "c = (if op_type opr = FREE then 0 else cost sz)"
  have tc: "0 \<le> trace_cost cost ops" by (rule trace_cost_pos) (rule cost_pos)
  have "\<exists>J. well_formed n J ops \<and> (goes_on d J c (valid_op pkg k opr d) \<or> no_memory k d c (valid_op pkg k opr d)
      \<or> data_lost k d (valid_op pkg k opr d) \<and> op_type opr = REALLOC \<and> \<not> i AND 0xFF < 128)"
  proof (cases "op_type opr")
    case ALLOC
    then have w: "0 \<le> i" "i < int n" "i \<notin> I" "0 < sz" "sz < 2 ^ 31" "well_formed n (insert i I) ops"
      using Cons.prems(2) by (simp_all add: i_def sz_def Let_def)
    have "\<not> bad_index i d" using w Cons.prems(3,4) by (simp add: bad_index_def)
    then show ?thesis using alloc_step [OF Cons.prems(1) w(3) _ w(4,5), of k] w(6) ALLOC by (auto simp: valid_op_def i_def sz_def c_def)
  next
    case FREE
    then have w: "i \<in> I" "well_formed n (I - {i}) ops" using Cons.prems(2) by (simp_all add: i_def Let_def)
    then show ?thesis using free_step [OF Cons.prems(1) w(1), of k] FREE by (auto simp: valid_op_def i_def c_def)
  next
    case REALLOC
    then have w: "i \<in> I" "0 < sz" "sz < 2 ^ 31" "well_formed n I ops"
      using Cons.prems(2) by (simp_all add: i_def sz_def Let_def)
    have "valid_op pkg k opr d = valid_realloc pkg k i sz d" using REALLOC by (simp add: valid_op_def i_def sz_def)
    moreover have "c = cost sz" using REALLOC by (simp add: c_def)
    ultimately show ?thesis using realloc_step(1,3) [OF Cons.prems(1) w(1-3), of k] w(4) REALLOC by (cases "i AND 0xFF < 128") auto
  qed
  then obtain J where J: "well_formed n J ops" and alt: "goes_on d J c (valid_op pkg k opr d) \<or> no_memory k d c (valid_op pkg k opr d)
      \<or> data_lost k d (valid_op pkg k opr d) \<and> op_type opr = REALLOC \<and> \<not> i AND 0xFF < 128" by blast
  have cost: "trace_cost cost (opr # ops) = c + trace_cost cost ops" by (simp add: c_def sz_def)
  from alt consider "no_memory k d c (valid_op pkg k opr d)" | "goes_on d J c (valid_op pkg k opr d)"
    | "data_lost k d (valid_op pkg k opr d)" "op_type opr = REALLOC" "\<not> i AND 0xFF < 128" by blast
  then show ?case
  proof cases
    case 1
    then obtain d' e where e: "valid_op pkg k opr d = Failed d'" "e \<in> {Malloc_failed, Realloc_failed}" "errors d' = errors d @ [(k, e)]"
      "\<not> room (mach d) c" by (auto simp: no_memory_def)
    then have "\<not> room (mach d) (trace_cost cost (opr # ops))" using tc unfolding room_def cost by simp
    then show ?thesis using e by (intro disjI2 exI [of _ d'] exI [of _ 0] exI [of _ e]) simp
  next
    case 3
    then obtain d' where "valid_op pkg k opr d = Failed d'" "errors d' = errors d @ [(k, Data_lost)]" by (auto simp: data_lost_def)
    then show ?thesis using 3 by (intro disjI2 exI [of _ d'] exI [of _ 0] exI [of _ Data_lost]) (simp add: incomparable_at_def i_def)
  next
    case 2
    then obtain d1 C1 where d1: "valid_op pkg k opr d = Next d1" "good d1 J C1" "grows c (mach d) (mach d1)" "errors d1 = errors d"
      "length (blocks d1) = length (blocks d)" "length (block_sizes d1) = length (block_sizes d)" by (auto simp: goes_on_def)
    have v: "valid_ops pkg k (opr # ops) d = valid_ops pkg (Suc k) ops d1" using d1(1) by simp
    have ih: "(\<exists>d' I'. valid_ops pkg (Suc k) ops d1 = Next d' \<and> errors d' = errors d1 \<and> (\<exists>C'. good d' I' C') \<and> grows (trace_cost cost ops) (mach d1) (mach d')
        \<and> length (blocks d') = n \<and> length (block_sizes d') = n)
     \<or> (\<exists>d' j e. valid_ops pkg (Suc k) ops d1 = Failed d' \<and> errors d' = errors d1 @ [(Suc k + j, e)]
          \<and> (e \<in> {Malloc_failed, Realloc_failed} \<and> \<not> room (mach d1) (trace_cost cost ops) \<or> e = Data_lost \<and> incomparable_at ops j))"
      by (rule Cons.IH [OF d1(2) J]) (use d1 Cons.prems in simp_all)
    then show ?thesis
    proof
      assume "\<exists>d' I'. valid_ops pkg (Suc k) ops d1 = Next d' \<and> errors d' = errors d1 \<and> (\<exists>C'. good d' I' C') \<and> grows (trace_cost cost ops) (mach d1) (mach d')
        \<and> length (blocks d') = n \<and> length (block_sizes d') = n"
      then show ?thesis using d1(4) grows_trans [OF d1(3)] unfolding v cost by metis
    next
      assume "\<exists>d' j e. valid_ops pkg (Suc k) ops d1 = Failed d' \<and> errors d' = errors d1 @ [(Suc k + j, e)]
          \<and> (e \<in> {Malloc_failed, Realloc_failed} \<and> \<not> room (mach d1) (trace_cost cost ops) \<or> e = Data_lost \<and> incomparable_at ops j)"
      then obtain d' j e where f: "valid_ops pkg (Suc k) ops d1 = Failed d'" "errors d' = errors d1 @ [(Suc k + j, e)]"
        "e \<in> {Malloc_failed, Realloc_failed} \<and> \<not> room (mach d1) (trace_cost cost ops) \<or> e = Data_lost \<and> incomparable_at ops j" by blast
      have "room (mach d1) (trace_cost cost ops)" if "room (mach d) (trace_cost cost (opr # ops))"
        using room_mono [OF d1(3) _ that] cost by simp
      moreover have "incomparable_at ops j \<Longrightarrow> incomparable_at (opr # ops) (Suc j)" by (simp add: incomparable_at_def)
      ultimately show ?thesis using f d1(4) v by (intro disjI2 exI [of _ d'] exI [of _ "Suc j"] exI [of _ e]) auto
    qed
  qed
qed

text \<open>The verdict on a whole trace.\<close>

lemma any_trace_verdict:
  assumes f: "fresh_heap (reset_machine (mach d))" and w: "well_formed n {} ops"
    and n: "length (blocks d) = n" "length (block_sizes d) = n"
  shows "(\<exists>d'. eval_mm_valid pkg ops d = Next d' \<and> carries_on (reserve + trace_cost cost ops) n d d')
     \<or> (\<exists>d' j e. eval_mm_valid pkg ops d = Failed d' \<and> errors d' = errors d @ [(j, e)]
          \<and> (e \<in> {Malloc_failed, Realloc_failed} \<and> MAX_HEAP < reserve + trace_cost cost ops \<or> e = Data_lost \<and> incomparable_at ops j))"
proof -
  obtain h where h: "m_init (reset_machine (mach d)) = Some (0, h)" "live h {}" "grows reserve (reset_machine (mach d)) h"
    using init_ok [OF f] by blast
  let ?d = "d\<lparr>ranges := [], mach := h\<rparr>"
  have ev: "eval_mm_valid pkg ops d = valid_ops pkg 0 ops ?d"
    using h(1) by (simp add: eval_mm_valid_def clear_ranges_def Let_def)
  have "good ?d {} (\<lambda>_. 0)" using h(2) tracks_start by (simp add: good_def held_def)
  from trace_steps [OF this w, of 0] n
  have alt: "(\<exists>d'. valid_ops pkg 0 ops ?d = Next d' \<and> errors d' = errors d \<and> grows (trace_cost cost ops) h (mach d')
        \<and> length (blocks d') = n \<and> length (block_sizes d') = n)
     \<or> (\<exists>d' j e. valid_ops pkg 0 ops ?d = Failed d' \<and> errors d' = errors d @ [(j, e)]
          \<and> (e \<in> {Malloc_failed, Realloc_failed} \<and> \<not> room h (trace_cost cost ops) \<or> e = Data_lost \<and> incomparable_at ops j))" by auto
  have r: "MAX_HEAP < reserve + trace_cost cost ops" if "\<not> room h (trace_cost cost ops)"
    using that h(3) f by (simp add: room_def grows_def fresh_heap_def)
  from alt show ?thesis
  proof
    assume "\<exists>d'. valid_ops pkg 0 ops ?d = Next d' \<and> errors d' = errors d \<and> grows (trace_cost cost ops) h (mach d')
        \<and> length (blocks d') = n \<and> length (block_sizes d') = n"
    then show ?thesis using grows_trans [OF h(3)] unfolding ev carries_on_def by metis
  qed (use r ev in auto)
qed

lemma trace_verdict:
  assumes f: "fresh_heap (reset_machine (mach d))" and w: "well_formed n {} ops" "comparable ops"
    and n: "length (blocks d) = n" "length (block_sizes d) = n"
  shows "(\<exists>d'. eval_mm_valid pkg ops d = Next d' \<and> carries_on (reserve + trace_cost cost ops) n d d')
     \<or> MAX_HEAP < reserve + trace_cost cost ops \<and> (\<exists>d' j e. eval_mm_valid pkg ops d = Failed d'
          \<and> e \<in> {Malloc_failed, Realloc_failed} \<and> errors d' = errors d @ [(j, e)])"
  using any_trace_verdict [OF f w(1) n] comparable_not_at [OF w(2)] by blast

lemma driver_verdict:
  assumes "fresh_heap (reset_machine (mach d))" and "well_formed n {} ops" "comparable ops"
    and "length (blocks d) = n" "length (block_sizes d) = n"
  shows "(\<exists>d'. eval_mm_valid pkg ops d = Next d' \<and> errors d' = errors d)
     \<or> MAX_HEAP < reserve + trace_cost cost ops \<and> (\<exists>d' j e. eval_mm_valid pkg ops d = Failed d'
          \<and> e \<in> {Malloc_failed, Realloc_failed} \<and> errors d' = errors d @ [(j, e)])"
  using trace_verdict [OF assms] unfolding carries_on_def by blast

end

end
