(* ===== verification/Mdriver_Results.thy ===== *)
theory Mdriver_Results
  imports Mdriver Mm_Results
begin

text \<open>
  Space utilization and speed runs of \<open>mdriver.c\<close>, and the results for the two allocators.
\<close>

section \<open>A machine for the witnesses\<close>

definition plain_machine :: machine where
  "plain_machine = \<lparr>mem = (\<lambda>_. 0), sys = \<lparr>mem_start_brk = 4096, mem_brk = 4096, mem_max_addr = 4096 + MAX_HEAP\<rparr>\<rparr>"

section \<open>Utilization\<close>

definition mm_package :: "unit heap_ext package" where
  "mm_package = \<lparr>init_fn = mm_init, malloc_fn = mm_malloc, realloc_fn = mm_realloc, free_fn = mm_free\<rparr>"

definition naive_package :: "unit package" where
  "naive_package = \<lparr>init_fn = naive_init, malloc_fn = naive_malloc, realloc_fn = naive_realloc, free_fn = naive_free\<rparr>"

record 'a util =
  u_mach :: "'a machine_scheme"
  u_blocks :: "int list"
  u_sizes :: "int list"
  total_size :: int
  max_total_size :: int

definition u_bad :: "int \<Rightarrow> 'a util \<Rightarrow> bool" where
  "u_bad index d \<longleftrightarrow> index < 0 \<or> int (length (u_blocks d)) \<le> index \<or> int (length (u_sizes d)) \<le> index"

text \<open>Remembering block and size, and the statistics.\<close>

definition u_note :: "int \<Rightarrow> int \<Rightarrow> int \<Rightarrow> int \<Rightarrow> 'a machine_scheme \<Rightarrow> 'a util \<Rightarrow> 'a util" where
  "u_note index p sz change h d =
     (let total = total_size d + change in
      d\<lparr>u_mach := h, u_blocks := (u_blocks d)[nat index := p], u_sizes := (u_sizes d)[nat index := sz],
        total_size := total, max_total_size := (if total > max_total_size d then total else max_total_size d)\<rparr>)"

definition util_op :: "'a package \<Rightarrow> traceop \<Rightarrow> 'a util \<Rightarrow> 'a util run" where
  "util_op pk opr d =
     (let index = op_index opr; sz = op_size opr in
      case op_type opr of
        ALLOC \<Rightarrow> (case malloc_fn pk (u32 sz) (u_mach d) of
            None \<Rightarrow> Stuck
          | Some (p, h) \<Rightarrow> if p = 0 then Aborted else if u_bad index d then Crash else Next (u_note index p sz sz h d))
      | REALLOC \<Rightarrow>
          if u_bad index d then Crash
          else (let oldsize = u_sizes d ! nat index; oldp = u_blocks d ! nat index in
           case realloc_fn pk oldp (u32 sz) (u_mach d) of
            None \<Rightarrow> Stuck
          | Some (newp, h) \<Rightarrow> if newp = 0 then Aborted else Next (u_note index newp sz (sz - oldsize) h d))
      | FREE \<Rightarrow>
          if u_bad index d then Crash
          else (let sz = u_sizes d ! nat index; p = u_blocks d ! nat index in
           case free_fn pk p (u_mach d) of
            None \<Rightarrow> Stuck
          | Some h \<Rightarrow> Next (d\<lparr>u_mach := h, total_size := total_size d - sz\<rparr>)))"

fun util_ops :: "'a package \<Rightarrow> traceop list \<Rightarrow> 'a util \<Rightarrow> 'a util run" where
  "util_ops pk [] d = Next d"
| "util_ops pk (opr # ops) d = (case util_op pk opr d of Next d \<Rightarrow> util_ops pk ops d | r \<Rightarrow> r)"

text \<open>The result is the state; the ratio that \<open>eval_mm_util\<close> returns is \<open>max_total_size\<close> by
  \<open>mem_heapsize\<close>.\<close>

definition eval_mm_util :: "'a package \<Rightarrow> traceop list \<Rightarrow> int list \<Rightarrow> int list \<Rightarrow> 'a machine_scheme \<Rightarrow> 'a util run" where
  "eval_mm_util pk ops bs ns h =
     (case init_fn pk (reset_machine h) of
        None \<Rightarrow> Stuck
      | Some (r, h) \<Rightarrow>
          if r < 0 then Aborted
          else util_ops pk ops \<lparr>u_mach = h, u_blocks = bs, u_sizes = ns, total_size = 0, max_total_size = 0\<rparr>)"

section \<open>Speed\<close>

text \<open>The request loop without any check: \<open>eval_mm_speed\<close> after the initialisation, and
  \<open>eval_libc_speed\<close> with the C library's functions as package.\<close>

fun speed_ops :: "'a package \<Rightarrow> traceop list \<Rightarrow> int list \<times> 'a machine_scheme \<Rightarrow> (int list \<times> 'a machine_scheme) run" where
  "speed_ops pk [] st = Next st"
| "speed_ops pk (opr # ops) (bs, h) =
     (let index = op_index opr; sz = op_size opr; bad = index < 0 \<or> int (length bs) \<le> index in
      case op_type opr of
        ALLOC \<Rightarrow> (case malloc_fn pk (u32 sz) h of
            None \<Rightarrow> Stuck
          | Some (p, h) \<Rightarrow> if p = 0 then Aborted else if bad then Crash else speed_ops pk ops (bs[nat index := p], h))
      | REALLOC \<Rightarrow> if bad then Crash else (case realloc_fn pk (bs ! nat index) (u32 sz) h of
            None \<Rightarrow> Stuck
          | Some (newp, h) \<Rightarrow> if newp = 0 then Aborted else speed_ops pk ops (bs[nat index := newp], h))
      | FREE \<Rightarrow> if bad then Crash else (case free_fn pk (bs ! nat index) h of None \<Rightarrow> Stuck | Some h \<Rightarrow> speed_ops pk ops (bs, h)))"

definition eval_mm_speed :: "'a package \<Rightarrow> traceop list \<Rightarrow> int list \<Rightarrow> 'a machine_scheme \<Rightarrow> (int list \<times> 'a machine_scheme) run" where
  "eval_mm_speed pk ops bs h =
     (case init_fn pk (reset_machine h) of
        None \<Rightarrow> Stuck
      | Some (r, h) \<Rightarrow> if r < 0 then Aborted else speed_ops pk ops (bs, h))"

text \<open>\<open>eval_libc_valid\<close>: a failure is reported with \<open>malloc_error\<close>, which counts it in the same global \<open>errors\<close>, and ends the
  process.\<close>

definition driver_unix_error :: "'a driver \<Rightarrow> 'b run" where
  "driver_unix_error d = Aborted"

fun libc_ops :: "'a package \<Rightarrow> nat \<Rightarrow> traceop list \<Rightarrow> 'a driver \<Rightarrow> 'a driver run" where
  "libc_ops libc i [] d = Next d"
| "libc_ops libc i (opr # ops) d =
     (let index = op_index opr; sz = op_size opr; bad = index < 0 \<or> int (length (blocks d)) \<le> index in
      case op_type opr of
        ALLOC \<Rightarrow> (case malloc_fn libc (u32 sz) (mach d) of
            None \<Rightarrow> Stuck
          | Some (p, h) \<Rightarrow>
              if p = 0 then driver_unix_error (malloc_error i Malloc_failed (d\<lparr>mach := h\<rparr>))
              else if bad then Crash else libc_ops libc (Suc i) ops (d\<lparr>mach := h, blocks := (blocks d)[nat index := p]\<rparr>))
      | REALLOC \<Rightarrow> if bad then Crash else (case realloc_fn libc (blocks d ! nat index) (u32 sz) (mach d) of
            None \<Rightarrow> Stuck
          | Some (newp, h) \<Rightarrow>
              if newp = 0 then driver_unix_error (malloc_error i Realloc_failed (d\<lparr>mach := h\<rparr>))
              else libc_ops libc (Suc i) ops (d\<lparr>mach := h, blocks := (blocks d)[nat index := newp]\<rparr>))
      | FREE \<Rightarrow> if bad then Crash else (case free_fn libc (blocks d ! nat index) (mach d) of
            None \<Rightarrow> Stuck
          | Some h \<Rightarrow> libc_ops libc (Suc i) ops (d\<lparr>mach := h\<rparr>)))"

definition eval_libc_valid :: "'a package \<Rightarrow> traceop list \<Rightarrow> 'a driver \<Rightarrow> 'a driver run" where
  "eval_libc_valid libc ops d = libc_ops libc 0 ops d"

lemma libc_ops_errors: "libc_ops libc i ops d = Next d' \<Longrightarrow> errors d' = errors d \<and> ranges d' = ranges d"
proof (induction ops arbitrary: i d)
  case (Cons opr ops)
  then show ?case
    by (cases "op_type opr") (auto simp: Let_def driver_unix_error_def split: option.splits prod.splits if_splits dest!: Cons.IH)
qed simp

lemma libc_ops_not_Failed: "libc_ops libc i ops d \<noteq> Failed d'"
proof (induction ops arbitrary: i d)
  case (Cons opr ops)
  then show ?case
    by (cases "op_type opr") (auto simp: Let_def driver_unix_error_def split: option.splits prod.splits if_splits)
qed simp

definition eval_libc_speed :: "'a package \<Rightarrow> traceop list \<Rightarrow> int list \<Rightarrow> 'a machine_scheme \<Rightarrow> (int list \<times> 'a machine_scheme) run" where
  "eval_libc_speed libc ops bs h = speed_ops libc ops (bs, h)"

section \<open>The two runs make the same calls\<close>

lemma speed_eq_util:
  assumes "length bs = length ns"
  shows "eval_mm_speed pk ops bs h =
    (case eval_mm_util pk ops bs ns h of Next d \<Rightarrow> Next (u_blocks d, u_mach d) | Failed d \<Rightarrow> Failed (u_blocks d, u_mach d)
       | Aborted \<Rightarrow> Aborted | Crash \<Rightarrow> Crash | Stuck \<Rightarrow> Stuck)"
proof -
  have "speed_ops pk ops (u_blocks d, u_mach d) =
      (case util_ops pk ops d of Next d \<Rightarrow> Next (u_blocks d, u_mach d) | Failed d \<Rightarrow> Failed (u_blocks d, u_mach d)
         | Aborted \<Rightarrow> Aborted | Crash \<Rightarrow> Crash | Stuck \<Rightarrow> Stuck)" if "length (u_blocks d) = length (u_sizes d)" for d
    using that
  proof (induction ops arbitrary: d)
    case (Cons opr ops)
    note ih = Cons.IH
    have note_simps: "u_blocks (u_note i p n c k d) = (u_blocks d)[nat i := p]" "u_mach (u_note i p n c k d) = k"
      "length (u_sizes (u_note i p n c k d)) = length (u_sizes d)" for i p n c k
      by (simp_all add: u_note_def Let_def)
    show ?case
    proof (cases "u_bad (op_index opr) d")
      case True
      then show ?thesis using Cons.prems
        by (cases "op_type opr") (auto simp: util_op_def u_bad_def Let_def split: option.split prod.split)
    next
      case False
      then have b: "\<not> (op_index opr < 0 \<or> int (length (u_blocks d)) \<le> op_index opr)" by (simp add: u_bad_def)
      have 1: "speed_ops pk ops ((u_blocks d)[nat (op_index opr) := p], k) =
          (case util_ops pk ops (u_note (op_index opr) p n c k d) of Next d \<Rightarrow> Next (u_blocks d, u_mach d)
             | Failed d \<Rightarrow> Failed (u_blocks d, u_mach d) | Aborted \<Rightarrow> Aborted | Crash \<Rightarrow> Crash | Stuck \<Rightarrow> Stuck)" for p n c k
        using ih [of "u_note (op_index opr) p n c k d"] Cons.prems by (simp add: note_simps)
      have 2: "speed_ops pk ops (u_blocks d, k) =
          (case util_ops pk ops (d\<lparr>u_mach := k, total_size := t\<rparr>) of Next d \<Rightarrow> Next (u_blocks d, u_mach d)
             | Failed d \<Rightarrow> Failed (u_blocks d, u_mach d) | Aborted \<Rightarrow> Aborted | Crash \<Rightarrow> Crash | Stuck \<Rightarrow> Stuck)" for k t
        using ih [of "d\<lparr>u_mach := k, total_size := t\<rparr>"] Cons.prems by simp
      show ?thesis
      proof (cases "op_type opr")
        case ALLOC
        then show ?thesis using False b 1 by (simp add: util_op_def Let_def split: option.split prod.split)
      next
        case FREE
        then show ?thesis using False b 2 by (simp add: util_op_def Let_def split: option.split prod.split)
      next
        case REALLOC
        then show ?thesis using False b 1 by (simp add: util_op_def Let_def split: option.split prod.split)
      qed
    qed
  qed simp
  from this [of "\<lparr>u_mach = _, u_blocks = bs, u_sizes = ns, total_size = 0, max_total_size = 0\<rparr>"] assms
  show ?thesis by (simp add: eval_mm_speed_def eval_mm_util_def split: option.split prod.split)
qed

text \<open>The timed run of a trace is the run that measures the utilization without the statistics:
  same calls, same result.\<close>

theorem speed_run_is_util_run:
  assumes "length bs = length ns"
  shows "eval_mm_speed pk ops bs h =
    (case eval_mm_util pk ops bs ns h of Next d \<Rightarrow> Next (u_blocks d, u_mach d) | Failed d \<Rightarrow> Failed (u_blocks d, u_mach d)
       | Aborted \<Rightarrow> Aborted | Crash \<Rightarrow> Crash | Stuck \<Rightarrow> Stuck)"
  by (rule speed_eq_util [OF assms])

lemma speed_run_is_util_run_witness:
  "eval_mm_speed naive_package [\<lparr>op_type = FREE, op_index = 1, op_size = 0\<rparr>] [0] plain_machine = Crash"
  using speed_run_is_util_run [of "[0 :: int]" "[0]" naive_package "[\<lparr>op_type = FREE, op_index = 1, op_size = 0\<rparr>]" plain_machine]
  by (simp add: eval_mm_util_def util_op_def u_bad_def naive_package_def naive_init_def)

section \<open>Utilization is at most one\<close>

definition u_carries :: "int \<Rightarrow> nat \<Rightarrow> 'a machine_scheme \<Rightarrow> 'a util \<Rightarrow> bool" where
  "u_carries c n h d \<longleftrightarrow> grows c h (u_mach d) \<and> length (u_blocks d) = n \<and> length (u_sizes d) = n"

context allocator
begin

lemma live_total:
  assumes l: "live h T" and f: "finite T" and b: "mem_start_brk (sys h) \<le> mem_brk (sys h)"
  shows "(\<Sum>x \<in> T. snd x) \<le> mem_brk (sys h) - mem_start_brk (sys h)"
proof -
  let ?ext = "\<lambda>x. {fst x..<fst x + snd x}" and ?all = "{mem_start_brk (sys h)..<mem_brk (sys h)}"
  have pos: "0 < snd x" and sub: "?ext x \<subseteq> ?all" if "x \<in> T" for x
  proof -
    have "(fst x, snd x) \<in> T" using that by simp
    note lb = live_block [OF l this]
    show "0 < snd x" using lb by blast
    have "mem_start_brk (sys h) \<le> fst x" "fst x + snd x \<le> mem_brk (sys h)" using lb by blast+
    then show "?ext x \<subseteq> ?all" by (simp add: atLeastLessThan_subset_iff)
  qed
  have dis: "?ext x \<inter> ?ext y = {}" if "x \<in> T" "y \<in> T" "x \<noteq> y" for x y
    using live_apart [OF l, of "fst x" "snd x" "fst y" "snd y"] that by (auto simp: prod_eq_iff)
  have "(\<Sum>x \<in> T. snd x) = (\<Sum>x \<in> T. int (card (?ext x)))" using pos by (intro sum.cong) (auto simp: less_imp_le)
  also have "\<dots> = int (card (\<Union>x \<in> T. ?ext x))" using f dis by (subst card_UN_disjoint) auto
  also have "\<dots> \<le> int (card ?all)"
  proof -
    have "(\<Union>x \<in> T. ?ext x) \<subseteq> ?all" using sub by blast
    then show ?thesis by (intro of_nat_mono card_mono) simp_all
  qed
  finally show ?thesis using b by simp
qed

definition u_good :: "'a util \<Rightarrow> int set \<Rightarrow> bool" where
  "u_good d I \<longleftrightarrow> finite I \<and> (\<exists>m rs C. tracks (u_blocks d) (u_sizes d) rs m I C \<and> live (u_mach d) (held (u_blocks d) I C))
     \<and> total_size d = (\<Sum>i \<in> I. u_sizes d ! nat i)
     \<and> mem_start_brk (sys (u_mach d)) \<le> mem_brk (sys (u_mach d))
     \<and> 0 \<le> max_total_size d \<and> max_total_size d \<le> mem_heapsize (sys (u_mach d))"

text \<open>The live sizes fit into the heap.\<close>

lemma sizes_fit:
  assumes t: "tracks bs ns rs m I C" and l: "live h (held bs I C)" and f: "finite I"
    and b: "mem_start_brk (sys h) \<le> mem_brk (sys h)"
  shows "(\<Sum>i \<in> I. ns ! nat i) \<le> mem_heapsize (sys h)"
proof -
  have inj: "inj_on (\<lambda>i. (bs ! nat i, C i)) I" using t by (auto simp: tracks_def inj_on_def)
  have "(\<Sum>i \<in> I. ns ! nat i) \<le> (\<Sum>i \<in> I. C i)" using tracksD(5) [OF t] by (rule sum_mono)
  also have "\<dots> = (\<Sum>x \<in> held bs I C. snd x)" unfolding held_def using inj by (simp add: sum.reindex)
  also have "\<dots> \<le> mem_brk (sys h) - mem_start_brk (sys h)" by (rule live_total [OF l _ b]) (simp add: held_def f)
  finally show ?thesis by (simp add: mem_heapsize_def)
qed

lemma u_new:
  assumes t: "tracks (u_blocks d) (u_sizes d) rs m I C" and l: "live h (insert (p, c) (held (u_blocks d) I C))" and f: "finite I"
    and p: "p \<notin> fst ` held (u_blocks d) I C" and i: "i \<notin> I" "\<not> u_bad i d" and n: "0 < n" "n \<le> c"
    and g: "grows k (u_mach d) h" "mem_start_brk (sys (u_mach d)) \<le> mem_brk (sys (u_mach d))"
    and tot: "total_size d + change = (\<Sum>i \<in> I. u_sizes d ! nat i) + n"
    and mx: "0 \<le> max_total_size d" "max_total_size d \<le> mem_heapsize (sys (u_mach d))"
  shows "u_good (u_note i p n change h d) (insert i I)"
proof -
  have i': "0 \<le> i" "i < int (length (u_blocks d))" "i < int (length (u_sizes d))" using i(2) by (auto simp: u_bad_def)
  let ?bs = "(u_blocks d)[nat i := p]" and ?ns = "(u_sizes d)[nat i := n]"
  have ap: "p + n \<le> q \<or> q + u \<le> p" if "(q, u) \<in> held (u_blocks d) I C" for q u
  proof -
    have "(q, u) \<noteq> (p, c)" using that p by force
    then show ?thesis using live_apart [OF l insertI1, of q u] that n by auto
  qed
  have out: "memset m p (i AND 0xFF) n x = m x" if "x < p \<or> p + n \<le> x" for x using that by (auto simp: memset_def)
  have fill: "memset m p (i AND 0xFF) n x = word_of_int (i AND 0xFF)" if "p \<le> x" "x < p + n" for x using that by (simp add: memset_def)
  have a: "tracks ?bs ?ns (\<lparr>r_lo = p, r_hi = p + n - 1\<rparr> # rs) (memset m p (i AND 0xFF) n) (insert i I) (C(i := c))"
    "held ?bs (insert i I) (C(i := c)) = insert (p, c) (held (u_blocks d) I C)"
    by (rule tracks_add [OF t i(1) i' n p out ap fill]; assumption)+
  have l': "live h (held ?bs (insert i I) (C(i := c)))" using l a(2) by simp
  have b: "mem_start_brk (sys h) \<le> mem_brk (sys h)" using g by (simp add: grows_def)
  have "?ns ! nat j = u_sizes d ! nat j" if "j \<in> I" for j
  proof -
    have "j \<noteq> i" "0 \<le> j" using that i(1) tracksD(1) [OF t that] by blast+
    then show ?thesis using i'(1) by simp
  qed
  then have s: "(\<Sum>j \<in> insert i I. ?ns ! nat j) = (\<Sum>j \<in> I. u_sizes d ! nat j) + n" using f i(1) i' by simp
  have fit: "(\<Sum>j \<in> insert i I. ?ns ! nat j) \<le> mem_heapsize (sys h)" using sizes_fit [OF a(1) l' _ b] f by simp
  have hs: "mem_heapsize (sys (u_mach d)) \<le> mem_heapsize (sys h)" using g by (simp add: grows_def mem_heapsize_def)
  show ?thesis unfolding u_good_def
    using f a(1) l' b s fit hs tot mx by (auto simp: u_note_def Let_def)
qed

lemma util_steps:
  assumes "u_good d I" and "well_formed n I ops" and "length (u_blocks d) = n" and "length (u_sizes d) = n"
  shows "(\<exists>d' I'. util_ops pkg ops d = Next d' \<and> u_good d' I' \<and> u_carries (trace_cost cost ops) n (u_mach d) d')
    \<or> util_ops pkg ops d = Aborted \<and> \<not> room (u_mach d) (trace_cost cost ops)"
  using assms
proof (induction ops arbitrary: d I)
  case (Cons opr ops)
  define i where "i = op_index opr"
  define sz where "sz = op_size opr"
  define c where "c = (if op_type opr = FREE then 0 else cost sz)"
  have tc: "0 \<le> trace_cost cost ops" by (rule trace_cost_pos) (rule cost_pos)
  have cost: "trace_cost cost (opr # ops) = c + trace_cost cost ops" by (simp add: c_def sz_def)
  obtain m rs C where t: "tracks (u_blocks d) (u_sizes d) rs m I C" and l: "live (u_mach d) (held (u_blocks d) I C)"
    and f: "finite I" and tot: "total_size d = (\<Sum>i \<in> I. u_sizes d ! nat i)"
    and b: "mem_start_brk (sys (u_mach d)) \<le> mem_brk (sys (u_mach d))"
    and mx: "0 \<le> max_total_size d" "max_total_size d \<le> mem_heapsize (sys (u_mach d))"
    using Cons.prems(1) by (auto simp: u_good_def)
  have "(\<exists>d1 J. util_op pkg opr d = Next d1 \<and> u_good d1 J \<and> well_formed n J ops \<and> grows c (u_mach d) (u_mach d1)
      \<and> length (u_blocks d1) = n \<and> length (u_sizes d1) = n) \<or> util_op pkg opr d = Aborted \<and> \<not> room (u_mach d) c"
  proof (cases "op_type opr")
    case ALLOC
    then have w: "0 \<le> i" "i < int n" "i \<notin> I" "0 < sz" "sz < 2 ^ 31" "well_formed n (insert i I) ops"
      using Cons.prems(2) by (simp_all add: i_def sz_def Let_def)
    have ub: "\<not> u_bad i d" using w Cons.prems(3,4) by (simp add: u_bad_def)
    have u: "u32 sz = sz" using w by (simp add: u32_def)
    obtain p h where ph: "m_malloc sz (u_mach d) = Some (p, h)" and alt: "p = 0 \<and> h = u_mach d \<and> \<not> room (u_mach d) (cost sz)
        \<or> p \<noteq> 0 \<and> (\<exists>t. sz \<le> t \<and> live h (insert (p, t) (held (u_blocks d) I C))) \<and> p \<notin> fst ` held (u_blocks d) I C
          \<and> same_at (held (u_blocks d) I C) (u_mach d) h \<and> grows (cost sz) (u_mach d) h"
      using malloc_ok [OF l w(4,5)] by blast
    have op: "util_op pkg opr d = (if p = 0 then Aborted else Next (u_note i p sz sz h d))"
      using ALLOC ub u ph by (simp add: util_op_def i_def sz_def Let_def)
    show ?thesis
    proof (cases "p = 0")
      case False
      then obtain k where k: "sz \<le> k" "live h (insert (p, k) (held (u_blocks d) I C))" "p \<notin> fst ` held (u_blocks d) I C"
        "grows (cost sz) (u_mach d) h" using alt by blast
      have "u_good (u_note i p sz sz h d) (insert i I)"
        by (rule u_new [OF t k(2) f k(3) w(3) ub w(4) k(1) k(4) b _ mx]) (simp add: tot)
      then show ?thesis using op False w(6) k(4) ALLOC Cons.prems(3,4) by (auto simp: u_note_def Let_def c_def)
    qed (use alt op ALLOC in \<open>simp add: c_def\<close>)
  next
    case FREE
    then have w: "i \<in> I" "well_formed n (I - {i}) ops" using Cons.prems(2) by (simp_all add: i_def Let_def)
    have ub: "\<not> u_bad i d" using tracksD(1-3) [OF t w(1)] by (simp add: u_bad_def)
    note rm = tracks_remove [OF t w(1)]
    obtain h where h: "m_free (u_blocks d ! nat i) (u_mach d) = Some h" "live h (held (u_blocks d) (I - {i}) C)"
      "grows 0 (u_mach d) h" using free_ok [OF l tracksD(6) [OF t w(1)]] rm(2) by auto
    have "(\<Sum>j \<in> I - {i}. u_sizes d ! nat j) = total_size d - u_sizes d ! nat i"
      using f w(1) tot by (simp add: sum_diff1)
    then have "u_good (d\<lparr>u_mach := h, total_size := total_size d - u_sizes d ! nat i\<rparr>) (I - {i})"
      using f rm(1) h(2,3) b mx unfolding u_good_def by (auto simp: grows_def mem_heapsize_def)
    moreover have "util_op pkg opr d = Next (d\<lparr>u_mach := h, total_size := total_size d - u_sizes d ! nat i\<rparr>)"
      using FREE ub h(1) by (simp add: util_op_def i_def Let_def)
    ultimately show ?thesis using w(2) h(3) FREE Cons.prems(3,4) by (auto simp: c_def)
  next
    case REALLOC
    then have w: "i \<in> I" "0 < sz" "sz < 2 ^ 31" "well_formed n I ops"
      using Cons.prems(2) by (simp_all add: i_def sz_def Let_def)
    have ub: "\<not> u_bad i d" using tracksD(1-3) [OF t w(1)] by (simp add: u_bad_def)
    have u: "u32 sz = sz" using w by (simp add: u32_def)
    note rm = tracks_remove [OF t w(1)]
    let ?T = "held (u_blocks d) (I - {i}) C"
    obtain p h where ph: "m_realloc (u_blocks d ! nat i) sz (u_mach d) = Some (p, h)"
      and alt: "p = 0 \<and> h = u_mach d \<and> \<not> room (u_mach d) (cost sz)
        \<or> p \<noteq> 0 \<and> (\<exists>t. sz \<le> t \<and> live h (insert (p, t) ?T)) \<and> p \<notin> fst ` ?T \<and> grows (cost sz) (u_mach d) h"
      using realloc_ok [OF l tracksD(6) [OF t w(1)] w(2,3)] rm(2) by auto
    have op: "util_op pkg opr d = (if p = 0 then Aborted else Next (u_note i p sz (sz - u_sizes d ! nat i) h d))"
      using REALLOC ub u ph by (simp add: util_op_def i_def sz_def Let_def)
    show ?thesis
    proof (cases "p = 0")
      case False
      then obtain k where k: "sz \<le> k" "live h (insert (p, k) ?T)" "p \<notin> fst ` ?T" "grows (cost sz) (u_mach d) h" using alt by blast
      have "u_good (u_note i p sz (sz - u_sizes d ! nat i) h d) (insert i (I - {i}))"
        by (rule u_new [OF rm(1) k(2) _ k(3) _ ub w(2) k(1) k(4) b _ mx]) (use f w(1) tot in \<open>simp_all add: sum_diff1\<close>)
      moreover have "insert i (I - {i}) = I" using w(1) by blast
      ultimately show ?thesis using op False w(4) k(4) REALLOC Cons.prems(3,4) by (auto simp: u_note_def Let_def c_def)
    qed (use alt op REALLOC in \<open>simp add: c_def\<close>)
  qed
  then show ?case
  proof
    assume "\<exists>d1 J. util_op pkg opr d = Next d1 \<and> u_good d1 J \<and> well_formed n J ops \<and> grows c (u_mach d) (u_mach d1)
      \<and> length (u_blocks d1) = n \<and> length (u_sizes d1) = n"
    then obtain d1 J where d1: "util_op pkg opr d = Next d1" "u_good d1 J" "well_formed n J ops" "grows c (u_mach d) (u_mach d1)"
      "length (u_blocks d1) = n" "length (u_sizes d1) = n" by blast
    have "room (u_mach d1) (trace_cost cost ops)" if "room (u_mach d) (trace_cost cost (opr # ops))"
      by (rule room_mono [OF d1(4) _ that]) (simp only: cost order_refl)
    moreover have "u_carries (trace_cost cost (opr # ops)) n (u_mach d) d'" if "u_carries (trace_cost cost ops) n (u_mach d1) d'" for d'
      using that grows_trans [OF d1(4)] unfolding u_carries_def cost by blast
    ultimately show ?thesis using Cons.IH [OF d1(2,3,5,6)] d1(1) by auto
  next
    assume a: "util_op pkg opr d = Aborted \<and> \<not> room (u_mach d) c"
    then have "\<not> room (u_mach d) (trace_cost cost (opr # ops))" using tc unfolding room_def cost by simp
    then show ?thesis using a by simp
  qed
qed (auto simp: u_carries_def grows_refl)

lemma util_run:
  assumes f: "fresh_heap (reset_machine h)" and w: "well_formed n {} ops" and n: "length bs = n" "length ns = n"
  shows "\<exists>h1. m_init (reset_machine h) = Some (0, h1) \<and> grows reserve (reset_machine h) h1
    \<and> ((\<exists>d. eval_mm_util pkg ops bs ns h = Next d \<and> u_carries (trace_cost cost ops) n h1 d
          \<and> 0 \<le> max_total_size d \<and> max_total_size d \<le> mem_heapsize (sys (u_mach d)))
       \<or> eval_mm_util pkg ops bs ns h = Aborted \<and> MAX_HEAP < reserve + trace_cost cost ops)"
proof -
  obtain h1 where h1: "m_init (reset_machine h) = Some (0, h1)" "live h1 {}" "grows reserve (reset_machine h) h1"
    using init_ok [OF f] by blast
  let ?d = "\<lparr>u_mach = h1, u_blocks = bs, u_sizes = ns, total_size = 0, max_total_size = 0\<rparr>"
  have b: "mem_start_brk (sys h1) \<le> mem_brk (sys h1)" using h1(3) f by (simp add: grows_def fresh_heap_def)
  have "tracks bs ns [] (\<lambda>_. 0) {} (\<lambda>_. 0) \<and> live h1 (held bs {} (\<lambda>_. 0))" using h1(2) by (simp add: tracks_start held_def)
  then have "\<exists>m rs C. tracks bs ns rs m {} C \<and> live h1 (held bs {} C)" by blast
  then have "u_good ?d {}" using b unfolding u_good_def by (simp add: mem_heapsize_def)
  from util_steps [OF this w] n
  have "(\<exists>d' I'. util_ops pkg ops ?d = Next d' \<and> u_good d' I' \<and> u_carries (trace_cost cost ops) n h1 d')
      \<or> util_ops pkg ops ?d = Aborted \<and> \<not> room h1 (trace_cost cost ops)"
    by simp
  moreover have "eval_mm_util pkg ops bs ns h = util_ops pkg ops ?d" using h1(1) by (simp add: eval_mm_util_def)
  moreover have "MAX_HEAP < reserve + trace_cost cost ops" if "\<not> room h1 (trace_cost cost ops)"
    using that h1(3) f by (simp add: room_def grows_def fresh_heap_def)
  ultimately show ?thesis using h1(1,3) by (auto simp: u_good_def)
qed

lemma utilization:
  assumes "fresh_heap (reset_machine h)" and "well_formed n {} ops" and "length bs = n" "length ns = n"
  shows "(\<exists>d. eval_mm_util pkg ops bs ns h = Next d \<and> 0 \<le> max_total_size d \<and> max_total_size d \<le> mem_heapsize (sys (u_mach d)))
    \<or> eval_mm_util pkg ops bs ns h = Aborted \<and> MAX_HEAP < reserve + trace_cost cost ops"
  using util_run [OF assms] by blast

text \<open>A trace that allocates an index whose low byte is 128 or more and reallocates it.\<close>

lemma high_index_rejected:
  assumes f: "fresh_heap (reset_machine (mach d))" and i: "\<not> bad_index i d" "\<not> i AND 0xFF < 128"
    and n: "0 < n" "n < 2 ^ 31" "0 < m" "m < 2 ^ 31" and fit: "reserve + cost n + cost m \<le> MAX_HEAP"
  shows "\<exists>d'. eval_mm_valid pkg [\<lparr>op_type = ALLOC, op_index = i, op_size = n\<rparr>, \<lparr>op_type = REALLOC, op_index = i, op_size = m\<rparr>] d
      = Failed d' \<and> errors d' = errors d @ [(1, Data_lost)]"
proof -
  obtain h where h: "m_init (reset_machine (mach d)) = Some (0, h)" "live h {}" "grows reserve (reset_machine (mach d)) h"
    using init_ok [OF f] by blast
  let ?d = "d\<lparr>ranges := [], mach := h\<rparr>"
  have rm: "room h (cost n + cost m)" using h(3) f fit by (simp add: room_def grows_def fresh_heap_def)
  then have "room (mach ?d) (cost n)" using cost_pos [of m] by (simp add: room_def)
  moreover have "good ?d {} (\<lambda>_. 0)" using h(2) tracks_start by (simp add: good_def held_def)
  moreover have "\<not> bad_index i ?d" using i(1) by (simp add: bad_index_def)
  ultimately obtain d1 C where d1: "valid_alloc pkg 0 i n ?d = Next d1" "good d1 {i} C" "grows (cost n) h (mach d1)" "errors d1 = errors d"
    using alloc_step [of ?d "{}" "\<lambda>_. 0" i n 0] n by (auto simp: goes_on_def no_memory_def)
  have "room (mach d1) (cost m)" using room_mono [OF d1(3) _ rm] by simp
  then obtain d' where "valid_realloc pkg 1 i m d1 = Failed d'" "errors d' = errors d1 @ [(1, Data_lost)]"
    using realloc_step(2) [OF d1(2) _ n(3,4) i(2), of 1] by auto
  then show ?thesis using h(1) d1 by (simp add: eval_mm_valid_def clear_ranges_def valid_op_def)
qed

end

section \<open>The driver and the two allocators\<close>

definition driver0 :: "'a machine_scheme \<Rightarrow> nat \<Rightarrow> 'a driver" where
  "driver0 h n = \<lparr>mach = h, ranges = [], blocks = replicate n 0, block_sizes = replicate n 0, errors = []\<rparr>"

lemma driver0_simps: "mach (driver0 h n) = h" "blocks (driver0 h n) = replicate n 0" "block_sizes (driver0 h n) = replicate n 0"
  "errors (driver0 h n) = []"
  by (simp_all add: driver0_def)

lemma fresh_reset_machine0: "fresh_heap (reset_machine (machine0 4096))"
  by (simp add: reset_machine_def machine0_def fresh_heap_def mem_reset_brk_def MAX_HEAP_def)

lemma fresh_reset_plain: "fresh_heap (reset_machine plain_machine)"
  by (simp add: reset_machine_def plain_machine_def fresh_heap_def mem_reset_brk_def MAX_HEAP_def)

definition small_trace :: "traceop list" where
  "small_trace = [\<lparr>op_type = ALLOC, op_index = 0, op_size = 512\<rparr>, \<lparr>op_type = ALLOC, op_index = 1, op_size = 128\<rparr>,
     \<lparr>op_type = REALLOC, op_index = 0, op_size = 640\<rparr>, \<lparr>op_type = FREE, op_index = 1, op_size = 0\<rparr>,
     \<lparr>op_type = FREE, op_index = 0, op_size = 0\<rparr>]"

lemma small_trace_ok: "well_formed 2 {} small_trace" "comparable small_trace"
  by (simp_all add: small_trace_def comparable_def)

text \<open>C4. The driver finishes every well-formed trace with the segregated-list allocator, without an
  error message, as long as the growth of the heap that its requests can cause fits into 20 MB and every block that is reallocated has
  an index whose low byte is below 128 (of the others the driver says that they lost their contents, whatever the allocator).\<close>

theorem mm_passes_driver:
  assumes "fresh_heap (reset_machine (mach d))" and "well_formed (length (blocks d)) {} ops" and "comparable ops"
    and "length (block_sizes d) = length (blocks d)" and "176 + trace_cost mm_cost ops \<le> MAX_HEAP"
  shows "\<exists>d'. eval_mm_valid mm_package ops d = Next d' \<and> errors d' = errors d"
  using mm.driver_verdict [OF assms(1-3) refl assms(4)] assms(5) unfolding mm_package_def by auto

lemma mm_passes_driver_witness:
  "\<exists>d'. eval_mm_valid mm_package small_trace (driver0 (machine0 4096) 2) = Next d' \<and> errors d' = []"
proof -
  have a: "adjusted_size 512 = 520" "adjusted_size 128 = 136" "adjusted_size 640 = 648" by code_simp+
  have "176 + trace_cost mm_cost small_trace \<le> MAX_HEAP"
    by (simp add: small_trace_def mm_cost_def a MAX_HEAP_def)
  then show ?thesis
    using mm_passes_driver [of "driver0 (machine0 4096) 2" small_trace] small_trace_ok fresh_reset_machine0 by (simp add: driver0_simps)
qed

text \<open>C5. On any well-formed trace, however much memory it asks for, the segregated-list allocator fails in the driver only by a null
  pointer: it never returns a misaligned, overlapping or outlying block, loops or makes the driver crash. The driver reports lost
  contents only at a request that reallocates a block whose index has a low byte of 128 or more, where its own comparison is wrong.\<close>

theorem mm_fails_only_by_null:
  assumes "fresh_heap (reset_machine (mach d))" and "well_formed (length (blocks d)) {} ops"
    and "length (block_sizes d) = length (blocks d)"
  shows "(\<exists>d'. eval_mm_valid mm_package ops d = Next d' \<and> errors d' = errors d)
    \<or> (\<exists>d' j e. eval_mm_valid mm_package ops d = Failed d' \<and> errors d' = errors d @ [(j, e)]
        \<and> (e \<in> {Malloc_failed, Realloc_failed} \<or> e = Data_lost \<and> incomparable_at ops j))"
  using mm.any_trace_verdict [OF assms(1,2) refl assms(3)] unfolding mm_package_def carries_on_def by blast

lemma mm_fails_only_by_null_witness:
  "(\<exists>d'. eval_mm_valid mm_package [\<lparr>op_type = ALLOC, op_index = 0, op_size = 2 ^ 30\<rparr>] (driver0 (machine0 4096) 1) = Next d')
   \<or> (\<exists>d' j e. eval_mm_valid mm_package [\<lparr>op_type = ALLOC, op_index = 0, op_size = 2 ^ 30\<rparr>] (driver0 (machine0 4096) 1) = Failed d'
        \<and> e \<in> {Malloc_failed, Realloc_failed} \<and> errors d' = [(j, e)])"
proof -
  have "\<not> incomparable_at [\<lparr>op_type = ALLOC, op_index = 0, op_size = 2 ^ 30\<rparr>] j" for j by (cases j) (simp_all add: incomparable_at_def)
  then show ?thesis
    using mm_fails_only_by_null [of "driver0 (machine0 4096) 1" "[\<lparr>op_type = ALLOC, op_index = 0, op_size = 2 ^ 30\<rparr>]"] fresh_reset_machine0
    by (auto simp: driver0_simps)
qed

text \<open>The naive allocator is accepted in the same way.\<close>

theorem naive_passes_driver:
  assumes "fresh_heap (reset_machine (mach d))" and "well_formed (length (blocks d)) {} ops" and "comparable ops"
    and "length (block_sizes d) = length (blocks d)" and "trace_cost naive_cost ops \<le> MAX_HEAP"
  shows "\<exists>d'. eval_mm_valid naive_package ops d = Next d' \<and> errors d' = errors d"
  using naive.driver_verdict [OF assms(1-3) refl assms(4)] assms(5) unfolding naive_package_def by auto

lemma naive_passes_driver_witness:
  "\<exists>d'. eval_mm_valid naive_package small_trace (driver0 plain_machine 2) = Next d' \<and> errors d' = []"
proof -
  have "naive_cost 512 \<le> 1000 \<and> naive_cost 128 \<le> 1000 \<and> naive_cost 640 \<le> 1000" by code_simp
  then have "trace_cost naive_cost small_trace \<le> MAX_HEAP" by (simp add: small_trace_def MAX_HEAP_def)
  then show ?thesis
    using naive_passes_driver [of "driver0 plain_machine 2" small_trace] small_trace_ok fresh_reset_plain by (simp add: driver0_simps)
qed

text \<open>C18. The utilization the driver measures for the segregated-list allocator, the high-water mark
  of the requested bytes by the heap size, is between 0 and 1; a run that does not end with it ran
  out of memory.\<close>

theorem mm_utilization:
  assumes "fresh_heap (reset_machine h)" and "well_formed (length bs) {} ops" and "length ns = length bs"
  shows "(\<exists>d. eval_mm_util mm_package ops bs ns h = Next d \<and> 0 \<le> max_total_size d
      \<and> max_total_size d \<le> mem_heapsize (sys (u_mach d)))
    \<or> eval_mm_util mm_package ops bs ns h = Aborted \<and> MAX_HEAP < 176 + trace_cost mm_cost ops"
  using mm.utilization [OF assms(1,2) refl assms(3)] unfolding mm_package_def .

lemma mm_utilization_witness:
  "\<exists>d. eval_mm_util mm_package small_trace [0, 0] [0, 0] (machine0 4096) = Next d \<and> max_total_size d \<le> mem_heapsize (sys (u_mach d))"
proof -
  have a: "adjusted_size 512 = 520" "adjusted_size 128 = 136" "adjusted_size 640 = 648" by code_simp+
  have "176 + trace_cost mm_cost small_trace \<le> MAX_HEAP"
    by (simp add: small_trace_def mm_cost_def a MAX_HEAP_def)
  then show ?thesis
    using mm_utilization [OF fresh_reset_machine0, of "[0, 0]" small_trace "[0, 0]"] small_trace_ok(1) by (auto simp: numeral_2_eq_2)
qed

text \<open>The driver compares a \<open>char\<close>, which is signed, with the low byte of the index: a correct
  reallocation of an index whose low byte is 128 or more is reported as lost data.\<close>

theorem high_index_reported_lost:
  assumes "fresh_heap (reset_machine (mach d))" and "0 \<le> i" "i < int (length (blocks d))" and "length (block_sizes d) = length (blocks d)"
    and "128 \<le> i mod 256" and "0 < n" "n < 2 ^ 31" and "0 < m" "m < 2 ^ 31" and "176 + mm_cost n + mm_cost m \<le> MAX_HEAP"
  shows "\<exists>d'. eval_mm_valid mm_package [\<lparr>op_type = ALLOC, op_index = i, op_size = n\<rparr>, \<lparr>op_type = REALLOC, op_index = i, op_size = m\<rparr>] d
      = Failed d' \<and> errors d' = errors d @ [(1, Data_lost)]"
proof -
  have "\<not> bad_index i d" "\<not> i AND 0xFF < 128" using assms(2-5) low_byte(2) [of i] by (simp_all add: bad_index_def)
  from mm.high_index_rejected [OF assms(1) this assms(6-10)] show ?thesis unfolding mm_package_def .
qed

lemma high_index_reported_lost_witness:
  "\<exists>d'. eval_mm_valid mm_package [\<lparr>op_type = ALLOC, op_index = 128, op_size = 512\<rparr>, \<lparr>op_type = REALLOC, op_index = 128, op_size = 640\<rparr>]
      (driver0 (machine0 4096) 129) = Failed d' \<and> errors d' = [(1, Data_lost)]"
proof -
  have a: "adjusted_size 512 = 520" "adjusted_size 640 = 648" by code_simp+
  have "176 + mm_cost 512 + mm_cost 640 \<le> MAX_HEAP" by (simp add: mm_cost_def a MAX_HEAP_def)
  then show ?thesis
    using high_index_reported_lost [of "driver0 (machine0 4096) 129" 128 512 640] fresh_reset_machine0 by (simp add: driver0_simps)
qed

text \<open>C37. The overlap test of \<open>add_range\<close> for an aligned block inside the heap: it reports exactly the
  old ranges that overlap the new one without lying strictly inside it. A new block around an old
  one is accepted.\<close>

theorem add_range_overlap_iff:
  assumes "0 < sz" and "IS_ALIGNED lo" and "mem_heap_lo ms \<le> lo" and "lo + sz - 1 \<le> mem_heap_hi ms"
    and "\<forall>r \<in> set rs. r_lo r \<le> r_hi r"
  shows "add_range ms lo sz rs = Some (Inl Overlap) \<longleftrightarrow>
    (\<exists>r \<in> set rs. {r_lo r..r_hi r} \<inter> {lo..lo + sz - 1} \<noteq> {} \<and> \<not> (lo < r_lo r \<and> r_hi r < lo + sz - 1))"
proof -
  have "(lo \<ge> r_lo p \<and> lo \<le> r_hi p) \<or> (lo + sz - 1 \<ge> r_lo p \<and> lo + sz - 1 \<le> r_hi p) \<longleftrightarrow>
      {r_lo p..r_hi p} \<inter> {lo..lo + sz - 1} \<noteq> {} \<and> \<not> (lo < r_lo p \<and> r_hi p < lo + sz - 1)" if "p \<in> set rs" for p
    using assms(1,5) that by (auto simp: Int_atLeastAtMost)
  then show ?thesis using assms(1-4) by (auto simp: add_range_def Let_def)
qed

lemma add_range_overlap_iff_witness:
  "add_range (sys (machine0 4096)\<lparr>mem_brk := 8192\<rparr>) 4096 64 [\<lparr>r_lo = 4104, r_hi = 4111\<rparr>] \<noteq> Some (Inl Overlap)
   \<and> add_range (sys (machine0 4096)\<lparr>mem_brk := 8192\<rparr>) 4096 64 [\<lparr>r_lo = 4104, r_hi = 4200\<rparr>] = Some (Inl Overlap)"
  using add_range_overlap_iff [of 64 4096 "sys (machine0 4096)\<lparr>mem_brk := 8192\<rparr>" "[\<lparr>r_lo = 4104, r_hi = 4111\<rparr>]"]
    add_range_overlap_iff [of 64 4096 "sys (machine0 4096)\<lparr>mem_brk := 8192\<rparr>" "[\<lparr>r_lo = 4104, r_hi = 4200\<rparr>]"]
  by (simp add: machine0_def mem_heap_lo_def mem_heap_hi_def IS_ALIGNED_def u32_def ALIGNMENT_def)

end
