(* ===== verification/Trace_File.thy ===== *)
theory Trace_File
  imports C_Text Mdriver_Results
begin

text \<open>
  Trace files of the malloc driver: \<open>read_trace\<close> of \<open>mdriver.c\<close>, and the driver on a file.
\<close>

section \<open>The reader\<close>

record trace =
  sugg_heapsize :: "int option"
  num_ids :: int
  num_ops :: int
  weight :: "int option"
  t_ops :: "traceop list"

text \<open>The request lines. \<open>ops\<close> is the array; \<open>sz\<close> is \<open>None\<close> until a size was read. A write behind the
  array, an uninitialised size and a word that does not fit into \<open>type\<close> are \<open>Crash\<close>, \<open>exit\<close> is
  \<open>Aborted\<close>. The conversion \<open>%ud\<close> also takes a \<open>d\<close> behind the number.\<close>

function read_ops :: "string \<Rightarrow> traceop list \<Rightarrow> int \<Rightarrow> int option \<Rightarrow> int \<Rightarrow> nat \<Rightarrow> (traceop list \<times> int \<times> nat) run" where
  "read_ops s ops index sz max_index k =
     (case scan_str s of
        None \<Rightarrow> Next (ops, max_index, k)
      | Some (type, s) \<Rightarrow>
          if 1024 \<le> length type then Crash
          else if hd type = CHR ''a'' \<or> hd type = CHR ''r''
          then
            (let (i, s) = scan_u s;
                 (n, s) = (if i = None then (None, s) else scan_u s);
                 index = (case i of None \<Rightarrow> index | Some v \<Rightarrow> v);
                 sz = (case n of None \<Rightarrow> sz | Some v \<Rightarrow> Some v)
             in if length ops \<le> k then Crash
                else case sz of
                  None \<Rightarrow> Crash
                | Some v \<Rightarrow>
                    read_ops s (ops[k := \<lparr>op_type = (if hd type = CHR ''a'' then ALLOC else REALLOC),
                        op_index = to_int index, op_size = to_int v\<rparr>])
                      index sz (if index > max_index then index else max_index) (Suc k))
          else if hd type = CHR ''f''
          then
            (let (i, s) = scan_u s;
                 s = (if i \<noteq> None \<and> s \<noteq> [] \<and> hd s = CHR ''d'' then tl s else s);
                 index = (case i of None \<Rightarrow> index | Some v \<Rightarrow> v)
             in if length ops \<le> k then Crash
                else read_ops s (ops[k := (ops ! k)\<lparr>op_type := FREE, op_index := to_int index\<rparr>]) index sz max_index (Suc k))
          else Aborted)"
  by pat_completeness auto
termination read_ops
  by (relation "measure (\<lambda>(s, ops, index, sz, mx, k). length s)")
    (auto split: if_splits dest!: scan_str_shorter scan_u_shorter sym [of _ "scan_u _"])

declare read_ops.simps [simp del]

text \<open>\<open>gets\<close> says which requests \<open>malloc\<close> satisfies, \<open>junk\<close> what the array of requests contains. The file
  has been opened; \<open>blocks\<close> and \<open>block_sizes\<close> have \<open>num_ids\<close> elements.\<close>

definition read_trace :: "(int \<Rightarrow> bool) \<Rightarrow> (nat \<Rightarrow> traceop) \<Rightarrow> string \<Rightarrow> trace run" where
  "read_trace gets junk s =
     (let (a, s) = scan_d s; (b, s) = scan_d s; (c, s) = scan_d s; (d, s) = scan_d s in
      case (b, c) of
        (Some ids, Some n) \<Rightarrow>
          if \<not> gets (u32 (n * 12)) \<or> \<not> gets (u32 (ids * 4)) then Aborted
          else (case read_ops s (map junk [0..<nat (u32 (n * 12) div 12)]) 0 None 0 0 of
                  Next (ops, max_index, k) \<Rightarrow>
                    if max_index = u32 (ids - 1) \<and> u32 n = int k
                    then Next \<lparr>sugg_heapsize = a, num_ids = ids, num_ops = n, weight = d, t_ops = ops\<rparr>
                    else Aborted
                | Failed r \<Rightarrow> Crash | Aborted \<Rightarrow> Aborted | Crash \<Rightarrow> Crash | Stuck \<Rightarrow> Stuck)
      | _ \<Rightarrow> Crash)"

section \<open>Writing a trace\<close>

definition nl :: string where "nl = [CHR 0x0A]"

definition print_op :: "traceop \<Rightarrow> string" where
  "print_op opr =
     (let i = decimal (nat (op_index opr)); n = decimal (nat (op_size opr)) in
      case op_type opr of
        ALLOC \<Rightarrow> ''a'' @ '' '' @ i @ '' '' @ n
      | REALLOC \<Rightarrow> ''r'' @ '' '' @ i @ '' '' @ n
      | FREE \<Rightarrow> ''f'' @ '' '' @ i)"

definition print_ops :: "traceop list \<Rightarrow> string" where
  "print_ops ops = concat (map (\<lambda>opr. nl @ print_op opr) ops) @ nl"

definition print_trace :: "nat \<Rightarrow> nat \<Rightarrow> nat \<Rightarrow> traceop list \<Rightarrow> string" where
  "print_trace heapsize ids wt ops =
     decimal heapsize @ nl @ decimal ids @ nl @ decimal (length ops) @ nl @ decimal wt @ print_ops ops"

definition printable :: "traceop \<Rightarrow> bool" where
  "printable opr \<longleftrightarrow> 0 \<le> op_index opr \<and> op_index opr < 2 ^ 31 \<and> (op_type opr \<noteq> FREE \<longrightarrow> 0 \<le> op_size opr \<and> op_size opr < 2 ^ 31)"

text \<open>What comes back: the sizes of free requests are whatever the array contained.\<close>

fun read_back :: "(nat \<Rightarrow> traceop) \<Rightarrow> nat \<Rightarrow> traceop list \<Rightarrow> traceop list" where
  "read_back junk k [] = []"
| "read_back junk k (opr # ops) =
     (if op_type opr = FREE then opr\<lparr>op_size := op_size (junk k)\<rparr> else opr) # read_back junk (Suc k) ops"

fun top_index :: "int \<Rightarrow> traceop list \<Rightarrow> int" where
  "top_index m [] = m"
| "top_index m (opr # ops) = top_index (if op_type opr \<noteq> FREE \<and> op_index opr > m then op_index opr else m) ops"

lemma length_read_back [simp]: "length (read_back junk k ops) = length ops"
  by (induction ops arbitrary: k) auto

lemma nl_facts: "\<forall>c \<in> set nl. blank c" "nl \<noteq> []" "blank (hd (nl @ s))" "\<not> digit (hd (nl @ s))" "hd (nl @ s) \<noteq> CHR ''d''"
  by (simp_all add: nl_def blank_def digit_def code_def)

lemma space_facts: "\<forall>c \<in> set '' ''. blank c" "blank (hd ('' '' @ s))" "\<not> digit (hd ('' '' @ s))"
  by (simp_all add: blank_def digit_def code_def)

lemma scan_type: "t \<in> {''a'', ''r'', ''f''} \<Longrightarrow> scan_str (nl @ t @ '' '' @ s) = Some (t, '' '' @ s)"
  by (rule scan_str_word) (use nl_facts space_facts in \<open>auto simp: blank_def code_def\<close>)

lemma print_ops_Cons: "print_ops (opr # ops) = nl @ print_op opr @ print_ops ops"
  by (simp add: print_ops_def)

lemma print_ops_hd: "print_ops ops = nl @ tl (print_ops ops)"
  by (cases ops) (simp_all add: print_ops_def nl_def)

lemma to_int_small: "0 \<le> z \<Longrightarrow> z < 2 ^ 31 \<Longrightarrow> to_int z = z"
  by (simp add: to_int_def)

lemma scan_index:
  assumes "0 \<le> z" and "z < 2 ^ 31" and "r = [] \<or> \<not> digit (hd r)"
  shows "scan_u ('' '' @ decimal (nat z) @ r) = (Some z, r)"
  using scan_u_decimal [OF space_facts(1) assms(3), of "nat z"] assms(1,2) by simp

lemma read_ops_free:
  assumes "scan_str s = Some (''f'', s1)" and "scan_u s1 = (Some i, s2)" and "\<not> (s2 \<noteq> [] \<and> hd s2 = CHR ''d'')"
  shows "read_ops s ops index sz mx k =
    (if length ops \<le> k then Crash
     else read_ops s2 (ops[k := (ops ! k)\<lparr>op_type := FREE, op_index := to_int i\<rparr>]) i sz mx (Suc k))"
  by (subst read_ops.simps) (use assms in \<open>auto simp add: Let_def\<close>)

lemma read_ops_alloc:
  assumes "scan_str s = Some (t, s1)" and "t = ''a'' \<or> t = ''r''" and "scan_u s1 = (Some i, s2)" and "scan_u s2 = (Some n, s3)"
  shows "read_ops s ops index sz mx k =
    (if length ops \<le> k then Crash
     else read_ops s3 (ops[k := \<lparr>op_type = (if hd t = CHR ''a'' then ALLOC else REALLOC), op_index = to_int i, op_size = to_int n\<rparr>])
      i (Some n) (if i > mx then i else mx) (Suc k))"
  by (subst read_ops.simps) (use assms in \<open>auto simp add: Let_def\<close>)

text \<open>One printed request.\<close>

definition stored :: "traceop \<Rightarrow> traceop \<Rightarrow> traceop" where
  "stored old opr = (if op_type opr = FREE then opr\<lparr>op_size := op_size old\<rparr> else opr)"

lemma read_ops_step:
  assumes pr: "printable opr"
  shows "read_ops (print_ops (opr # ops)) arr index sz mx k =
    (if length arr \<le> k then Crash
     else read_ops (print_ops ops) (arr[k := stored (arr ! k) opr]) (op_index opr)
       (if op_type opr = FREE then sz else Some (op_size opr))
       (if op_type opr \<noteq> FREE \<and> op_index opr > mx then op_index opr else mx) (Suc k))"
proof -
  let ?i = "op_index opr" and ?n = "op_size opr"
  have r: "print_ops ops = [] \<or> \<not> digit (hd (print_ops ops))" using print_ops_hd nl_facts(4) by metis
  show ?thesis
  proof (cases "op_type opr = FREE")
    case True
    have s: "print_ops (opr # ops) = nl @ ''f'' @ '' '' @ decimal (nat ?i) @ print_ops ops"
      using True by (simp add: print_ops_Cons print_op_def)
    have u: "scan_u ('' '' @ decimal (nat ?i) @ print_ops ops) = (Some ?i, print_ops ops)"
      by (rule scan_index [OF _ _ r]) (use pr in \<open>simp_all add: printable_def\<close>)
    have d: "\<not> (print_ops ops \<noteq> [] \<and> hd (print_ops ops) = CHR ''d'')" using print_ops_hd nl_facts(5) by metis
    have "(arr ! k)\<lparr>op_type := FREE, op_index := to_int ?i\<rparr> = stored (arr ! k) opr"
      using True pr to_int_small [of ?i] by (simp add: printable_def stored_def)
    then show ?thesis
      unfolding s by (subst read_ops_free [OF scan_type u d]) (use True in simp_all)
  next
    case False
    define t where "t = (if op_type opr = ALLOC then ''a'' else ''r'')"
    have s: "print_ops (opr # ops) = nl @ t @ '' '' @ decimal (nat ?i) @ '' '' @ decimal (nat ?n) @ print_ops ops"
      using False by (cases "op_type opr") (simp_all add: print_ops_Cons print_op_def t_def)
    have st: "scan_str (nl @ t @ '' '' @ decimal (nat ?i) @ '' '' @ decimal (nat ?n) @ print_ops ops) =
        Some (t, '' '' @ decimal (nat ?i) @ '' '' @ decimal (nat ?n) @ print_ops ops)"
      by (rule scan_type) (simp add: t_def)
    have u1: "scan_u ('' '' @ decimal (nat ?i) @ '' '' @ decimal (nat ?n) @ print_ops ops) = (Some ?i, '' '' @ decimal (nat ?n) @ print_ops ops)"
      by (rule scan_index) (use pr space_facts(3) in \<open>simp_all add: printable_def\<close>)
    have u2: "scan_u ('' '' @ decimal (nat ?n) @ print_ops ops) = (Some ?n, print_ops ops)"
      by (rule scan_index [OF _ _ r]) (use pr False in \<open>simp_all add: printable_def\<close>)
    have x: "\<lparr>op_type = (if hd t = CHR ''a'' then ALLOC else REALLOC), op_index = to_int ?i, op_size = to_int ?n\<rparr> = stored (arr ! k) opr"
      using False pr to_int_small [of ?i] to_int_small [of ?n]
      by (cases opr; cases "op_type opr") (simp_all add: printable_def t_def stored_def)
    show ?thesis
      unfolding s by (subst read_ops_alloc [OF st _ u1 u2]) (use False x in \<open>simp_all add: t_def\<close>)
  qed
qed

lemma read_ops_printed:
  assumes "\<forall>opr \<in> set ops. printable opr" and "arr = pre @ map junk [length pre..<length pre + length ops]"
  shows "read_ops (print_ops ops) arr index sz mx (length pre) =
    Next (pre @ read_back junk (length pre) ops, top_index mx ops, length pre + length ops)"
  using assms
proof (induction ops arbitrary: pre arr index sz mx)
  case Nil
  have "scan_str nl = None" by (rule scan_str_end [OF nl_facts(1)])
  then show ?case using Nil by (simp add: print_ops_def read_ops.simps [of nl])
next
  case (Cons opr ops)
  let ?k = "length pre"
  have arr: "arr = pre @ junk ?k # map junk [Suc ?k..<Suc ?k + length ops]"
    using Cons.prems(2) by (simp add: upt_conv_Cons del: upt_Suc)
  have ih: "read_ops (print_ops ops) (arr[?k := x]) index' sz' mx' (Suc ?k) =
      Next (pre @ x # read_back junk (Suc ?k) ops, top_index mx' ops, Suc ?k + length ops)" for x index' sz' mx'
    using Cons.IH [of "arr[?k := x]" "pre @ [x]" index' sz' mx'] Cons.prems(1) arr by simp
  have "\<not> length arr \<le> ?k" "arr ! ?k = junk ?k" using arr by simp_all
  then show ?case using Cons.prems(1) by (simp add: read_ops_step ih stored_def)
qed

lemma read_ops_surplus:
  assumes "\<forall>opr \<in> set ops. printable opr" and "k \<le> length arr" and "length arr < k + length ops"
  shows "read_ops (print_ops ops) arr index sz mx k = Crash"
  using assms
proof (induction ops arbitrary: arr index sz mx k)
  case (Cons opr ops)
  then show ?case by (cases "length arr \<le> k") (simp_all add: read_ops_step)
qed simp

section \<open>Reading a printed trace\<close>

lemma top_index_ge: "m \<le> top_index m ops"
  by (induction ops arbitrary: m) (auto, metis dual_order.trans less_imp_le)

lemma read_printed:
  assumes "\<forall>opr \<in> set ops. printable opr" and "top_index 0 ops = int ids - 1" and "0 < ids"
    and "heapsize < 2 ^ 31" and "ids < 2 ^ 30" and "wt < 2 ^ 31" and "length ops < 2 ^ 28"
    and "gets (int (length ops) * 12)" and "gets (int ids * 4)"
  shows "read_trace gets junk (print_trace heapsize ids wt ops) =
    Next \<lparr>sugg_heapsize = Some (int heapsize), num_ids = int ids, num_ops = int (length ops), weight = Some (int wt),
      t_ops = read_back junk 0 ops\<rparr>"
proof -
  have d: "scan_d (b @ decimal n @ nl @ r) = (Some (int n), nl @ r)" if "\<forall>c \<in> set b. blank c" "n < 2 ^ 31" for b n r
    by (rule scan_d_decimal [OF that(1)]) (use that(2) nl_facts(4) in simp_all)
  have d4: "scan_d (nl @ decimal wt @ print_ops ops) = (Some (int wt), print_ops ops)"
    by (subst (1 2) print_ops_hd) (rule d [OF nl_facts(1) assms(6)])
  have d1: "scan_d (print_trace heapsize ids wt ops) = (Some (int heapsize), nl @ decimal ids @ nl @ decimal (length ops) @ nl @ decimal wt @ print_ops ops)"
    using d [of "[]" heapsize] assms(4) by (simp add: print_trace_def)
  have d2: "scan_d (nl @ decimal ids @ nl @ decimal (length ops) @ nl @ decimal wt @ print_ops ops) =
      (Some (int ids), nl @ decimal (length ops) @ nl @ decimal wt @ print_ops ops)"
    by (rule d [OF nl_facts(1)]) (use assms(5) in simp)
  have d3: "scan_d (nl @ decimal (length ops) @ nl @ decimal wt @ print_ops ops) = (Some (int (length ops)), nl @ decimal wt @ print_ops ops)"
    by (rule d [OF nl_facts(1)]) (use assms(7) in simp)
  have u: "u32 (int (length ops) * 12) = int (length ops) * 12" "u32 (int ids * 4) = int ids * 4" "u32 (int ids - 1) = int ids - 1"
    "u32 (int (length ops)) = int (length ops)" using assms(3,5,7) by (simp_all add: u32_def)
  have "read_ops (print_ops ops) (map junk [0..<length ops]) 0 None 0 0 = Next (read_back junk 0 ops, int ids - 1, length ops)"
    using read_ops_printed [of ops "map junk [0..<length ops]" "[]" junk 0 None 0] assms(1,2) by simp
  then show ?thesis unfolding read_trace_def d1 d2 d3 d4 Let_def split_conv option.case u using assms(8,9) by simp
qed

text \<open>C7. A trace that was printed is read back: the numbers of the header, and every request in order;
  only the unused size of a free request is whatever the array contained.\<close>

theorem read_trace_printed:
  assumes "\<forall>opr \<in> set ops. printable opr" and "top_index 0 ops = int ids - 1" and "0 < ids"
    and "heapsize < 2 ^ 31" and "ids < 2 ^ 30" and "wt < 2 ^ 31" and "length ops < 2 ^ 28"
    and "gets (int (length ops) * 12)" and "gets (int ids * 4)"
  shows "read_trace gets junk (print_trace heapsize ids wt ops) =
    Next \<lparr>sugg_heapsize = Some (int heapsize), num_ids = int ids, num_ops = int (length ops), weight = Some (int wt),
      t_ops = read_back junk 0 ops\<rparr>"
  by (rule read_printed [OF assms])

lemma read_trace_printed_witness:
  "read_trace (\<lambda>n. n < 1000) (\<lambda>k. \<lparr>op_type = FREE, op_index = 7, op_size = 9\<rparr>) (print_trace 20000 2 1 small_trace) =
    Next \<lparr>sugg_heapsize = Some 20000, num_ids = 2, num_ops = 5, weight = Some 1,
      t_ops = take 3 small_trace @ [\<lparr>op_type = FREE, op_index = 1, op_size = 9\<rparr>, \<lparr>op_type = FREE, op_index = 0, op_size = 9\<rparr>]\<rparr>"
  using read_trace_printed [of small_trace 2 20000 1 "\<lambda>n. n < 1000" "\<lambda>k. \<lparr>op_type = FREE, op_index = 7, op_size = 9\<rparr>"]
  by (simp add: small_trace_def printable_def)

text \<open>What the driver does with a request does not depend on the size of a free request.\<close>

lemma well_formed_read_back: "well_formed n I (read_back junk k ops) = well_formed n I ops"
  by (induction ops arbitrary: k I) (auto simp: Let_def split: request_type.split)

lemma comparable_read_back: "comparable (read_back junk k ops) = comparable ops"
proof (induction ops arbitrary: k)
  case (Cons opr ops)
  have "comparable (a # as) \<longleftrightarrow> (op_type a = REALLOC \<longrightarrow> op_index a AND 0xFF < 128) \<and> comparable as" for a as
    by (simp add: comparable_def)
  then show ?case using Cons by simp
qed simp

lemma trace_cost_read_back: "trace_cost c (read_back junk k ops) = trace_cost c ops"
  by (induction ops arbitrary: k) auto

lemma well_formed_printable: "well_formed n I ops \<Longrightarrow> n < 2 ^ 31 \<Longrightarrow> \<forall>i \<in> I. 0 \<le> i \<and> i < int n \<Longrightarrow> \<forall>opr \<in> set ops. printable opr"
proof (induction ops arbitrary: I)
  case (Cons opr ops)
  then show ?case
    by (cases "op_type opr") (fastforce simp: Let_def printable_def)+
qed simp

text \<open>C6. From the file to the verdict: the driver reads the file of a well-formed trace that fits into the heap and reallocates
  only blocks whose index has a low byte below 128, and passes the segregated-list allocator on it.\<close>

theorem trace_file_passes:
  assumes "well_formed ids {} ops" and "comparable ops" and "top_index 0 ops = int ids - 1" and "0 < ids" and "ids < 2 ^ 30"
    and "heapsize < 2 ^ 31" and "wt < 2 ^ 31" and "length ops < 2 ^ 28" and "gets (int (length ops) * 12)" and "gets (int ids * 4)"
    and "176 + trace_cost mm_cost ops \<le> MAX_HEAP" and "fresh_heap (reset_machine (mach d))"
    and "length (blocks d) = ids" and "length (block_sizes d) = ids"
  shows "\<exists>tr d'. read_trace gets junk (print_trace heapsize ids wt ops) = Next tr
    \<and> eval_mm_valid mm_package (t_ops tr) d = Next d' \<and> errors d' = errors d"
proof -
  have pr: "\<forall>opr \<in> set ops. printable opr" by (rule well_formed_printable [OF assms(1)]) (use assms(5) in simp_all)
  have rd: "read_trace gets junk (print_trace heapsize ids wt ops) =
      Next \<lparr>sugg_heapsize = Some (int heapsize), num_ids = int ids, num_ops = int (length ops), weight = Some (int wt), t_ops = read_back junk 0 ops\<rparr>"
    by (rule read_printed [OF pr assms(3,4,6,5,7,8,9,10)])
  have "well_formed (length (blocks d)) {} (read_back junk 0 ops)" using assms(1,13) by (simp add: well_formed_read_back)
  then have "\<exists>d'. eval_mm_valid mm_package (read_back junk 0 ops) d = Next d' \<and> errors d' = errors d"
    using mm.driver_verdict [OF assms(12), of "length (blocks d)" "read_back junk 0 ops"] assms(2,11,13,14)
    unfolding mm_package_def by (auto simp: comparable_read_back trace_cost_read_back)
  then show ?thesis using rd by auto
qed

lemma trace_file_passes_witness:
  "\<exists>tr d'. read_trace (\<lambda>_. True) (\<lambda>k. \<lparr>op_type = FREE, op_index = 7, op_size = 9\<rparr>) (print_trace 20000 2 1 small_trace) = Next tr
    \<and> eval_mm_valid mm_package (t_ops tr) (driver0 (machine0 4096) 2) = Next d' \<and> errors d' = []"
proof -
  have a: "adjusted_size 512 = 520" "adjusted_size 128 = 136" "adjusted_size 640 = 648" by code_simp+
  have "176 + trace_cost mm_cost small_trace \<le> MAX_HEAP"
    by (simp add: small_trace_def mm_cost_def a MAX_HEAP_def)
  moreover have "top_index 0 small_trace = int 2 - 1" "length small_trace = 5" by (simp_all add: small_trace_def)
  ultimately show ?thesis
    using trace_file_passes [of 2 small_trace 20000 1 "\<lambda>_. True" "driver0 (machine0 4096) 2" "\<lambda>k. \<lparr>op_type = FREE, op_index = 7, op_size = 9\<rparr>"]
      small_trace_ok fresh_reset_machine0 by (simp add: driver0_simps)
qed

text \<open>A file with more request lines than its header says: the reader writes behind the array of
  requests before it compares the two numbers.\<close>

theorem surplus_request_overruns:
  assumes "\<forall>opr \<in> set ops. printable opr" and "n < length ops" and "ids < 2 ^ 30" and "wt < 2 ^ 31" and "heapsize < 2 ^ 31"
    and "n < 2 ^ 28" and "gets (int n * 12)" and "gets (int ids * 4)"
  shows "read_trace gets junk (decimal heapsize @ nl @ decimal ids @ nl @ decimal n @ nl @ decimal wt @ print_ops ops) = Crash"
proof -
  have d: "scan_d (b @ decimal n @ nl @ r) = (Some (int n), nl @ r)" if "\<forall>c \<in> set b. blank c" "n < 2 ^ 31" for b n r
    by (rule scan_d_decimal [OF that(1)]) (use that(2) nl_facts(4) in simp_all)
  have "scan_d (nl @ decimal wt @ print_ops ops) = (Some (int wt), print_ops ops)"
    by (subst (1 2) print_ops_hd) (rule d [OF nl_facts(1) assms(4)])
  moreover have "read_ops (print_ops ops) (map junk [0..<n]) 0 None 0 0 = Crash"
    by (rule read_ops_surplus [OF assms(1)]) (use assms(2) in simp_all)
  moreover have "u32 (int n * 12) = int n * 12" "u32 (int ids * 4) = int ids * 4" using assms(3,6) by (simp_all add: u32_def)
  ultimately show ?thesis
    using d [of "[]" heapsize] d [OF nl_facts(1), of ids] d [OF nl_facts(1), of n] assms(3-8)
    by (simp add: read_trace_def Let_def)
qed

lemma surplus_request_overruns_witness:
  "read_trace (\<lambda>_. True) (\<lambda>k. \<lparr>op_type = FREE, op_index = 7, op_size = 9\<rparr>)
     (decimal 1 @ nl @ decimal 2 @ nl @ decimal 3 @ nl @ decimal 1 @ print_ops small_trace) = Crash"
  by (rule surplus_request_overruns) (simp_all add: small_trace_def printable_def)

end
