(* ===== verification/Timing.thy ===== *)
theory Timing
  imports Lab_Prelude Complex_Main "HOL-Library.Multiset"
begin

text \<open>
  The timing packages of the malloc driver: the K-best sampler of \<open>fcyc.c\<close>, the cycle counter of \<open>clock.c\<close>
  with the correction for timer interrupts, the timers of \<open>ftimer.c\<close> and the choice between them in
  \<open>fsecs.c\<close>. The clocks of the machine are a parameter (\<open>hardware\<close>, functions of a state of the world), and so is the
  timed function, a step of that state. Values of type \<open>double\<close> are reals, so rounding is not modelled; the sampler only
  compares them.
\<close>

section \<open>Outcomes\<close>

text \<open>A call returns, ends the process by \<open>exit\<close>, or leaves an array; \<open>None\<close> is a call that never returns.\<close>

datatype 'a outcome = Returns 'a | Exits | Overruns

definition and_then :: "'a outcome option \<Rightarrow> ('a \<Rightarrow> 'b outcome option) \<Rightarrow> 'b outcome option" where
  "and_then r f = (case r of None \<Rightarrow> None | Some (Returns x) \<Rightarrow> f x | Some Exits \<Rightarrow> Some Exits | Some Overruns \<Rightarrow> Some Overruns)"

lemma and_then_simps [simp]:
  "and_then (Some (Returns x)) f = f x" "and_then None f = None"
  "and_then (Some Exits) f = Some Exits" "and_then (Some Overruns) f = Some Overruns"
  by (simp_all add: and_then_def)

lemma and_then_mono [partial_function_mono]:
  assumes "mono_option r" and "\<And>x. mono_option (\<lambda>f. g f x)"
  shows "mono_option (\<lambda>f. and_then (r f) (g f))"
proof (rule monotoneI)
  fix f h :: "'a \<Rightarrow> 'b option" assume le: "fun_ord option_ord f h"
  from assms have "option_ord (r f) (r h)" "\<And>x. option_ord (g f x) (g h x)"
    using le by (auto simp: monotone_def)
  then have r: "r f = None \<or> r f = r h" and g: "g f x = None \<or> g f x = g h x" for x
    by (auto simp: flat_ord_def)
  show "option_ord (and_then (r f) (g f)) (and_then (r h) (g h))"
  proof (cases "r f")
    case None
    then show ?thesis by (simp add: flat_ord_def)
  next
    case (Some q)
    then have "r h = Some q" using r by simp
    then show ?thesis using Some g by (cases q) (simp_all add: flat_ord_def)
  qed
qed

section \<open>The cycle counter (clock.c)\<close>

text \<open>The time stamp counter (\<open>rdtsc\<close>), the user time of the process in clock ticks (\<open>times\<close>),
  \<open>gettimeofday\<close> and the value of the real interval timer; reading a clock takes time.\<close>

record 'w hardware =
  rdtsc :: "'w \<Rightarrow> 64 word \<times> 'w"
  tms_utime :: "'w \<Rightarrow> int \<times> 'w"
  gettimeofday :: "'w \<Rightarrow> (int \<times> int) \<times> 'w"
  setitimer_real :: "int \<times> int \<Rightarrow> 'w \<Rightarrow> 'w"
  getitimer_real :: "'w \<Rightarrow> (int \<times> int) \<times> 'w"

record clock =
  cyc_hi :: "32 word"
  cyc_lo :: "32 word"
  cyc_per_tick :: real
  start_tick :: int

definition access_counter :: "('w, 'z) hardware_scheme \<Rightarrow> 'w \<Rightarrow> (32 word \<times> 32 word) \<times> 'w" where
  "access_counter hw w = (let (t, w) = rdtsc hw w in ((ucast (drop_bit 32 t), ucast t), w))"

definition start_counter :: "('w, 'z) hardware_scheme \<Rightarrow> clock \<Rightarrow> 'w \<Rightarrow> clock \<times> 'w" where
  "start_counter hw c w =
     (let ((hi, lo), w) = access_counter hw w in (c\<lparr>cyc_hi := hi, cyc_lo := lo\<rparr>, w))"

text \<open>The message for a negative result is left out: \<open>get_counter_elapsed\<close> below shows that there is none.\<close>

definition get_counter :: "('w, 'z) hardware_scheme \<Rightarrow> clock \<Rightarrow> 'w \<Rightarrow> real \<times> 'w" where
  "get_counter hw c w =
     (let ((ncyc_hi, ncyc_lo), w) = access_counter hw w;
          lo = ncyc_lo - cyc_lo c;
          borrow = (if lo > ncyc_lo then 1 else 0);
          hi = ncyc_hi - cyc_hi c - borrow
      in (real_of_int (uint hi) * 2 ^ 30 * 4 + real_of_int (uint lo), w))"

fun ovhd_loop :: "nat \<Rightarrow> ('w, 'z) hardware_scheme \<Rightarrow> real \<Rightarrow> clock \<Rightarrow> 'w \<Rightarrow> real \<times> clock \<times> 'w" where
  "ovhd_loop 0 hw result c w = (result, c, w)"
| "ovhd_loop (Suc i) hw result c w =
     (let (c, w) = start_counter hw c w; (result, w) = get_counter hw c w in ovhd_loop i hw result c w)"

definition ovhd :: "('w, 'z) hardware_scheme \<Rightarrow> clock \<Rightarrow> 'w \<Rightarrow> real \<times> clock \<times> 'w" where
  "ovhd hw c w = ovhd_loop 2 hw 0 c w"

text \<open>\<open>sleep\<close> is a step of the world.\<close>

definition mhz_full :: "('w, 'z) hardware_scheme \<Rightarrow> (int \<Rightarrow> 'w \<Rightarrow> 'w) \<Rightarrow> int \<Rightarrow> clock \<Rightarrow> 'w \<Rightarrow> real \<times> clock \<times> 'w" where
  "mhz_full hw sleep sleeptime c w =
     (let (c, w) = start_counter hw c w; (cyc, w) = get_counter hw c (sleep sleeptime w)
      in (cyc / (1000000 * real_of_int sleeptime), c, w))"

definition mhz :: "('w, 'z) hardware_scheme \<Rightarrow> (int \<Rightarrow> 'w \<Rightarrow> 'w) \<Rightarrow> clock \<Rightarrow> 'w \<Rightarrow> real \<times> clock \<times> 'w" where
  "mhz hw sleep c w = mhz_full hw sleep 2 c w"

definition NEVENT :: nat where "NEVENT = 100"
definition THRESHOLD :: real where "THRESHOLD = 1000"
definition RECORDTHRESH :: real where "RECORDTHRESH = 3000"

text \<open>The user time went from \<open>oldc\<close> to \<open>newc\<close> within \<open>d\<close> cycles.\<close>

definition record_event :: "real \<Rightarrow> int \<Rightarrow> clock \<Rightarrow> clock" where
  "record_event d ticks c =
     (let cpt = d / real_of_int ticks in
      if (cyc_per_tick c = 0 \<or> cyc_per_tick c > cpt) \<and> cpt > RECORDTHRESH then c\<lparr>cyc_per_tick := cpt\<rparr> else c)"

partial_function (option) callibrate_loop ::
  "('w, 'z) hardware_scheme \<Rightarrow> nat \<Rightarrow> real \<Rightarrow> int \<Rightarrow> clock \<Rightarrow> 'w \<Rightarrow> (clock \<times> 'w) option" where
  "callibrate_loop hw e oldt oldc c w =
     (if e < NEVENT
      then case get_counter hw c w of (newt, w) \<Rightarrow>
        if newt - oldt \<ge> THRESHOLD
        then case tms_utime hw w of (newc, w) \<Rightarrow>
          if newc > oldc then callibrate_loop hw (Suc e) newt newc (record_event (newt - oldt) (newc - oldc) c) w
          else callibrate_loop hw e newt oldc c w
        else callibrate_loop hw e oldt oldc c w
      else Some (c, w))"

definition callibrate :: "('w, 'z) hardware_scheme \<Rightarrow> clock \<Rightarrow> 'w \<Rightarrow> (clock \<times> 'w) option" where
  "callibrate hw c w =
     (let (oldc, w) = tms_utime hw w; (c, w) = start_counter hw c w; (oldt, w) = get_counter hw c w
      in callibrate_loop hw 0 oldt oldc c w)"

definition start_comp_counter :: "('w, 'z) hardware_scheme \<Rightarrow> clock \<Rightarrow> 'w \<Rightarrow> (clock \<times> 'w) option" where
  "start_comp_counter hw c w =
     (case (if cyc_per_tick c = 0 then callibrate hw c w else Some (c, w)) of
        None \<Rightarrow> None
      | Some (c, w) \<Rightarrow>
          let (t, w) = tms_utime hw w in Some (start_counter hw (c\<lparr>start_tick := t\<rparr>) w))"

definition get_comp_counter :: "('w, 'z) hardware_scheme \<Rightarrow> clock \<Rightarrow> 'w \<Rightarrow> real \<times> 'w" where
  "get_comp_counter hw c w =
     (let (time, w) = get_counter hw c w; (t, w) = tms_utime hw w; ticks = t - start_tick c
      in (time - real_of_int ticks * cyc_per_tick c, w))"

section \<open>The K-best sampler (fcyc.c)\<close>

text \<open>The parameters, with the defaults of the file.\<close>

record params =
  kbest :: int
  maxsamples :: int
  epsilon :: real
  compensate :: bool
  clear_cache :: bool
  cache_bytes :: int
  cache_block :: int

definition default_params :: params where
  "default_params = \<lparr>kbest = 3, maxsamples = 20, epsilon = 1 / 100, compensate = False, clear_cache = False,
     cache_bytes = 2 ^ 19, cache_block = 32\<rparr>"

text \<open>What a measurement works on: the clock, the buffer of \<open>clear\<close> (none, or its ints), \<open>sink\<close>, the world.\<close>

record 'w bench =
  the_clock :: clock
  cache_buf :: "(32 word) list option"
  sink :: "32 word"
  world :: 'w

record sampler =
  sample_values :: "real list"
  samplecount :: int

definition init_sampler :: "params \<Rightarrow> sampler" where
  "init_sampler p = \<lparr>sample_values = replicate (nat (kbest p)) 0, samplecount = 0\<rparr>"

fun sift :: "nat \<Rightarrow> real list \<Rightarrow> real list" where
  "sift 0 vs = vs"
| "sift (Suc pos) vs =
     (if vs ! pos > vs ! Suc pos then sift pos (vs[pos := vs ! Suc pos, Suc pos := vs ! pos]) else vs)"

definition add_sample :: "params \<Rightarrow> real \<Rightarrow> sampler \<Rightarrow> sampler outcome" where
  "add_sample p val s =
     (let vs = sample_values s; n = samplecount s; k = kbest p in
      if n < k then
        (if nat n < length vs then Returns (s\<lparr>sample_values := sift (nat n) (vs[nat n := val]), samplecount := n + 1\<rparr>)
         else Overruns)
      else if k \<le> 0 \<or> int (length vs) < k then Overruns
      else if val < vs ! nat (k - 1) then
        Returns (s\<lparr>sample_values := sift (nat (k - 1)) (vs[nat (k - 1) := val]), samplecount := n + 1\<rparr>)
      else Returns (s\<lparr>samplecount := n + 1\<rparr>))"

definition has_converged :: "params \<Rightarrow> sampler \<Rightarrow> bool" where
  "has_converged p s \<longleftrightarrow>
     samplecount s \<ge> kbest p \<and> (1 + epsilon p) * sample_values s ! 0 \<ge> sample_values s ! nat (kbest p - 1)"

text \<open>
  \<open>clear\<close>: the loop visits every \<open>incr\<close>-th int of the buffer; \<open>cache_block / sizeof (int)\<close> and \<open>cache_bytes / sizeof (int)\<close>
  are unsigned divisions. \<open>malloc\<close> is an argument: the contents of a new buffer of that many bytes, or none.
\<close>

partial_function (option) clear_loop :: "(32 word) list \<Rightarrow> nat \<Rightarrow> nat \<Rightarrow> nat \<Rightarrow> 32 word \<Rightarrow> (32 word) outcome option" where
  "clear_loop buf incr cend cptr acc =
     (if cptr < cend
      then if cptr < length buf then clear_loop buf incr cend (cptr + incr) (acc + buf ! cptr) else Some Overruns
      else Some (Returns acc))"

definition int_size :: "int \<Rightarrow> nat" where
  "int_size bytes = nat (bytes mod 2 ^ 32 div 4)"

definition clear :: "params \<Rightarrow> (int \<Rightarrow> (32 word) list option) \<Rightarrow> 'w bench \<Rightarrow> ('w bench) outcome option" where
  "clear p malloc b =
     (case (case cache_buf b of Some buf \<Rightarrow> Some buf | None \<Rightarrow> malloc (cache_bytes p)) of
        None \<Rightarrow> Some Exits
      | Some buf \<Rightarrow>
          and_then (clear_loop buf (int_size (cache_block p)) (int_size (cache_bytes p)) 0 (sink b))
            (\<lambda>x. Some (Returns (b\<lparr>cache_buf := Some buf, sink := x\<rparr>))))"

text \<open>One round of the sampling loop up to \<open>add_sample\<close>, in its two forms.\<close>

definition measured :: "params \<Rightarrow> (int \<Rightarrow> (32 word) list option) \<Rightarrow> ('w, 'z) hardware_scheme \<Rightarrow> ('w \<Rightarrow> 'w) \<Rightarrow>
    'w bench \<Rightarrow> (real \<times> 'w bench) outcome option" where
  "measured p malloc hw f b =
     and_then (if clear_cache p then clear p malloc b else Some (Returns b)) (\<lambda>b.
       if compensate p then
         (case start_comp_counter hw (the_clock b) (world b) of
            None \<Rightarrow> None
          | Some (c, w) \<Rightarrow>
              let (cyc, w) = get_comp_counter hw c (f w) in Some (Returns (cyc, b\<lparr>the_clock := c, world := w\<rparr>)))
       else
         (let (c, w) = start_counter hw (the_clock b) (world b); (cyc, w) = get_counter hw c (f w)
          in Some (Returns (cyc, b\<lparr>the_clock := c, world := w\<rparr>))))"

text \<open>The loop, over the measurement \<open>m\<close>.\<close>

partial_function (option) sampling ::
  "params \<Rightarrow> ('b \<Rightarrow> (real \<times> 'b) outcome option) \<Rightarrow> sampler \<Rightarrow> 'b \<Rightarrow> (sampler \<times> 'b) outcome option" where
  "sampling p m s b =
     and_then (m b) (\<lambda>(cyc, b).
       case add_sample p cyc s of
         Exits \<Rightarrow> Some Exits | Overruns \<Rightarrow> Some Overruns
       | Returns s \<Rightarrow>
           if \<not> has_converged p s \<and> samplecount s < maxsamples p then sampling p m s b else Some (Returns (s, b)))"

definition fcyc :: "params \<Rightarrow> (int \<Rightarrow> (32 word) list option) \<Rightarrow> ('w, 'z) hardware_scheme \<Rightarrow> ('w \<Rightarrow> 'w) \<Rightarrow>
    'w bench \<Rightarrow> (real \<times> 'w bench) outcome option" where
  "fcyc p malloc hw f b =
     and_then (sampling p (measured p malloc hw f) (init_sampler p) b) (\<lambda>(s, b).
       Some (Returns (sample_values s ! 0, b)))"

definition set_fcyc_cache_size :: "int \<Rightarrow> params \<Rightarrow> 'w bench \<Rightarrow> params \<times> 'w bench" where
  "set_fcyc_cache_size bytes p b =
     (if bytes \<noteq> cache_bytes p then (p\<lparr>cache_bytes := bytes\<rparr>, b\<lparr>cache_buf := None\<rparr>) else (p, b))"

text \<open>The other setters, and the timers of \<open>ftimer.c\<close>.\<close>

definition set_fcyc_clear_cache :: "bool \<Rightarrow> params \<Rightarrow> params" where
  "set_fcyc_clear_cache arg p = p\<lparr>clear_cache := arg\<rparr>"

definition set_fcyc_cache_block :: "int \<Rightarrow> params \<Rightarrow> params" where
  "set_fcyc_cache_block bytes p = p\<lparr>cache_block := bytes\<rparr>"

definition set_fcyc_compensate :: "bool \<Rightarrow> params \<Rightarrow> params" where
  "set_fcyc_compensate arg p = p\<lparr>compensate := arg\<rparr>"

definition set_fcyc_k :: "int \<Rightarrow> params \<Rightarrow> params" where
  "set_fcyc_k k p = p\<lparr>kbest := k\<rparr>"

definition set_fcyc_maxsamples :: "int \<Rightarrow> params \<Rightarrow> params" where
  "set_fcyc_maxsamples arg p = p\<lparr>maxsamples := arg\<rparr>"

definition set_fcyc_epsilon :: "real \<Rightarrow> params \<Rightarrow> params" where
  "set_fcyc_epsilon arg p = p\<lparr>epsilon := arg\<rparr>"

section \<open>Function timers (ftimer.c) and the choice of one (fsecs.c)\<close>

definition MAX_ETIME :: int where "MAX_ETIME = 86400"

text \<open>Only the real timer is ever read for the result; the virtual and the profiling timer are started and read beside it.\<close>

definition init_etime :: "('w, 'z) hardware_scheme \<Rightarrow> 'w \<Rightarrow> (int \<times> int) \<times> 'w" where
  "init_etime hw w = (let first_r = (MAX_ETIME, 0) in (first_r, setitimer_real hw first_r w))"

definition get_etime :: "('w, 'z) hardware_scheme \<Rightarrow> int \<times> int \<Rightarrow> 'w \<Rightarrow> real \<times> 'w" where
  "get_etime hw first_p w =
     (let ((sec, usec), w) = getitimer_real hw w
      in (real_of_int (fst first_p - sec) + real_of_int (snd first_p - usec) / 1000000, w))"

definition ftimer_itimer :: "('w, 'z) hardware_scheme \<Rightarrow> ('w \<Rightarrow> 'w) \<Rightarrow> nat \<Rightarrow> 'w \<Rightarrow> real \<times> 'w" where
  "ftimer_itimer hw f n w =
     (let (first, w) = init_etime hw w; (start, w) = get_etime hw first w;
          (stop, w) = get_etime hw first ((f ^^ n) w); tmeas = stop - start
      in (tmeas / real n, w))"

definition ftimer_gettod :: "('w, 'z) hardware_scheme \<Rightarrow> ('w \<Rightarrow> 'w) \<Rightarrow> nat \<Rightarrow> 'w \<Rightarrow> real \<times> 'w" where
  "ftimer_gettod hw f n w =
     (let ((ssec, susec), w) = gettimeofday hw w; ((esec, eusec), w) = gettimeofday hw ((f ^^ n) w);
          diff = 1000 * real_of_int (esec - ssec) + real_of_int (eusec - susec) / 1000;
          diff = diff / real n
      in (diff / 1000, w))"

text \<open>The three settings of \<open>config.h\<close>, one of which is chosen when the driver is compiled.\<close>

datatype timer = USE_FCYC | USE_ITIMER | USE_GETTOD

definition configured :: timer where "configured = USE_GETTOD"

definition init_fsecs :: "timer \<Rightarrow> ('w, 'z) hardware_scheme \<Rightarrow> (int \<Rightarrow> 'w \<Rightarrow> 'w) \<Rightarrow> params \<Rightarrow> 'w bench \<Rightarrow> real \<times> params \<times> 'w bench" where
  "init_fsecs tm hw sleep p b =
     (case tm of
        USE_FCYC \<Rightarrow>
          let p = set_fcyc_k 3 (set_fcyc_epsilon (1 / 100) (set_fcyc_compensate True (set_fcyc_clear_cache True (set_fcyc_maxsamples 20 p))));
              (rate, c, w) = mhz hw sleep (the_clock b) (world b)
          in (rate, p, b\<lparr>the_clock := c, world := w\<rparr>)
      | _ \<Rightarrow> (0, p, b))"

definition fsecs :: "timer \<Rightarrow> real \<Rightarrow> params \<Rightarrow> (int \<Rightarrow> (32 word) list option) \<Rightarrow> ('w, 'z) hardware_scheme \<Rightarrow> ('w \<Rightarrow> 'w) \<Rightarrow>
    'w bench \<Rightarrow> (real \<times> 'w bench) outcome option" where
  "fsecs tm Mhz p malloc hw f b =
     (case tm of
        USE_FCYC \<Rightarrow> and_then (fcyc p malloc hw f b) (\<lambda>(cycles, b). Some (Returns (cycles / (Mhz * 1000000), b)))
      | USE_ITIMER \<Rightarrow> let (t, w) = ftimer_itimer hw f 10 (world b) in Some (Returns (t, b\<lparr>world := w\<rparr>))
      | USE_GETTOD \<Rightarrow> let (t, w) = ftimer_gettod hw f 10 (world b) in Some (Returns (t, b\<lparr>world := w\<rparr>)))"

section \<open>The sampler keeps the k smallest samples\<close>

definition sampled :: "params \<Rightarrow> real list \<Rightarrow> sampler \<Rightarrow> bool" where
  "sampled p xs s \<longleftrightarrow> samplecount s = int (length xs)
     \<and> sample_values s = take (nat (kbest p)) (sort xs) @ replicate (nat (kbest p) - length xs) 0"

definition k_converged :: "params \<Rightarrow> real list \<Rightarrow> bool" where
  "k_converged p xs \<longleftrightarrow> kbest p \<le> int (length xs) \<and> sort xs ! nat (kbest p - 1) \<le> (1 + epsilon p) * sort xs ! 0"

lemma insort_last:
  fixes x :: real
  assumes "sorted l" and "\<forall>y \<in> set l. y \<le> x"
  shows "insort x l = l @ [x]"
  using assms
proof (induction l)
  case (Cons y l)
  have "insort x l = l @ [x]" using Cons by simp
  moreover have "insort x l = x # l" if "x \<le> y"
    using that Cons.prems by (intro insort_is_Cons) auto
  ultimately show ?case using Cons.prems by auto
qed simp

lemma insort_snoc: "(x::real) < y \<Longrightarrow> sorted (l @ [y]) \<Longrightarrow> insort x (l @ [y]) = insort x l @ [y]"
  by (induction l) auto

lemma take_insort: "take k (insort x l) = take k (insort (x::real) (take k l))"
proof (induction l arbitrary: k)
  case (Cons y l)
  show ?case using Cons [of "k - 1"] by (cases k) (auto simp: take_Cons')
qed simp

lemma sort_snoc: "sort (xs @ [x::real]) = insort x (sort xs)"
proof -
  have "sort (xs @ [x]) = sort (x # xs)" by (rule properties_for_sort) (simp_all add: sorted_insort)
  then show ?thesis by simp
qed

lemma sift_insort:
  "pos < length vs \<Longrightarrow> sorted (take pos vs) \<Longrightarrow> sift pos vs = insort (vs ! pos) (take pos vs) @ drop (Suc pos) vs"
proof (induction pos arbitrary: vs)
  case 0
  then show ?case by (cases vs) simp_all
next
  case (Suc pos)
  have t: "take (Suc pos) vs = take pos vs @ [vs ! pos]" using Suc.prems by (simp add: take_Suc_conv_app_nth)
  have s: "sorted (take pos vs @ [vs ! pos])" using Suc.prems t by simp
  show ?case
  proof (cases "vs ! pos > vs ! Suc pos")
    case True
    let ?v = "vs[pos := vs ! Suc pos, Suc pos := vs ! pos]"
    have "sift pos ?v = insort (vs ! Suc pos) (take pos vs) @ drop (Suc pos) ?v"
      using Suc.IH [of ?v] Suc.prems s by (simp add: sorted_append)
    also have "drop (Suc pos) ?v = vs ! pos # drop (Suc (Suc pos)) vs"
      using Suc.prems by (subst Cons_nth_drop_Suc [symmetric]) simp_all
    finally show ?thesis using True insort_snoc [OF True s] by (simp add: t)
  next
    case False
    have "insort (vs ! Suc pos) (take (Suc pos) vs) = take (Suc pos) vs @ [vs ! Suc pos]"
      using s False t by (intro insort_last) (auto simp: sorted_append)
    then show ?thesis using False Suc.prems by (simp add: Cons_nth_drop_Suc)
  qed
qed

lemma sampled_init: "sampled p [] (init_sampler p)"
  by (simp add: sampled_def init_sampler_def)

lemma sampled_add:
  assumes "sampled p xs s" and "0 < kbest p"
  shows "\<exists>s'. add_sample p x s = Returns s' \<and> sampled p (xs @ [x]) s'"
proof -
  define k where "k = nat (kbest p)"
  have k: "kbest p = int k" "0 < k" using assms(2) by (simp_all add: k_def)
  have s: "samplecount s = int (length xs)" "sample_values s = take k (sort xs) @ replicate (k - length xs) 0"
    using assms(1) by (simp_all add: sampled_def k_def)
  show ?thesis
  proof (cases "length xs < k")
    case True
    obtain j where j: "k - length xs = Suc j" using True by (cases "k - length xs") auto
    have "sift (length xs) ((sort xs @ replicate (Suc j) 0)[length xs := x]) = insort x (sort xs) @ replicate j 0"
      by (subst sift_insort) (simp_all add: nth_append)
    moreover have "k - Suc (length xs) = j" using j by simp
    ultimately show ?thesis using True j
      by (simp add: add_sample_def k s sampled_def sort_snoc Let_def)
  next
    case False
    define l where "l = take (k - 1) (sort xs)"
    define z where "z = sort xs ! (k - 1)"
    have v: "take k (sort xs) = l @ [z]" and len: "length l = k - 1"
      using False k(2) take_Suc_conv_app_nth [of "k - 1" "sort xs"] by (simp_all add: l_def z_def)
    have srt: "sorted (l @ [z])" using sorted_wrt_take [of "(\<le>)" "sort xs" k] by (simp flip: v)
    have t: "take k (sort (xs @ [x])) = take k (insort x (l @ [z]))"
      by (simp add: sort_snoc take_insort [of k x "sort xs"] v)
    show ?thesis
    proof (cases "x < z")
      case True
      have "sift (k - 1) ((l @ [z])[k - 1 := x]) = insort x l"
        using srt len by (subst sift_insort) (simp_all add: nth_append sorted_append)
      then show ?thesis using True False k t len insort_snoc [OF True srt]
        by (simp add: add_sample_def s v sampled_def Let_def nth_append nat_diff_distrib')
    next
      case nl: False
      have "insort x (l @ [z]) = (l @ [z]) @ [x]" using nl srt by (intro insort_last) (auto simp: sorted_append)
      then have "take k (sort (xs @ [x])) = l @ [z]" using t len k(2) by simp
      then show ?thesis using nl False k len
        by (simp add: add_sample_def s v sampled_def Let_def nth_append nat_diff_distrib')
    qed
  qed
qed

lemma has_converged_sampled:
  assumes "sampled p xs s" and "0 < kbest p"
  shows "has_converged p s \<longleftrightarrow> k_converged p xs"
proof (cases "kbest p \<le> int (length xs)")
  case True
  moreover have "nat (kbest p - 1) < nat (kbest p)" using assms(2) by simp
  ultimately show ?thesis using assms
    by (auto simp: has_converged_def k_converged_def sampled_def nth_append)
qed (use assms in \<open>simp add: has_converged_def k_converged_def sampled_def\<close>)

section \<open>When sampling stops\<close>

lemma sampling_step:
  assumes "m b = Some (Returns (x, b'))" and "sampled p xs s" and "0 < kbest p"
  shows "\<exists>s'. sampled p (xs @ [x]) s' \<and> sampling p m s b =
    (if k_converged p (xs @ [x]) \<or> maxsamples p \<le> int (length xs) + 1 then Some (Returns (s', b')) else sampling p m s' b')"
proof -
  obtain s' where s': "add_sample p x s = Returns s'" "sampled p (xs @ [x]) s'"
    using sampled_add [OF assms(2,3)] by blast
  moreover have "samplecount s' = int (length xs) + 1" using s'(2) by (simp add: sampled_def)
  ultimately show ?thesis using assms(1) has_converged_sampled [OF s'(2) assms(3)]
    by (intro exI [of _ s']) (simp add: sampling.simps [of p m s b] not_less)
qed

lemma sampling_stops:
  assumes "0 < kbest p" and "\<forall>j. m (b j) = Some (Returns (c j, b (Suc j)))"
  shows "sampled p (map c [0..<i]) s \<Longrightarrow>
    \<exists>n s'. i < n \<and> int n \<le> max (int i + 1) (maxsamples p) \<and> sampled p (map c [0..<n]) s'
      \<and> (k_converged p (map c [0..<n]) \<or> maxsamples p \<le> int n)
      \<and> (\<forall>j. i < j \<and> j < n \<longrightarrow> \<not> k_converged p (map c [0..<j]))
      \<and> sampling p m s (b i) = Some (Returns (s', b n))"
proof (induction "nat (maxsamples p - int i)" arbitrary: i s rule: less_induct)
  case less
  let ?stop = "k_converged p (map c [0..<Suc i]) \<or> maxsamples p \<le> int i + 1"
  obtain s' where s': "sampled p (map c [0..<Suc i]) s'"
    and eq: "sampling p m s (b i) = (if ?stop then Some (Returns (s', b (Suc i))) else sampling p m s' (b (Suc i)))"
    using sampling_step [of m "b i" "c i" "b (Suc i)" p "map c [0..<i]" s] assms less.prems by auto
  show ?case
  proof (cases ?stop)
    case True
    then show ?thesis using eq s' by (intro exI [of _ "Suc i"] exI [of _ s']) auto
  next
    case False
    then have "nat (maxsamples p - int (Suc i)) < nat (maxsamples p - int i)" by simp
    from less.hyps [OF this s'] obtain n s'' where n: "Suc i < n" "int n \<le> max (int (Suc i) + 1) (maxsamples p)"
      "sampled p (map c [0..<n]) s''" "k_converged p (map c [0..<n]) \<or> maxsamples p \<le> int n"
      "\<forall>j. Suc i < j \<and> j < n \<longrightarrow> \<not> k_converged p (map c [0..<j])"
      "sampling p m s' (b (Suc i)) = Some (Returns (s'', b n))" by blast
    have "\<not> k_converged p (map c [0..<j])" if "i < j" "j < n" for j
      using that n(5) False by (cases "j = Suc i") auto
    then show ?thesis using n False eq
      by (intro exI [of _ n] exI [of _ s'']) auto
  qed
qed

lemma sampled_least:
  assumes "sampled p xs s" and "0 < kbest p" and "xs \<noteq> []"
  shows "sample_values s ! 0 = Min (set xs)"
proof -
  have "sort xs \<noteq> []" using assms(3) by (metis set_empty set_sort)
  then have "sort xs ! 0 = Min (set (sort xs))"
    using assms(3)
    by (intro Min_eqI [symmetric]) (auto simp: in_set_conv_nth [of _ "sort xs"] sorted_nth_mono simp del: set_sort intro!: exI [of _ 0])
  then show ?thesis using assms by (simp add: sampled_def nth_append)
qed

text \<open>C14. The K-best scheme. Whatever the measurements \<open>c\<close> are, \<open>fcyc\<close> ends after at most \<open>maxsamples\<close> of
  them (at least one), returns the least sample it took, and stops before \<open>maxsamples\<close> exactly at the first
  point where the k smallest samples lie within \<open>epsilon\<close> of the least.\<close>

theorem fcyc_k_best:
  assumes "0 < kbest p" and "\<forall>j. measured p malloc hw f (b j) = Some (Returns (c j, b (Suc j)))"
  shows "\<exists>n. 0 < n \<and> int n \<le> max 1 (maxsamples p)
    \<and> fcyc p malloc hw f (b 0) = Some (Returns (Min (c ` {..<n}), b n))
    \<and> (int n < maxsamples p \<longrightarrow> k_converged p (map c [0..<n]))
    \<and> (\<forall>j. 0 < j \<and> j < n \<longrightarrow> \<not> k_converged p (map c [0..<j]))"
proof -
  obtain n s where n: "0 < n" "int n \<le> max 1 (maxsamples p)" "sampled p (map c [0..<n]) s"
    "k_converged p (map c [0..<n]) \<or> maxsamples p \<le> int n" "\<forall>j. 0 < j \<and> j < n \<longrightarrow> \<not> k_converged p (map c [0..<j])"
    "sampling p (measured p malloc hw f) (init_sampler p) (b 0) = Some (Returns (s, b n))"
    using sampling_stops [OF assms(1), of "measured p malloc hw f" b c 0 "init_sampler p"] sampled_init assms(2) by auto
  have "sample_values s ! 0 = Min (c ` {..<n})"
    using sampled_least [OF n(3) assms(1)] n(1) by (simp add: lessThan_atLeast0)
  then show ?thesis using n by (intro exI [of _ n]) (auto simp: fcyc_def)
qed

section \<open>Elapsed cycles\<close>

lemma uint_halves: "uint (t :: 64 word) = uint (ucast (drop_bit 32 t) :: 32 word) * 2 ^ 32 + uint (ucast t :: 32 word)"
proof -
  have "0 \<le> uint t div 2 ^ 32" by (intro div_int_pos_iff [THEN iffD2]) simp
  have "uint (drop_bit 32 t) = uint t div 2 ^ 32" by (simp add: drop_bit_eq_div uint_div)
  moreover have "uint t div 2 ^ 32 mod 2 ^ 32 = uint t div 2 ^ 32"
    using uint_lt2p [of t] \<open>0 \<le> uint t div 2 ^ 32\<close> by (intro mod_pos_pos_trivial) simp_all
  ultimately have "uint (ucast (drop_bit 32 t) :: 32 word) = uint t div 2 ^ 32"
    by (simp add: unsigned_ucast_eq take_bit_eq_mod)
  moreover have "uint (ucast t :: 32 word) = uint t mod 2 ^ 32" by (simp add: unsigned_ucast_eq take_bit_eq_mod)
  ultimately show ?thesis by simp
qed

lemma halves_range:
  fixes h l :: "32 word"
  shows "0 \<le> uint h * 2 ^ 32 + uint l \<and> uint h * 2 ^ 32 + uint l < 2 ^ 64"
  using uint_lt2p [of h] uint_lt2p [of l] by simp

text \<open>The 64-bit subtraction in two halves.\<close>

lemma halves_minus:
  fixes h h' l l' :: "32 word" and t t' :: "64 word"
  assumes "uint t = uint h * 2 ^ 32 + uint l" and "uint t' = uint h' * 2 ^ 32 + uint l'"
  shows "uint (h' - h - (if l' - l > l' then 1 else 0)) * 2 ^ 32 + uint (l' - l) = uint (t' - t)"
proof -
  let ?B = "(if l' - l > l' then 1 else 0) :: 32 word"
  let ?hi = "h' - h - ?B" and ?lo = "l' - l"
  have lo: "uint ?lo = uint l' - uint l + uint ?B * 2 ^ 32"
    using uint_lt2p [of l] uint_lt2p [of l'] by (simp add: uint_sub_if' word_less_def)
  have "uint ?hi = (uint h' - uint h - uint ?B) mod 2 ^ 32"
    by (simp add: uint_word_ariths(2) mod_simps)
  then obtain q where hi: "uint ?hi = uint h' - uint h - uint ?B + q * 2 ^ 32"
    using minus_div_mult_eq_mod [of "uint h' - uint h - uint ?B" "2 ^ 32"]
    by (metis (no_types) diff_conv_add_uminus mult_minus_left)
  have "a * 2 ^ 32 + d = (uint t' - uint t) + q * 2 ^ 64"
    if "a = uint h' - uint h - u + q * 2 ^ 32" "d = uint l' - uint l + u * 2 ^ 32" for a d u
    using that assms by (simp add: algebra_simps)
  from this [OF hi lo] have "(uint ?hi * 2 ^ 32 + uint ?lo) mod 2 ^ 64 = (uint t' - uint t) mod 2 ^ 64"
    by (rule ssubst) (rule mod_mult_self1)
  moreover have "(uint ?hi * 2 ^ 32 + uint ?lo) mod 2 ^ 64 = uint ?hi * 2 ^ 32 + uint ?lo"
    by (rule mod_pos_pos_trivial) (use halves_range [of ?hi ?lo] in blast)+
  moreover have "uint (t' - t) = (uint t' - uint t) mod 2 ^ 64" by (simp add: uint_word_ariths(2))
  ultimately show ?thesis by (simp only:)
qed

lemma get_counter_elapsed:
  assumes "rdtsc hw w = (t, w')" and "cyc_hi c = ucast (drop_bit 32 t0)" and "cyc_lo c = ucast t0"
  shows "get_counter hw c w = (real_of_int (uint (t - t0)), w')"
proof -
  note e = halves_minus [OF uint_halves uint_halves, of t t0]
  have "real_of_int a * 2 ^ 30 * 4 + real_of_int d = real_of_int z" if "a * 2 ^ 32 + d = z" for a d z
    using that by (auto simp: algebra_simps)
  from this [OF e] show ?thesis
    by (simp only: get_counter_def access_counter_def Let_def assms prod.case)
qed

lemma start_counter_at:
  "rdtsc hw w = (t, w') \<Longrightarrow> start_counter hw c w = (c\<lparr>cyc_hi := ucast (drop_bit 32 t), cyc_lo := ucast t\<rparr>, w')"
  by (simp add: start_counter_def access_counter_def)

lemma measured_plain:
  assumes "\<not> clear_cache p" and "\<not> compensate p" and "rdtsc hw (world b) = (t0, w)" and "rdtsc hw (f w) = (t1, w')"
  shows "measured p malloc hw f b = Some (Returns (real_of_int (uint (t1 - t0)),
    b\<lparr>the_clock := (the_clock b)\<lparr>cyc_hi := ucast (drop_bit 32 t0), cyc_lo := ucast t0\<rparr>, world := w'\<rparr>))"
  using assms get_counter_elapsed [OF assms(4)] by (simp add: measured_def start_counter_at [OF assms(3)])

text \<open>C26. A compensated measurement: the difference of the two readings of the 64-bit counter, which the
  code computes in two halves with a borrow, less the ticks of user time at the calibrated cost.\<close>

theorem compensated_cycles:
  assumes "\<not> clear_cache p" and "compensate p" and "cyc_per_tick (the_clock b) \<noteq> 0"
    and "tms_utime hw (world b) = (u0, wa)" and "rdtsc hw wa = (t0, wb)"
    and "rdtsc hw (f wb) = (t1, wc)" and "tms_utime hw wc = (u1, wd)"
  shows "\<exists>b'. measured p malloc hw f b =
      Some (Returns (real_of_int (uint (t1 - t0)) - real_of_int (u1 - u0) * cyc_per_tick (the_clock b), b'))
    \<and> world b' = wd"
proof -
  define c where "c = (the_clock b)\<lparr>start_tick := u0, cyc_hi := ucast (drop_bit 32 t0), cyc_lo := ucast t0\<rparr>"
  have "start_comp_counter hw (the_clock b) (world b) = Some (c, wb)"
    using assms(3,4) by (simp add: start_comp_counter_def start_counter_at [OF assms(5)] c_def)
  moreover have "get_counter hw c (f wb) = (real_of_int (uint (t1 - t0)), wc)"
    by (rule get_counter_elapsed [OF assms(6)]) (simp_all add: c_def)
  then have "get_comp_counter hw c (f wb) =
    (real_of_int (uint (t1 - t0)) - real_of_int (u1 - u0) * cyc_per_tick (the_clock b), wd)"
    using assms(7) by (simp add: get_comp_counter_def c_def)
  ultimately show ?thesis using assms(1,2) by (simp add: measured_def)
qed

text \<open>With the configured timer \<open>fsecs\<close> is a tenth of the seconds that ten runs take.\<close>

theorem fsecs_gettod:
  assumes "gettimeofday hw (world b) = ((s0, u0), w)" and "gettimeofday hw ((f ^^ 10) w) = ((s1, u1), w')"
  shows "fsecs configured Mhz p malloc hw f b =
    Some (Returns (real_of_int ((s1 * 1000000 + u1) - (s0 * 1000000 + u0)) / 1000000 / 10, b\<lparr>world := w'\<rparr>))"
  using assms by (simp add: fsecs_def configured_def ftimer_gettod_def field_simps)

section \<open>Calibration\<close>

definition per_tick_ok :: "clock \<Rightarrow> bool" where
  "per_tick_ok c \<longleftrightarrow> cyc_per_tick c = 0 \<or> RECORDTHRESH < cyc_per_tick c"

lemma record_event_per_tick: "per_tick_ok c \<Longrightarrow> per_tick_ok (record_event d n c)"
  by (auto simp: per_tick_ok_def record_event_def Let_def)

lemma callibrate_loop_per_tick:
  assumes "callibrate_loop hw e oldt oldc c w = Some cw"
  shows "per_tick_ok c \<longrightarrow> per_tick_ok (fst cw)"
proof (rule callibrate_loop.raw_induct [where P = "\<lambda>hw e oldt oldc c w cw. per_tick_ok c \<longrightarrow> per_tick_ok (fst cw)",
    OF _ assms], goal_cases)
  case (1 loop hw e oldt oldc c w cw)
  from 1(2) show ?case
    by (auto split: if_splits prod.splits dest!: 1(1) dest: record_event_per_tick)
qed

lemma callibrate_loop_no_tick:
  assumes "callibrate_loop hw e oldt oldc c w = Some cw"
  shows "\<not> ((\<forall>w. fst (tms_utime hw w) = oldc) \<and> e < NEVENT)"
proof (rule callibrate_loop.raw_induct [where P = "\<lambda>hw e oldt oldc c w cw.
    \<not> ((\<forall>w. fst (tms_utime hw w) = oldc) \<and> e < NEVENT)", OF _ assms], goal_cases)
  case (1 loop hw e oldt oldc c w cw)
  have t: "oldc' = oldc" if "\<forall>w. fst (tms_utime hw w) = oldc" "tms_utime hw v = (oldc', v')" for v oldc' v'
    using that by (metis fst_conv)
  from 1(2) show ?case
    by (auto split: if_splits prod.splits dest!: 1(1) dest: t)
qed

text \<open>Calibration never records less than 3000 cycles for a tick, and never ends in a process whose user time stands still.\<close>

theorem calibration:
  assumes "cyc_per_tick c = 0"
  shows "(callibrate hw c w = Some (c', w') \<longrightarrow> per_tick_ok c')
    \<and> ((\<forall>w. fst (tms_utime hw w) = u) \<longrightarrow> callibrate hw c w = None)"
proof -
  obtain u0 w0 t0 w1 d w2 where r: "tms_utime hw w = (u0, w0)" "rdtsc hw w0 = (t0, w1)"
    "get_counter hw (c\<lparr>cyc_hi := ucast (drop_bit 32 t0), cyc_lo := ucast t0\<rparr>) w1 = (d, w2)"
    by (metis surj_pair)
  let ?c = "c\<lparr>cyc_hi := ucast (drop_bit 32 t0), cyc_lo := ucast t0\<rparr>"
  have eq: "callibrate hw c w = callibrate_loop hw 0 d u0 ?c w2"
    using r by (simp add: callibrate_def start_counter_at [OF r(2)])
  have "u0 = u" if "\<forall>w. fst (tms_utime hw w) = u" using that r(1) by (metis fst_conv)
  then show ?thesis
    using callibrate_loop_per_tick [of hw 0 d u0 ?c w2 "(c', w')"] callibrate_loop_no_tick [of hw 0 d u0 ?c w2] assms
    by (cases "callibrate hw c w") (auto simp: eq NEVENT_def per_tick_ok_def)
qed

section \<open>Clearing the cache\<close>

definition buf_ok :: "params \<Rightarrow> 'w bench \<Rightarrow> bool" where
  "buf_ok p b \<longleftrightarrow> (\<forall>buf. cache_buf b = Some buf \<longrightarrow> length buf = int_size (cache_bytes p))"

lemma clear_loop_returns:
  assumes "0 < incr"
  shows "\<exists>x'. clear_loop buf incr (length buf) cptr x = Some (Returns x')"
proof (induction "length buf - cptr" arbitrary: cptr x rule: less_induct)
  case less
  show ?case
  proof (cases "cptr < length buf")
    case True
    then have "length buf - (cptr + incr) < length buf - cptr" using assms by simp
    from less.hyps [OF this] show ?thesis using True by (simp add: clear_loop.simps [of _ _ _ cptr])
  qed (simp add: clear_loop.simps [of _ _ _ cptr])
qed

lemma clear_loop_stuck:
  assumes "clear_loop buf incr cend cptr x = Some r"
  shows "\<not> (incr = 0 \<and> cend = length buf \<and> cptr < cend)"
proof (rule clear_loop.raw_induct [where P = "\<lambda>buf incr cend cptr x r. \<not> (incr = 0 \<and> cend = length buf \<and> cptr < cend)",
    OF _ assms], goal_cases)
  case (1 loop buf incr cend cptr x r)
  from 1(2) show ?case by (auto split: if_splits dest!: 1(1))
qed

text \<open>Clearing the cache stays inside the buffer, ends and changes neither clock nor world, for
  a cache block of at least 4 bytes; with a smaller one, which the setter accepts, the loop never ends.\<close>

theorem clear_touches_buffer:
  assumes "buf_ok p b" and "\<And>n buf. malloc n = Some buf \<Longrightarrow> length buf = int_size n"
  shows "(4 \<le> cache_block p \<and> cache_block p < 2 ^ 31 \<longrightarrow>
      clear p malloc b = Some Exits \<and> cache_buf b = None \<and> malloc (cache_bytes p) = None
      \<or> (\<exists>b'. clear p malloc b = Some (Returns b') \<and> buf_ok p b' \<and> world b' = world b \<and> the_clock b' = the_clock b))
    \<and> (0 \<le> cache_block p \<and> cache_block p < 4 \<and> 4 \<le> cache_bytes p \<and> cache_bytes p < 2 ^ 31 \<and> cache_buf b \<noteq> None \<longrightarrow>
      clear p malloc b = None)"
proof -
  define got where "got = (case cache_buf b of Some buf \<Rightarrow> Some buf | None \<Rightarrow> malloc (cache_bytes p))"
  have len: "length buf = int_size (cache_bytes p)" if "got = Some buf" for buf
    using that assms by (auto simp: got_def buf_ok_def split: option.splits)
  have eq: "clear p malloc b = (case got of None \<Rightarrow> Some Exits | Some buf \<Rightarrow>
      and_then (clear_loop buf (int_size (cache_block p)) (length buf) 0 (sink b)) (\<lambda>x. Some (Returns (b\<lparr>cache_buf := Some buf, sink := x\<rparr>))))"
    using len by (auto simp: clear_def got_def [symmetric] split: option.splits)
  have "clear p malloc b = Some Exits \<and> cache_buf b = None \<and> malloc (cache_bytes p) = None
      \<or> (\<exists>b'. clear p malloc b = Some (Returns b') \<and> buf_ok p b' \<and> world b' = world b \<and> the_clock b' = the_clock b)"
    if b: "4 \<le> cache_block p \<and> cache_block p < 2 ^ 31"
  proof -
    have i: "0 < int_size (cache_block p)" using b by (simp add: int_size_def pos_imp_zdiv_pos_iff)
    show ?thesis
    proof (cases got)
      case None
      then show ?thesis using eq by (auto simp: got_def split: option.splits)
    next
      case (Some buf)
      then show ?thesis using eq clear_loop_returns [OF i, of buf 0 "sink b"] len [OF Some] by (auto simp: buf_ok_def)
    qed
  qed
  moreover have "clear p malloc b = None"
    if b: "0 \<le> cache_block p \<and> cache_block p < 4 \<and> 4 \<le> cache_bytes p \<and> cache_bytes p < 2 ^ 31 \<and> cache_buf b \<noteq> None"
  proof -
    obtain buf where g: "got = Some buf" using b by (auto simp: got_def)
    have "int_size (cache_block p) = 0" using b by (simp add: int_size_def)
    moreover have "buf \<noteq> []" using len [OF g] b by (auto simp: int_size_def pos_imp_zdiv_pos_iff)
    ultimately show ?thesis
      using eq g clear_loop_stuck [of buf 0 "length buf" 0 "sink b"]
      by (cases "clear_loop buf 0 (length buf) 0 (sink b)") auto
  qed
  ultimately show ?thesis by blast
qed

lemma set_fcyc_cache_size_ok: "buf_ok p b \<Longrightarrow> buf_ok (fst (set_fcyc_cache_size n p b)) (snd (set_fcyc_cache_size n p b))"
  by (simp add: buf_ok_def set_fcyc_cache_size_def)

section \<open>Witnesses\<close>

text \<open>A world that is a cycle count, read without delay; the timed function takes 7 cycles, or 5000 and one tick.\<close>

definition idle_clock :: clock where
  "idle_clock = \<lparr>cyc_hi = 0, cyc_lo = 0, cyc_per_tick = 4000, start_tick = 0\<rparr>"

definition cycles_hw :: "(64 word) hardware" where
  "cycles_hw = \<lparr>rdtsc = (\<lambda>w. (w, w)), tms_utime = (\<lambda>w. (uint w div 5000, w)),
     gettimeofday = (\<lambda>w. ((uint w div 1000000, uint w mod 1000000), w)), setitimer_real = (\<lambda>_ w. w), getitimer_real = (\<lambda>w. ((0, 0), w))\<rparr>"

definition bench_at :: "64 word \<Rightarrow> (64 word) bench" where
  "bench_at w = \<lparr>the_clock = idle_clock\<lparr>cyc_hi := ucast (drop_bit 32 (w - 7)), cyc_lo := ucast (w - 7)\<rparr>,
     cache_buf = None, sink = 0, world = w\<rparr>"

lemma measured_7: "measured default_params malloc cycles_hw (\<lambda>w. w + 7) (bench_at w) = Some (Returns (7, bench_at (w + 7)))"
  by (subst measured_plain [where ?t0.0 = w and w = w and ?t1.0 = "w + 7" and w' = "w + 7"])
    (simp_all add: default_params_def cycles_hw_def bench_at_def)

lemma fcyc_k_best_witness:
  "\<exists>n. fcyc default_params (\<lambda>_. None) cycles_hw (\<lambda>w. w + 7) (bench_at 0) = Some (Returns (7, bench_at (of_nat n * 7)))"
proof -
  have "measured default_params (\<lambda>_. None) cycles_hw (\<lambda>w. w + 7) (bench_at (of_nat j * 7))
    = Some (Returns ((\<lambda>_. 7) j, bench_at (of_nat (Suc j) * 7)))" for j
    by (simp add: measured_7 algebra_simps)
  then have "\<exists>n. 0 < n \<and> fcyc default_params (\<lambda>_. None) cycles_hw (\<lambda>w. w + 7) (bench_at (of_nat 0 * 7)) =
      Some (Returns (Min ((\<lambda>_. 7) ` {..<n}), bench_at (of_nat n * 7)))"
    using fcyc_k_best [of default_params "\<lambda>_. None" cycles_hw "\<lambda>w. w + 7" "\<lambda>j. bench_at (of_nat j * 7)" "\<lambda>_. 7"]
    by (auto simp: default_params_def)
  then show ?thesis by (auto simp: image_constant_conv lessThan_empty_iff)
qed

lemma compensated_cycles_witness:
  "\<exists>b'. measured (set_fcyc_compensate True default_params) (\<lambda>_. None) cycles_hw (\<lambda>w. w + 5000) (bench_at 100)
    = Some (Returns (1000, b')) \<and> world b' = 5100"
  using compensated_cycles [of "set_fcyc_compensate True default_params" "bench_at 100" cycles_hw 0 100 100 100
      "\<lambda>w. w + 5000" 5100 5100 1 5100 "\<lambda>_. None"]
  by (simp add: set_fcyc_compensate_def default_params_def bench_at_def idle_clock_def cycles_hw_def)

lemma repeat_add: "((\<lambda>w. w + a) ^^ n) w = (w :: 64 word) + of_nat n * a"
  by (induction n) (simp_all add: algebra_simps)

lemma fsecs_gettod_witness:
  "fsecs configured 0 default_params (\<lambda>_. None) cycles_hw (\<lambda>w. w + 300000) (bench_at 500000)
    = Some (Returns (3 / 10, (bench_at 500000)\<lparr>world := 3500000\<rparr>))"
  using fsecs_gettod [of cycles_hw "bench_at 500000" 0 500000 500000 "\<lambda>w. w + 300000" 3 500000 3500000]
  by (simp add: cycles_hw_def bench_at_def repeat_add)

lemma calibration_witness:
  "callibrate (cycles_hw\<lparr>tms_utime := \<lambda>w. (0, w)\<rparr>) (idle_clock\<lparr>cyc_per_tick := 0\<rparr>) 0 = None"
  using calibration [of "idle_clock\<lparr>cyc_per_tick := 0\<rparr>" "cycles_hw\<lparr>tms_utime := \<lambda>w. (0, w)\<rparr>"] by simp

lemma clear_touches_buffer_witness:
  "clear (default_params\<lparr>cache_block := 2, cache_bytes := 8\<rparr>) (\<lambda>_. None) ((bench_at 0)\<lparr>cache_buf := Some [1, 2]\<rparr>) = None"
  using clear_touches_buffer [of "default_params\<lparr>cache_block := 2, cache_bytes := 8\<rparr>" "(bench_at 0)\<lparr>cache_buf := Some [1, 2]\<rparr>" "\<lambda>_. None"]
  by (simp add: default_params_def buf_ok_def int_size_def)

end
