(* ===== verification/Mdriver_Main.thy ===== *)
theory Mdriver_Main
  imports Trace_File Timing
begin

text \<open>
  The main routine of \<open>mdriver.c\<close>: command line options, the loop over the trace files, the aggregate
  statistics and the performance index. The file system, the elapsed time of each measurement, and the
  contents of fresh arrays are arguments. Counts and seconds are reals; the quotients of the statistics are
  \<open>double\<close>s with infinity and NaN, because a clock may not advance during a run.
\<close>

section \<open>Options\<close>

definition DRIVER_MAXLINE :: nat where "DRIVER_MAXLINE = 1024"

record settings =
  tracefiles :: "string list option"
  num_tracefiles :: nat
  tracedir :: string
  run_libc :: bool
  autograder :: bool
  verbose :: nat

definition initial_settings :: settings where
  "initial_settings = \<lparr>tracefiles = None, num_tracefiles = 0, tracedir = ''./traces/'', run_libc = False,
     autograder = False, verbose = 0\<rparr>"

definition default_tracefiles :: "string list" where
  "default_tracefiles = [''amptjp-bal.rep'', ''cccp-bal.rep'', ''cp-decl-bal.rep'', ''expr-bal.rep'', ''coalescing-bal.rep'',
     ''random-bal.rep'', ''random2-bal.rep'', ''binary-bal.rep'', ''binary2-bal.rep'', ''realloc-bal.rep'', ''realloc2-bal.rep'']"

text \<open>The options as \<open>getopt\<close> delivers them, each with its argument: the loop ends with the settings, with an
  exit code, or outside \<open>tracedir\<close>.\<close>

datatype start = Start settings | Exit_code int | Dir_overrun

fun read_options :: "(char \<times> string) list \<Rightarrow> settings \<Rightarrow> start" where
  "read_options [] st = Start st"
| "read_options ((c, optarg) # opts) st =
     (if c = CHR ''g'' then read_options opts (st\<lparr>autograder := True\<rparr>)
      else if c = CHR ''f'' then
        read_options opts (st\<lparr>num_tracefiles := 1, tracedir := ''./'', tracefiles := Some [optarg]\<rparr>)
      else if c = CHR ''t'' then
        (if num_tracefiles st = 1 then read_options opts st
         else if DRIVER_MAXLINE \<le> length optarg \<or> optarg = [] then Dir_overrun
         else if last optarg = CHR ''/'' then read_options opts (st\<lparr>tracedir := optarg\<rparr>)
         else if DRIVER_MAXLINE \<le> length optarg + 1 then Dir_overrun
         else read_options opts (st\<lparr>tracedir := optarg @ ''/''\<rparr>))
      else if c = CHR ''l'' then read_options opts (st\<lparr>run_libc := True\<rparr>)
      else if c = CHR ''v'' then read_options opts (st\<lparr>verbose := 1\<rparr>)
      else if c = CHR ''V'' then read_options opts (st\<lparr>verbose := 2\<rparr>)
      else if c = CHR ''h'' then Exit_code 0
      else Exit_code 1)"

definition chosen_traces :: "settings \<Rightarrow> string list" where
  "chosen_traces st = (case tracefiles st of None \<Rightarrow> default_tracefiles | Some fs \<Rightarrow> fs)"

section \<open>Numbers that may not be finite\<close>

datatype double = Fin real | Inf | NaN

fun d_add :: "double \<Rightarrow> double \<Rightarrow> double" where
  "d_add (Fin a) (Fin b) = Fin (a + b)"
| "d_add NaN y = NaN"
| "d_add x NaN = NaN"
| "d_add x y = Inf"

text \<open>A product with a positive constant, a quotient of numbers that are not negative, a comparison.\<close>

fun d_scale :: "real \<Rightarrow> double \<Rightarrow> double" where
  "d_scale c (Fin a) = Fin (c * a)"
| "d_scale c Inf = Inf"
| "d_scale c NaN = NaN"

definition d_div :: "real \<Rightarrow> real \<Rightarrow> double" where
  "d_div x y = (if y \<noteq> 0 then Fin (x / y) else if x \<noteq> 0 then Inf else NaN)"

fun d_above :: "double \<Rightarrow> real \<Rightarrow> bool" where
  "d_above (Fin a) b \<longleftrightarrow> b < a"
| "d_above Inf b \<longleftrightarrow> True"
| "d_above NaN b \<longleftrightarrow> False"

section \<open>One trace\<close>

record stats_t =
  st_ops :: real
  st_valid :: bool
  st_secs :: real
  st_util :: double

text \<open>An error of a part ends the process.\<close>

definition run_bind :: "'b run \<Rightarrow> ('b \<Rightarrow> 'c run) \<Rightarrow> 'c run" where
  "run_bind r f = (case r of Next x \<Rightarrow> f x | Failed x \<Rightarrow> Crash | Aborted \<Rightarrow> Aborted | Crash \<Rightarrow> Crash | Stuck \<Rightarrow> Stuck)"

lemma run_bind_simps [simp]:
  "run_bind (Next x) f = f x" "run_bind (Failed x) f = Crash" "run_bind Aborted f = Aborted"
  "run_bind Crash f = Crash" "run_bind Stuck f = Stuck"
  by (simp_all add: run_bind_def)

lemma run_bind_Next: "run_bind r f = Next y \<longleftrightarrow> (\<exists>x. r = Next x \<and> f x = Next y)"
  by (cases r) simp_all

text \<open>The path, and the message for a file that cannot be opened, are composed in buffers of \<open>DRIVER_MAXLINE\<close>
  characters.\<close>

definition load_trace :: "(string \<Rightarrow> string option) \<Rightarrow> (int \<Rightarrow> bool) \<Rightarrow> (nat \<Rightarrow> traceop) \<Rightarrow> string \<Rightarrow> string \<Rightarrow> trace run" where
  "load_trace files gets junk dir name =
     (let path = dir @ name in
      if DRIVER_MAXLINE \<le> length path then Crash
      else case files path of
        None \<Rightarrow> if DRIVER_MAXLINE \<le> length ''Could not open '' + length path + length '' in read_trace'' then Crash else Aborted
      | Some s \<Rightarrow> read_trace gets junk s)"

fun timed_runs :: "'a package \<Rightarrow> traceop list \<Rightarrow> nat \<Rightarrow> int list \<times> 'a machine_scheme \<Rightarrow> (int list \<times> 'a machine_scheme) run" where
  "timed_runs pk ops 0 bh = Next bh"
| "timed_runs pk ops (Suc n) bh = run_bind (eval_mm_speed pk ops (fst bh) (snd bh)) (timed_runs pk ops n)"

text \<open>\<open>elapsed\<close> is the time, in microseconds, that passes during the ten runs of \<open>ftimer_gettod\<close>, \<open>word\<close> the
  contents of the fresh arrays \<open>blocks\<close> and \<open>block_sizes\<close>.\<close>

definition test_trace :: "'a package \<Rightarrow> int \<Rightarrow> (nat \<Rightarrow> int) \<Rightarrow> trace \<Rightarrow> 'a driver \<Rightarrow> (stats_t \<times> 'a driver) run" where
  "test_trace pk elapsed junk_words tr d =
     (let n = nat (num_ids tr); ops = t_ops tr; count = real_of_int (num_ops tr);
          d = d\<lparr>blocks := map junk_words [0..<n], block_sizes := map junk_words [0..<n]\<rparr> in
      case eval_mm_valid pk ops d of
        Failed d \<Rightarrow> Next (\<lparr>st_ops = count, st_valid = False, st_secs = 0, st_util = Fin 0\<rparr>, d)
      | Next d \<Rightarrow>
          run_bind (eval_mm_util pk ops (blocks d) (block_sizes d) (mach d)) (\<lambda>u.
            let util = d_div (real_of_int (max_total_size u)) (real_of_int (mem_heapsize (sys (u_mach u)))) in
            run_bind (timed_runs pk ops 10 (u_blocks u, u_mach u)) (\<lambda>(bs, h).
              Next (\<lparr>st_ops = count, st_valid = True, st_secs = real_of_int elapsed / 1000000 / 10, st_util = util\<rparr>,
                d\<lparr>mach := h, blocks := bs, block_sizes := u_sizes u\<rparr>)))
      | Aborted \<Rightarrow> Aborted | Crash \<Rightarrow> Crash | Stuck \<Rightarrow> Stuck)"

fun test_traces :: "'a package \<Rightarrow> (nat \<Rightarrow> int) \<Rightarrow> (nat \<Rightarrow> int) \<Rightarrow> (string \<Rightarrow> trace run) \<Rightarrow> nat \<Rightarrow> string list \<Rightarrow> 'a driver \<Rightarrow>
    (stats_t list \<times> 'a driver) run" where
  "test_traces pk elapsed junk_words load i [] d = Next ([], d)"
| "test_traces pk elapsed junk_words load i (name # names) d =
     run_bind (load name) (\<lambda>tr.
       run_bind (test_trace pk (elapsed i) junk_words tr d) (\<lambda>(st, d).
         run_bind (test_traces pk elapsed junk_words load (Suc i) names d) (\<lambda>(sts, d). Next (st # sts, d))))"

section \<open>Statistics\<close>

definition UTIL_WEIGHT :: real where "UTIL_WEIGHT = 60 / 100"
definition AVG_LIBC_THRUPUT :: real where "AVG_LIBC_THRUPUT = 600000"

definition total_secs :: "stats_t list \<Rightarrow> real" where "total_secs sts = foldl (\<lambda>a st. a + st_secs st) 0 sts"
definition total_ops :: "stats_t list \<Rightarrow> real" where "total_ops sts = foldl (\<lambda>a st. a + st_ops st) 0 sts"
definition total_util :: "stats_t list \<Rightarrow> double" where "total_util sts = foldl (\<lambda>a st. d_add a (st_util st)) (Fin 0) sts"

definition numcorrect :: "stats_t list \<Rightarrow> nat" where "numcorrect sts = length (filter st_valid sts)"

definition perf_util :: "stats_t list \<Rightarrow> double" where
  "perf_util sts = d_scale UTIL_WEIGHT (d_scale (1 / real (length sts)) (total_util sts))"

definition perf_thru :: "stats_t list \<Rightarrow> double" where
  "perf_thru sts =
     (let avg_mm_throughput = d_div (total_ops sts) (total_secs sts) in
      if d_above avg_mm_throughput AVG_LIBC_THRUPUT then Fin (1 - UTIL_WEIGHT)
      else d_scale (1 - UTIL_WEIGHT) (d_scale (1 / AVG_LIBC_THRUPUT) avg_mm_throughput))"

definition perfindex :: "nat \<Rightarrow> stats_t list \<Rightarrow> double" where
  "perfindex errs sts = (if errs = 0 then d_scale 100 (d_add (perf_util sts) (perf_thru sts)) else Fin 0)"

text \<open>The table: the columns utilization, requests, seconds and thousands of requests per second of the valid
  traces, and the totals over the valid traces.\<close>

definition result_row :: "stats_t \<Rightarrow> (double \<times> real \<times> real \<times> double) option" where
  "result_row st = (if st_valid st
     then Some (d_scale 100 (st_util st), st_ops st, st_secs st, d_div (st_ops st / 1000) (st_secs st)) else None)"

definition printresults :: "nat \<Rightarrow> stats_t list \<Rightarrow> (double \<times> real \<times> real \<times> double) option list \<times> (double \<times> real \<times> real \<times> double) option" where
  "printresults errs sts =
     (let ok = filter st_valid sts in
      (map result_row sts,
       if errs = 0
       then Some (d_scale 100 (d_scale (1 / real (length sts)) (total_util ok)), total_ops ok, total_secs ok,
         d_div (total_ops ok / 1000) (total_secs ok))
       else None))"

section \<open>The whole run\<close>

record report =
  rp_stats :: "stats_t list"
  rp_errors :: nat
  rp_correct :: nat
  rp_index :: double

text \<open>The evaluation of the allocator. It starts with the range list and the errors that it finds in the variables \<open>ranges\<close> and
  \<open>errors\<close>; \<open>base\<close> is the array that \<open>mem_init\<close> obtains.\<close>

definition mm_phase :: "range_t list \<Rightarrow> (nat \<times> complaint) list \<Rightarrow>
    'a package \<Rightarrow> (nat \<Rightarrow> int) \<Rightarrow> (nat \<Rightarrow> int) \<Rightarrow> (string \<Rightarrow> trace run) \<Rightarrow> string list \<Rightarrow> int \<Rightarrow> 'a machine_scheme \<Rightarrow> report run" where
  "mm_phase rs es pk elapsed junk_words load names base h =
     (case mem_init base of
        None \<Rightarrow> Aborted
      | Some ms \<Rightarrow>
          run_bind (test_traces pk elapsed junk_words load 0 names
              \<lparr>mach = h\<lparr>sys := ms\<rparr>, ranges = rs, blocks = [], block_sizes = [], errors = es\<rparr>)
            (\<lambda>(sts, d). let errs = length (errors d) in
               Next \<lparr>rp_stats = sts, rp_errors = errs, rp_correct = numcorrect sts, rp_index = perfindex errs sts\<rparr>))"

text \<open>The run without \<open>-l\<close>, where the two variables have their initial values.\<close>

definition mm_main :: "'a package \<Rightarrow> (nat \<Rightarrow> int) \<Rightarrow> (nat \<Rightarrow> int) \<Rightarrow> (string \<Rightarrow> trace run) \<Rightarrow> string list \<Rightarrow> int \<Rightarrow> 'a machine_scheme \<Rightarrow> report run" where
  "mm_main pk elapsed junk_words load names base h = mm_phase [] [] pk elapsed junk_words load names base h"

section \<open>Errors and verdicts\<close>

lemma add_range_simps: "errors (malloc_error i c d) = errors d @ [(i, c)]" "errors (remember index p sz d) = errors d"
  by (simp_all add: malloc_error_def remember_def)

lemma valid_op_errors:
  "(valid_op pk i opr d = Next d' \<longrightarrow> errors d' = errors d)
    \<and> (valid_op pk i opr d = Failed d' \<longrightarrow> length (errors d') = Suc (length (errors d)))"
  by (cases "op_type opr")
    (auto simp: valid_op_def valid_alloc_def valid_realloc_def valid_free_def Let_def add_range_simps
       split: option.splits prod.splits if_splits sum.splits)

lemma valid_ops_errors:
  "(valid_ops pk i ops d = Next d' \<longrightarrow> errors d' = errors d)
    \<and> (valid_ops pk i ops d = Failed d' \<longrightarrow> length (errors d') = Suc (length (errors d)))"
proof (induction ops arbitrary: i d)
  case (Cons opr ops)
  show ?case
  proof (cases "valid_op pk i opr d")
    case (Next d1)
    then show ?thesis using Cons [of "Suc i" d1] valid_op_errors [of pk i opr d d1] by simp
  next
    case (Failed d1)
    then show ?thesis using valid_op_errors [of pk i opr d d1] by auto
  qed simp_all
qed simp

lemma eval_mm_valid_errors:
  "(eval_mm_valid pk ops d = Next d' \<longrightarrow> errors d' = errors d)
    \<and> (eval_mm_valid pk ops d = Failed d' \<longrightarrow> length (errors d') = Suc (length (errors d)))"
  using valid_ops_errors [of pk 0 ops]
  by (fastforce simp: eval_mm_valid_def Let_def add_range_simps split: option.splits prod.splits if_splits)

text \<open>Every invalid trace adds one error.\<close>

lemma test_trace_errors:
  assumes "test_trace pk el jw tr d = Next (st, d')"
  shows "length (errors d') = length (errors d) + (if st_valid st then 0 else 1)"
proof -
  define n where "n = nat (num_ids tr)"
  let ?d = "d\<lparr>blocks := map jw [0..<n], block_sizes := map jw [0..<n]\<rparr>"
  show ?thesis
  proof (cases "eval_mm_valid pk (t_ops tr) ?d")
    case (Next d1)
    then show ?thesis using assms eval_mm_valid_errors [of pk "t_ops tr" ?d d1]
      by (auto simp: test_trace_def Let_def run_bind_Next n_def [symmetric])
  next
    case (Failed d1)
    then show ?thesis using assms eval_mm_valid_errors [of pk "t_ops tr" ?d d1]
      by (auto simp: test_trace_def Let_def n_def [symmetric])
  qed (use assms in \<open>simp_all add: test_trace_def Let_def n_def [symmetric]\<close>)
qed

lemma test_traces_errors:
  "test_traces pk el jw load i names d = Next (sts, d') \<Longrightarrow>
    length sts = length names \<and> length (errors d') + numcorrect sts = length (errors d) + length sts"
proof (induction names arbitrary: i d sts)
  case Nil
  then show ?case by (simp add: numcorrect_def)
next
  case (Cons name names)
  then obtain tr st d1 sts' where r: "test_trace pk (el i) jw tr d = Next (st, d1)"
    "test_traces pk el jw load (Suc i) names d1 = Next (sts', d')" "sts = st # sts'"
    by (auto simp: run_bind_Next)
  show ?case using Cons.IH [OF r(2)] test_trace_errors [OF r(1)] r(3) by (simp add: numcorrect_def)
qed

text \<open>C25. For any allocator whatever: a run that ends has counted one error for each trace that
  failed, and with a failed trace the performance index is 0.\<close>

theorem driver_counts_errors:
  assumes "mm_main pk el jw load names base h = Next rp"
  shows "length (rp_stats rp) = length names \<and> rp_errors rp = length names - rp_correct rp \<and> rp_correct rp \<le> length names
    \<and> (rp_correct rp < length names \<longrightarrow> rp_index rp = Fin 0)"
proof -
  obtain ms sts d where m: "mem_init base = Some ms"
    and t: "test_traces pk el jw load 0 names \<lparr>mach = h\<lparr>sys := ms\<rparr>, ranges = [], blocks = [], block_sizes = [], errors = []\<rparr> = Next (sts, d)"
    and rp: "rp = \<lparr>rp_stats = sts, rp_errors = length (errors d), rp_correct = numcorrect sts, rp_index = perfindex (length (errors d)) sts\<rparr>"
    using assms by (auto simp: mm_main_def mm_phase_def Let_def run_bind_Next split: option.splits)
  show ?thesis using test_traces_errors [OF t] rp length_filter_le [of st_valid sts] by (auto simp: perfindex_def numcorrect_def)
qed

section \<open>The score of an allocator that keeps the contract\<close>

text \<open>A file that the driver can read and whose requests fit into the heap.\<close>

definition good_trace :: "(int \<Rightarrow> int) \<Rightarrow> int \<Rightarrow> trace \<Rightarrow> bool" where
  "good_trace cost reserve tr \<longleftrightarrow> well_formed (nat (num_ids tr)) {} (t_ops tr) \<and> comparable (t_ops tr)
     \<and> reserve + trace_cost cost (t_ops tr) \<le> MAX_HEAP \<and> 0 \<le> num_ops tr"

definition good_stats :: "stats_t \<Rightarrow> bool" where
  "good_stats st \<longleftrightarrow> st_valid st \<and> 0 < st_secs st \<and> 0 \<le> st_ops st \<and> (\<exists>x. st_util st = Fin x \<and> 0 \<le> x \<and> x \<le> 1)"

lemma fresh_reset_grows:
  "grows c (reset_machine h) h' \<Longrightarrow> fresh_heap (reset_machine h) \<Longrightarrow> fresh_heap (reset_machine h')"
  by (simp add: grows_def fresh_heap_def reset_machine_def mem_reset_brk_def)

lemma reset_twice: "grows c (reset_machine h) h' \<Longrightarrow> grows e (reset_machine h') h'' \<Longrightarrow> fresh_heap (reset_machine h) \<Longrightarrow> grows e (reset_machine h) h''"
  by (simp add: grows_def reset_machine_def mem_reset_brk_def)

context allocator
begin

lemma speed_run:
  assumes "fresh_heap (reset_machine h)" and "well_formed n {} ops" and "length bs = n" and "reserve + trace_cost cost ops \<le> MAX_HEAP"
  shows "\<exists>bs' h'. eval_mm_speed pkg ops bs h = Next (bs', h') \<and> length bs' = n \<and> grows (reserve + trace_cost cost ops) (reset_machine h) h'"
proof -
  obtain h1 d where h1: "grows reserve (reset_machine h) h1" and d: "eval_mm_util pkg ops bs bs h = Next d"
    "u_carries (trace_cost cost ops) n h1 d"
    using util_run [OF assms(1,2,3) assms(3)] assms(4) by force
  then show ?thesis using speed_eq_util [of bs bs pkg ops h] grows_trans [OF h1, of "trace_cost cost ops"]
    by (auto simp: u_carries_def)
qed

lemma timed_runs_go_on:
  assumes "well_formed n {} ops" and "reserve + trace_cost cost ops \<le> MAX_HEAP"
  shows "fresh_heap (reset_machine (snd bh)) \<Longrightarrow> length (fst bh) = n \<Longrightarrow>
    \<exists>bs' h'. timed_runs pkg ops k bh = Next (bs', h') \<and> length bs' = n \<and> fresh_heap (reset_machine h')"
proof (induction k arbitrary: bh)
  case (Suc k)
  obtain bs h where r: "eval_mm_speed pkg ops (fst bh) (snd bh) = Next (bs, h)" "length bs = n"
    "grows (reserve + trace_cost cost ops) (reset_machine (snd bh)) h"
    using speed_run [OF Suc.prems(1) assms(1) Suc.prems(2) assms(2)] by blast
  show ?case using Suc.IH [of "(bs, h)"] r fresh_reset_grows [OF r(3) Suc.prems(1)] by simp
qed auto

lemma test_trace_good:
  assumes g: "good_trace cost reserve tr" and f: "fresh_heap (reset_machine (mach d))" and e: "0 < el"
    and pos: "\<forall>h h1. fresh_heap (reset_machine h) \<and> m_init (reset_machine h) = Some (0, h1) \<longrightarrow> 0 < mem_heapsize (sys h1)"
  shows "\<exists>st d'. test_trace pkg el jw tr d = Next (st, d') \<and> good_stats st \<and> fresh_heap (reset_machine (mach d')) \<and> errors d' = errors d"
proof -
  define n where "n = nat (num_ids tr)"
  let ?ops = "t_ops tr" and ?d = "d\<lparr>blocks := map jw [0..<n], block_sizes := map jw [0..<n]\<rparr>"
  have w: "well_formed n {} ?ops" "comparable ?ops" and fit: "reserve + trace_cost cost ?ops \<le> MAX_HEAP" and ops: "0 \<le> num_ops tr"
    using g by (simp_all add: good_trace_def n_def)
  obtain d1 where d1: "eval_mm_valid pkg ?ops ?d = Next d1" "carries_on (reserve + trace_cost cost ?ops) n ?d d1"
    using trace_verdict [of ?d n ?ops] f w fit by auto
  have len: "length (blocks d1) = n" "length (block_sizes d1) = n" and er: "errors d1 = errors d"
    using d1(2) by (simp_all add: carries_on_def)
  have f1: "fresh_heap (reset_machine (mach d1))"
    using d1(2) f fresh_reset_grows [of "reserve + trace_cost cost ?ops" "mach d" "mach d1"] by (simp add: carries_on_def)
  obtain h1 u where h1: "m_init (reset_machine (mach d1)) = Some (0, h1)" "grows reserve (reset_machine (mach d1)) h1"
    and u: "eval_mm_util pkg ?ops (blocks d1) (block_sizes d1) (mach d1) = Next u" "u_carries (trace_cost cost ?ops) n h1 u"
    "0 \<le> max_total_size u" "max_total_size u \<le> mem_heapsize (sys (u_mach u))"
    using util_run [OF f1 w(1) len] fit by force
  have gu: "grows (reserve + trace_cost cost ?ops) (reset_machine (mach d1)) (u_mach u)" and lu: "length (u_blocks u) = n"
    using u(2) grows_trans [OF h1(2)] by (auto simp: u_carries_def)
  have mp: "0 < mem_heapsize (sys h1)" using pos f1 h1(1) by blast
  have hp: "0 < mem_heapsize (sys (u_mach u))"
    using mp u(2) by (simp add: u_carries_def grows_def mem_heapsize_def)
  obtain bs h where t: "timed_runs pkg ?ops 10 (u_blocks u, u_mach u) = Next (bs, h)" "fresh_heap (reset_machine h)"
    using timed_runs_go_on [OF w(1) fit, of "(u_blocks u, u_mach u)" 10] fresh_reset_grows [OF gu f1] lu by auto
  define r where "r = real_of_int (max_total_size u) / real_of_int (mem_heapsize (sys (u_mach u)))"
  have "test_trace pkg el jw tr d = Next (\<lparr>st_ops = real_of_int (num_ops tr), st_valid = True, st_secs = real_of_int el / 1000000 / 10, st_util = Fin r\<rparr>,
      d1\<lparr>mach := h, blocks := bs, block_sizes := u_sizes u\<rparr>)"
    using d1(1) u(1) t(1) hp by (simp add: test_trace_def Let_def n_def [symmetric] d_div_def r_def)
  moreover have "0 \<le> r \<and> r \<le> 1" using hp u(3,4) by (simp add: r_def)
  ultimately show ?thesis using t(2) er e ops by (simp add: good_stats_def)
qed

lemma test_traces_good:
  assumes "\<forall>i. 0 < el i"
    and pos: "\<forall>h h1. fresh_heap (reset_machine h) \<and> m_init (reset_machine h) = Some (0, h1) \<longrightarrow> 0 < mem_heapsize (sys h1)"
  shows "\<forall>name \<in> set names. \<exists>tr. load name = Next tr \<and> good_trace cost reserve tr \<Longrightarrow> fresh_heap (reset_machine (mach d)) \<Longrightarrow>
    \<exists>sts d'. test_traces pkg el jw load i names d = Next (sts, d') \<and> (\<forall>st \<in> set sts. good_stats st)
      \<and> length sts = length names \<and> errors d' = errors d"
proof (induction names arbitrary: i d)
  case (Cons name names)
  obtain tr where tr: "load name = Next tr" "good_trace cost reserve tr" using Cons.prems(1) by auto
  obtain st d1 where st: "test_trace pkg (el i) jw tr d = Next (st, d1)" "good_stats st" "fresh_heap (reset_machine (mach d1))"
    "errors d1 = errors d" using test_trace_good [OF tr(2) Cons.prems(2) spec [OF assms(1)] pos] by blast
  have "\<forall>name \<in> set names. \<exists>tr. load name = Next tr \<and> good_trace cost reserve tr" using Cons.prems(1) by simp
  from Cons.IH [OF this st(3), of "Suc i"] show ?case using tr(1) st by auto
qed simp

end

section \<open>The performance index\<close>

lemma total_secs_Cons: "foldl (\<lambda>a st. a + st_secs st) a sts = a + sum_list (map st_secs sts)"
  by (induction sts arbitrary: a) simp_all

lemma total_ops_Cons: "foldl (\<lambda>a st. a + st_ops st) a sts = a + sum_list (map st_ops sts)"
  by (induction sts arbitrary: a) simp_all

lemma total_util_fin:
  "\<forall>st \<in> set sts. good_stats st \<Longrightarrow> \<exists>x. foldl (\<lambda>a st. d_add a (st_util st)) (Fin a) sts = Fin x \<and> a \<le> x \<and> x \<le> a + real (length sts)"
proof (induction sts arbitrary: a)
  case (Cons st sts)
  obtain y where y: "st_util st = Fin y" "0 \<le> y" "y \<le> 1" using Cons.prems by (auto simp: good_stats_def)
  obtain x where "foldl (\<lambda>a st. d_add a (st_util st)) (Fin (a + y)) sts = Fin x" "a + y \<le> x" "x \<le> a + y + real (length sts)"
    using Cons.IH [of "a + y"] Cons.prems by auto
  then show ?case using y by (intro exI [of _ x]) simp
qed simp

lemma perfindex_bounds:
  assumes "\<forall>st \<in> set sts. good_stats st" and "sts \<noteq> []"
  shows "\<exists>x. perfindex 0 sts = Fin x \<and> 0 \<le> x \<and> x \<le> 100"
proof -
  obtain u where u: "total_util sts = Fin u" "0 \<le> u" "u \<le> real (length sts)"
    using total_util_fin [OF assms(1), of 0] by (auto simp: total_util_def)
  have n: "0 < real (length sts)" using assms(2) by simp
  define v where "v = u / real (length sts)"
  have v: "0 \<le> v" "v \<le> 1" "perf_util sts = Fin (UTIL_WEIGHT * v)" using u n by (simp_all add: perf_util_def v_def)
  have ops: "0 \<le> total_ops sts" using assms(1)
    by (auto simp: total_ops_def total_ops_Cons good_stats_def intro!: sum_list_nonneg)
  have secs: "0 < total_secs sts"
  proof -
    obtain st sts' where s: "sts = st # sts'" using assms(2) by (cases sts) auto
    have "0 \<le> sum_list (map st_secs sts')" using assms(1) s by (auto simp: good_stats_def less_imp_le intro!: sum_list_nonneg)
    moreover have "0 < st_secs st" using assms(1) s by (simp add: good_stats_def)
    ultimately show ?thesis by (simp add: total_secs_def total_secs_Cons s)
  qed
  define t where "t = total_ops sts / total_secs sts"
  have t: "0 \<le> t" "d_div (total_ops sts) (total_secs sts) = Fin t" using ops secs by (simp_all add: t_def d_div_def)
  have "\<exists>y. perf_thru sts = Fin y \<and> 0 \<le> y \<and> y \<le> 4 / 10"
  proof (cases "AVG_LIBC_THRUPUT < t")
    case False
    then have "(1 - UTIL_WEIGHT) * (1 / AVG_LIBC_THRUPUT * t) \<le> 4 / 10"
      by (simp add: UTIL_WEIGHT_def AVG_LIBC_THRUPUT_def)
    then show ?thesis using t False
      by (intro exI [of _ "(1 - UTIL_WEIGHT) * (1 / AVG_LIBC_THRUPUT * t)"]) (simp add: perf_thru_def UTIL_WEIGHT_def AVG_LIBC_THRUPUT_def)
  qed (use t in \<open>simp add: perf_thru_def UTIL_WEIGHT_def exI [of _ "4 / 10 :: real"]\<close>)
  then obtain y where "perf_thru sts = Fin y" "0 \<le> y" "y \<le> 4 / 10" by blast
  then show ?thesis using v by (simp add: perfindex_def UTIL_WEIGHT_def)
qed

lemma mm_heap_not_empty:
  "fresh_heap (reset_machine h) \<and> mm_init (reset_machine h) = Some (0, h1) \<longrightarrow> 0 < mem_heapsize (sys h1)"
proof
  assume a: "fresh_heap (reset_machine h) \<and> mm_init (reset_machine h) = Some (0, h1)"
  obtain h' where "mm_init (reset_machine h) = Some (0, h')" "heap_inv h' [(mem_start_brk (sys (reset_machine h)) + 112, 64, False)]"
    "seg_list_ptr h' = mem_start_brk (sys (reset_machine h))" using a inv_init [of "reset_machine h"] by blast
  then have r: "heap_rep h1 [(mem_start_brk (sys (reset_machine h)) + 112, 64, False)] {mem_start_brk (sys (reset_machine h)) + 112}"
    using a by (simp add: heap_inv_def)
  obtain h2 where "mm_init (reset_machine h) = Some (0, h2)" "grows 176 (reset_machine h) h2"
    using mm.init_ok [of "reset_machine h"] a by blast
  then have "mem_start_brk (sys h1) = mem_start_brk (sys (reset_machine h))" using a by (simp add: grows_def)
  then show "0 < mem_heapsize (sys h1)" using heap_tile [OF r] r by (simp add: heap_rep_def mem_heapsize_def)
qed

text \<open>C8. The whole driver on the segregated-list allocator: for any list of good trace files, in any
  order, the run ends, all traces are valid, no error is counted, and the performance index is a number
  between 0 and 100.\<close>

theorem mm_scores:
  assumes "names \<noteq> []" and "\<forall>name \<in> set names. \<exists>tr. load name = Next tr \<and> good_trace mm_cost 176 tr"
    and "0 < base" "8 dvd base" "base + MAX_HEAP \<le> 2 ^ 32" and "\<forall>i. 0 < el i"
  shows "\<exists>rp x. mm_main mm_package el jw load names base h = Next rp \<and> rp_correct rp = length names \<and> rp_errors rp = 0
    \<and> rp_index rp = Fin x \<and> 0 \<le> x \<and> x \<le> 100"
proof -
  let ?ms = "\<lparr>mem_start_brk = base, mem_brk = base, mem_max_addr = base + MAX_HEAP\<rparr>"
  let ?d = "\<lparr>mach = h\<lparr>sys := ?ms\<rparr>, ranges = [], blocks = [], block_sizes = [], errors = []\<rparr>"
  have f: "fresh_heap (reset_machine (mach ?d))" using assms(3-5) by (simp add: fresh_heap_def reset_machine_def mem_reset_brk_def)
  obtain sts d' where t: "test_traces mm_package el jw load 0 names ?d = Next (sts, d')" "\<forall>st \<in> set sts. good_stats st"
    "length sts = length names" "errors d' = []"
    using mm.test_traces_good [OF assms(6) _ assms(2) f, where i = 0 and jw = jw] mm_heap_not_empty unfolding mm_package_def by auto
  have "filter st_valid sts = sts" using t(2) by (simp add: filter_id_conv good_stats_def)
  moreover have "sts \<noteq> []" using t(3) assms(1) by auto
  then obtain x where "perfindex 0 sts = Fin x" "0 \<le> x" "x \<le> 100" using perfindex_bounds [OF t(2)] by blast
  ultimately show ?thesis using t assms(3) by (simp add: mm_main_def mm_phase_def mem_init_def Let_def numcorrect_def)
qed

text \<open>One file with a small trace.\<close>

definition small_load :: "string \<Rightarrow> trace run" where
  "small_load = load_trace (\<lambda>path. if path = ''./short1.rep'' then Some (print_trace 20000 2 1 small_trace) else None) (\<lambda>_. True)
     (\<lambda>k. \<lparr>op_type = FREE, op_index = 7, op_size = 9\<rparr>) ''./''"

lemma small_load_good: "\<exists>tr. small_load ''short1.rep'' = Next tr \<and> good_trace mm_cost 176 tr"
proof -
  let ?junk = "\<lambda>k. \<lparr>op_type = FREE, op_index = 7, op_size = 9\<rparr>"
  have a: "adjusted_size 512 = 520" "adjusted_size 128 = 136" "adjusted_size 640 = 648" by code_simp+
  have "176 + trace_cost mm_cost small_trace \<le> MAX_HEAP"
    by (simp add: small_trace_def mm_cost_def a MAX_HEAP_def)
  moreover have pr: "\<forall>opr \<in> set small_trace. printable opr" by (simp add: small_trace_def printable_def)
  have "small_load ''short1.rep'' = Next \<lparr>sugg_heapsize = Some (int 20000), num_ids = int 2, num_ops = int (length small_trace),
      weight = Some (int 1), t_ops = read_back ?junk 0 small_trace\<rparr>"
    using read_printed [OF pr, of 2 20000 1 "\<lambda>_. True" ?junk] by (simp add: small_load_def load_trace_def DRIVER_MAXLINE_def small_trace_def)
  ultimately show ?thesis using small_trace_ok
    by (simp add: good_trace_def well_formed_read_back comparable_read_back trace_cost_read_back)
qed

lemma mm_scores_witness:
  "\<exists>rp x. mm_main mm_package (\<lambda>_. 50) (\<lambda>_. 0) small_load [''short1.rep''] 4096 (machine0 8) = Next rp \<and> rp_correct rp = 1
    \<and> rp_index rp = Fin x \<and> x \<le> 100"
  using mm_scores [of "[''short1.rep'']" small_load 4096 "\<lambda>_. 50" "\<lambda>_. 0" "machine0 8"] small_load_good
  by (auto simp: MAX_HEAP_def)

text \<open>A trace that asks for more than the heap holds.\<close>

definition greedy_load :: "string \<Rightarrow> trace run" where
  "greedy_load name = Next \<lparr>sugg_heapsize = None, num_ids = 1, num_ops = 1, weight = None,
     t_ops = [\<lparr>op_type = ALLOC, op_index = 0, op_size = 2 ^ 30\<rparr>]\<rparr>"

lemma driver_counts_errors_witness:
  "\<exists>rp. mm_main naive_package (\<lambda>_. 50) (\<lambda>_. 0) greedy_load [''big.rep''] 4096 plain_machine = Next rp
    \<and> rp_correct rp = 0 \<and> rp_errors rp = 1 \<and> rp_index rp = Fin 0"
proof -
  let ?ms = "\<lparr>mem_start_brk = 4096, mem_brk = 4096, mem_max_addr = 4096 + MAX_HEAP\<rparr>"
  let ?d = "\<lparr>mach = plain_machine\<lparr>sys := ?ms\<rparr>, ranges = [], blocks = [0], block_sizes = [0], errors = []\<rparr>"
  have n: "align8 1073741832 = 1073741832" by (simp add: align8_eq u32_def)
  have "eval_mm_valid naive_package [\<lparr>op_type = ALLOC, op_index = 0, op_size = 2 ^ 30\<rparr>] ?d = Failed (malloc_error 0 Malloc_failed ?d)"
    by (simp add: eval_mm_valid_def naive_package_def naive_init_def valid_op_def valid_alloc_def naive_malloc_def Let_def n
      sbrk_def mem_sbrk_def clear_ranges_def reset_machine_def mem_reset_brk_def u32_def MAX_HEAP_def to_int_def)
  then obtain rp where rp: "mm_main naive_package (\<lambda>_. 50) (\<lambda>_. 0) greedy_load [''big.rep''] 4096 plain_machine = Next rp" "rp_correct rp = 0"
    by (simp add: mm_main_def mm_phase_def mem_init_def greedy_load_def test_trace_def Let_def numcorrect_def)
  then show ?thesis using driver_counts_errors [OF rp(1)] by simp
qed

section \<open>Options\<close>

text \<open>The state of the loop after \<open>-f\<close>.\<close>

definition after_f :: "string \<Rightarrow> settings \<Rightarrow> bool" where
  "after_f f st \<longleftrightarrow> num_tracefiles st = 1 \<and> tracedir st = ''./'' \<and> tracefiles st = Some [f]"

abbreviation f_arguments :: "(char \<times> string) list \<Rightarrow> string list" where
  "f_arguments opts \<equiv> map snd (filter (\<lambda>x. fst x = CHR ''f'') opts)"

lemma read_options_step:
  assumes "read_options ((c, a) # opts) st = Start st'"
  shows "\<exists>st1. read_options opts st1 = Start st' \<and> (if c = CHR ''f'' then after_f a st1 else \<forall>f. after_f f st \<longrightarrow> after_f f st1)"
  using assms by (auto simp: after_f_def split: if_splits)

lemma read_options_after_f:
  "read_options opts st = Start st' \<Longrightarrow> after_f f st \<Longrightarrow> after_f (last (f # f_arguments opts)) st'"
proof (induction opts arbitrary: st f)
  case (Cons x opts)
  obtain c a where x: "x = (c, a)" by (cases x)
  obtain st1 where st1: "read_options opts st1 = Start st'" "if c = CHR ''f'' then after_f a st1 else \<forall>f. after_f f st \<longrightarrow> after_f f st1"
    using read_options_step [of c a opts st st'] Cons.prems(1) x by auto
  show ?case
  proof (cases "c = CHR ''f''")
    case True
    then show ?thesis using Cons.IH [OF st1(1), of a] st1(2) x by simp
  next
    case False
    then show ?thesis using Cons.IH [OF st1(1), of f] st1(2) Cons.prems(2) x by simp
  qed
qed simp

text \<open>One \<open>-f\<close> anywhere on the command line overrides every \<open>-t\<close>; the last one counts.\<close>

theorem single_trace_option:
  assumes "read_options opts st = Start st'" and "f_arguments opts \<noteq> []"
  shows "tracedir st' = ''./'' \<and> chosen_traces st' = [last (f_arguments opts)]"
proof -
  have "after_f (last (f_arguments opts)) st'" using assms
  proof (induction opts arbitrary: st)
    case (Cons x opts)
    obtain c a where x: "x = (c, a)" by (cases x)
    obtain st1 where st1: "read_options opts st1 = Start st'" "if c = CHR ''f'' then after_f a st1 else \<forall>f. after_f f st \<longrightarrow> after_f f st1"
      using read_options_step [of c a opts st st'] Cons.prems(1) x by auto
    show ?case
    proof (cases "c = CHR ''f''")
      case True
      then show ?thesis using read_options_after_f [OF st1(1), of a] st1(2) x by simp
    next
      case False
      then show ?thesis using Cons.IH [OF st1(1)] Cons.prems(2) x by simp
    qed
  qed simp
  then show ?thesis by (simp add: after_f_def chosen_traces_def)
qed

lemma single_trace_option_witness:
  "\<exists>st'. read_options [(CHR ''t'', ''traces''), (CHR ''f'', ''a.rep''), (CHR ''v'', []), (CHR ''t'', ''b'')] initial_settings = Start st'
    \<and> chosen_traces st' = [''a.rep'']"
proof -
  obtain st' where "read_options [(CHR ''t'', ''traces''), (CHR ''f'', ''a.rep''), (CHR ''v'', []), (CHR ''t'', ''b'')] initial_settings = Start st'"
    by (simp add: initial_settings_def DRIVER_MAXLINE_def)
  then show ?thesis using single_trace_option [of _ initial_settings st'] by fastforce
qed

text \<open>The option string of \<open>getopt\<close> admits \<open>-a\<close>, but its case is commented out: the driver prints its usage and
  ends with code 1. An empty directory makes it read before the buffer.\<close>

lemma option_corners:
  "read_options ((CHR ''a'', []) # opts) st = Exit_code 1"
  "num_tracefiles st \<noteq> 1 \<Longrightarrow> read_options ((CHR ''t'', []) # opts) st = Dir_overrun"
  by (simp_all add: DRIVER_MAXLINE_def)

text \<open>The table shows the totals from which the index is computed, when no trace failed.\<close>

lemma printresults_totals:
  assumes "\<forall>st \<in> set sts. st_valid st"
  shows "printresults 0 sts = (map result_row sts,
    Some (d_scale 100 (d_scale (1 / real (length sts)) (total_util sts)), total_ops sts, total_secs sts, d_div (total_ops sts / 1000) (total_secs sts)))"
  using assms by (simp add: printresults_def Let_def filter_id_conv)

section \<open>The main routine with its options\<close>

text \<open>The C library's allocator, tested for comparison with \<open>-l\<close>. It works on memory of its own, but the errors are counted in
  the variable that the later test of the student's allocator uses, too.\<close>

fun libc_timed_runs :: "'a package \<Rightarrow> traceop list \<Rightarrow> nat \<Rightarrow> int list \<times> 'a machine_scheme \<Rightarrow> (int list \<times> 'a machine_scheme) run" where
  "libc_timed_runs libc ops 0 bh = Next bh"
| "libc_timed_runs libc ops (Suc n) bh = run_bind (eval_libc_speed libc ops (fst bh) (snd bh)) (libc_timed_runs libc ops n)"

definition libc_trace :: "'a package \<Rightarrow> int \<Rightarrow> (nat \<Rightarrow> int) \<Rightarrow> trace \<Rightarrow> 'a driver \<Rightarrow> (stats_t \<times> 'a driver) run" where
  "libc_trace libc elapsed junk_words tr d =
     (let count = real_of_int (num_ops tr) in
      case eval_libc_valid libc (t_ops tr) (d\<lparr>blocks := map junk_words [0..<nat (num_ids tr)]\<rparr>) of
        Failed d \<Rightarrow> Next (\<lparr>st_ops = count, st_valid = False, st_secs = 0, st_util = Fin 0\<rparr>, d)
      | Next d \<Rightarrow>
          run_bind (libc_timed_runs libc (t_ops tr) 10 (blocks d, mach d)) (\<lambda>(bs, h).
            Next (\<lparr>st_ops = count, st_valid = True, st_secs = real_of_int elapsed / 1000000 / 10, st_util = Fin 0\<rparr>,
              d\<lparr>mach := h, blocks := bs\<rparr>))
      | Aborted \<Rightarrow> Aborted | Crash \<Rightarrow> Crash | Stuck \<Rightarrow> Stuck)"

fun libc_traces :: "'a package \<Rightarrow> (nat \<Rightarrow> int) \<Rightarrow> (nat \<Rightarrow> int) \<Rightarrow> (string \<Rightarrow> trace run) \<Rightarrow> nat \<Rightarrow> string list \<Rightarrow> 'a driver \<Rightarrow>
    (stats_t list \<times> 'a driver) run" where
  "libc_traces libc elapsed junk_words load i [] d = Next ([], d)"
| "libc_traces libc elapsed junk_words load i (name # names) d =
     run_bind (load name) (\<lambda>tr.
       run_bind (libc_trace libc (elapsed i) junk_words tr d) (\<lambda>(st, d).
         run_bind (libc_traces libc elapsed junk_words load (Suc i) names d) (\<lambda>(sts, d). Next (st # sts, d))))"

lemma libc_trace_errors:
  "libc_trace libc el jw tr d = Next (st, d') \<Longrightarrow> errors d' = errors d \<and> ranges d' = ranges d"
  by (cases "libc_ops libc 0 (t_ops tr) (d\<lparr>blocks := map jw [0..<nat (num_ids tr)]\<rparr>)")
    (auto simp: libc_trace_def eval_libc_valid_def libc_ops_not_Failed run_bind_Next Let_def dest!: libc_ops_errors)

lemma libc_traces_errors:
  "libc_traces libc el jw load i names d = Next (sts, d') \<Longrightarrow> errors d' = errors d \<and> ranges d' = ranges d"
proof (induction names arbitrary: i d sts)
  case (Cons name names)
  then show ?case by (fastforce simp: run_bind_Next dest: libc_trace_errors)
qed simp

text \<open>What the run prints: the tables of the libc and of the allocator, the report, and the two lines for the
  autograder.\<close>

type_synonym result_table = "(double \<times> real \<times> real \<times> double) option list \<times> (double \<times> real \<times> real \<times> double) option"

record driver_output =
  libc_table :: "result_table option"
  mm_table :: "result_table option"
  out_report :: report
  grader_lines :: "(nat \<times> double) option"

text \<open>The two clocks, the memory of the two allocators and the file system are arguments; \<open>Inl\<close> is the exit code of an
  option.\<close>

definition driver_main :: "'b package \<Rightarrow> 'a package \<Rightarrow> (nat \<Rightarrow> int) \<Rightarrow> (nat \<Rightarrow> int) \<Rightarrow> (nat \<Rightarrow> int) \<Rightarrow> (string \<Rightarrow> string \<Rightarrow> trace run) \<Rightarrow>
    'b machine_scheme \<Rightarrow> int \<Rightarrow> 'a machine_scheme \<Rightarrow> (char \<times> string) list \<Rightarrow> int + driver_output run" where
  "driver_main libc mm elapsed_libc elapsed_mm junk_words load hl base h opts =
     (case read_options opts initial_settings of
        Exit_code n \<Rightarrow> Inl n
      | Dir_overrun \<Rightarrow> Inr Crash
      | Start st \<Rightarrow> Inr
          (let names = chosen_traces st; load = load (tracedir st) in
           run_bind (if run_libc st
                     then run_bind (libc_traces libc elapsed_libc junk_words load 0 names
                         \<lparr>mach = hl, ranges = [], blocks = [], block_sizes = [], errors = []\<rparr>) (\<lambda>(sts, d).
                       Next (if 0 < verbose st then Some (printresults (length (errors d)) sts) else None, ranges d, errors d))
                     else Next (None, [], [])) (\<lambda>(lt, rs, es).
           run_bind (mm_phase rs es mm elapsed_mm junk_words load names base h) (\<lambda>rp.
             Next \<lparr>libc_table = lt, mm_table = (if 0 < verbose st then Some (printresults (rp_errors rp) (rp_stats rp)) else None),
               out_report = rp, grader_lines = (if autograder st then Some (rp_correct rp, rp_index rp) else None)\<rparr>))))"

lemma run_libc_outermost:
  "st\<lparr>run_libc := b, tracefiles := v\<rparr> = st\<lparr>tracefiles := v, run_libc := b\<rparr>" "st\<lparr>run_libc := b, num_tracefiles := k\<rparr> = st\<lparr>num_tracefiles := k, run_libc := b\<rparr>"
  "st\<lparr>run_libc := b, tracedir := w\<rparr> = st\<lparr>tracedir := w, run_libc := b\<rparr>" "st\<lparr>run_libc := b, autograder := c\<rparr> = st\<lparr>autograder := c, run_libc := b\<rparr>"
  "st\<lparr>run_libc := b, verbose := k\<rparr> = st\<lparr>verbose := k, run_libc := b\<rparr>"
  by simp_all

lemma read_options_without_l:
  "read_options opts st = Start st' \<Longrightarrow> read_options (filter (\<lambda>x. fst x \<noteq> CHR ''l'') opts) (st\<lparr>run_libc := False\<rparr>) = Start (st'\<lparr>run_libc := False\<rparr>)"
  by (induction opts st rule: read_options.induct) (auto simp: run_libc_outermost split: if_splits)

text \<open>C24. Testing the C library's allocator does not influence the score, although both tests count their errors in the
  same variable: when a run with \<open>-l\<close> ends with a report, the run with the same options without \<open>-l\<close> ends with the same report,
  the same table and the same lines for the autograder.\<close>

theorem libc_run_changes_no_score:
  assumes "driver_main libc mm el em jw load hl base h opts = Inr (Next out)"
  shows "driver_main libc mm el em jw load hl base h (filter (\<lambda>x. fst x \<noteq> CHR ''l'') opts) = Inr (Next (out\<lparr>libc_table := None\<rparr>))"
proof -
  obtain st where st: "read_options opts initial_settings = Start st"
    using assms by (auto simp: driver_main_def split: start.splits)
  have "initial_settings\<lparr>run_libc := False\<rparr> = initial_settings" by (simp add: initial_settings_def)
  then have r: "read_options (filter (\<lambda>x. fst x \<noteq> CHR ''l'') opts) initial_settings = Start (st\<lparr>run_libc := False\<rparr>)"
    using read_options_without_l [OF st] by simp
  have "chosen_traces (st\<lparr>run_libc := False\<rparr>) = chosen_traces st" by (simp add: chosen_traces_def)
  then show ?thesis using assms
    by (auto simp: driver_main_def st r Let_def run_bind_Next split: if_splits dest!: libc_traces_errors)
qed

text \<open>A trace without requests.\<close>

definition empty_load :: "string \<Rightarrow> string \<Rightarrow> trace run" where
  "empty_load dir name = Next \<lparr>sugg_heapsize = None, num_ids = 0, num_ops = 0, weight = None, t_ops = []\<rparr>"

lemma libc_run_changes_no_score_witness:
  "\<exists>out. driver_main naive_package naive_package (\<lambda>_. 50) (\<lambda>_. 50) (\<lambda>_. 0) empty_load plain_machine 4096 plain_machine
      [(CHR ''l'', []), (CHR ''f'', ''a.rep''), (CHR ''g'', [])] = Inr (Next out)
    \<and> driver_main naive_package naive_package (\<lambda>_. 50) (\<lambda>_. 50) (\<lambda>_. 0) empty_load plain_machine 4096 plain_machine
      [(CHR ''f'', ''a.rep''), (CHR ''g'', [])] = Inr (Next (out\<lparr>libc_table := None\<rparr>))"
proof -
  let ?run = "driver_main naive_package naive_package (\<lambda>_. 50) (\<lambda>_. 50) (\<lambda>_. 0) empty_load plain_machine 4096 plain_machine"
  have speed: "eval_mm_speed naive_package [] bs h = Next (bs, reset_machine h)" for bs h
    by (simp add: eval_mm_speed_def naive_package_def naive_init_def)
  have tr: "timed_runs naive_package [] n (bs, h) = Next (bs, (reset_machine ^^ n) h)" for n bs h
    by (induction n arbitrary: h) (simp_all add: speed funpow_swap1)
  have lr: "libc_timed_runs naive_package [] n bh = Next bh" for n bh
    by (induction n arbitrary: bh) (simp_all add: eval_libc_speed_def)
  have ini: "init_fn naive_package h = Some (0, h)" for h by (simp add: naive_package_def naive_init_def)
  obtain out where o: "?run [(CHR ''l'', []), (CHR ''f'', ''a.rep''), (CHR ''g'', [])] = Inr (Next out)"
    by (simp add: driver_main_def initial_settings_def chosen_traces_def empty_load_def libc_trace_def eval_libc_valid_def
        mm_phase_def mem_init_def test_trace_def eval_mm_valid_def eval_mm_util_def ini tr lr Let_def)
  show ?thesis using libc_run_changes_no_score [OF o] o by fastforce
qed

end
