(* ===== verification/Page_Reader.thy ===== *)
theory Page_Reader
  imports Lab_Prelude
begin

text \<open>
  The kernel module \<open>kernellab/paddr/dbfs_paddr.c\<close>, which translates a virtual address by walking
  the page table, and its client \<open>app.c\<close>. The kernel's page table accessors are a parameter.
\<close>

unbundle bit_operations_syntax

section \<open>The kernel's interface\<close>

text \<open>An entry of any level is an \<open>'e\<close>; \<open>p4d_offset\<close> and so on return the entry that the pointer of the
  C function points to.\<close>

record ('mm, 'e) paging =
  pgd_offset :: "'mm \<Rightarrow> 64 word \<Rightarrow> 'e"
  p4d_offset :: "'e \<Rightarrow> 64 word \<Rightarrow> 'e"
  pud_offset :: "'e \<Rightarrow> 64 word \<Rightarrow> 'e"
  pmd_offset :: "'e \<Rightarrow> 64 word \<Rightarrow> 'e"
  pte_offset_kernel :: "'e \<Rightarrow> 64 word \<Rightarrow> 'e"
  pgd_none :: "'e \<Rightarrow> bool"
  pgd_bad :: "'e \<Rightarrow> bool"
  p4d_none :: "'e \<Rightarrow> bool"
  p4d_bad :: "'e \<Rightarrow> bool"
  pud_none :: "'e \<Rightarrow> bool"
  pud_bad :: "'e \<Rightarrow> bool"
  pmd_none :: "'e \<Rightarrow> bool"
  pmd_bad :: "'e \<Rightarrow> bool"
  pte_none :: "'e \<Rightarrow> bool"
  pte_present :: "'e \<Rightarrow> bool"
  pte_pfn :: "'e \<Rightarrow> 64 word"

text \<open>What a read returns: an error number, or the buffer and the number of bytes that are handed to
  \<open>simple_read_from_buffer\<close>; a null pointer followed in the kernel; a write behind \<open>output_buf\<close>.\<close>

datatype reply = Errno int | Reply "8 word list" nat | Null_deref | Overrun

definition EINVAL :: int where "EINVAL = -22"
definition EFAULT :: int where "EFAULT = -14"

definition MAX_LEN :: nat where "MAX_LEN = 512"

section \<open>The module\<close>

definition base :: "64 word" where "base = push_bit 8 1"

text \<open>\<open>input_pid\<close> with the conversions of C: an \<open>int\<close> that meets an \<open>unsigned long\<close> is extended with its
  sign.\<close>

definition long_of_int :: "32 word \<Rightarrow> 64 word" where "long_of_int = scast"
definition int_of_long :: "64 word \<Rightarrow> 32 word" where "int_of_long = ucast"

definition input_pid :: "8 word list \<Rightarrow> 32 word" where
  "input_pid kb =
     (let b3 = long_of_int (int_of_long (ucast (kb ! 3) * push_bit 16 base));
          b2 = long_of_int (int_of_long (ucast (kb ! 2) * push_bit 8 base + b3))
      in int_of_long (long_of_int (ucast (kb ! 0)) + long_of_int (ucast (kb ! 1)) * base + b2))"

text \<open>\<open>base ^ i\<close> by repeated squaring.\<close>

function power_loop :: "64 word \<Rightarrow> 64 word \<Rightarrow> nat \<Rightarrow> 64 word" where
  "power_loop ret mul divisor =
     (if divisor = 0 then ret
      else power_loop (if odd divisor then ret * mul else ret) (mul * mul) (divisor div 2))"
  by pat_completeness auto
termination power_loop by (relation "measure (\<lambda>(r, m, d). d)") auto

declare power_loop.simps [simp del]

definition vaddr_of :: "8 word list \<Rightarrow> 64 word" where
  "vaddr_of kb = fold (\<lambda>i v. v + ucast (kb ! (8 + i)) * power_loop 1 base i) [0..<6] 0"

text \<open>The walk: the frame number, or \<open>None\<close> where the code returns \<open>-EFAULT\<close>.\<close>

definition walk :: "('mm, 'e) paging \<Rightarrow> 'mm \<Rightarrow> 64 word \<Rightarrow> 64 word option" where
  "walk k mm vaddr =
     (let pgd = pgd_offset k mm vaddr in
      if pgd_none k pgd \<or> pgd_bad k pgd then None
      else let p4d = p4d_offset k pgd vaddr in
      if p4d_none k p4d \<or> p4d_bad k p4d then None
      else let pud = pud_offset k p4d vaddr in
      if pud_none k pud \<or> pud_bad k pud then None
      else let pmd = pmd_offset k pud vaddr in
      if pmd_none k pmd \<or> pmd_bad k pmd then None
      else let pte = pte_offset_kernel k pmd vaddr in
      if pte_none k pte \<or> \<not> pte_present k pte then None
      else Some (pte_pfn k pte))"

text \<open>The output: the request copied, then the frame number shifted into the bytes from 17 on.\<close>

definition fill_output :: "8 word list \<Rightarrow> nat \<Rightarrow> 64 word \<Rightarrow> 8 word list" where
  "fill_output kb real_length pfn =
     (let out = fold (\<lambda>i out. out[i := kb ! i]) [0..<16] (replicate MAX_LEN 0);
          out = (if real_length \<ge> 16 then out[16 := kb ! 16] else out);
          (out, pfn) =
            (if real_length \<ge> 17
             then (out[17 := ucast (ucast (kb ! 9 mod 16) + push_bit 4 (pfn mod 16))], drop_bit 4 pfn)
             else (out, pfn));
          (out, pfn) = fold (\<lambda>i (out, pfn). (out[i := ucast (pfn mod base)], drop_bit 8 pfn)) [18..<real_length] (out, pfn)
      in out[real_length := 0])"

text \<open>\<open>user\<close> are the bytes at the user's address, \<open>readable\<close> whether \<open>copy_from_user\<close> copies them all;
  \<open>task\<close> finds the memory of a process, which kernel threads do not have.\<close>

definition read_output :: "('mm, 'e) paging \<Rightarrow> (32 word \<Rightarrow> 'mm option option) \<Rightarrow> bool \<Rightarrow> 8 word list \<Rightarrow> reply" where
  "read_output k task readable user =
     (let real_length = (if length user < MAX_LEN then length user else MAX_LEN);
          kernel_buf = take real_length user @ replicate (MAX_LEN - real_length) 0 in
      if \<not> readable then Errno EFAULT
      else case task (input_pid kernel_buf) of
        None \<Rightarrow> Errno EINVAL
      | Some None \<Rightarrow> Null_deref
      | Some (Some mm) \<Rightarrow>
          (case walk k mm (vaddr_of kernel_buf) of
             None \<Rightarrow> Errno EFAULT
           | Some pfn \<Rightarrow>
               if real_length < MAX_LEN then Reply (fill_output kernel_buf real_length pfn) real_length else Overrun))"

section \<open>Little-endian numbers\<close>

fun le :: "8 word list \<Rightarrow> int" where
  "le [] = 0"
| "le (b # bs) = uint b + 256 * le bs"

lemma le_bounds: "0 \<le> le bs \<and> le bs < 256 ^ length bs"
proof (induction bs)
  case (Cons b bs)
  have "0 \<le> uint b" "uint b < 256" using uint_lt2p [of b] by simp_all
  then show ?case using Cons by simp
qed simp

lemma le_append: "le (xs @ ys) = le xs + 256 ^ length xs * le ys"
  by (induction xs) (simp_all add: algebra_simps)

text \<open>The decoders of the module are the little-endian ones.\<close>

lemma power_loop_power: "power_loop r m n = r * m ^ n"
proof (induction r m n rule: power_loop.induct)
  case (1 r m n)
  show ?case
  proof (cases "n = 0")
    case True
    then show ?thesis by (simp add: power_loop.simps [of r m 0])
  next
    case False
    have "power_loop r m n = (if odd n then r * m else r) * (m * m) ^ (n div 2)"
      using 1 False by (simp add: power_loop.simps [of r m n])
    also have "(m * m) ^ (n div 2) = m ^ (n div 2 * 2)" by (simp add: power_mult_distrib flip: power_add mult_2_right)
    also have "(if odd n then r * m else r) * m ^ (n div 2 * 2) = r * m ^ n"
    proof (cases "odd n")
      case True
      then have "n = Suc (n div 2 * 2)" by presburger
      then have "m ^ n = m * m ^ (n div 2 * 2)" by (metis power_Suc)
      then show ?thesis using True by (simp add: mult.assoc)
    qed simp
    finally show ?thesis .
  qed
qed

lemma base_eq: "base = 256"
  by (simp add: base_def)

lemma vaddr_of_le: "uint (vaddr_of kb) = le (map ((!) kb) [8..<14])"
proof -
  have e: "vaddr_of kb = ucast (kb ! 8) + ucast (kb ! 9) * 256 + ucast (kb ! 10) * 256 ^ 2 + ucast (kb ! 11) * 256 ^ 3
      + ucast (kb ! 12) * 256 ^ 4 + ucast (kb ! 13) * 256 ^ 5"
  proof -
    have "[0..<6] = [0, 1, 2, 3, 4, 5 :: nat]" by (simp add: upt_rec)
    then show ?thesis by (simp add: vaddr_of_def power_loop_power base_eq)
  qed
  have u: "0 \<le> uint b \<and> uint b < 256" for b :: "8 word" using uint_lt2p [of b] by simp
  define n where "n = uint (kb ! 8) + uint (kb ! 9) * 256 + uint (kb ! 10) * 256 ^ 2 + uint (kb ! 11) * 256 ^ 3
      + uint (kb ! 12) * 256 ^ 4 + uint (kb ! 13) * 256 ^ 5"
  have "vaddr_of kb = word_of_int n" unfolding n_def unfolding e by simp
  moreover have "0 \<le> n" "n < 2 ^ 64" unfolding n_def
    using u [of "kb ! 8"] u [of "kb ! 9"] u [of "kb ! 10"] u [of "kb ! 11"] u [of "kb ! 12"] u [of "kb ! 13"] by simp_all
  moreover have "uint (word_of_int n :: 64 word) = n mod 2 ^ 64" by (simp only: uint_word_of_int) simp
  ultimately have v: "uint (vaddr_of kb) = n" by (simp only: mod_pos_pos_trivial)
  have i: "[8..<14] = [8, 9, 10, 11, 12, 13 :: nat]" by (simp add: upt_rec)
  show ?thesis unfolding v i n_def list.map le.simps by (simp add: algebra_simps)
qed

lemma down_mod: "(word_of_int (x mod 2 ^ 64) :: 32 word) = word_of_int x"
proof -
  have "(2 :: int) ^ 32 dvd 2 ^ 64" by (rule le_imp_power_dvd) simp
  then have "x mod 2 ^ 64 mod 2 ^ 32 = x mod 2 ^ 32" by (rule mod_mod_cancel)
  then show ?thesis by (simp only: word_of_int_eq_iff take_bit_eq_mod) simp
qed

lemma int_of_long_hom: "int_of_long (a + b) = int_of_long a + int_of_long b" "int_of_long (a * b) = int_of_long a * int_of_long b"
proof -
  have "int_of_long (a + b) = word_of_int ((uint a + uint b) mod 2 ^ 64)" "int_of_long (a * b) = word_of_int ((uint a * uint b) mod 2 ^ 64)"
    unfolding int_of_long_def ucast_eq uint_word_ariths by simp_all
  then show "int_of_long (a + b) = int_of_long a + int_of_long b" "int_of_long (a * b) = int_of_long a * int_of_long b"
    unfolding down_mod by (simp_all add: int_of_long_def)
qed

lemma int_of_long_int: "int_of_long (long_of_int w) = w"
  unfolding int_of_long_def long_of_int_def by (rule bit_word_eqI) (simp add: bit_simps)

lemma uint_word32: "0 \<le> n \<Longrightarrow> n < 2 ^ 32 \<Longrightarrow> uint (word_of_int n :: 32 word) = n"
proof -
  assume n: "0 \<le> n" "n < 2 ^ 32"
  have "uint (word_of_int n :: 32 word) = n mod 2 ^ 32" by (simp only: uint_word_of_int) simp
  then show ?thesis using n by (simp only: mod_pos_pos_trivial)
qed

lemma input_pid_le: "uint (input_pid kb) = le (map ((!) kb) [0..<4])"
proof -
  have c: "int_of_long (ucast b) = ucast b" "int_of_long (long_of_int (ucast b)) = ucast b" for b :: "8 word"
    unfolding int_of_long_int by (simp_all only: int_of_long_def) (rule bit_word_eqI, auto simp: bit_simps)
  have p: "int_of_long base = 256" "int_of_long (push_bit 8 base) = 65536" "int_of_long (push_bit 16 base) = 16777216"
    by (simp_all add: int_of_long_def base_def)
  have e: "input_pid kb = ucast (kb ! 0) + ucast (kb ! 1) * 256 + (ucast (kb ! 2) * 65536 + ucast (kb ! 3) * 16777216)"
    unfolding input_pid_def Let_def int_of_long_hom int_of_long_int c p ..
  have u: "0 \<le> uint b \<and> uint b < 256" for b :: "8 word" using uint_lt2p [of b] by simp
  define n where "n = uint (kb ! 0) + uint (kb ! 1) * 256 + (uint (kb ! 2) * 65536 + uint (kb ! 3) * 16777216)"
  have "input_pid kb = word_of_int n" unfolding e n_def by simp
  moreover have "0 \<le> n" "n < 2 ^ 32" unfolding n_def
    using u [of "kb ! 0"] u [of "kb ! 1"] u [of "kb ! 2"] u [of "kb ! 3"] by simp_all
  ultimately have v: "uint (input_pid kb) = n" using uint_word32 by simp
  have i: "[0..<4] = [0, 1, 2, 3 :: nat]" by (simp add: upt_rec)
  show ?thesis unfolding v i n_def list.map le.simps by (simp add: algebra_simps)
qed

section \<open>The output\<close>

lemma uint_mod_base: "uint (ucast (w mod base) :: 8 word) = uint w mod 256"
proof -
  have "uint (ucast (w mod base) :: 8 word) = uint (w mod base) mod 256" by (simp add: unsigned_ucast_eq take_bit_eq_mod)
  also have "uint (w mod base) = uint w mod 256" by (simp add: base_eq uint_mod)
  finally show ?thesis by simp
qed

lemma uint_drop: "uint (drop_bit n w) = uint w div 2 ^ n"
proof -
  have "uint (drop_bit n w) = drop_bit n (uint w)" by (simp add: unsigned_drop_bit_eq take_bit_int_eq_self unsigned_less)
  also have "\<dots> = uint w div 2 ^ n" by (rule drop_bit_eq_div)
  finally show ?thesis .
qed

abbreviation tail_step :: "nat \<Rightarrow> 8 word list \<times> 64 word \<Rightarrow> 8 word list \<times> 64 word" where
  "tail_step \<equiv> \<lambda>i (out, pfn). (out[i := ucast (pfn mod base)], drop_bit 8 pfn)"

lemma fill_tail:
  assumes "lo + n \<le> length out"
  shows "fold tail_step [lo..<lo + n] (out, p) =
    (take lo out @ map (\<lambda>j. ucast (drop_bit (8 * j) p mod base)) [0..<n] @ drop (lo + n) out, drop_bit (8 * n) p)"
  using assms
proof (induction n)
  case (Suc n)
  have d: "drop (lo + n) out = out ! (lo + n) # drop (lo + Suc n) out" using Suc.prems by (simp add: Cons_nth_drop_Suc)
  show ?case using Suc by (simp add: d list_update_append drop_bit_drop_bit add.commute min_def)
qed simp

lemma le_tail: "le (map (\<lambda>j. ucast (drop_bit (8 * j) p mod base)) [0..<n]) = uint p mod 256 ^ n"
proof (induction n)
  case (Suc n)
  have "(256 :: int) ^ n = 2 ^ (8 * n)" by (simp add: power_mult)
  then have "le (map (\<lambda>j. ucast (drop_bit (8 * j) p mod base)) [0..<Suc n]) = uint p mod 256 ^ n + 256 ^ n * (uint p div 256 ^ n mod 256)"
    using Suc by (simp add: le_append uint_mod_base uint_drop)
  also have "\<dots> = uint p mod (256 ^ n * 256)" by (simp add: zmod_zmult2_eq)
  finally show ?case by (simp add: mult.commute)
qed simp

lemma copy_head: "n \<le> length out \<Longrightarrow> n \<le> length kb \<Longrightarrow> fold (\<lambda>i out. out[i := kb ! i]) [0..<n] out = take n kb @ drop n out"
proof (induction n)
  case (Suc n)
  have d: "drop n out = out ! n # drop (Suc n) out" using Suc.prems by (simp add: Cons_nth_drop_Suc)
  show ?case using Suc by (simp add: d list_update_append take_Suc_conv_app_nth)
qed simp

lemma fill_output_24:
  assumes kb: "length kb = MAX_LEN"
  shows "take 16 (fill_output kb 24 pfn) = take 16 kb"
    and "le (take 8 (drop 16 (fill_output kb 24 pfn))) =
      uint (kb ! 16) + 256 * (uint (kb ! 9) mod 16) + 4096 * (uint pfn mod 2 ^ 52)"
    and "length (fill_output kb 24 pfn) = MAX_LEN"
proof -
  let ?b = "ucast (ucast (kb ! 9 mod 16) + push_bit 4 (pfn mod 16) :: 64 word) :: 8 word"
  let ?out = "take 16 kb @ [kb ! 16, ?b] @ drop 18 (replicate MAX_LEN 0)"
  have a: "fold (\<lambda>i out. out[i := kb ! i]) [0..<16] (replicate MAX_LEN 0) = take 16 kb @ drop 16 (replicate MAX_LEN 0)"
    by (rule copy_head) (simp_all add: kb MAX_LEN_def)
  have b: "(take 16 kb @ drop 16 (replicate MAX_LEN 0))[16 := kb ! 16, 17 := ?b] = ?out"
    using kb by (simp add: list_update_append MAX_LEN_def numeral_eq_Suc)
  have c: "fold tail_step [18..<24] (?out, drop_bit 4 pfn) =
      (take 18 ?out @ map (\<lambda>j. ucast (drop_bit (8 * j) (drop_bit 4 pfn) mod base)) [0..<6] @ drop 24 ?out, drop_bit 48 (drop_bit 4 pfn))"
    using fill_tail [of 18 6 ?out "drop_bit 4 pfn"] kb by (simp add: MAX_LEN_def)
  let ?t = "map (\<lambda>j. ucast (drop_bit (8 * j) (drop_bit 4 pfn) mod base) :: 8 word) [0..<6]"
  have z: "(replicate 488 0)[0 := 0] = replicate 488 (0 :: 8 word)" by (rule list_update_same_conv [THEN iffD2]) simp_all
  have "fill_output kb 24 pfn = (take 16 kb @ [kb ! 16, ?b] @ ?t @ replicate 488 0)[24 := 0]"
    unfolding fill_output_def a Let_def using b c kb by (simp add: MAX_LEN_def)
  also have "\<dots> = ((take 16 kb @ [kb ! 16, ?b] @ ?t) @ replicate 488 0)[24 := 0]" by simp
  also have "\<dots> = (take 16 kb @ [kb ! 16, ?b] @ ?t) @ (replicate 488 0)[0 := 0]"
    using kb by (subst list_update_append) (simp add: MAX_LEN_def)
  finally have f: "fill_output kb 24 pfn = (take 16 kb @ [kb ! 16, ?b] @ ?t) @ replicate 488 0" unfolding z .
  show "take 16 (fill_output kb 24 pfn) = take 16 kb" "length (fill_output kb 24 pfn) = MAX_LEN"
    unfolding f using kb by (simp_all add: MAX_LEN_def)
  have t: "take 8 (drop 16 (fill_output kb 24 pfn)) = [kb ! 16, ?b] @ ?t"
    unfolding f using kb by (simp add: MAX_LEN_def)
  define n where "n = uint (kb ! 9) mod 16 + 16 * (uint pfn mod 16)"
  have n: "0 \<le> n" "n < 256"
    using pos_mod_bound [of 16 "uint (kb ! 9)"] pos_mod_bound [of 16 "uint pfn"] by (simp_all add: n_def)
  have lo: "ucast (kb ! 9 mod 16) = (word_of_int (uint (kb ! 9) mod 16) :: 64 word)"
    unfolding ucast_eq uint_mod by simp
  have hi: "push_bit 4 (pfn mod 16) = word_of_int (16 * (uint pfn mod 16))"
    by (simp add: push_bit_eq_mult word_mod_def mult.commute)
  have "ucast (kb ! 9 mod 16) + push_bit 4 (pfn mod 16) = (word_of_int n :: 64 word)"
    unfolding lo hi n_def by (rule wi_hom_add)
  then have "?b = ucast (word_of_int n :: 64 word)" by (rule arg_cong)
  also have "\<dots> = word_of_int (n mod 2 ^ 64)" unfolding ucast_eq uint_word_of_int by simp
  also have "n mod 2 ^ 64 = n" using n by (intro mod_pos_pos_trivial) simp_all
  finally have "uint ?b = n mod 2 ^ 8" by (simp only: uint_word_of_int) simp
  then have "uint ?b = n" using n by simp
  moreover define q where "q = uint pfn div 16 mod 256 ^ 6"
  have "uint pfn mod (16 * 256 ^ 6) = 16 * q + uint pfn mod 16" unfolding q_def by (rule zmod_zmult2_eq) simp
  moreover have "16 * 256 ^ 6 = (2 :: int) ^ 52" by simp
  ultimately have p: "uint pfn mod 2 ^ 52 = 16 * q + uint pfn mod 16" and b: "uint ?b = n" by simp_all
  have "le ?t = q" unfolding le_tail uint_drop q_def by simp
  then show "le (take 8 (drop 16 (fill_output kb 24 pfn))) =
      uint (kb ! 16) + 256 * (uint (kb ! 9) mod 16) + 4096 * (uint pfn mod 2 ^ 52)"
    unfolding t le_append p le.simps b n_def by simp
qed

section \<open>The client\<close>

fun le_bytes :: "nat \<Rightarrow> int \<Rightarrow> 8 word list" where
  "le_bytes 0 v = []"
| "le_bytes (Suc n) v = word_of_int v # le_bytes n (v div 256)"

lemma le_le_bytes: "le (le_bytes n v) = v mod 256 ^ n"
proof (induction n arbitrary: v)
  case (Suc n)
  have "uint (word_of_int v :: 8 word) = v mod 256" by (simp add: uint_word_of_int)
  then show ?case using Suc [of "v div 256"] zmod_zmult2_eq [of "256 ^ n" v 256] by simp
qed simp

lemma take_le_bytes: "take m (le_bytes n v) = le_bytes (min m n) v"
proof (induction n arbitrary: m v)
  case (Suc n)
  then show ?case by (cases m) simp_all
qed simp

lemma length_le_bytes [simp]: "length (le_bytes n v) = n"
  by (induction n arbitrary: v) auto

definition PADDR :: int where "PADDR = 0xff000"

text \<open>\<open>struct packet\<close>: pid, four bytes of padding, two 8-byte numbers.\<close>

definition packet :: "8 word list \<Rightarrow> int \<Rightarrow> int \<Rightarrow> int \<Rightarrow> 8 word list" where
  "packet pad pid vaddr paddr = le_bytes 4 pid @ pad @ le_bytes 8 vaddr @ le_bytes 8 paddr"

datatype app_end = Passed | Exited int | Assertion_failed

text \<open>\<open>reader\<close> is \<open>read\<close> on the opened file: its result and the buffer afterwards, unless it crashes.\<close>

definition app_main :: "(8 word list \<Rightarrow> (int \<times> 8 word list) option) \<Rightarrow> 8 word list \<Rightarrow> int \<Rightarrow> int \<Rightarrow> int \<Rightarrow> app_end option" where
  "app_main reader pad pid vaddr fd =
     (let pckt = packet pad pid vaddr 0 in
      if fd < 0 then Some (Exited (-1))
      else case reader pckt of
        None \<Rightarrow> None
      | Some (ret, pckt) \<Rightarrow>
          if ret < 0 then Some (Exited (-1))
          else if le (take 8 (drop 16 pckt)) = PADDR then Some Passed else Some Assertion_failed)"

text \<open>The system call on a freshly opened file: an error number becomes -1, a reply is copied from
  position 0.\<close>

definition module_read :: "('mm, 'e) paging \<Rightarrow> (32 word \<Rightarrow> 'mm option option) \<Rightarrow> 8 word list \<Rightarrow> (int \<times> 8 word list) option" where
  "module_read k task buf =
     (case read_output k task True buf of
        Errno e \<Rightarrow> Some (-1, buf)
      | Reply out n \<Rightarrow> Some (int n, take n out @ drop n buf)
      | _ \<Rightarrow> None)"

section \<open>Properties\<close>

lemma kernel_buf_same:
  assumes "14 \<le> n" and "n \<le> length user"
  shows "input_pid (take n user @ replicate m 0) = input_pid user \<and> vaddr_of (take n user @ replicate m 0) = vaddr_of user"
proof -
  let ?kb = "take n user @ replicate m 0"
  have kb: "?kb ! i = user ! i" if "i < 14" for i using that assms by (simp add: nth_append)
  have "input_pid ?kb = input_pid user" using kb by (simp add: input_pid_def)
  moreover have "fold (\<lambda>i v. v + ucast (?kb ! (8 + i)) * power_loop 1 base i) [0..<6] 0
      = fold (\<lambda>i v. v + ucast (user ! (8 + i)) * power_loop 1 base i) [0..<6] 0"
    by (rule fold_cong) (use kb in auto)
  ultimately show ?thesis by (simp only: vaddr_of_def)
qed

lemma read_output_24:
  assumes len: "length user = 24" and task: "task (input_pid user) = Some (Some mm)" and w: "walk k mm (vaddr_of user) = Some pfn"
  shows "\<exists>out. read_output k task True user = Reply out 24 \<and> length out = MAX_LEN \<and> take 16 out = take 16 user
    \<and> le (take 8 (drop 16 out)) = 4096 * (uint pfn mod 2 ^ 52) + 256 * (uint (user ! 9) mod 16) + uint (user ! 16)"
proof -
  let ?kb = "user @ replicate (MAX_LEN - 24) 0"
  have kb: "length ?kb = MAX_LEN" using len by (simp add: MAX_LEN_def)
  have "input_pid ?kb = input_pid user \<and> vaddr_of ?kb = vaddr_of user" using kernel_buf_same [of 24 user "MAX_LEN - 24"] len by simp
  then have "read_output k task True user = Reply (fill_output ?kb 24 pfn) 24"
    using assms by (simp add: read_output_def Let_def MAX_LEN_def)
  moreover have "?kb ! 9 = user ! 9" "?kb ! 16 = user ! 16" "take 16 ?kb = take 16 user" using len by (simp_all add: nth_append)
  ultimately show ?thesis using fill_output_24 [OF kb, of pfn] by (simp add: add.commute)
qed

lemma nth_segment: "b \<le> length xs \<Longrightarrow> map ((!) xs) [a..<b] = take (b - a) (drop a xs)"
  by (rule nth_equalityI) auto

lemma packet_parts:
  assumes "length pad = 4"
  shows "length (packet pad pid vaddr paddr) = 24" and "uint (input_pid (packet pad pid vaddr paddr)) = pid mod 2 ^ 32"
    and "uint (vaddr_of (packet pad pid vaddr paddr)) = vaddr mod 2 ^ 48"
    and "packet pad pid vaddr paddr ! 8 = word_of_int vaddr" and "packet pad pid vaddr paddr ! 9 = word_of_int (vaddr div 256)"
    and "packet pad pid vaddr paddr ! 16 = word_of_int paddr"
proof -
  let ?p = "packet pad pid vaddr paddr"
  show l: "length ?p = 24" using assms by (simp add: packet_def)
  have "take 4 ?p = le_bytes 4 pid" by (simp add: packet_def)
  then show "uint (input_pid ?p) = pid mod 2 ^ 32" unfolding input_pid_le using nth_segment [of 4 ?p 0] l by (simp add: le_le_bytes)
  have six: "take 6 (le_bytes 8 vaddr) = le_bytes 6 vaddr" using take_le_bytes [of 6 8] by simp
  have "take 6 (drop 8 ?p) = le_bytes 6 vaddr" using assms six by (simp add: packet_def)
  then show "uint (vaddr_of ?p) = vaddr mod 2 ^ 48" unfolding vaddr_of_le using nth_segment [of 14 ?p 8] l by (simp add: le_le_bytes)
  have e: "le_bytes 8 v = word_of_int v # word_of_int (v div 256) # le_bytes 6 (v div 256 div 256)" for v
    using le_bytes.simps(2) [of 7 v] le_bytes.simps(2) [of 6 "v div 256"] by simp
  define a where "a = le_bytes 4 pid @ pad"
  have a: "length a = 8" using assms by (simp add: a_def)
  have "?p = a @ word_of_int vaddr # word_of_int (vaddr div 256) # le_bytes 6 (vaddr div 256 div 256) @ word_of_int paddr # tl (le_bytes 8 paddr)"
    unfolding packet_def e a_def by simp
  then show "?p ! 8 = word_of_int vaddr" "?p ! 9 = word_of_int (vaddr div 256)" "?p ! 16 = word_of_int paddr"
    using a by (simp_all add: nth_append)
qed

definition flat :: "64 word \<Rightarrow> (unit, unit) paging" where
  "flat pfn = \<lparr>pgd_offset = (\<lambda>_ _. ()), p4d_offset = (\<lambda>_ _. ()), pud_offset = (\<lambda>_ _. ()), pmd_offset = (\<lambda>_ _. ()),
     pte_offset_kernel = (\<lambda>_ _. ()), pgd_none = (\<lambda>_. False), pgd_bad = (\<lambda>_. False), p4d_none = (\<lambda>_. False), p4d_bad = (\<lambda>_. False),
     pud_none = (\<lambda>_. False), pud_bad = (\<lambda>_. False), pmd_none = (\<lambda>_. False), pmd_bad = (\<lambda>_. False), pte_none = (\<lambda>_. False),
     pte_present = (\<lambda>_. True), pte_pfn = (\<lambda>_. pfn)\<rparr>"

lemma walk_flat: "walk (flat pfn) mm v = Some pfn"
  by (simp add: walk_def flat_def)

lemma vaddr_offset:
  "uint (vaddr_of user) mod 4096 = 256 * (uint (user ! 9) mod 16) + uint (user ! 8)"
  "uint (vaddr_of user) mod 256 = uint (user ! 8)"
proof -
  have i: "[8..<14] = [8, 9, 10, 11, 12, 13 :: nat]" by (simp add: upt_rec)
  define r where "r = le (map ((!) user) [10..<14])"
  have "[10..<14] = [10, 11, 12, 13 :: nat]" by (simp add: upt_rec)
  then have v: "uint (vaddr_of user) = uint (user ! 8) + 256 * (uint (user ! 9) + 256 * r)"
    unfolding vaddr_of_le i r_def by simp
  have b: "0 \<le> uint (user ! j) \<and> uint (user ! j) < 256" for j using uint_lt2p [of "user ! j"] by simp
  let ?v = "uint (vaddr_of user)" and ?y = "uint (user ! 9)"
  have "?v mod (256 * 16) = 256 * (?v div 256 mod 16) + ?v mod 256" by (rule zmod_zmult2_eq) simp
  moreover have "(uint (user ! 8) + 256 * w) div 256 = w" for w using b [of 8] by simp
  then have "?v div 256 = ?y + 256 * r" unfolding v .
  moreover have "(?y + 256 * r) mod 16 = ?y mod 16" using mod_mult_self1 [of ?y "16 * r" 16] by (simp add: mult.assoc)
  moreover have "?v mod 256 = uint (user ! 8)"
  proof -
    have "(uint (user ! 8) + 256 * w) mod 256 = uint (user ! 8)" for w using b [of 8] by simp
    then show ?thesis unfolding v .
  qed
  ultimately show "?v mod 4096 = 256 * (?y mod 16) + uint (user ! 8)" "?v mod 256 = uint (user ! 8)" by simp_all
qed

lemma le_bytes_le: "le_bytes (length bs) (le bs) = bs"
proof (induction bs)
  case (Cons b bs)
  have "0 \<le> uint b" "uint b < 256" using uint_lt2p [of b] by simp_all
  then have "(uint b + 256 * le bs) div 256 = le bs" by simp
  moreover have "word_of_int (uint b + 256 * le bs) = b"
  proof -
    have "(256 :: 8 word) = 0" by (simp add: word_uint_eq_iff)
    moreover have "word_of_int (uint b + 256 * le bs) = b + 256 * word_of_int (le bs)" by simp
    ultimately show ?thesis by (simp only: mult_zero_left add_0_right)
  qed
  ultimately show ?case using Cons by simp
qed simp

lemma packet_decoded:
  assumes "length pad = 4" and "0 \<le> pid" "pid < 2 ^ 31" and "0 \<le> vaddr" "vaddr < 2 ^ 48"
  shows "input_pid (packet pad pid vaddr paddr) = word_of_int pid" and "vaddr_of (packet pad pid vaddr paddr) = word_of_int vaddr"
proof -
  let ?p = "packet pad pid vaddr paddr"
  have "uint (input_pid ?p) = pid" "uint (vaddr_of ?p) = vaddr" using packet_parts(2,3) [OF assms(1), of pid vaddr paddr] assms(2-5) by simp_all
  then show "input_pid ?p = word_of_int pid" "vaddr_of ?p = word_of_int vaddr" by (metis word_of_int_uint)+
qed

lemma read_output_packet:
  assumes "length pad = 4" and "0 \<le> pid" "pid < 2 ^ 31" and "0 \<le> vaddr" "vaddr < 2 ^ 48" and "task (word_of_int pid) = Some (Some mm)"
    and "walk k mm (word_of_int vaddr) = Some pfn" and "uint pfn < 2 ^ 52"
  shows "\<exists>out. read_output k task True (packet pad pid vaddr paddr) = Reply out 24
    \<and> take 24 out = packet pad pid vaddr (4096 * uint pfn + (vaddr mod 4096 - vaddr mod 256) + paddr mod 256)"
proof -
  let ?p = "packet pad pid vaddr paddr" and ?n = "4096 * uint pfn + (vaddr mod 4096 - vaddr mod 256) + paddr mod 256"
  note pp = packet_parts [OF assms(1), of pid vaddr paddr] and dec = packet_decoded [OF assms(1-5), of paddr]
  obtain out where o: "read_output k task True ?p = Reply out 24" "length out = MAX_LEN" "take 16 out = take 16 ?p"
    "le (take 8 (drop 16 out)) = 4096 * (uint pfn mod 2 ^ 52) + 256 * (uint (?p ! 9) mod 16) + uint (?p ! 16)"
    using read_output_24 [of ?p task mm k pfn, OF pp(1)] assms(6,7) by (auto simp: dec)
  have u: "uint (vaddr_of ?p) = vaddr" using pp(3) assms(4,5) by simp
  have "vaddr mod 4096 - vaddr mod 256 = 256 * (uint (?p ! 9) mod 16)" using vaddr_offset [of ?p] by (simp add: u)
  moreover have "uint (?p ! 16) = paddr mod 256" unfolding pp(6) by (simp add: uint_word_of_int)
  ultimately have n: "le (take 8 (drop 16 out)) = ?n" using o(4) assms(8) by simp
  have "length (take 8 (drop 16 out)) = 8" using o(2) by (simp add: MAX_LEN_def)
  then have "take 8 (drop 16 out) = le_bytes 8 ?n" using le_bytes_le [of "take 8 (drop 16 out)"] by (simp only: n)
  moreover have "take 24 out = take 16 out @ take 8 (drop 16 out)" using take_add [of 16 8 out] by simp
  moreover have "take 16 ?p = le_bytes 4 pid @ pad @ le_bytes 8 vaddr" using assms(1) by (simp add: packet_def)
  ultimately have "take 24 out = packet pad pid vaddr ?n" using o(3) by (simp add: packet_def)
  then show ?thesis using o(1) by blast
qed

lemma walk_chain:
  assumes "pgd = pgd_offset k mm v" and "p4d = p4d_offset k pgd v" and "pud = pud_offset k p4d v"
    and "pmd = pmd_offset k pud v" and "pte = pte_offset_kernel k pmd v"
  shows "walk k mm v =
    (if pgd_none k pgd \<or> pgd_bad k pgd \<or> p4d_none k p4d \<or> p4d_bad k p4d \<or> pud_none k pud \<or> pud_bad k pud
        \<or> pmd_none k pmd \<or> pmd_bad k pmd \<or> pte_none k pte \<or> \<not> pte_present k pte
     then None else Some (pte_pfn k pte))"
  by (simp add: walk_def Let_def assms)

lemma read_output_unmapped:
  assumes "length pad = 4" and "0 \<le> pid" "pid < 2 ^ 31" and "0 \<le> vaddr" "vaddr < 2 ^ 48" and "task (word_of_int pid) = Some (Some mm)"
    and "walk k mm (word_of_int vaddr) = None"
  shows "read_output k task True (packet pad pid vaddr paddr) = Errno EFAULT"
proof -
  let ?p = "packet pad pid vaddr paddr"
  have l: "length ?p = 24" by (rule packet_parts(1) [OF assms(1)])
  have "input_pid (?p @ replicate (MAX_LEN - 24) 0) = word_of_int pid" "vaddr_of (?p @ replicate (MAX_LEN - 24) 0) = word_of_int vaddr"
    using kernel_buf_same [of 24 ?p "MAX_LEN - 24"] l packet_decoded [OF assms(1-5)] by simp_all
  then show ?thesis using l assms(6,7) by (simp add: read_output_def MAX_LEN_def)
qed

text \<open>C15. The module answers a request packet with the packet in which the physical address is filled in. The process is
  found by the number in the packet and the page by walking its five levels from the address in the packet, each entry
  from the one above. If an entry of the upper levels is empty or bad, or the last one is empty or not present, the read
  fails with \<open>EFAULT\<close>. Otherwise the address is the frame number times 4096 plus the offset in the page, except for its
  lowest byte, which is the one the client had in the field.\<close>

theorem paddr_translates:
  assumes "length pad = 4" and "0 \<le> pid" "pid < 2 ^ 31" and "0 \<le> vaddr" "vaddr < 2 ^ 48" and "task (word_of_int pid) = Some (Some mm)"
    and "pgd = pgd_offset k mm (word_of_int vaddr)" and "p4d = p4d_offset k pgd (word_of_int vaddr)"
    and "pud = pud_offset k p4d (word_of_int vaddr)" and "pmd = pmd_offset k pud (word_of_int vaddr)"
    and "pte = pte_offset_kernel k pmd (word_of_int vaddr)" and "uint (pte_pfn k pte) < 2 ^ 52"
  shows "if pgd_none k pgd \<or> pgd_bad k pgd \<or> p4d_none k p4d \<or> p4d_bad k p4d \<or> pud_none k pud \<or> pud_bad k pud
      \<or> pmd_none k pmd \<or> pmd_bad k pmd \<or> pte_none k pte \<or> \<not> pte_present k pte
    then read_output k task True (packet pad pid vaddr paddr) = Errno EFAULT
    else \<exists>out. read_output k task True (packet pad pid vaddr paddr) = Reply out 24
      \<and> take 24 out = packet pad pid vaddr (4096 * uint (pte_pfn k pte) + (vaddr mod 4096 - vaddr mod 256) + paddr mod 256)"
  using walk_chain [OF assms(7-11)] read_output_unmapped [where task = task, OF assms(1-6), of k paddr]
    read_output_packet [where task = task, OF assms(1-6), of k "pte_pfn k pte" paddr] assms(12)
  by (simp split: if_splits)

text \<open>One process with a table in which only the page at \<open>0x7f0000001000\<close> is present. The entries are the pieces of the address
  seen so far.\<close>

definition one_page :: "(unit, 64 word list) paging" where
  "one_page = \<lparr>pgd_offset = (\<lambda>_ v. [drop_bit 39 v]), p4d_offset = (\<lambda>e v. e @ [v]), pud_offset = (\<lambda>e v. e @ [drop_bit 30 v]),
     pmd_offset = (\<lambda>e v. e @ [drop_bit 21 v]), pte_offset_kernel = (\<lambda>e v. e @ [drop_bit 12 v]), pgd_none = (\<lambda>e. hd e \<noteq> 0xfe), pgd_bad = (\<lambda>_. False),
     p4d_none = (\<lambda>e. length e \<noteq> 2), p4d_bad = (\<lambda>_. False), pud_none = (\<lambda>e. length e \<noteq> 3), pud_bad = (\<lambda>_. False),
     pmd_none = (\<lambda>e. length e \<noteq> 4), pmd_bad = (\<lambda>_. False), pte_none = (\<lambda>e. length e \<noteq> 5), pte_present = (\<lambda>e. last e = 0x7f0000001), pte_pfn = (\<lambda>_. 0xff)\<rparr>"

lemma paddr_translates_witness:
  "(\<exists>out. read_output one_page (\<lambda>p. if p = 0x11223344 then Some (Some ()) else None) True (packet [1, 2, 3, 4] 0x11223344 0x7f0000001234 7) = Reply out 24
      \<and> take 24 out = packet [1, 2, 3, 4] 0x11223344 0x7f0000001234 0xff207)
    \<and> read_output one_page (\<lambda>p. if p = 0x11223344 then Some (Some ()) else None) True (packet [1, 2, 3, 4] 0x11223344 0x7f0000002234 7) = Errno EFAULT"
proof -
  let ?task = "\<lambda>p :: 32 word. if p = 0x11223344 then Some (Some ()) else None"
  have d: "drop_bit 39 (0x7f0000001234 :: 64 word) = 0xfe" "drop_bit 12 (0x7f0000001234 :: 64 word) = 0x7f0000001"
    "drop_bit 39 (0x7f0000002234 :: 64 word) = 0xfe" "drop_bit 12 (0x7f0000002234 :: 64 word) = 0x7f0000002" by code_simp+
  have "\<exists>out. read_output one_page ?task True (packet [1, 2, 3, 4] 0x11223344 0x7f0000001234 7) = Reply out 24
      \<and> take 24 out = packet [1, 2, 3, 4] 0x11223344 0x7f0000001234 0xff207"
    using paddr_translates [of "[1, 2, 3, 4]" "0x11223344" "0x7f0000001234" ?task "()" _ one_page _ _ _ _ 7, OF _ _ _ _ _ _ refl refl refl refl refl]
    by (simp add: one_page_def d)
  moreover have "read_output one_page ?task True (packet [1, 2, 3, 4] 0x11223344 0x7f0000002234 7) = Errno EFAULT"
    using paddr_translates [of "[1, 2, 3, 4]" "0x11223344" "0x7f0000002234" ?task "()" _ one_page _ _ _ _ 7, OF _ _ _ _ _ _ refl refl refl refl refl]
    by (simp add: one_page_def d)
  ultimately show ?thesis by blast
qed

text \<open>The answer is the physical address exactly when the lowest byte of the address field of the
  request is the lowest byte of the virtual address: that byte is copied from the request.\<close>

theorem paddr_low_byte_from_request:
  assumes "length user = 24" and "task (input_pid user) = Some (Some mm)" and "walk k mm (vaddr_of user) = Some pfn"
    and "uint pfn < 2 ^ 52"
  shows "\<exists>out. read_output k task True user = Reply out 24 \<and>
    (le (take 8 (drop 16 out)) = 4096 * uint pfn + uint (vaddr_of user) mod 4096 \<longleftrightarrow> user ! 16 = user ! 8)"
proof -
  have v: "uint (vaddr_of user) mod 4096 = 256 * (uint (user ! 9) mod 16) + uint (user ! 8)" by (rule vaddr_offset)
  have "uint (user ! 16) = uint (user ! 8) \<longleftrightarrow> user ! 16 = user ! 8" by (simp add: word_uint_eq_iff)
  then show ?thesis using read_output_24 [of user task mm k pfn] assms unfolding v by auto
qed

lemma paddr_low_byte_from_request_witness:
  "\<exists>out. read_output (flat 0xff) (\<lambda>_. Some (Some ())) True (packet [0, 0, 0, 0] 17 0x7f0000001234 0) = Reply out 24
    \<and> le (take 8 (drop 16 out)) \<noteq> 0xff234"
proof -
  let ?p = "packet [0, 0, 0, 0] 17 0x7f0000001234 0"
  have "length ?p = 24" "?p ! 16 = 0" "?p ! 8 = 0x34" "uint (vaddr_of ?p) = 0x7f0000001234"
    using packet_parts [of "[0, 0, 0, 0]"] by simp_all
  then show ?thesis
    using paddr_low_byte_from_request [of ?p "\<lambda>_. Some (Some ())" "()" "flat 0xff" "0xff"] walk_flat by auto
qed

text \<open>The client passes its test: with the page it mapped at \<open>PADDR\<close> in the page table, the module
  answers its packet with that address.\<close>

theorem app_test_passes:
  assumes "length pad = 4" and "0 \<le> pid" and "pid < 2 ^ 31" and "0 \<le> vaddr" and "vaddr < 2 ^ 48" and "4096 dvd vaddr" and "0 \<le> fd"
    and "task (word_of_int pid) = Some (Some mm)" and "walk k mm (word_of_int vaddr) = Some (word_of_int (PADDR div 4096))"
  shows "app_main (module_read k task) pad pid vaddr fd = Some Passed"
proof -
  let ?p = "packet pad pid vaddr 0"
  note pp = packet_parts [OF assms(1), of pid vaddr 0]
  have "uint (input_pid ?p) = pid" "uint (vaddr_of ?p) = vaddr" using pp(2,3) assms(2-5) by simp_all
  then have "input_pid ?p = word_of_int pid" "vaddr_of ?p = word_of_int vaddr" by (metis word_of_int_uint)+
  then have t: "task (input_pid ?p) = Some (Some mm)" "walk k mm (vaddr_of ?p) = Some (word_of_int (PADDR div 4096))"
    using assms(8,9) by (simp_all only:)
  obtain out where o: "read_output k task True ?p = Reply out 24" "length out = MAX_LEN"
    "le (take 8 (drop 16 out)) = 4096 * (uint (word_of_int (PADDR div 4096) :: 64 word) mod 2 ^ 52) + 256 * (uint (?p ! 9) mod 16) + uint (?p ! 16)"
    using read_output_24 [of ?p task mm k, OF pp(1) t] by (elim exE conjE) (rule that)
  obtain w where "vaddr = 256 * (16 * w)" using assms(6) by (auto elim: dvdE)
  then have "vaddr div 256 mod 16 = 0" by (simp only: nonzero_mult_div_cancel_left) simp
  moreover have "uint (?p ! 9) mod 16 = vaddr div 256 mod 16"
    using mod_mod_cancel [of 16 256 "vaddr div 256"] unfolding pp(5) by (simp add: uint_word_of_int)
  ultimately have "uint (?p ! 9) mod 16 = 0" by simp
  then have "le (take 8 (drop 16 out)) = PADDR" using o(3) pp(6) by (simp add: PADDR_def)
  moreover have "take 8 (drop 16 (take 24 out @ drop 24 ?p)) = take 8 (drop 16 out)"
    using o(2) by (simp add: MAX_LEN_def drop_take)
  ultimately show ?thesis using o(1) assms(7) by (simp add: app_main_def module_read_def)
qed

lemma app_test_passes_witness:
  "app_main (module_read (flat 0xff) (\<lambda>_. Some (Some ()))) [0, 0, 0, 0] 17 0x7f0000001000 3 = Some Passed"
  by (rule app_test_passes) (simp_all add: walk_flat PADDR_def)

text \<open>The errors: a bad buffer, a process that does not exist and an unmapped page are reported as error
  numbers; a kernel thread, which has no memory of its own, makes the module follow a null pointer; a
  request of 512 bytes or more makes it write behind its buffer.\<close>

theorem read_output_errors:
  assumes "length user = 24" and "512 \<le> length long"
  shows "read_output k task False user = Errno EFAULT
    \<and> (task (input_pid user) = None \<longrightarrow> read_output k task True user = Errno EINVAL)
    \<and> (task (input_pid user) = Some (Some mm) \<and> walk k mm (vaddr_of user) = None \<longrightarrow> read_output k task True user = Errno EFAULT)
    \<and> (task (input_pid user) = Some None \<longrightarrow> read_output k task True user = Null_deref)
    \<and> (task (input_pid long) = Some (Some mm) \<and> walk k mm (vaddr_of long) = Some pfn \<longrightarrow> read_output k task True long = Overrun)"
  using kernel_buf_same [of 24 user "MAX_LEN - 24"] kernel_buf_same [of 512 long 0] assms
  by (simp_all add: read_output_def Let_def MAX_LEN_def)

lemma read_output_errors_witness:
  "read_output (flat 0xff) (\<lambda>_. Some (Some ())) True (replicate 512 1) = Overrun
   \<and> read_output (flat 0xff) (\<lambda>_. Some None) True (replicate 24 1) = Null_deref
   \<and> read_output (flat 0xff) (\<lambda>_. None) True (replicate 24 1) = Errno EINVAL
   \<and> read_output (flat 0xff) (\<lambda>_. None) False (replicate 24 1) = Errno EFAULT
   \<and> read_output (flat 0xff \<lparr>pud_none := \<lambda>_. True\<rparr>) (\<lambda>_. Some (Some ())) True (replicate 24 1) = Errno EFAULT"
proof -
  have "walk (flat 0xff \<lparr>pud_none := \<lambda>_. True\<rparr>) () v = None" for v by (simp add: walk_def flat_def)
  then show ?thesis
    using read_output_errors [where user = "replicate 24 1" and long = "replicate 512 1"
        and k = "flat 0xff" and task = "\<lambda>_. Some (Some ())" and mm = "()" and pfn = "0xff"]
      read_output_errors [where user = "replicate 24 1" and long = "replicate 512 1"
        and k = "flat 0xff" and task = "\<lambda>_. Some None"]
      read_output_errors [where user = "replicate 24 1" and long = "replicate 512 1"
        and k = "flat 0xff" and task = "\<lambda>_. None"]
      read_output_errors [where user = "replicate 24 1" and long = "replicate 512 1" and mm = "()"
        and k = "flat 0xff \<lparr>pud_none := \<lambda>_. True\<rparr>" and task = "\<lambda>_. Some (Some ())"]
    by (simp add: walk_flat)
qed

end
