(* ===== verification/Process_Tree.thy ===== *)
theory Process_Tree
  imports C_Text
begin

text \<open>
  The kernel module \<open>kernellab/ptree/dbfs_ptree.c\<close>: writing a process id makes the chain of its
  ancestors readable. The process table of the kernel is a parameter.
\<close>

section \<open>The module\<close>

record 't procs =
  find_task :: "32 word \<Rightarrow> 't option"
  comm :: "'t \<Rightarrow> string"
  pid :: "'t \<Rightarrow> int"
  real_parent :: "'t \<Rightarrow> 't"

text \<open>The result of the call: the length, an error number, or a write behind one of the buffers.\<close>

datatype written = Wrote nat | Err int | Overran

definition TMP_LEN :: nat where "TMP_LEN = 512"
definition RESULT_LEN :: nat where "RESULT_LEN = 1000"

text \<open>The kernel's \<open>sscanf\<close> with \<open>%u\<close>: white space, then digits, no sign; what does not fit is cut off.\<close>

definition kernel_scan_u :: "string \<Rightarrow> 32 word option" where
  "kernel_scan_u s =
     (let ds = takeWhile digit (dropWhile (\<lambda>c. blank c \<or> code c = 160) s) in
      if ds = [] then None else Some (word_of_int (number ds)))"

definition entry_line :: "'t procs \<Rightarrow> 't \<Rightarrow> string" where
  "entry_line k t = comm k t @ '' ('' @ show_int (pid k t) @ '')'' @ [CHR 0x0A]"

text \<open>The loop: \<open>sprintf\<close> puts a line in front of the copy of \<open>result\<close>. \<open>None\<close> is the text that does not
  fit into the 1000 bytes any more.\<close>

function ancestry :: "'t procs \<Rightarrow> 't \<Rightarrow> string \<Rightarrow> string option" where
  "ancestry k t result =
     (let result = entry_line k t @ result in
      if RESULT_LEN \<le> length result then None
      else if pid k t = 1 then Some result
      else ancestry k (real_parent k t) result)"
  by pat_completeness auto
termination ancestry
  by (relation "measure (\<lambda>(k, t, r). RESULT_LEN - length r)") (auto simp: entry_line_def)

declare ancestry.simps [simp del]

text \<open>\<open>user\<close> are the bytes written, \<open>junk\<close> what \<open>kmalloc\<close> left behind them in \<open>tmp_buffer\<close>, \<open>stale\<close> the
  uninitialised \<open>input_pid\<close>. The second component is the global \<open>result\<close>.\<close>

definition write_pid_to_input ::
  "'t procs \<Rightarrow> bool \<Rightarrow> string \<Rightarrow> 32 word \<Rightarrow> string \<Rightarrow> string \<Rightarrow> written \<times> string" where
  "write_pid_to_input k readable junk stale user result =
     (if TMP_LEN < length user then (Overran, result)
      else if \<not> readable then (Err (-14), result)
      else
        let tmp_buffer = takeWhile (\<lambda>c. c \<noteq> CHR 0x00) (user @ junk);
            input_pid = (case kernel_scan_u tmp_buffer of None \<Rightarrow> stale | Some v \<Rightarrow> v)
        in case find_task k input_pid of
             None \<Rightarrow> (Err (-22), result)
           | Some t \<Rightarrow> (case ancestry k t [] of
               None \<Rightarrow> (Overran, result)
             | Some s \<Rightarrow> (Wrote (length user), s)))"

section \<open>The chain of ancestors\<close>

fun ancestors :: "'t procs \<Rightarrow> 't list \<Rightarrow> bool" where
  "ancestors k [] = False"
| "ancestors k [t] = (pid k t = 1)"
| "ancestors k (t # u # ts) = (pid k t \<noteq> 1 \<and> real_parent k t = u \<and> ancestors k (u # ts))"

definition tree_text :: "'t procs \<Rightarrow> 't list \<Rightarrow> string" where
  "tree_text k ts = concat (map (entry_line k) (rev ts))"

lemma ancestry_chain:
  assumes "ancestors k (t # ts)"
  shows "ancestry k t r = (if length (tree_text k (t # ts) @ r) < RESULT_LEN then Some (tree_text k (t # ts) @ r) else None)"
  using assms
proof (induction ts arbitrary: t r)
  case Nil
  then show ?case by (simp add: ancestry.simps [of k t r] tree_text_def Let_def not_le)
next
  case (Cons u ts)
  have c: "pid k t \<noteq> 1" "real_parent k t = u" "ancestors k (u # ts)" using Cons.prems by simp_all
  have x: "tree_text k (t # u # ts) @ r = tree_text k (u # ts) @ entry_line k t @ r" by (simp add: tree_text_def)
  have s: "ancestry k t r = (if RESULT_LEN \<le> length (entry_line k t @ r) then None else ancestry k u (entry_line k t @ r))"
    using c by (simp add: ancestry.simps [of k t r] Let_def)
  show ?case unfolding s Cons.IH [OF c(3)] x by (simp add: not_le)
qed

lemma no_init_overruns:
  assumes "\<And>n. pid k ((real_parent k ^^ n) t) \<noteq> 1"
  shows "ancestry k t r = None"
  using assms
proof (induction k t r rule: ancestry.induct)
  case (1 k t r)
  have "pid k t \<noteq> 1" using 1(2) [of 0] by simp
  moreover have "pid k ((real_parent k ^^ n) (real_parent k t)) \<noteq> 1" for n
    using 1(2) [of "Suc n"] by (simp add: funpow_swap1)
  ultimately show ?case using 1(1) [OF refl] by (cases "RESULT_LEN \<le> length (entry_line k t @ r)") (simp_all add: ancestry.simps [of k t r] Let_def)
qed

lemma kernel_scan_decimal:
  assumes "r = [] \<or> \<not> digit (hd r)"
  shows "kernel_scan_u (takeWhile (\<lambda>c. c \<noteq> CHR 0x00) (decimal n @ r)) = Some (word_of_int (int n))"
proof -
  have d: "\<forall>c \<in> set (decimal n). digit c" using decimal_digits by blast
  have nz: "\<forall>c \<in> set (decimal n). c \<noteq> CHR 0x00" using d by (auto simp: digit_def code_def)
  have "takeWhile (\<lambda>c. c \<noteq> CHR 0x00) (decimal n @ r) = decimal n @ takeWhile (\<lambda>c. c \<noteq> CHR 0x00) r"
    using nz by (induction "decimal n") (auto simp: takeWhile_append)
  moreover define t where "t = takeWhile (\<lambda>c. c \<noteq> CHR 0x00) r"
  moreover have "t = [] \<or> \<not> digit (hd t)" unfolding t_def using assms by (cases r) auto
  moreover have "dropWhile (\<lambda>c. blank c \<or> code c = 160) (decimal n @ t) = decimal n @ t"
    using hd_decimal [of n] digit_facts(1) [OF hd_decimal [of n]] by (cases "decimal n") (auto simp: digit_def)
  ultimately show ?thesis using take_digits(1) [OF d, of t] number_decimal [of n] by (simp add: kernel_scan_u_def Let_def)
qed

section \<open>Properties\<close>

text \<open>C16. Writing the decimal id of a process whose ancestors lead to process 1 makes the list of its
  ancestors readable, from process 1 down to the process itself, one line each, as long as the text fits
  into the 1000 bytes.\<close>

theorem ptree_lists_ancestors:
  assumes "ancestors k (t # ts)" and "length (tree_text k (t # ts)) < 1000" and "find_task k (word_of_int (int n)) = Some t"
    and "length (decimal n @ r) \<le> 512" and "r @ junk = [] \<or> \<not> digit (hd (r @ junk))"
  shows "write_pid_to_input k True junk stale (decimal n @ r) result =
    (Wrote (length (decimal n @ r)), concat (map (entry_line k) (rev (t # ts))))"
proof -
  have "kernel_scan_u (takeWhile (\<lambda>c. c \<noteq> CHR 0x00) ((decimal n @ r) @ junk)) = Some (word_of_int (int n))"
    using kernel_scan_decimal [OF assms(5), of n] by simp
  moreover have "ancestry k t [] = Some (tree_text k (t # ts))"
    using ancestry_chain [OF assms(1), of "[]"] assms(2) by (simp add: RESULT_LEN_def)
  ultimately show ?thesis using assms(3,4) by (simp add: write_pid_to_input_def Let_def TMP_LEN_def tree_text_def)
qed

definition small_procs :: "int procs" where
  "small_procs = \<lparr>find_task = (\<lambda>w. if w = 2 then Some 2 else if w = 17 then Some 17 else None),
     comm = (\<lambda>t. if t = 1 then ''systemd'' else if t = 17 then ''bash'' else if t = 2 then ''kthreadd'' else ''swapper''),
     pid = (\<lambda>t. t), real_parent = (\<lambda>t. if t = 17 then 1 else 0)\<rparr>"

lemma ptree_lists_ancestors_witness:
  "write_pid_to_input small_procs True [CHR 0x00] 0 (decimal 17) [] = (Wrote 2, ''systemd (1)'' @ [CHR 0x0A] @ ''bash (17)'' @ [CHR 0x0A])"
proof -
  have l: "entry_line small_procs 1 = ''systemd (1)'' @ [CHR 0x0A]" "entry_line small_procs 17 = ''bash (17)'' @ [CHR 0x0A]"
    "decimal 17 = ''17''" by code_simp+
  have "ancestors small_procs [17, 1]" by (simp add: small_procs_def)
  moreover have "length (tree_text small_procs [17, 1]) < 1000" by (simp add: tree_text_def l)
  moreover have "find_task small_procs (word_of_int (int 17)) = Some 17" by (simp add: small_procs_def)
  ultimately show ?thesis
    using ptree_lists_ancestors [of small_procs 17 "[1]" 17 "[]" "[CHR 0x00]" 0 "[]"] by (simp add: l digit_def code_def)
qed

text \<open>For a process that does not descend from process 1, as kernel threads and the idle process, which
  is its own parent, the loop never stops and writes behind the 1000 bytes.\<close>

theorem ptree_overruns_without_init:
  assumes "\<forall>i. pid k ((real_parent k ^^ i) t) \<noteq> 1" and "find_task k (word_of_int (int n)) = Some t"
    and "length (decimal n) \<le> 512" and "junk = [] \<or> \<not> digit (hd junk)"
  shows "write_pid_to_input k True junk stale (decimal n) result = (Overran, result)"
  using kernel_scan_decimal [OF assms(4), of n] no_init_overruns [of k t "[]"] assms(1-3)
  by (simp add: write_pid_to_input_def Let_def TMP_LEN_def)

lemma ptree_overruns_without_init_witness:
  "write_pid_to_input small_procs True [CHR 0x00] 0 (decimal 2) ''x'' = (Overran, ''x'')"
proof -
  have "(real_parent small_procs ^^ i) 2 = (if i = 0 then 2 else 0)" for i
    by (induction i) (simp_all add: small_procs_def)
  moreover have "decimal 2 = ''2''" by code_simp
  ultimately show ?thesis
    using ptree_overruns_without_init [of small_procs 2 2 "[CHR 0x00]" 0 "''x''"] by (simp add: small_procs_def digit_def code_def)
qed

end
