(* ===== verification/Shell_Main.thy ===== *)
theory Shell_Main
  imports Tiny_Shell C_Text
begin

text \<open>
  The read and evaluation loop of \<open>main\<close> in \<open>shlab/tsh.c\<close>: options, \<open>fgets\<close>, and a run of the shell over its
  input (a text without NUL characters). What the kernel does in each round (signals, process ids, the uninitialised contents of \<open>eval\<close>'s
  variables) is an argument. The prompt and flushing of the output are left out.
\<close>

section \<open>Options\<close>

datatype shell_start = Run_shell bool bool | Usage_exit

text \<open>The option letters as \<open>getopt\<close> delivers them; the flags are \<open>emit_prompt\<close> and \<open>verbose\<close>.\<close>

fun shell_options :: "char list \<Rightarrow> bool \<Rightarrow> bool \<Rightarrow> shell_start" where
  "shell_options [] emit_prompt verbose = Run_shell emit_prompt verbose"
| "shell_options (c # cs) emit_prompt verbose =
     (if c = CHR ''v'' then shell_options cs emit_prompt True
      else if c = CHR ''p'' then shell_options cs False verbose
      else Usage_exit)"

section \<open>The loop\<close>

text \<open>One round: the signals while the shell waits for input, whether the input can be read at all, the contents of
  \<open>eval\<close>'s variables, and what happens while it runs.\<close>

record round =
  idle :: "event list"
  input_error :: bool
  stale :: "string list"
  blocked :: bool
  early :: "(int \<times> status) list"
  during :: "event list"

text \<open>The run of the shell: it waits for the next round, has ended with an exit code, is undefined, or spins.\<close>

datatype session = Waiting shell | Ended int | Broken | Hangs

definition after :: "shell res \<Rightarrow> (shell \<Rightarrow> session) \<Rightarrow> session" where
  "after r f = (case r of Done sh \<Rightarrow> f sh | Exit_shell n \<Rightarrow> Ended n | Undefined \<Rightarrow> Broken)"

text \<open>\<open>unix_error\<close> and \<open>app_error\<close> print a message and end the shell.\<close>

definition app_error_sh :: "string \<Rightarrow> string \<times> int" where
  "app_error_sh msg = (msg @ [CHR 0x0A], 1)"

definition unix_error_sh :: "(int \<Rightarrow> string) \<Rightarrow> int \<Rightarrow> string \<Rightarrow> string \<times> int" where
  "unix_error_sh strerror errno msg = (msg @ '': '' @ strerror errno @ [CHR 0x0A], 1)"

text \<open>\<open>fork\<close> is the process id the kernel gives to the next child. At the end of the file the shell exits
  before it looks at the line. Signals that were not used while \<open>eval\<close> ran arrive behind it.\<close>

fun main_loop :: "(shell \<Rightarrow> int) \<Rightarrow> round list \<Rightarrow> string \<Rightarrow> shell \<Rightarrow> session" where
  "main_loop fork [] input sh = Waiting sh"
| "main_loop fork (r # rs) input sh =
     after (deliver_all (idle r) sh) (\<lambda>sh.
       case fgets MAXLINE input of (line, rest, eof) \<Rightarrow>
         if input_error r then Ended (snd (app_error_sh ''fgets error''))
         else if eof then Ended 0
         else (case eval (stale r) (blocked r) (fork sh) (early r) line (during r) sh of
                 None \<Rightarrow> Hangs
               | Some (Exit_shell n) \<Rightarrow> Ended n
               | Some Undefined \<Rightarrow> Broken
               | Some (Done (sh, es)) \<Rightarrow> after (deliver_all es sh) (main_loop fork rs rest)))"

definition shell_main :: "char list \<Rightarrow> (shell \<Rightarrow> int) \<Rightarrow> round list \<Rightarrow> string \<Rightarrow> session" where
  "shell_main opts fork rs input =
     (case shell_options opts True False of Usage_exit \<Rightarrow> Ended 1 | Run_shell emit_prompt verbose \<Rightarrow> main_loop fork rs input new_shell)"

section \<open>The states of a shell between two commands\<close>

inductive reachable :: "shell \<Rightarrow> bool" where
  start: "reachable new_shell"
| signals: "reachable sh \<Longrightarrow> deliver_all es sh = Done sh' \<Longrightarrow> reachable sh'"
| command: "reachable sh \<Longrightarrow> job_of (jl sh) p = None \<Longrightarrow> eval st bl p ea line es sh = Some (Done (sh', es')) \<Longrightarrow> reachable sh'"

inductive_cases reachableE: "reachable sh"

lemma deliver_all_at_prompt: "at_prompt sh \<Longrightarrow> deliver_all es sh = Done sh' \<Longrightarrow> at_prompt sh'"
  by (rule deliver_all_keeps [where P = at_prompt]) (use at_prompt_deliver in blast)+

lemma reachable_at_prompt: "reachable sh \<Longrightarrow> at_prompt sh"
  by (induction rule: reachable.induct) (use new_shell_prompt(1) deliver_all_at_prompt eval_at_prompt in blast)+

lemma after_Waiting: "after r f = Waiting sh \<longleftrightarrow> (\<exists>s. r = Done s \<and> f s = Waiting sh)"
  by (auto simp: after_def split: res.splits)

lemma main_loop_reachable:
  assumes "\<And>sh. job_of (jl sh) (fork sh) = None"
  shows "reachable sh \<Longrightarrow> main_loop fork rs input sh = Waiting sh' \<Longrightarrow> reachable sh'"
proof (induction rs arbitrary: input sh)
  case (Cons r rs)
  obtain s where s: "deliver_all (idle r) sh = Done s" using Cons.prems(2) by (auto simp: after_Waiting)
  have rs: "reachable s" by (rule reachable.signals [OF Cons.prems(1) s])
  obtain line rest where fg: "fgets MAXLINE input = (line, rest, False)" and ie: "input_error r = False"
    using Cons.prems(2) s by (auto simp: after_Waiting split: prod.splits if_splits)
  obtain s1 es s2 where e: "eval (stale r) (blocked r) (fork s) (early r) line (during r) s = Some (Done (s1, es))"
    and d: "deliver_all es s1 = Done s2" and m: "main_loop fork rs rest s2 = Waiting sh'"
    using Cons.prems(2) s fg ie by (auto simp: after_Waiting split: option.splits res.splits prod.splits)
  have "reachable s1" by (rule reachable.command [OF rs assms e])
  then have "reachable s2" by (rule reachable.signals [OF _ d])
  then show ?case by (rule Cons.IH [OF _ m])
qed simp

text \<open>C28. After any number of rounds, whatever lines were typed and whatever signals arrived, a shell that waits for
  the next line has a job list in order and no foreground job.\<close>

theorem shell_never_keeps_foreground:
  assumes "\<And>sh. job_of (jl sh) (fork sh) = None" and "shell_main opts fork rs input = Waiting sh"
  shows "jobs_inv (jl sh) \<and> (\<forall>p j. job_of (jl sh) p = Some j \<longrightarrow> state j \<noteq> FG)"
proof -
  have "main_loop fork rs input new_shell = Waiting sh"
    using assms(2) by (simp add: shell_main_def split: shell_start.splits)
  then have "at_prompt sh" using main_loop_reachable [OF assms(1) reachable.start] reachable_at_prompt by blast
  then show ?thesis by (auto simp: at_prompt_def job_table.fgs_def)
qed

section \<open>Lines\<close>

text \<open>The reference: the commands one after the other, without any input.\<close>

fun run_lines :: "(shell \<Rightarrow> int) \<Rightarrow> (round \<times> string) list \<Rightarrow> (shell \<Rightarrow> session) \<Rightarrow> shell \<Rightarrow> session" where
  "run_lines fork [] k sh = k sh"
| "run_lines fork ((r, l) # ls) k sh =
     after (deliver_all (idle r) sh) (\<lambda>sh.
       case eval (stale r) (blocked r) (fork sh) (early r) (l @ [CHR 0x0A]) (during r) sh of
         None \<Rightarrow> Hangs | Some (Exit_shell n) \<Rightarrow> Ended n | Some Undefined \<Rightarrow> Broken
       | Some (Done (sh, es)) \<Rightarrow> after (deliver_all es sh) (run_lines fork ls k))"

text \<open>C29. On an input of short lines the loop behaves as the commands run one after the other: every complete line is
  evaluated once, in order, and text behind the last newline is never evaluated.\<close>

theorem shell_runs_complete_lines:
  assumes "length rs = length ls" and "\<forall>l \<in> set (last_line # ls). CHR 0x0A \<notin> set l \<and> length l < MAXLINE - 1"
    and "\<forall>r \<in> set (rs @ [r]). \<not> input_error r"
  shows "main_loop fork (rs @ [r]) (concat (map (\<lambda>l. l @ [CHR 0x0A]) ls) @ last_line) sh =
    run_lines fork (zip rs ls) (\<lambda>sh. after (deliver_all (idle r) sh) (\<lambda>_. Ended 0)) sh"
  using assms
proof (induction rs ls arbitrary: sh rule: list_induct2)
  case Nil
  then show ?case using fgets_last [of last_line MAXLINE] by (simp cong: if_cong)
next
  case (Cons r0 rs l ls)
  have ih: "main_loop fork (rs @ [r]) (concat (map (\<lambda>l. l @ [CHR 0x0A]) ls) @ last_line) =
      run_lines fork (zip rs ls) (\<lambda>sh. after (deliver_all (idle r) sh) (\<lambda>_. Ended 0))"
    by (rule ext) (use Cons in simp)
  have re: "input_error r0 = False" using Cons.prems(2) by simp
  let ?rest = "concat (map (\<lambda>l. l @ [CHR 0x0A]) ls) @ last_line"
  have fg: "fgets MAXLINE (l @ CHR 0x0A # ?rest) = (l @ [CHR 0x0A], ?rest, False)" by (rule fgets_line) (use Cons.prems in simp_all)
  have "main_loop fork ((r0 # rs) @ [r]) (l @ CHR 0x0A # ?rest) sh =
      run_lines fork ((r0, l) # zip rs ls) (\<lambda>sh. after (deliver_all (idle r) sh) (\<lambda>_. Ended 0)) sh"
    by (simp only: append_Cons main_loop.simps run_lines.simps fg ih prod.case if_False re)
  then show ?case by simp
qed

section \<open>Witnesses\<close>

text \<open>A kernel that hands out a process id above those of all jobs.\<close>

definition next_pid :: "shell \<Rightarrow> int" where
  "next_pid sh = 1 + sum_list (map (\<lambda>j. \<bar>pid j\<bar>) (jobs (jl sh)))"

lemma next_pid_free: "job_of (jl sh) (next_pid sh) = None"
proof -
  have "pid j \<noteq> next_pid sh" if "j \<in> set (jobs (jl sh))" for j
  proof -
    have "\<bar>pid j\<bar> \<le> sum_list (map (\<lambda>j. \<bar>pid j\<bar>) (jobs (jl sh)))"
      using that by (intro member_le_sum_list) auto
    then show ?thesis by (simp add: next_pid_def)
  qed
  then show ?thesis by (simp add: job_of_def getjobpid_def first_index_None)
qed

definition quick_round :: round where
  "quick_round = \<lparr>idle = [], input_error = False, stale = [''/bin/ls''], blocked = True, early = [(1, Exited 0)], during = []\<rparr>"

lemma shell_never_keeps_foreground_witness:
  "\<exists>sh. shell_main [CHR ''p''] next_pid [quick_round] (''ls'' @ [CHR 0x0A]) = Waiting sh \<and> (\<forall>p j. job_of (jl sh) p = Some j \<longrightarrow> state j \<noteq> FG)"
proof -
  have "case shell_main [CHR ''p''] next_pid [quick_round] (''ls'' @ [CHR 0x0A]) of Waiting sh \<Rightarrow> True | _ \<Rightarrow> False" by code_simp
  then obtain sh where "shell_main [CHR ''p''] next_pid [quick_round] (''ls'' @ [CHR 0x0A]) = Waiting sh"
    by (auto split: session.splits)
  then show ?thesis using shell_never_keeps_foreground [of next_pid] next_pid_free by blast
qed

lemma shell_runs_complete_lines_witness:
  "main_loop next_pid [quick_round, quick_round] (''ls'' @ [CHR 0x0A] @ ''quit'') new_shell = Ended 0"
proof -
  have "run_lines next_pid [(quick_round, ''ls'')] (\<lambda>sh. after (deliver_all (idle quick_round) sh) (\<lambda>_. Ended 0)) new_shell = Ended 0"
    by code_simp
  then show ?thesis
    using shell_runs_complete_lines [of "[quick_round]" "[''ls'']" "''quit''" quick_round next_pid new_shell] by (simp add: MAXLINE_def quick_round_def)
qed

end
