(* ===== verification/Proxy_Main.thy ===== *)
theory Proxy_Main
  imports Web_Proxy
begin

text \<open>
  The main loop of \<open>proxy.c\<close>. The handlers of the connections run one after the other here; what changes when they run
  concurrently is the subject of \<open>Cache_Threads\<close>.
\<close>

section \<open>The main loop\<close>

text \<open>What the calls around one connection return: \<open>accept\<close>, \<open>pthread_create\<close> and \<open>pthread_detach\<close>. Their wrappers end the
  process on an error.\<close>

record answers =
  a_accept :: int
  a_create :: int
  a_detach :: int

text \<open>What happens to one connection: the bytes of the client, the descriptor to it, the servers, the
  contents of uninitialised memory, the clock.\<close>

record connection =
  around :: answers
  from_client :: source
  to_client :: sink
  servers :: network
  junk_byte :: "8 word"
  stale_text :: chars
  clock_now :: int

definition thread_handler :: "connection \<Rightarrow> int \<Rightarrow> proxy \<Rightarrow> (sink \<times> proxy) outcome option" where
  "thread_handler cn clientfd st =
     (if ended (Pthread_detach (\<lambda>_. Pair (a_detach (around cn))) () calls) then Some Exit_proxy
      else
        (case outcome_bind (proxy_Malloc st) (client_handler (from_client cn)) of
           Exit_proxy \<Rightarrow> Some Exit_proxy
         | Undefined \<Rightarrow> Some Undefined
         | Ok (req, st) \<Rightarrow>
             server_handler (servers cn) (junk_byte cn) (stale_text cn) (clock_now cn) clientfd (to_client cn) req st))"

text \<open>\<open>root_cache\<close> is allocated with \<open>malloc\<close>, the result of which is not tested. \<open>mem\<close> is the number of allocations that
  succeed.\<close>

definition proxy_init_cache :: "int \<Rightarrow> nat \<Rightarrow> process \<Rightarrow> proxy" where
  "proxy_init_cache now mem pr = \<lparr>cache = [init_cache_root now], cache_volume = 0, headers = [], stray = 0, mallocs = mem, proc = pr\<rparr>"

fun accept_loop :: "connection list \<Rightarrow> proxy \<Rightarrow> (sink list \<times> proxy) outcome option" where
  "accept_loop [] st = Some (Ok ([], st))"
| "accept_loop (cn # cns) st =
     (case proxy_Malloc st of
        Exit_proxy \<Rightarrow> Some Exit_proxy
      | Undefined \<Rightarrow> Some Undefined
      | Ok st \<Rightarrow>
          let clientfd = a_accept (around cn) in
          if ended (Accept (\<lambda>_ _ _. Pair clientfd) () () () calls) then Some Exit_proxy
          else if ended (Pthread_create (\<lambda>_ _ _ _. Pair (a_create (around cn))) () () () () calls) then Some Exit_proxy
          else
            (case thread_handler cn clientfd (st\<lparr>proc := (proc st)\<lparr>open_fds := clientfd # open_fds (proc st)\<rparr>\<rparr>) of
               None \<Rightarrow> None
             | Some Exit_proxy \<Rightarrow> Some Exit_proxy
             | Some Undefined \<Rightarrow> Some Undefined
             | Some (Ok (k, st)) \<Rightarrow>
                 (case accept_loop cns st of Some (Ok (ks, st)) \<Rightarrow> Some (Ok (k # ks, st)) | r \<Rightarrow> r)))"

text \<open>The run of the proxy: it exits when it cannot listen.\<close>

definition proxy_main :: "unit + attempt list \<Rightarrow> (int \<Rightarrow> bool) \<Rightarrow> process \<Rightarrow> int \<Rightarrow> nat \<Rightarrow> connection list \<Rightarrow> (sink list \<times> proxy) outcome option" where
  "proxy_main found listens pr now mem cns =
     (case mem of
        0 \<Rightarrow> Some Undefined
      | Suc mem \<Rightarrow>
          (case Open_listenfd found listens pr of
             (Exits, _) \<Rightarrow> Some Exit_proxy
           | (Returns listenfd, pr) \<Rightarrow> accept_loop cns (proxy_init_cache now mem pr)))"

section \<open>The cache over a run\<close>

lemma cache_inv_extends: "cache_inv st \<Longrightarrow> extends st st' \<Longrightarrow> cache_inv st'"
  by (auto simp: cache_inv_def extends_def)

lemma search_from_range: "search_from i p h cs = Some k \<Longrightarrow> i \<le> k \<and> k < i + length cs"
  by (induction i p h cs rule: search_from.induct) (auto split: if_splits)

lemma cache_inv_update_time:
  assumes "cache_inv st" and "i < length (cache st)"
  shows "cache_inv (update_time i now st)"
proof -
  have m: "map c_size ((cache st)[i := (cache st ! i)\<lparr>c_time := now\<rparr>]) = map c_size (cache st)"
    using assms(2) by (intro nth_equalityI) (auto simp: nth_list_update)
  have "c_size (hd ((cache st)[i := (cache st ! i)\<lparr>c_time := now\<rparr>])) = c_size (hd (cache st))"
    using m assms(1) by (cases "cache st"; cases i) (auto simp: cache_inv_def)
  moreover have "map c_size (tl ((cache st)[i := (cache st ! i)\<lparr>c_time := now\<rparr>])) = map c_size (tl (cache st))"
    using m by (simp only: map_tl)
  ultimately show ?thesis using assms(1) by (auto simp: cache_inv_def update_time_def)
qed

lemma relay_loop_bound:
  assumes "relay_loop r = Some q"
  shows "r_ptr r \<le> MAX_OBJECT_SIZE \<longrightarrow> (\<forall>r'. q = Ok r' \<longrightarrow> r_ptr r' \<le> MAX_OBJECT_SIZE)"
proof (rule relay_loop.raw_induct [where P = "\<lambda>r q. r_ptr r \<le> MAX_OBJECT_SIZE \<longrightarrow> (\<forall>r'. q = Ok r' \<longrightarrow> r_ptr r' \<le> MAX_OBJECT_SIZE)",
    OF _ assms], goal_cases)
  case (1 loop r q)
  from 1(2) show ?case
    by (auto split: call_result.splits prod.splits if_splits simp: Let_def dest!: 1(1))
qed

text \<open>Only the parts of the state that the invariant speaks of matter.\<close>

lemma cache_inv_same: "cache st' = cache st \<Longrightarrow> cache_volume st' = cache_volume st \<Longrightarrow> cache_inv st' = cache_inv st"
  by (simp add: cache_inv_def)

lemma cache_inv_Close: "proxy_Close fine fd st = Ok st' \<Longrightarrow> cache_inv st' = cache_inv st \<and> headers st' = headers st"
  by (auto simp: proxy_Close_eq cache_inv_def split: if_splits)

lemma cache_inv_response:
  assumes "cache_inv st" and "r_ptr r \<le> MAX_OBJECT_SIZE" and "cache_response junk now hh path r st = Ok st'"
  shows "cache_inv st' \<and> headers st' = headers st"
proof (cases "r_cachable r")
  case True
  obtain root items where c: "cache st = root # items" using assms(1) by (auto simp: cache_inv_def neq_Nil_conv)
  have "int (r_ptr r) \<le> MAX_CACHE_SIZE" using assms(2) by (simp add: MAX_OBJECT_SIZE_def MAX_CACHE_SIZE_def)
  then obtain st1 items' where e: "evict_loop (r_ptr r) st = Some st1" "cache st1 = root # items'"
    "cache_volume st1 + int (r_ptr r) \<le> MAX_CACHE_SIZE" "cache_inv st1" "headers st1 = headers st"
    using evict_loop_makes_room [OF assms(1) c] by blast
  show ?thesis using assms(3) True e
    by (auto simp: cache_response_def proxy_malloc_def cache_inv_def add_cached_def split: prod.splits if_splits)
qed (use assms in \<open>simp add: cache_response_def\<close>)

lemma cache_inv_send_request:
  assumes inv: "cache_inv st" and r: "send_request net junk stale now clientfd client req hh st = Some (Ok (k, st'))"
  shows "cache_inv st' \<and> headers st' = headers st"
proof (cases "rq_path req")
  case (Some path)
  have step: "cache_inv st' \<and> headers st' = headers st"
    if rl: "relay_loop (fresh_relay fd client) = Some (Ok q)"
      and c: "cache_response junk now hh path q (st\<lparr>proc := pr, stray := n\<rparr>) = Ok st1"
      and s: "proxy_Close b1 f1 st1 = Ok st2" and t: "proxy_Close b2 f2 st2 = Ok st'" for fd q pr n st1 b1 f1 st2 b2 f2
  proof -
    have "r_ptr q \<le> MAX_OBJECT_SIZE" using relay_loop_bound [OF rl] by (simp add: fresh_relay_def)
    moreover have "cache_inv (st\<lparr>proc := pr, stray := n\<rparr>)" using inv by (simp add: cache_inv_def)
    ultimately have "cache_inv st1 \<and> headers st1 = headers st" using cache_inv_response [OF _ _ c] by simp
    then show ?thesis using cache_inv_Close [OF s] cache_inv_Close [OF t] by simp
  qed
  from inv r Some show ?thesis
    by (auto simp: send_request_def Let_def outcome_bind_Ok split: option.split_asm call_result.split_asm if_split_asm prod.split_asm dest: step)
qed (use r in \<open>simp add: send_request_def split: option.splits\<close>)

lemma cache_inv_server_handler:
  assumes "cache_inv st" and "server_handler net junk stale now clientfd client req st = Some (Ok (k, st'))"
  shows "cache_inv st' \<and> headers st' = headers st"
proof -
  have i: "i < length (cache st)" if "search_cache p h st = Some i" for p h i
    using search_from_range [of 0 p h "cache st" i] that by (simp add: search_cache_def)
  have u: "headers (update_time i now st) = headers st" for i by (simp add: update_time_def)
  from assms(2) show ?thesis using assms(1)
    by (auto simp: server_handler_def u outcome_bind_Ok split: option.splits call_result.splits
        dest!: cache_inv_Close dest: cache_inv_send_request [OF assms(1)] intro: cache_inv_update_time i)
qed

lemma thread_handler_keeps:
  assumes "cache_inv st" and "thread_handler cn clientfd st = Some (Ok (k, st'))"
  shows "cache_inv st' \<and> (\<exists>hs. headers st' = headers st @ hs)"
proof -
  obtain req st0 st1 where m: "proxy_Malloc st = Ok st0" and c: "client_handler (from_client cn) st0 = Ok (req, st1)"
    and s: "server_handler (servers cn) (junk_byte cn) (stale_text cn) (clock_now cn) clientfd (to_client cn) req st1 = Some (Ok (k, st'))"
    using assms(2) by (auto simp: thread_handler_def outcome_bind_Ok split: outcome.splits if_splits)
  have "cache_inv st0" "headers st0 = headers st" using m assms(1) by (auto simp: proxy_Malloc_eq cache_inv_def split: if_splits)
  moreover have e: "extends st0 st1" by (rule extends_client_handler [OF c])
  ultimately have "cache_inv st1" using cache_inv_extends by blast
  from cache_inv_server_handler [OF this s] show ?thesis using e \<open>headers st0 = headers st\<close> by (auto simp: extends_def)
qed

lemma accept_loop_keeps:
  "cache_inv st \<Longrightarrow> accept_loop cns st = Some (Ok (ks, st')) \<Longrightarrow> cache_inv st' \<and> (\<exists>hs. headers st' = headers st @ hs) \<and> length ks = length cns"
proof (induction cns arbitrary: st ks)
  case (Cons cn cns)
  let ?fd = "a_accept (around cn)"
  obtain k st0 st1 ks' where t: "proxy_Malloc st = Ok st0" "thread_handler cn ?fd (st0\<lparr>proc := (proc st0)\<lparr>open_fds := ?fd # open_fds (proc st0)\<rparr>\<rparr>) = Some (Ok (k, st1))"
    "accept_loop cns st1 = Some (Ok (ks', st'))" "ks = k # ks'"
    using Cons.prems(2) by (auto simp: Let_def split: outcome.splits option.splits if_splits)
  have "cache_inv (st0\<lparr>proc := (proc st0)\<lparr>open_fds := ?fd # open_fds (proc st0)\<rparr>\<rparr>)" "headers st0 = headers st"
    using t(1) Cons.prems(1) by (auto simp: proxy_Malloc_eq cache_inv_def split: if_splits)
  from thread_handler_keeps [OF this(1) t(2)] Cons.IH [OF _ t(3)] this(2) show ?case using t(4) by auto
qed simp

lemma cache_inv_start: "cache_inv (proxy_init_cache now mem pr)"
  by (simp add: cache_inv_def proxy_init_cache_def init_cache_root_def MAX_CACHE_SIZE_def)

text \<open>C22. When connections are handled one after the other: after any number of them, whatever clients and servers send, the
  recorded volume of the cache is the sum of the sizes of its items and stays within the limit, if each handler has returned.\<close>

theorem proxy_cache_bounded:
  assumes "proxy_main found listens pr now mem cns = Some (Ok (ks, st))"
  shows "length ks = length cns \<and> cache_volume st = int (sum_list (map c_size (tl (cache st)))) \<and> cache_volume st \<le> MAX_CACHE_SIZE"
proof -
  obtain mem' pr' where "accept_loop cns (proxy_init_cache now mem' pr') = Some (Ok (ks, st))"
    using assms by (auto simp: proxy_main_def split: nat.splits call_result.splits prod.splits)
  from accept_loop_keeps [OF cache_inv_start this] show ?thesis by (auto simp: cache_inv_def)
qed

text \<open>No request is forgotten: the header list of the first request that was kept is still in front of
  every later one.\<close>

theorem headers_never_reset:
  assumes "accept_loop (as @ bs) (proxy_init_cache now mem pr) = Some (Ok (ks, st))"
    and "accept_loop as (proxy_init_cache now mem pr) = Some (Ok (ks1, st1))"
  shows "\<exists>hs. headers st = headers st1 @ hs"
proof -
  have "accept_loop (as @ bs) s = (case accept_loop as s of Some (Ok (ks, s)) \<Rightarrow>
      (case accept_loop bs s of Some (Ok (ls, s)) \<Rightarrow> Some (Ok (ks @ ls, s)) | r \<Rightarrow> r) | r \<Rightarrow> r)" for s
    by (induction as arbitrary: s) (auto simp: Let_def split: option.splits outcome.splits prod.splits)
  then obtain ls where b: "accept_loop bs st1 = Some (Ok (ls, st))"
    using assms by (auto split: option.splits outcome.splits)
  have "cache_inv st1" using accept_loop_keeps [OF cache_inv_start assms(2)] by blast
  then show ?thesis using accept_loop_keeps b by blast
qed

text \<open>C39. A client that closes its connection before the empty line ends the whole proxy, whatever connections wait and however
  much memory there is: at the end of file \<open>client_handler\<close> goes on with empty lines, each of which costs the memory of a header,
  until \<open>Malloc\<close> fails. The text of the client may end anywhere behind the request line, in the middle of a line, too.\<close>

theorem unfinished_request_ends_proxy:
  assumes "clean (from_client cn)" and "read_lines (incoming (from_client cn)) = l0 # ls"
    and "parse_request (line_text l0) = Ok req" and "[13, 10] \<notin> set ls"
  shows "accept_loop (cn # cns) st = Some Exit_proxy"
proof -
  have "client_handler (from_client cn) s = Exit_proxy" for s by (rule client_handler_unfinished [OF assms])
  then show ?thesis by (auto simp: thread_handler_def proxy_Malloc_eq Let_def)
qed

text \<open>C40. A server that cannot be reached ends the whole proxy, whatever connections wait: when \<open>getaddrinfo\<close> fails for its name, or
  no address of it can be connected to, \<open>Open_clientfd\<close> does not return.\<close>

theorem unreachable_server_ends_proxy:
  assumes "clean (from_client cn)" and "incoming (from_client cn) = get_line host path @ concat (map header_line hs) @ crlf @ rest"
    and "plain_address host path" and "\<forall>h \<in> set hs. line_header h" and "length hs + 6 \<le> mallocs st"
    and "hdrs = headers st @ hs @ missing_headers host (headers st @ hs)" and "header_by_key (codes ''Host'') hdrs = Some hh"
    and "target = (if path = [] then codes ''/'' else path)" and "search_cache target (h_data hh) st = None"
    and "domain = (if host = [] then h_data hh else host)"
    and "\<forall>as. addresses (servers cn) (server_address domain) = Inr as \<longrightarrow> (\<forall>a \<in> set as. \<not> usable a)"
    and "length domain < 200" and "length (request_text (stale_text cn) (get_request host path) target hdrs) < 10000"
  shows "accept_loop (cn # cns) st = Some Exit_proxy"
proof -
  let ?st = "st\<lparr>proc := (proc st)\<lparr>open_fds := a_accept (around cn) # open_fds (proc st)\<rparr>, mallocs := mallocs st - 2\<rparr>"
  have few: "length (missing_headers host (headers st @ hs)) \<le> 4"
    using length_filter_le [of _ "default_headers host"] by (simp add: missing_headers_def) (simp add: default_headers_def)
  obtain st1 where c: "client_handler (from_client cn) ?st = Ok (get_request host path, st1)"
    "headers st1 = hdrs" "cache st1 = cache st"
    using client_handler_result [OF assms(1-4), of ?st] assms(5,6) few by auto
  have "fst (Open_clientfd (addresses (servers cn) (server_address domain)) (proc st1)) = Exits"
    using assms(11) by (rule Open_clientfd_unusable)
  then obtain pr where o: "Open_clientfd (addresses (servers cn) (server_address domain)) (proc st1) = (Exits, pr)"
    by (cases "Open_clientfd (addresses (servers cn) (server_address domain)) (proc st1)") simp
  have d: "(if host \<noteq> [] then Some host else map_option h_data (get_header_by_key (codes ''Host'') st1)) = Some domain"
    using assms(7,10) c(2) by (simp add: get_header_by_key_def)
  have "server_handler (servers cn) (junk_byte cn) (stale_text cn) (clock_now cn) (a_accept (around cn)) (to_client cn) (get_request host path) st1 = Some Exit_proxy"
    using assms(7-10,12,13) c(2,3) d o
    by (simp add: server_handler_def send_request_def get_request_def get_header_by_key_def search_cache_def Let_def)
  then have "thread_handler cn (a_accept (around cn)) (st\<lparr>mallocs := mallocs st - 1, proc := (proc st)\<lparr>open_fds := a_accept (around cn) # open_fds (proc st)\<rparr>\<rparr>) = Some Exit_proxy"
    using c(1) assms(5) by (simp add: thread_handler_def proxy_Malloc_eq numeral_2_eq_2)
  then show ?thesis by (simp add: proxy_Malloc_eq Let_def)
qed

section \<open>The end of the header list\<close>

fun last_header :: "header list \<Rightarrow> header option" where
  "last_header [] = None"
| "last_header [h] = Some h"
| "last_header (h # k # hs) = last_header (k # hs)"

definition get_last_header :: "proxy \<Rightarrow> header option" where
  "get_last_header st = last_header (headers st)"

text \<open>\<open>free_req_and_header\<close>, which is never called, frees the list and the request; the memory is the set of allocated
  cells, and freeing another cell is undefined.\<close>

datatype cell = Header_cell nat | Request_cell nat

definition free_cell :: "cell \<Rightarrow> cell set \<Rightarrow> cell set option" where
  "free_cell c A = (if c \<in> A then Some (A - {c}) else None)"

fun free_headers :: "cell list \<Rightarrow> cell set \<Rightarrow> cell set option" where
  "free_headers [] A = Some A"
| "free_headers [current] A = free_cell current A"
| "free_headers (current # temp # cs) A = Option.bind (free_cell current A) (free_headers (temp # cs))"

definition free_req_and_header :: "cell \<Rightarrow> cell list \<Rightarrow> cell set \<Rightarrow> cell set option" where
  "free_req_and_header req cs A = Option.bind (free_headers cs A) (free_cell req)"

lemma last_header_inserted: "get_last_header (insert_header h st) = Some h"
proof -
  have "last_header (hs @ [h]) = Some h" for hs by (induction hs rule: last_header.induct) simp_all
  then show ?thesis by (simp add: get_last_header_def insert_header_def)
qed

lemma free_headers_all: "distinct cs \<Longrightarrow> set cs \<subseteq> A \<Longrightarrow> free_headers cs A = Some (A - set cs)"
proof (induction cs A rule: free_headers.induct)
  case (3 c d cs A)
  then have f: "free_cell c A = Some (A - {c})" by (simp add: free_cell_def)
  have "set (d # cs) \<subseteq> A - {c}" using "3.prems" by auto
  then have "free_headers (d # cs) (A - {c}) = Some (A - {c} - set (d # cs))" using "3.IH" [OF f] "3.prems" by simp
  moreover have "A - {c} - set (d # cs) = A - set (c # d # cs)" by auto
  ultimately show ?case by (simp add: f)
qed (auto simp: free_cell_def)

lemma free_req_and_header_all:
  "distinct (req # cs) \<Longrightarrow> set (req # cs) \<subseteq> A \<Longrightarrow> free_req_and_header req cs A = Some (A - set (req # cs))"
  by (auto simp: free_req_and_header_def free_headers_all free_cell_def)

section \<open>Witnesses\<close>

definition host_b :: header where "host_b = \<lparr>h_name = codes ''Host'', h_data = codes ''b''\<rparr>"

definition first_headers :: "header list" where
  "first_headers = [host_b, \<lparr>h_name = codes ''User-Agent'', h_data = user_agent_hdr\<rparr>,
     \<lparr>h_name = codes ''Connection'', h_data = codes ''close''\<rparr>, \<lparr>h_name = codes ''Proxy-Connection'', h_data = codes ''close''\<rparr>]"

definition connection_to :: "network \<Rightarrow> source \<Rightarrow> connection" where
  "connection_to net text = \<lparr>around = \<lparr>a_accept = 4, a_create = 0, a_detach = 0\<rparr>, from_client = text, to_client = client1, servers = net,
     junk_byte = 0, stale_text = [], clock_now = 5\<rparr>"

lemma first_missing: "[host_b] @ missing_headers (codes ''b'') [host_b] = first_headers"
  by (simp add: missing_headers_def default_headers_def first_headers_def host_b_def codes_def)

lemma first_request:
  assumes "3 < mallocs st" and "headers st = []"
  shows "client_handler wire st = Ok (request2, st\<lparr>headers := first_headers, mallocs := mallocs st - 4\<rparr>)"
proof -
  have m: "missing_headers (codes ''b'') [\<lparr>h_name = codes ''Host'', h_data = codes ''b''\<rparr>] = tl first_headers"
    using first_missing by (simp add: first_headers_def host_b_def)
  show ?thesis using wire_result [OF assms(1)] unfolding assms(2) append_Nil m by (simp add: first_headers_def host_b_def)
qed

lemma first_text: "length (request_text [] (get_request (codes ''b'') (codes ''/'')) (codes ''/'') first_headers) < 10000"
  by (simp add: get_request_def first_headers_def host_b_def request_text_def user_agent_hdr_def codes_def crlf_def)

lemma listening: "Open_listenfd one_socket (\<lambda>_. True) no_files = (Returns 3, \<lparr>open_fds = [3, 2, 1, 0], addr_list = False\<rparr>)"
  by (simp add: Open_listenfd_def open_listenfd_def one_socket_def no_files_def Let_def)

lemma proxy_cache_bounded_witness:
  "\<exists>ks st. proxy_main one_socket (\<lambda>_. True) no_files 0 20 [connection_to server1 wire] = Some (Ok (ks, st))
    \<and> length ks = 1 \<and> cache_volume st \<le> MAX_CACHE_SIZE"
proof -
  let ?pr = "\<lparr>open_fds = [4, 3, 2, 1, 0], addr_list = False\<rparr>"
  let ?st = "proxy_init_cache 0 19 ?pr\<lparr>headers := first_headers, mallocs := 13\<rparr>"
  have s: "sendable [] request2 host_b ?st (codes ''b'') (codes ''/'')"
    using first_text by (simp add: sendable_def request2_def proxy_init_cache_def host_b_def) (simp add: get_request_def codes_def)
  have re: "reachable server1 (server_address (codes ''b'')) (proc ?st)"
    using exchange1(2) [of "server_address (codes ''b'')"] by (simp add: reachable_def proxy_init_cache_def proxy1_def)
  have inv: "cache_inv ?st" using cache_inv_start [of 0 19 ?pr] by (simp add: cache_inv_def)
  have c: "cache ?st = init_cache_root 0 # []" by (simp add: proxy_init_cache_def)
  have fd: "4 \<in> set (open_fds (proc ?st))" by (simp add: proxy_init_cache_def)
  obtain k st where "send_request server1 0 [] 5 4 client1 request2 host_b ?st = Some (Ok (k, st))"
    using send_request_result [OF s re fd exchange1(5,6,7) inv c, of 0 5] by blast
  moreover have "get_header_by_key (codes ''Host'') ?st = Some host_b" "search_cache (codes ''/'') (h_data host_b) ?st = None"
    by (simp_all add: get_header_by_key_def first_headers_def host_b_def search_cache_def c proxy_init_cache_def init_cache_root_def codes_def)
  ultimately have "server_handler server1 0 [] 5 4 client1 request2 ?st = Some (Ok (k, st))"
    by (simp add: server_handler_def request2_def get_request_def codes_def)
  moreover have "client_handler wire (proxy_init_cache 0 17 ?pr) = Ok (request2, ?st)"
    using first_request [of "proxy_init_cache 0 17 ?pr"] by (simp add: proxy_init_cache_def)
  ultimately have "accept_loop [connection_to server1 wire] (proxy_init_cache 0 19 \<lparr>open_fds = [3, 2, 1, 0], addr_list = False\<rparr>) = Some (Ok ([k], st))"
    by (simp add: thread_handler_def connection_to_def proxy_Malloc_eq proxy_init_cache_def)
  then have "proxy_main one_socket (\<lambda>_. True) no_files 0 20 [connection_to server1 wire] = Some (Ok ([k], st))"
    by (simp add: proxy_main_def listening)
  from this proxy_cache_bounded [OF this] show ?thesis by auto
qed

lemma unreachable_server_ends_proxy_witness:
  "accept_loop [connection_to (server1\<lparr>addresses := \<lambda>_. Inr [\<lparr>sock = 6, joins = False, closes = True\<rparr>]\<rparr>) wire, connection_to server1 wire]
     (proxy_init_cache 0 20 no_files) = Some Exit_proxy"
  using unreachable_server_ends_proxy [where cn = "connection_to (server1\<lparr>addresses := \<lambda>_. Inr [\<lparr>sock = 6, joins = False, closes = True\<rparr>]\<rparr>) wire"
      and st = "proxy_init_cache 0 20 no_files" and hs = "[host_b]" and host = "codes ''b''" and path = "codes ''/''" and rest = "[]"
      and hdrs = first_headers and hh = host_b and target = "codes ''/''" and domain = "codes ''b''" and cns = "[connection_to server1 wire]"]
    wire_facts first_missing first_text
  by (simp add: connection_to_def proxy_init_cache_def host_b_def first_headers_def search_cache_def init_cache_root_def usable_def server1_def)
    (simp add: codes_def)

lemma unfinished_request_ends_proxy_witness:
  "accept_loop [connection_to server1 [Data (get_line (codes ''b'') [] @ codes ''Acc'')], connection_to server1 wire] (proxy_init_cache 0 20 no_files) = Some Exit_proxy"
proof -
  have p: "plain_address (codes ''b'') []" by (simp add: plain_address_def codes_def is_space_def)
  note l = get_line_facts [OF p]
  have "read_lines (get_line (codes ''b'') [] @ codes ''Acc'') = [get_line (codes ''b'') [], codes ''Acc'']"
    using read_lines_line [OF l(1), of "codes ''Acc''"] read_lines_rest [of "codes ''Acc''"] by (simp add: codes_def PROXY_MAXLINE_def)
  moreover have "line_text (get_line (codes ''b'') []) = get_line (codes ''b'') []" by (simp add: line_text_def get_line_def codes_def crlf_def)
  ultimately show ?thesis
    using unfinished_request_ends_proxy [of "connection_to server1 [Data (get_line (codes ''b'') [] @ codes ''Acc'')]" "get_line (codes ''b'') []" "[codes ''Acc'']"] l(2)
    by (simp add: connection_to_def clean_def get_line_def codes_def)
qed

lemma headers_never_reset_witness:
  "accept_loop ([] @ []) (proxy_init_cache 0 1 no_files) = Some (Ok ([], proxy_init_cache 0 1 no_files))
    \<and> (\<exists>hs. headers (proxy_init_cache 0 1 no_files) = headers (proxy_init_cache 0 1 no_files) @ hs)"
  using headers_never_reset [of "[]" "[]" 0 1 no_files "[]" "proxy_init_cache 0 1 no_files" "[]" "proxy_init_cache 0 1 no_files"] by simp

end
