(* ===== verification/Cache_Threads.thy ===== *)
theory Cache_Threads
  imports Web_Proxy
begin

text \<open>
  The part of \<open>send_request\<close> in \<open>proxy.c\<close> that keeps a response, run by several handlers at the same time. The program
  takes no locks. A step of a handler is one pass of the eviction loop with its test, or the insertion of the new item; each is
  taken as a whole here, so that what goes wrong below does not come from the loads and stores inside of them.
\<close>

section \<open>Steps\<close>

text \<open>A handler tests for room and evicts, has found room, or is done. It holds the response it keeps.\<close>

datatype phase = Testing | Room_found | Done

record handler =
  h_phase :: phase
  h_host :: chars
  h_path :: chars
  h_text :: bytes

definition h_size :: "handler \<Rightarrow> nat" where "h_size t = length (h_text t)"

text \<open>The last rule is a slot that takes its next request.\<close>

inductive handler_step :: "handler list \<times> proxy \<Rightarrow> handler list \<times> proxy \<Rightarrow> bool" where
  room: "\<lbrakk>i < length ts; h_phase (ts ! i) = Testing; cache_volume st + int (h_size (ts ! i)) \<le> MAX_CACHE_SIZE\<rbrakk>
    \<Longrightarrow> handler_step (ts, st) (ts[i := (ts ! i)\<lparr>h_phase := Room_found\<rparr>], st)"
| evict: "\<lbrakk>i < length ts; h_phase (ts ! i) = Testing; cache_volume st + int (h_size (ts ! i)) > MAX_CACHE_SIZE; LRU st = Some k\<rbrakk>
    \<Longrightarrow> handler_step (ts, st) (ts, delete_cache k st)"
| insert: "\<lbrakk>i < length ts; h_phase (ts ! i) = Room_found\<rbrakk>
    \<Longrightarrow> handler_step (ts, st) (ts[i := (ts ! i)\<lparr>h_phase := Done\<rparr>],
      add_cached junk (h_host (ts ! i)) (h_path (ts ! i)) (map Some (h_text (ts ! i))) (h_size (ts ! i)) now st)"
| next_request: "\<lbrakk>i < length ts; h_phase (ts ! i) = Done; h_phase t = Testing; h_size t \<le> MAX_OBJECT_SIZE\<rbrakk>
    \<Longrightarrow> handler_step (ts, st) (ts[i := t], st)"

inductive_cases handler_stepE: "handler_step (ts, st) y"

text \<open>What the handlers that found room are about to add.\<close>

definition pending :: "handler list \<Rightarrow> int" where
  "pending ts = (\<Sum>t \<leftarrow> ts. if h_phase t = Room_found then int (h_size t) else 0)"

definition volume_inv :: "handler list \<times> proxy \<Rightarrow> bool" where
  "volume_inv cfg = (case cfg of (ts, st) \<Rightarrow>
     cache st \<noteq> [] \<and> cache_volume st = int (sum_list (map c_size (tl (cache st)))) \<and> (\<forall>t \<in> set ts. h_size t \<le> MAX_OBJECT_SIZE)
     \<and> cache_volume st + pending ts \<le> MAX_CACHE_SIZE + int (length ts - 1) * int MAX_OBJECT_SIZE)"

section \<open>The limit with several handlers\<close>

lemma pending_update:
  assumes "i < length ts"
  shows "pending (ts[i := t]) = pending ts - (if h_phase (ts ! i) = Room_found then int (h_size (ts ! i)) else 0)
    + (if h_phase t = Room_found then int (h_size t) else 0)"
  using assms
proof (induction ts arbitrary: i)
  case (Cons u ts)
  then show ?case by (cases i) (auto simp: pending_def)
qed simp

lemma pending_others:
  assumes "i < length ts" and "h_phase (ts ! i) \<noteq> Room_found" and "\<forall>t \<in> set ts. h_size t \<le> MAX_OBJECT_SIZE"
  shows "pending ts \<le> int (length ts - 1) * int MAX_OBJECT_SIZE"
proof -
  have le: "pending us \<le> int (length us) * int MAX_OBJECT_SIZE" if "\<forall>t \<in> set us. h_size t \<le> MAX_OBJECT_SIZE" for us
    using that by (induction us) (auto simp: pending_def algebra_simps)
  have split: "ts = take i ts @ ts ! i # drop (Suc i) ts" using assms(1) by (rule id_take_nth_drop)
  have "pending ts = pending (take i ts @ drop (Suc i) ts)" by (subst split) (simp add: pending_def assms(2))
  also have "\<dots> \<le> int (length (take i ts @ drop (Suc i) ts)) * int MAX_OBJECT_SIZE"
    by (rule le) (use assms(3) in \<open>auto dest: in_set_takeD in_set_dropD\<close>)
  also have "length (take i ts @ drop (Suc i) ts) = length ts - 1" using assms(1) by simp
  finally show ?thesis .
qed

lemma evict_volume:
  assumes "LRU st = Some k" and "cache st \<noteq> []" and "cache_volume st = int (sum_list (map c_size (tl (cache st))))"
  shows "cache (delete_cache k st) \<noteq> [] \<and> cache_volume (delete_cache k st) = int (sum_list (map c_size (tl (cache (delete_cache k st)))))
    \<and> cache_volume (delete_cache k st) \<le> cache_volume st"
proof -
  obtain root items where c: "cache st = root # items" using assms(2) by (cases "cache st") auto
  obtain i where i: "k = Suc i" "i < length items" using LRU_range [OF assms(1)] c by (cases k) auto
  have "mset items = add_mset (items ! i) (mset (take i items @ drop (Suc i) items))" by (rule remove_nth_mset [OF i(2)])
  then have "sum_list (map c_size items) = c_size (items ! i) + sum_list (map c_size (take i items @ drop (Suc i) items))"
    unfolding sum_sizes_mset by simp
  then show ?thesis using assms(3) c i by (simp add: delete_cache_def)
qed

lemma add_cached_volume:
  "cache st \<noteq> [] \<Longrightarrow> cache_volume st = int (sum_list (map c_size (tl (cache st)))) \<Longrightarrow>
    cache (add_cached junk h p m n now st) \<noteq> [] \<and> cache_volume (add_cached junk h p m n now st) = cache_volume st + int n
    \<and> cache_volume (add_cached junk h p m n now st) = int (sum_list (map c_size (tl (cache (add_cached junk h p m n now st)))))"
  by (simp add: add_cached_def safe_strncpy_def Let_def)

lemma volume_inv_step:
  assumes "handler_step x y" and "volume_inv x"
  shows "volume_inv y"
  using assms
proof (cases rule: handler_step.cases)
  case (room i ts st)
  then have "pending ts \<le> int (length ts - 1) * int MAX_OBJECT_SIZE" using assms(2) pending_others [of i ts] by (simp add: volume_inv_def)
  moreover have "\<forall>t \<in> set (ts[i := (ts ! i)\<lparr>h_phase := Room_found\<rparr>]). h_size t \<le> MAX_OBJECT_SIZE"
    using assms(2) room by (auto simp: volume_inv_def h_size_def dest!: set_update_subset_insert [THEN subsetD])
  moreover have "h_size ((ts ! i)\<lparr>h_phase := Room_found\<rparr>) = h_size (ts ! i)" by (simp add: h_size_def)
  ultimately show ?thesis using assms(2) room pending_update [of i ts "(ts ! i)\<lparr>h_phase := Room_found\<rparr>"] by (simp add: volume_inv_def)
next
  case (evict i ts st k)
  then show ?thesis using assms(2) evict_volume [of st k] by (auto simp: volume_inv_def)
next
  case (insert i ts st junk now)
  let ?u = "(ts ! i)\<lparr>h_phase := Done\<rparr>"
  have "\<forall>t \<in> set (ts[i := ?u]). h_size t \<le> MAX_OBJECT_SIZE"
    using assms(2) insert by (auto simp: volume_inv_def h_size_def dest!: set_update_subset_insert [THEN subsetD])
  moreover have "pending (ts[i := ?u]) = pending ts - int (h_size (ts ! i))" using insert pending_update [of i ts ?u] by simp
  moreover let ?st = "add_cached junk (h_host (ts ! i)) (h_path (ts ! i)) (map Some (h_text (ts ! i))) (h_size (ts ! i)) now st"
  have "cache ?st \<noteq> [] \<and> cache_volume ?st = cache_volume st + int (h_size (ts ! i))
      \<and> cache_volume ?st = int (sum_list (map c_size (tl (cache ?st))))"
    using assms(2) insert by (intro add_cached_volume) (simp_all add: volume_inv_def)
  ultimately show ?thesis using assms(2) insert by (auto simp: volume_inv_def)
next
  case (next_request i ts t st)
  have "\<forall>t \<in> set (ts[i := t]). h_size t \<le> MAX_OBJECT_SIZE"
    using assms(2) next_request by (auto simp: volume_inv_def dest!: set_update_subset_insert [THEN subsetD])
  moreover have "pending (ts[i := t]) = pending ts" using next_request pending_update [of i ts t] by simp
  ultimately show ?thesis using assms(2) next_request by (simp add: volume_inv_def)
qed

text \<open>With any number of handlers whose steps interleave in any way, the recorded volume is still the sum of the sizes of the items,
  but it may exceed the limit by one response for each handler but one.\<close>

theorem interleaved_volume_bounded:
  assumes "handler_step\<^sup>*\<^sup>* (ts, st) (ts', st')" and "cache_inv st" and "\<forall>t \<in> set ts. h_phase t = Testing \<and> h_size t \<le> MAX_OBJECT_SIZE"
  shows "cache_volume st' = int (sum_list (map c_size (tl (cache st'))))
    \<and> cache_volume st' \<le> MAX_CACHE_SIZE + int (length ts - 1) * int MAX_OBJECT_SIZE"
proof -
  have "pending ts = 0" using assms(3) by (induction ts) (auto simp: pending_def)
  moreover have "MAX_CACHE_SIZE \<le> MAX_CACHE_SIZE + int (length ts - 1) * int MAX_OBJECT_SIZE" by simp
  moreover have "cache_volume st \<le> MAX_CACHE_SIZE" using assms(2) by (simp add: cache_inv_def)
  ultimately have "cache_volume st + pending ts \<le> MAX_CACHE_SIZE + int (length ts - 1) * int MAX_OBJECT_SIZE" by linarith
  then have "volume_inv (ts, st)" using assms(2,3) by (auto simp: volume_inv_def cache_inv_def)
  with assms(1) have i: "volume_inv (ts', st') \<and> length ts' = length ts"
  proof (induction "(ts', st')" arbitrary: ts' st' rule: rtranclp_induct)
    case (step y)
    obtain us s where y: "y = (us, s)" by (cases y)
    have "length ts' = length us" using step.hyps(2) unfolding y by (cases rule: handler_step.cases) simp_all
    then show ?case using step volume_inv_step y by auto
  qed simp
  have "0 \<le> pending ts'" by (induction ts') (auto simp: pending_def)
  then show ?thesis using i by (auto simp: volume_inv_def)
qed

text \<open>The limit is exceeded when two handlers test for room before either adds its item.\<close>

definition almost_full :: proxy where
  "almost_full = \<lparr>cache = [init_cache_root 0, \<lparr>c_hostname = [], c_path = [1], c_size = 1048998, c_data = [], c_time = 9\<rparr>],
     cache_volume = 1048998, headers = [], stray = 0, mallocs = 9, proc = no_files\<rparr>"

definition two_handlers :: "handler list" where
  "two_handlers = [\<lparr>h_phase = Testing, h_host = [], h_path = [2], h_text = [72, 105]\<rparr>, \<lparr>h_phase = Testing, h_host = [], h_path = [3], h_text = [72, 111]\<rparr>]"

theorem limit_exceeded:
  "\<exists>ts st. handler_step\<^sup>*\<^sup>* (two_handlers, almost_full) (ts, st) \<and> cache_inv almost_full \<and> MAX_CACHE_SIZE < cache_volume st"
proof -
  define ts1 where "ts1 = two_handlers[0 := (two_handlers ! 0)\<lparr>h_phase := Room_found\<rparr>]"
  define ts2 where "ts2 = ts1[1 := (ts1 ! 1)\<lparr>h_phase := Room_found\<rparr>]"
  define ts3 where "ts3 = ts2[0 := (ts2 ! 0)\<lparr>h_phase := Done\<rparr>]"
  define ts4 where "ts4 = ts3[1 := (ts3 ! 1)\<lparr>h_phase := Done\<rparr>]"
  define st3 where "st3 = add_cached 0 (h_host (ts2 ! 0)) (h_path (ts2 ! 0)) (map Some (h_text (ts2 ! 0))) (h_size (ts2 ! 0)) 10 almost_full"
  define st4 where "st4 = add_cached 0 (h_host (ts3 ! 1)) (h_path (ts3 ! 1)) (map Some (h_text (ts3 ! 1))) (h_size (ts3 ! 1)) 11 st3"
  note ts = ts1_def ts2_def ts3_def two_handlers_def h_size_def
  have "handler_step (two_handlers, almost_full) (ts1, almost_full)" unfolding ts1_def
    by (rule handler_step.room) (simp_all add: two_handlers_def h_size_def almost_full_def MAX_CACHE_SIZE_def)
  moreover have "handler_step (ts1, almost_full) (ts2, almost_full)" unfolding ts2_def
    by (rule handler_step.room) (simp_all add: ts almost_full_def MAX_CACHE_SIZE_def)
  moreover have "handler_step (ts2, almost_full) (ts3, st3)" unfolding ts3_def st3_def by (rule handler_step.insert) (simp_all add: ts)
  moreover have "handler_step (ts3, st3) (ts4, st4)" unfolding ts4_def st4_def by (rule handler_step.insert) (simp_all add: ts)
  ultimately have "handler_step\<^sup>*\<^sup>* (two_handlers, almost_full) (ts4, st4)"
    by (meson converse_rtranclp_into_rtranclp rtranclp.rtrancl_refl)
  moreover have "cache_volume st4 = 1049002"
    by (simp add: st4_def st3_def add_cached_def safe_strncpy_def Let_def ts almost_full_def)
  ultimately show ?thesis by (intro exI conjI) (auto simp: cache_inv_def almost_full_def init_cache_root_def MAX_CACHE_SIZE_def)
qed

lemma interleaved_volume_bounded_witness:
  "\<exists>st. handler_step\<^sup>*\<^sup>* (two_handlers, almost_full) (two_handlers, st) \<and> cache_volume st \<le> 1151400"
proof -
  have "cache_inv almost_full" by (simp add: cache_inv_def almost_full_def init_cache_root_def MAX_CACHE_SIZE_def)
  moreover have "\<forall>t \<in> set two_handlers. h_phase t = Testing \<and> h_size t \<le> MAX_OBJECT_SIZE"
    by (simp add: two_handlers_def h_size_def MAX_OBJECT_SIZE_def)
  ultimately show ?thesis
    using interleaved_volume_bounded [OF rtranclp.rtrancl_refl, of almost_full two_handlers]
    by (intro exI [of _ almost_full]) (simp add: MAX_CACHE_SIZE_def MAX_OBJECT_SIZE_def two_handlers_def)
qed

end
