(* ===== verification/Tracegen_Main.thy ===== *)
theory Tracegen_Main
  imports Matrix_Transpose C_Text
begin

text \<open>
  The rest of \<open>cachelab/cachelab.c\<close> and \<open>cachelab/tracegen.c\<close>: the random contents of the matrices, the summary of
  a simulation, and the main routine of \<open>tracegen\<close> with its options and its marker file. The numbers \<open>rand\<close>
  delivers are a parameter.
\<close>

section \<open>Matrices (cachelab.c)\<close>

definition initMatrix :: "(nat \<Rightarrow> int) \<Rightarrow> nat \<Rightarrow> nat \<Rightarrow> matrix \<times> matrix \<times> nat \<Rightarrow> (matrix \<times> matrix \<times> nat) option" where
  "initMatrix rand M N =
     for_each 0 N (\<lambda>i. for_each 0 M (\<lambda>j (A, B, k).
       Option.bind (wr N M A i j (rand k)) (\<lambda>A.
       Option.bind (wr M N B j i (rand (k + 1))) (\<lambda>B. Some (A, B, k + 2)))))"

definition randMatrix :: "(nat \<Rightarrow> int) \<Rightarrow> nat \<Rightarrow> nat \<Rightarrow> matrix \<times> nat \<Rightarrow> (matrix \<times> nat) option" where
  "randMatrix rand M N =
     for_each 0 N (\<lambda>i. for_each 0 M (\<lambda>j (A, k).
       Option.bind (wr N M A i j (rand k)) (\<lambda>A. Some (A, k + 1))))"

text \<open>\<open>printSummary\<close>: the line printed and the contents of the file \<open>.csim_results\<close>.\<close>

definition printSummary :: "int \<Rightarrow> int \<Rightarrow> int \<Rightarrow> string \<times> string" where
  "printSummary h m e =
     (''hits:'' @ show_int h @ '' misses:'' @ show_int m @ '' evictions:'' @ show_int e @ [CHR 0x0A],
      show_int h @ '' '' @ show_int m @ '' '' @ show_int e @ [CHR 0x0A])"

section \<open>The main routine (tracegen.c)\<close>

text \<open>The options with their arguments; the result is \<open>M\<close>, \<open>N\<close> and \<open>selectedFunc\<close>, or nothing for exit code 1.\<close>

fun tracegen_options :: "(char \<times> string) list \<Rightarrow> int \<times> int \<times> int \<Rightarrow> (int \<times> int \<times> int) option" where
  "tracegen_options [] sizes = Some sizes"
| "tracegen_options ((c, optarg) # opts) (M, N, sel) =
     (if c = CHR ''M'' then tracegen_options opts (c_atoi optarg, N, sel)
      else if c = CHR ''N'' then tracegen_options opts (M, c_atoi optarg, sel)
      else if c = CHR ''F'' then tracegen_options opts (M, N, c_atoi optarg)
      else None)"

text \<open>The exit code and the contents of the file \<open>.marker\<close>. The static arrays have 256 times 256 elements; arrays of
  no size and accesses outside are undefined.\<close>

definition tracegen_main :: "(nat \<Rightarrow> int) \<Rightarrow> nat \<Rightarrow> nat \<Rightarrow> (char \<times> string) list \<Rightarrow> (nat \<times> string option) option" where
  "tracegen_main rand marker_start marker_end opts =
     (case tracegen_options opts (0, 0, -1) of
        None \<Rightarrow> Some (1, None)
      | Some (M, N, sel) \<Rightarrow>
          if M \<le> 0 \<or> N \<le> 0 \<or> M * N > 256 * 256 then None
          else
            Option.bind (registerFunctions []) (\<lambda>fl.
            Option.bind (initMatrix rand (nat M) (nat N) (\<lambda>_ _. 0, \<lambda>_ _. 0, 0)) (\<lambda>(A, B, _).
            let file = hexadecimal marker_start @ '' '' @ hexadecimal marker_end in
            map_option (\<lambda>code. (code, Some file)) (tracegen_run fl sel (nat M) (nat N) A B))))"

section \<open>What they do\<close>

lemma initMatrix_total: "\<exists>A B k. initMatrix rand M N S = Some (A, B, k)"
proof -
  have inner: "\<exists>s'. for_each 0 M (\<lambda>j (A, B, k). Option.bind (wr N M A i j (rand k)) (\<lambda>A.
       Option.bind (wr M N B j i (rand (k + 1))) (\<lambda>B. Some (A, B, k + 2)))) s = Some s' \<and> True" if "i < N" for i s
    by (rule for_upto_rule1 [where P = "\<lambda>_ _. True"]) (use that in auto)
  have "\<exists>s'. initMatrix rand M N S = Some s' \<and> True"
    unfolding initMatrix_def by (rule for_upto_rule1 [where P = "\<lambda>_ _. True"]) (use inner in auto)
  then show ?thesis by (metis prod_cases3)
qed

lemma tracegen_main_zero:
  assumes "submit_sizes (nat M) (nat N)" and "0 < M" "M \<le> 256" "0 < N" "N \<le> 256" and "i < 2"
  shows "tracegen_main rand ms me [(CHR ''M'', show_int M), (CHR ''N'', show_int N), (CHR ''F'', show_int (int i))] =
    Some (0, Some (hexadecimal ms @ '' '' @ hexadecimal me))"
proof -
  obtain fl where fl: "registerFunctions [] = Some fl"
    by (simp add: registerFunctions_def registerTransFunction_def MAX_TRANS_FUNCS_def)
  obtain A B k where "initMatrix rand (nat M) (nat N) (\<lambda>_ _. 0, \<lambda>_ _. 0, 0) = Some (A, B, k)" using initMatrix_total by blast
  moreover have "tracegen_run fl (int i) (nat M) (nat N) A B = Some 0"
    by (rule tracegen_run_zero [OF assms(1) fl]) (use assms(6) in auto)
  moreover have "M * N \<le> 256 * 256" by (rule mult_mono) (use assms in auto)
  ultimately show ?thesis using assms fl by (simp add: tracegen_main_def c_atoi_show_int)
qed

text \<open>Without \<open>-F\<close>, or for another registered function, the exit code tells the first function that fails.\<close>

lemma tracegen_main_options: "c \<notin> {CHR ''M'', CHR ''N'', CHR ''F''} \<Longrightarrow> tracegen_main rand ms me ((c, a) # opts) = Some (1, None)"
  by (simp add: tracegen_main_def)

end
