(* ===== verification/Test_Trans.thy ===== *)
theory Test_Trans
  imports Tracegen_Main
begin

text \<open>
  The autograder of the transpose routines, \<open>cachelab/test-trans.c\<close>. The programs it starts are parameters:
  \<open>tracegen\<close> under valgrind (its exit code, its trace and the marker file) and the reference simulator (its result file for a trace file). The
  files it writes and reads are texts.
\<close>

section \<open>Trace lines\<close>

definition is_access :: "string \<Rightarrow> bool" where
  "is_access buf \<longleftrightarrow> 2 < length buf \<and> buf ! 0 = CHR '' '' \<and> buf ! 2 = CHR '' '' \<and> buf ! 1 \<in> {CHR ''S'', CHR ''M'', CHR ''L''}"

section \<open>The part of the trace between the markers\<close>

text \<open>The loop over the lines. The markers and \<open>addr\<close> are unknown until they were read; comparing an unknown value
  is undefined (\<open>None\<close>). The result holds the lines written, whether the file was closed, and \<open>addr\<close>.\<close>

fun filter_trace :: "int option \<Rightarrow> int option \<Rightarrow> bool \<Rightarrow> int option \<Rightarrow> string list \<Rightarrow> string list \<Rightarrow> (string list \<times> bool \<times> int option) option" where
  "filter_trace marker_start marker_end flag addr [] out = Some (out, False, addr)"
| "filter_trace marker_start marker_end flag addr (buf # bufs) out =
     (if is_access buf then
        (let addr = (case fst (scan_llx (drop 3 buf)) of None \<Rightarrow> addr | Some a \<Rightarrow> Some a) in
         case (addr, marker_start, marker_end) of
           (Some a, Some ms, Some me) \<Rightarrow>
             let flag = (flag \<or> a = ms);
                 out = (if flag \<and> a < 0xffffffff then out @ [buf] else out)
             in if a = me then Some (out, True, addr)
                else filter_trace marker_start marker_end flag addr bufs out
         | _ \<Rightarrow> None)
      else filter_trace marker_start marker_end flag addr bufs out)"

section \<open>Evaluation\<close>

definition SUBMIT_DESCRIPTION :: string where "SUBMIT_DESCRIPTION = ''Transpose submission''"
definition MAXN :: int where "MAXN = 256"

record results =
  funcid :: int
  r_correct :: nat
  misses :: int

definition no_results :: results where
  "no_results = \<lparr>funcid = -1, r_correct = 0, misses = 2147483647\<rparr>"

text \<open>The programs that are started, by the number of the function: the exit code of \<open>tracegen\<close>, its trace, the file
  \<open>.marker\<close>; and the file \<open>.csim_results\<close> of the reference simulator for a trace file.\<close>

record programs =
  tracegen :: "nat \<Rightarrow> nat"
  full_trace :: "nat \<Rightarrow> string"
  marker_file :: "nat \<Rightarrow> string"
  csim_ref :: "nat \<Rightarrow> nat \<Rightarrow> nat \<Rightarrow> string \<Rightarrow> string"

text \<open>The variables of \<open>eval_perf\<close> that keep their values from one function to the next; they start uninitialised.\<close>

record eval_vars =
  v_start :: "int option"
  v_end :: "int option"
  v_addr :: "int option"
  v_hits :: "int option"
  v_misses :: "int option"
  v_evictions :: "int option"

definition fresh_vars :: eval_vars where
  "fresh_vars = \<lparr>v_start = None, v_end = None, v_addr = None, v_hits = None, v_misses = None, v_evictions = None\<rparr>"

definition read_markers :: "string \<Rightarrow> eval_vars \<Rightarrow> eval_vars" where
  "read_markers file v =
     (case scan_llx file of
        (None, _) \<Rightarrow> v
      | (Some a, r) \<Rightarrow> v\<lparr>v_start := Some a, v_end := (case fst (scan_llx r) of None \<Rightarrow> v_end v | Some b \<Rightarrow> Some b)\<rparr>)"

definition read_counts :: "string \<Rightarrow> eval_vars \<Rightarrow> eval_vars" where
  "read_counts file v =
     (case scan_u file of
        (None, _) \<Rightarrow> v
      | (Some h, r) \<Rightarrow>
          (case scan_u r of
             (None, _) \<Rightarrow> v\<lparr>v_hits := Some h\<rparr>
           | (Some m, r) \<Rightarrow>
               v\<lparr>v_hits := Some h, v_misses := Some m,
                 v_evictions := (case fst (scan_u r) of None \<Rightarrow> v_evictions v | Some e \<Rightarrow> Some e)\<rparr>))"

text \<open>One registered function: validated, traced, measured. \<open>WEXITSTATUS\<close> keeps eight bits. \<open>misses\<close> is
  an \<open>int\<close> in the results.\<close>

definition as_int :: "int \<Rightarrow> int" where
  "as_int m = (if m < 2147483648 then m else m - 4294967296)"

definition eval_func :: "programs \<Rightarrow> nat \<Rightarrow> nat \<Rightarrow> nat \<Rightarrow> nat \<Rightarrow> trans_func \<times> results \<times> eval_vars \<Rightarrow> (trans_func \<times> results \<times> eval_vars) option" where
  "eval_func pg s E b i frv =
     (let (f, r, v) = frv;
          r = (if description f = SUBMIT_DESCRIPTION then r\<lparr>funcid := int i\<rparr> else r) in
      if tracegen pg i mod 256 \<noteq> 0 then Some (f, r, v)
      else
        (let v = read_markers (marker_file pg i) v;
             f = f\<lparr>correct := True\<rparr>;
             r = (if funcid r = int i then r\<lparr>r_correct := 1\<rparr> else r) in
         case filter_trace (v_start v) (v_end v) False (v_addr v) (fgets_lines 1000 (full_trace pg i)) [] of
           None \<Rightarrow> None
         | Some (part, closed, addr) \<Rightarrow>
             let v = read_counts (csim_ref pg s E b (concat part)) (v\<lparr>v_addr := addr\<rparr>) in
             case (v_hits v, v_misses v, v_evictions v) of
               (Some h, Some m, Some e) \<Rightarrow>
                 Some (f\<lparr>num_hits := nat h, num_misses := nat m, num_evictions := nat e\<rparr>,
                   if funcid r = int i then r\<lparr>misses := as_int m\<rparr> else r, v)
             | _ \<Rightarrow> None))"

fun eval_funcs :: "programs \<Rightarrow> nat \<Rightarrow> nat \<Rightarrow> nat \<Rightarrow> nat \<Rightarrow> trans_func list \<Rightarrow> results \<times> eval_vars \<Rightarrow> (trans_func list \<times> results) option" where
  "eval_funcs pg s E b i [] rv = Some ([], fst rv)"
| "eval_funcs pg s E b i (f # fs) rv =
     (case eval_func pg s E b i (f, rv) of
        None \<Rightarrow> None
      | Some (f, rv) \<Rightarrow>
          (case eval_funcs pg s E b (Suc i) fs rv of None \<Rightarrow> None | Some (fs, r) \<Rightarrow> Some (f # fs, r)))"

definition eval_perf :: "programs \<Rightarrow> nat \<Rightarrow> nat \<Rightarrow> nat \<Rightarrow> (trans_func list \<times> results) option" where
  "eval_perf pg s E b =
     (case registerFunctions [] of None \<Rightarrow> None | Some fs \<Rightarrow> eval_funcs pg s E b 0 fs (no_results, fresh_vars))"

text \<open>The command line: the options with their arguments. The result is the line
  \<open>TEST_TRANS_RESULTS\<close>, an exit without it, or undefined behaviour. \<open>sigsegv_handler\<close> and \<open>sigalrm_handler\<close> print 0:0.\<close>

datatype graded = Results int int | Exit_status int | Not_defined

fun test_options :: "(char \<times> string) list \<Rightarrow> int \<times> int \<Rightarrow> (int + int \<times> int)" where
  "test_options [] MN = Inr MN"
| "test_options ((c, optarg) # opts) MN =
     (if c = CHR ''M'' then test_options opts (c_atoi optarg, snd MN)
      else if c = CHR ''N'' then test_options opts (fst MN, c_atoi optarg)
      else if c = CHR ''h'' then Inl 0
      else Inl 1)"

definition interrupted :: graded where "interrupted = Results 0 0"

definition emit_results :: "results \<Rightarrow> graded" where
  "emit_results r = (if funcid r = -1 then Results 0 0 else Results (int (r_correct r)) (misses r))"

text \<open>The programs depend on the sizes.\<close>

definition test_trans_main :: "(int \<Rightarrow> int \<Rightarrow> programs) \<Rightarrow> (char \<times> string) list \<Rightarrow> graded" where
  "test_trans_main pgs opts =
     (case test_options opts (0, 0) of
        Inl n \<Rightarrow> Exit_status n
      | Inr (M, N) \<Rightarrow>
          if M = 0 \<or> N = 0 then Exit_status 1
          else if M > MAXN \<or> N > MAXN then Exit_status 1
          else (case eval_perf (pgs M N) 5 1 5 of None \<Rightarrow> Not_defined | Some (fs, r) \<Rightarrow> emit_results r))"

section \<open>What is filtered\<close>

definition access_at :: "string \<Rightarrow> int option" where
  "access_at buf = (if is_access buf then fst (scan_llx (drop 3 buf)) else None)"

text \<open>Lines whose address can be read.\<close>

definition readable :: "string \<Rightarrow> bool" where
  "readable buf \<longleftrightarrow> (is_access buf \<longrightarrow> fst (scan_llx (drop 3 buf)) \<noteq> None)"

definition low_access :: "string \<Rightarrow> bool" where
  "low_access buf \<longleftrightarrow> (\<exists>a. access_at buf = Some a \<and> a < 0xffffffff)"

lemma low_access_code [code]: "low_access buf = (case access_at buf of None \<Rightarrow> False | Some a \<Rightarrow> a < 0xffffffff)"
  by (auto simp: low_access_def split: option.split)

lemma filter_trace_step:
  "readable buf \<Longrightarrow> filter_trace (Some ms) (Some me) flag addr (buf # bufs) out =
    (case access_at buf of
       None \<Rightarrow> filter_trace (Some ms) (Some me) flag addr bufs out
     | Some a \<Rightarrow> let flag = (flag \<or> a = ms); out = (if flag \<and> a < 0xffffffff then out @ [buf] else out) in
         if a = me then Some (out, True, Some a) else filter_trace (Some ms) (Some me) flag (Some a) bufs out)"
  by (auto simp: readable_def access_at_def Let_def)

declare filter_trace.simps(2) [simp del]

lemma filter_trace_before:
  "list_all readable pre \<Longrightarrow> \<forall>buf \<in> set pre. access_at buf \<noteq> Some ms \<and> access_at buf \<noteq> Some me \<Longrightarrow>
    \<exists>addr'. filter_trace (Some ms) (Some me) False addr (pre @ bufs) out = filter_trace (Some ms) (Some me) False addr' bufs out"
proof (induction pre arbitrary: addr)
  case (Cons buf pre)
  then show ?case by (cases "access_at buf") (auto simp: filter_trace_step)
qed auto

lemma filter_trace_inside:
  "list_all readable body \<Longrightarrow> \<forall>buf \<in> set body. access_at buf \<noteq> Some me \<Longrightarrow>
    \<exists>addr'. filter_trace (Some ms) (Some me) True addr (body @ bufs) out =
      filter_trace (Some ms) (Some me) True addr' bufs (out @ filter low_access body)"
proof (induction body arbitrary: addr out)
  case (Cons buf body)
  have rd: "readable buf" using Cons.prems(1) by simp
  have "filter_trace (Some ms) (Some me) True addr (buf # body @ bufs) out =
      filter_trace (Some ms) (Some me) True (case access_at buf of None \<Rightarrow> addr | Some a \<Rightarrow> Some a) (body @ bufs) (out @ filter low_access [buf])"
    using Cons.prems(2) by (auto simp: filter_trace_step [OF rd] low_access_def split: option.split)
  then show ?case using Cons.IH [of "case access_at buf of None \<Rightarrow> addr | Some a \<Rightarrow> Some a" "out @ filter low_access [buf]"] Cons.prems
    by auto
qed auto

lemma trace_segment:
  assumes "list_all readable (pre @ start # body @ [stop])"
    and "\<forall>buf \<in> set pre. access_at buf \<noteq> Some ms \<and> access_at buf \<noteq> Some me"
    and "access_at start = Some ms" and "\<forall>buf \<in> set body. access_at buf \<noteq> Some me" and "access_at stop = Some me" and "ms \<noteq> me"
  shows "filter_trace (Some ms) (Some me) False addr (pre @ start # body @ stop # post) [] =
    Some (filter low_access (start # body @ [stop]), True, Some me)"
proof -
  have rd: "list_all readable pre" "readable start" "list_all readable body" "readable stop" using assms(1) by simp_all
  obtain a1 where 1: "filter_trace (Some ms) (Some me) False addr (pre @ start # body @ stop # post) [] =
      filter_trace (Some ms) (Some me) False a1 (start # body @ stop # post) []"
    using filter_trace_before [OF rd(1) assms(2)] by blast
  have 2: "filter_trace (Some ms) (Some me) False a1 (start # body @ stop # post) [] =
      filter_trace (Some ms) (Some me) True (Some ms) (body @ stop # post) (filter low_access [start])"
    using assms(3,6) by (simp add: filter_trace_step [OF rd(2)] low_access_def)
  obtain a3 where 3: "filter_trace (Some ms) (Some me) True (Some ms) (body @ stop # post) (filter low_access [start]) =
      filter_trace (Some ms) (Some me) True a3 (stop # post) (filter low_access [start] @ filter low_access body)"
    using filter_trace_inside [OF rd(3) assms(4)] by blast
  show ?thesis unfolding 1 2 3 using assms(5) by (auto simp: filter_trace_step [OF rd(4)] low_access_def)
qed

text \<open>If the end marker comes first, nothing is measured.\<close>

lemma early_end_marker:
  assumes "list_all readable (pre @ [stop])" and "\<forall>buf \<in> set pre. access_at buf \<noteq> Some ms \<and> access_at buf \<noteq> Some me"
    and "access_at stop = Some me" and "ms \<noteq> me"
  shows "filter_trace (Some ms) (Some me) False addr (pre @ stop # post) [] = Some ([], True, Some me)"
proof -
  have rd: "list_all readable pre" "readable stop" using assms(1) by simp_all
  obtain a where "filter_trace (Some ms) (Some me) False addr (pre @ stop # post) [] = filter_trace (Some ms) (Some me) False a (stop # post) []"
    using filter_trace_before [OF rd(1) assms(2)] by blast
  then show ?thesis using assms(3,4) by (simp add: filter_trace_step [OF rd(2)])
qed

text \<open>A trace file with the part between two markers.\<close>

inductive marked :: "int \<Rightarrow> int \<Rightarrow> string list \<Rightarrow> string \<Rightarrow> bool" where
  marked: "\<lbrakk>list_all readable (pre @ start # body @ [stop]);
     \<forall>buf \<in> set pre. access_at buf \<noteq> Some ms \<and> access_at buf \<noteq> Some me;
     access_at start = Some ms; \<forall>buf \<in> set body. access_at buf \<noteq> Some me; access_at stop = Some me; ms \<noteq> me;
     \<forall>buf \<in> set (pre @ start # body @ stop # post). short_line 1000 buf\<rbrakk>
   \<Longrightarrow> marked ms me (start # body @ [stop]) (concat (pre @ start # body @ stop # post))"

lemma filter_marked:
  assumes "marked ms me part file"
  shows "filter_trace (Some ms) (Some me) False addr (fgets_lines 1000 file) [] = Some (filter low_access part, True, Some me)"
  using assms
proof cases
  case (marked pre start body stop post)
  then show ?thesis
    by (simp only: fgets_lines_concat trace_segment [OF marked(3-8)])
qed

text \<open>The two files as they are written.\<close>

lemma read_markers_printed:
  assumes "0 \<le> ms" "ms < 2 ^ 64" "0 \<le> me" "me < 2 ^ 64"
  shows "read_markers (hexadecimal (nat ms) @ '' '' @ hexadecimal (nat me)) v = v\<lparr>v_start := Some ms, v_end := Some me\<rparr>"
proof -
  have "nat ms < 2 ^ 64" "nat me < 2 ^ 64" using assms by simp_all
  then have "scan_llx (hexadecimal (nat ms) @ '' '' @ hexadecimal (nat me)) = (Some ms, '' '' @ hexadecimal (nat me))"
    "scan_llx ('' '' @ hexadecimal (nat me)) = (Some me, [])"
    using scan_llx_hexadecimal [of "[]" "'' '' @ hexadecimal (nat me)" "nat ms"] scan_llx_hexadecimal [of "'' ''" "[]" "nat me"]
      assms hex_facts(7) digit_facts(4) by simp_all
  then show ?thesis by (simp add: read_markers_def)
qed

lemma read_counts_printed:
  assumes "0 \<le> h" "h < 2147483648" "0 \<le> m" "m < 2147483648" "0 \<le> e" "e < 2147483648"
  shows "read_counts (snd (printSummary h m e)) v = v\<lparr>v_hits := Some h, v_misses := Some m, v_evictions := Some e\<rparr>"
proof -
  let ?h = "decimal (nat h)" and ?m = "decimal (nat m)" and ?e = "decimal (nat e)"
  have d: "\<not> digit (CHR '' '')" "\<not> digit (CHR 0x0A)" by (simp_all add: digit_def code_def)
  have "scan_u (?h @ '' '' @ ?m @ '' '' @ ?e @ [CHR 0x0A]) = (Some h, '' '' @ ?m @ '' '' @ ?e @ [CHR 0x0A])"
    "scan_u ('' '' @ ?m @ '' '' @ ?e @ [CHR 0x0A]) = (Some m, '' '' @ ?e @ [CHR 0x0A])"
    "scan_u ('' '' @ ?e @ [CHR 0x0A]) = (Some e, [CHR 0x0A])"
    using scan_u_decimal [of "[]" "'' '' @ ?m @ '' '' @ ?e @ [CHR 0x0A]" "nat h"] scan_u_decimal [of "'' ''" "'' '' @ ?e @ [CHR 0x0A]" "nat m"]
      scan_u_decimal [of "'' ''" "[CHR 0x0A]" "nat e"] assms d digit_facts(4) by (simp_all add: nat_less_iff)
  then show ?thesis using assms by (simp add: read_counts_def printSummary_def show_int_def)
qed

section \<open>The grade of the submission\<close>

lemma registered_two:
  "\<exists>f g. registerFunctions [] = Some [f, g] \<and> description f = SUBMIT_DESCRIPTION \<and> description g \<noteq> SUBMIT_DESCRIPTION"
  by (simp add: registerFunctions_def registerTransFunction_def MAX_TRANS_FUNCS_def SUBMIT_DESCRIPTION_def)

text \<open>The arguments \<open>tracegen\<close> is started with, and what a run over one function needs: the validation as
  \<open>tracegen.c\<close> does it, a trace with the markers, and a simulator that writes its summary.\<close>

definition tracegen_args :: "int \<Rightarrow> int \<Rightarrow> nat \<Rightarrow> (char \<times> string) list" where
  "tracegen_args M N i = [(CHR ''M'', show_int M), (CHR ''N'', show_int N), (CHR ''F'', show_int (int i))]"

record simulation =
  sm_part :: "string list"
  sm_counts :: "int \<times> int \<times> int"

definition measured_run :: "programs \<Rightarrow> (nat \<Rightarrow> int) \<Rightarrow> nat \<Rightarrow> nat \<Rightarrow> int \<Rightarrow> int \<Rightarrow> nat \<Rightarrow> simulation \<Rightarrow> bool" where
  "measured_run pg rand ms me M N i sm \<longleftrightarrow>
     tracegen_main rand ms me (tracegen_args M N i) = Some (tracegen pg i, Some (marker_file pg i))
     \<and> marked (int ms) (int me) (sm_part sm) (full_trace pg i)
     \<and> (case sm_counts sm of (h, m, e) \<Rightarrow>
          csim_ref pg 5 1 5 (concat (filter low_access (sm_part sm))) = snd (printSummary h m e)
          \<and> 0 \<le> h \<and> h < 2147483648 \<and> 0 \<le> m \<and> m < 2147483648 \<and> 0 \<le> e \<and> e < 2147483648)"

lemma eval_func_measured:
  assumes "submit_sizes (nat M) (nat N)" and "0 < M" "M \<le> 256" "0 < N" "N \<le> 256" and "i < 2" and "ms < 2 ^ 64" "me < 2 ^ 64"
    and "measured_run pg rand ms me M N i sm" and "sm_counts sm = (h, m, e)"
  shows "\<exists>v'. eval_func pg 5 1 5 i (f, r, v) =
    (let r = (if description f = SUBMIT_DESCRIPTION then r\<lparr>funcid := int i\<rparr> else r) in
     Some (f\<lparr>correct := True, num_hits := nat h, num_misses := nat m, num_evictions := nat e\<rparr>,
       if funcid r = int i then r\<lparr>r_correct := 1, misses := m\<rparr> else r, v'))"
proof -
  have t: "tracegen pg i = 0" "marker_file pg i = hexadecimal ms @ '' '' @ hexadecimal me"
    using tracegen_main_zero [OF assms(1-6), of rand ms me] assms(9) by (simp_all add: measured_run_def tracegen_args_def)
  have mk: "read_markers (marker_file pg i) v = v\<lparr>v_start := Some (int ms), v_end := Some (int me)\<rparr>" for v
    using read_markers_printed [of "int ms" "int me" v] assms(7,8) by (simp add: t(2))
  have fl: "filter_trace (Some (int ms)) (Some (int me)) False addr (fgets_lines 1000 (full_trace pg i)) [] =
      Some (filter low_access (sm_part sm), True, Some (int me))" for addr
    by (rule filter_marked) (use assms(9) in \<open>simp add: measured_run_def\<close>)
  have c: "csim_ref pg 5 1 5 (concat (filter low_access (sm_part sm))) = snd (printSummary h m e)"
    and b: "0 \<le> h" "h < 2147483648" "0 \<le> m" "m < 2147483648" "0 \<le> e" "e < 2147483648"
    using assms(9,10) by (simp_all add: measured_run_def)
  show ?thesis
    by (simp add: eval_func_def t(1) mk fl c [unfolded One_nat_def] read_counts_printed [OF b] as_int_def b(4) Let_def)
qed

text \<open>When the validation runs as \<open>tracegen.c\<close> does it, the markers are in the traces and the simulator writes its
  summary, the submission is correct, with the misses counted on the lines between the markers.\<close>

lemma grade_of_submission:
  assumes "submit_sizes (nat M) (nat N)" and "0 < M" "M \<le> MAXN" "0 < N" "N \<le> MAXN" and "ms < 2 ^ 64" "me < 2 ^ 64"
    and "\<forall>i < 2. measured_run (pgs M N) (rand i) ms me M N i (sm i)"
  shows "test_trans_main pgs [(CHR ''M'', show_int M), (CHR ''N'', show_int N)] = Results 1 (fst (snd (sm_counts (sm 0))))"
proof -
  obtain f g where fg: "registerFunctions [] = Some [f, g]" "description f = SUBMIT_DESCRIPTION" "description g \<noteq> SUBMIT_DESCRIPTION"
    using registered_two by blast
  have sz: "M \<le> 256" "N \<le> 256" using assms(3,5) by (simp_all add: MAXN_def)
  obtain h0 m0 e0 h1 m1 e1 where c: "sm_counts (sm 0) = (h0, m0, e0)" "sm_counts (sm 1) = (h1, m1, e1)" by (metis prod_cases3)
  have mr: "measured_run (pgs M N) (rand 0) ms me M N 0 (sm 0)" "measured_run (pgs M N) (rand 1) ms me M N 1 (sm 1)" using assms(8) by simp_all
  obtain v0 where e0: "eval_func (pgs M N) 5 1 5 0 (f, no_results, fresh_vars) =
      Some (f\<lparr>correct := True, num_hits := nat h0, num_misses := nat m0, num_evictions := nat e0\<rparr>, \<lparr>funcid = 0, r_correct = 1, misses = m0\<rparr>, v0)"
    using eval_func_measured [OF assms(1,2) sz(1) assms(4) sz(2) _ assms(6,7) mr(1) c(1), of f no_results fresh_vars] fg(2)
    by (auto simp: no_results_def Let_def)
  obtain v1 where e1: "eval_func (pgs M N) 5 1 5 1 (g, \<lparr>funcid = 0, r_correct = 1, misses = m0\<rparr>, v0) =
      Some (g\<lparr>correct := True, num_hits := nat h1, num_misses := nat m1, num_evictions := nat e1\<rparr>, \<lparr>funcid = 0, r_correct = 1, misses = m0\<rparr>, v1)"
    using eval_func_measured [OF assms(1,2) sz(1) assms(4) sz(2) _ assms(6,7) mr(2) c(2), of g "\<lparr>funcid = 0, r_correct = 1, misses = m0\<rparr>" v0] fg(3)
    by (auto simp: Let_def)
  have ep: "eval_perf (pgs M N) 5 1 5 =
      Some ([f\<lparr>correct := True, num_hits := nat h0, num_misses := nat m0, num_evictions := nat e0\<rparr>,
             g\<lparr>correct := True, num_hits := nat h1, num_misses := nat m1, num_evictions := nat e1\<rparr>], \<lparr>funcid = 0, r_correct = 1, misses = m0\<rparr>)"
    using fg(1) e0 e1 by (simp add: eval_perf_def)
  show ?thesis
    using assms(2-5) sz c(1) by (simp add: test_trans_main_def c_atoi_show_int ep [unfolded One_nat_def] emit_results_def)
qed

text \<open>A routine that fails its validation scores nothing, and its misses stay at the initial value.\<close>

theorem failed_submission_graded:
  assumes "tracegen (pgs M N) 0 mod 256 \<noteq> 0" and "0 < M" "M \<le> MAXN" "0 < N" "N \<le> MAXN"
    and "tracegen (pgs M N) 1 mod 256 \<noteq> 0"
  shows "test_trans_main pgs [(CHR ''M'', show_int M), (CHR ''N'', show_int N)] = Results 0 2147483647"
proof -
  obtain f g where fg: "registerFunctions [] = Some [f, g]" "description f = SUBMIT_DESCRIPTION" "description g \<noteq> SUBMIT_DESCRIPTION"
    using registered_two by blast
  have sz: "M \<le> 256" "N \<le> 256" using assms(3,5) by (simp_all add: MAXN_def)
  have "eval_perf (pgs M N) 5 1 5 = Some ([f, g], no_results\<lparr>funcid := 0\<rparr>)"
    using fg assms(1,6) by (simp add: eval_perf_def eval_func_def Let_def)
  then show ?thesis using assms(2-5) sz by (simp add: test_trans_main_def emit_results_def no_results_def c_atoi_show_int)
qed

section \<open>Witnesses\<close>

text \<open>A trace as lackey writes it, with the start marker at \<open>60109c\<close> and the end marker at \<open>60109d\<close>.\<close>

definition sample_line :: "string \<Rightarrow> string" where
  "sample_line s = s @ [CHR 0x0A]"

definition sample_before :: "string list" where
  "sample_before = map sample_line [''==12== lackey'', '' L 7fe000390,8'']"

definition sample_start :: string where "sample_start = sample_line '' S 0060109c,1''"
definition sample_stop :: string where "sample_stop = sample_line '' L 0060109d,1''"

definition sample_body :: "string list" where
  "sample_body = map sample_line ['' L 00601200,4'', '' S 7fe000388,8'', ''I  04000b50,3'', '' S 00601600,4'']"

definition sample_trace :: string where
  "sample_trace = concat (sample_before @ sample_start # sample_body @ sample_stop # [sample_line '' S 00601700,4''])"

lemma sample_marked: "marked 0x60109c 0x60109d (sample_start # sample_body @ [sample_stop]) sample_trace"
  unfolding sample_trace_def
proof (rule marked)
  show "list_all readable (sample_before @ sample_start # sample_body @ [sample_stop])" by code_simp
  show "\<forall>buf \<in> set sample_before. access_at buf \<noteq> Some 0x60109c \<and> access_at buf \<noteq> Some 0x60109d" by code_simp
  show "access_at sample_start = Some 0x60109c" by code_simp
  show "\<forall>buf \<in> set sample_body. access_at buf \<noteq> Some 0x60109d" by code_simp
  show "access_at sample_stop = Some 0x60109d" by code_simp
  show "\<forall>buf \<in> set (sample_before @ sample_start # sample_body @ sample_stop # [sample_line '' S 00601700,4'']). short_line 1000 buf"
    by code_simp
qed simp

definition sample_programs :: "nat \<Rightarrow> (nat \<Rightarrow> nat \<Rightarrow> nat \<Rightarrow> string \<Rightarrow> string) \<Rightarrow> programs" where
  "sample_programs n sim = \<lparr>tracegen = (\<lambda>_. n), full_trace = (\<lambda>_. sample_trace),
     marker_file = (\<lambda>_. hexadecimal 0x60109c @ '' '' @ hexadecimal 0x60109d), csim_ref = sim\<rparr>"

lemma sample_measured:
  assumes "i < 2" and "sim 5 1 5 (concat (filter low_access (sample_start # sample_body @ [sample_stop]))) = snd (printSummary h m e)"
    and "0 \<le> h" "h < 2147483648" "0 \<le> m" "m < 2147483648" "0 \<le> e" "e < 2147483648"
  shows "measured_run (sample_programs 0 sim) rand 0x60109c 0x60109d 61 67 i \<lparr>sm_part = sample_start # sample_body @ [sample_stop], sm_counts = (h, m, e)\<rparr>"
proof -
  have "submit_sizes (nat 61) (nat 67)" by (simp add: submit_sizes_def)
  from tracegen_main_zero [OF this _ _ _ _ assms(1), of rand "0x60109c" "0x60109d"]
  show ?thesis using sample_marked assms(2-) by (simp add: measured_run_def tracegen_args_def sample_programs_def)
qed

lemma failed_submission_graded_witness:
  "test_trans_main (\<lambda>M N. sample_programs 1 (\<lambda>_ _ _ _. [])) [(CHR ''M'', show_int 61), (CHR ''N'', show_int 67)] = Results 0 2147483647"
  by (rule failed_submission_graded) (simp_all add: sample_programs_def MAXN_def)

end
