(* ===== verification/Cache_Main.thy ===== *)
theory Cache_Main
  imports Cache_Simulator Test_Trans
begin

text \<open>
  The main routine of \<open>cachelab/csim.c\<close>: options, the trace as text, the summary; and the cache lab put together: the
  autograder over \<open>tracegen\<close> and the reference simulator, which is a parameter. Files are a function from names to texts.
\<close>

section \<open>Options\<close>

text \<open>\<open>None\<close> is a variable that was not initialised; a file that cannot be opened is \<open>Some None\<close>.\<close>

record csim_settings =
  o_s :: "int option"
  o_E :: "int option"
  o_b :: "int option"
  o_trace :: "string option option"

definition TRC_SIZE :: nat where "TRC_SIZE = 20"

text \<open>The name of the trace is copied into a buffer of 20 bytes. Other options are ignored.\<close>

fun csim_options :: "(string \<Rightarrow> string option) \<Rightarrow> (char \<times> string) list \<Rightarrow> csim_settings \<Rightarrow> csim_settings option" where
  "csim_options files [] st = Some st"
| "csim_options files ((c, optarg) # opts) st =
     (if c = CHR ''s'' then csim_options files opts (st\<lparr>o_s := Some (c_atoi optarg)\<rparr>)
      else if c = CHR ''E'' then csim_options files opts (st\<lparr>o_E := Some (c_atoi optarg)\<rparr>)
      else if c = CHR ''b'' then csim_options files opts (st\<lparr>o_b := Some (c_atoi optarg)\<rparr>)
      else if c = CHR ''t'' then
        (if TRC_SIZE \<le> length optarg then None else csim_options files opts (st\<lparr>o_trace := Some (files optarg)\<rparr>))
      else csim_options files opts st)"

section \<open>The loop over the trace\<close>

text \<open>\<open>fscanf(pTrace, " %c %llx,%d", &id, &addr, &sz)\<close>: what was stored and the rest. It succeeds
  as soon as there is a character.\<close>

definition scan_entry :: "string \<Rightarrow> (char \<times> int option \<times> int option \<times> string) option" where
  "scan_entry s =
     (case dropWhile blank s of
        [] \<Rightarrow> None
      | c # s \<Rightarrow>
          (case scan_llx s of
             (Some a, d # r) \<Rightarrow> if d = CHR '','' then (case scan_d r of (z, r) \<Rightarrow> Some (c, Some a, z, r)) else Some (c, Some a, None, d # r)
           | (v, r) \<Rightarrow> Some (c, v, None, r)))"

lemma scan_entry_shorter: "scan_entry s = Some (c, v, z, r) \<Longrightarrow> length r < length s"
proof -
  assume s: "scan_entry s = Some (c, v, z, r)"
  then obtain s1 where s1: "dropWhile blank s = c # s1" by (auto simp: scan_entry_def split: list.splits prod.splits option.splits if_splits)
  then have l: "length s1 < length s" using length_dropWhile_le [of blank s] by simp
  obtain w q where q: "scan_llx s1 = (w, q)" by fastforce
  have "length r \<le> length q"
    using s by (auto simp: scan_entry_def s1 q split: list.splits prod.splits option.splits if_splits dest: scan_d_shorter)
  then show ?thesis using scan_llx_shorter [OF q] l by simp
qed

text \<open>\<open>addr\<close> and \<open>sz\<close> keep their values when nothing is stored; using \<open>addr\<close> before that is undefined.\<close>

function csim_loop :: "nat \<Rightarrow> nat \<Rightarrow> nat \<Rightarrow> 64 word option \<Rightarrow> int \<Rightarrow> string \<Rightarrow> sim \<Rightarrow> sim option" where
  "csim_loop s E b addr sz input c =
     (case scan_entry input of
        None \<Rightarrow> Some c
      | Some (ident, v, z, rest) \<Rightarrow>
          let addr = (case v of None \<Rightarrow> addr | Some a \<Rightarrow> Some (word_of_int a)); sz = (case z of None \<Rightarrow> sz | Some n \<Rightarrow> n) in
          if ident = CHR ''I'' \<or> ident = CHR '' '' then csim_loop s E b addr sz rest c
          else
            (case addr of
               None \<Rightarrow> None
             | Some a \<Rightarrow> Option.bind (reference_step s E b (Reference ident a sz) c) (csim_loop s E b addr sz rest)))"
  by pat_completeness auto
termination
  by (relation "measure (\<lambda>(s, E, b, addr, sz, input, c). length input)") (auto dest!: scan_entry_shorter)

declare csim_loop.simps [simp del]

text \<open>The sizes for which the shifts are defined and the table can be allocated; other sizes are \<open>None\<close> here.
  The result is what \<open>printSummary\<close> prints and writes.\<close>

definition csim_main :: "(string \<Rightarrow> string option) \<Rightarrow> (nat \<Rightarrow> nat \<Rightarrow> line) \<Rightarrow> (char \<times> string) list \<Rightarrow> (string \<times> string) option" where
  "csim_main files mem opts =
     (case csim_options files opts \<lparr>o_s = None, o_E = None, o_b = None, o_trace = None\<rparr> of
        None \<Rightarrow> None
      | Some st \<Rightarrow>
          (case (o_s st, o_E st, o_b st, o_trace st) of
             (Some s, Some E, Some b, Some (Some input)) \<Rightarrow>
               if 0 \<le> s \<and> s < 31 \<and> 0 \<le> E \<and> 0 \<le> b \<and> b + s < 64
               then map_option (\<lambda>c. printSummary (n_hits c) (n_misses c) (n_evictions c))
                 (csim_loop (nat s) (nat E) (nat b) None 0 input
                   \<lparr>sets = init_cache (nat s) (nat E) mem, n_hits = 0, n_misses = 0, n_evictions = 0\<rparr>)
               else None
           | _ \<Rightarrow> None))"

section \<open>Traces as text\<close>

text \<open>A line of a trace: the kind, the digits of the address as lackey prints them, the size.\<close>

definition entry_text :: "char \<times> string \<times> nat \<Rightarrow> string" where
  "entry_text en = (case en of (c, ds, n) \<Rightarrow> '' '' @ [c] @ '' '' @ ds @ '','' @ decimal n @ [CHR 0x0A])"

definition entry_ok :: "char \<times> string \<times> nat \<Rightarrow> bool" where
  "entry_ok en \<longleftrightarrow> (case en of (c, ds, n) \<Rightarrow> \<not> blank c \<and> ds \<noteq> [] \<and> (\<forall>d \<in> set ds. is_hex d) \<and> hex_number ds < 2 ^ 64 \<and> n < 2147483648)"

definition entry_ref :: "char \<times> string \<times> nat \<Rightarrow> reference" where
  "entry_ref en = (case en of (c, ds, n) \<Rightarrow> Reference c (word_of_int (hex_number ds)) (int n))"

lemma scan_entry_text:
  assumes "entry_ok (c, ds, n)" and "\<forall>d \<in> set bl. blank d"
  shows "scan_entry (bl @ entry_text (c, ds, n) @ rest) = Some (c, Some (hex_number ds), Some (int n), CHR 0x0A # rest)"
proof -
  have ok: "\<not> blank c" "ds \<noteq> []" "\<forall>d \<in> set ds. is_hex d" "hex_number ds < 2 ^ 64" "n < 2147483648" using assms(1) by (simp_all add: entry_ok_def)
  have d: "dropWhile blank (bl @ entry_text (c, ds, n) @ rest) = c # '' '' @ ds @ '','' @ decimal n @ CHR 0x0A # rest"
    using assms(2) ok(1) digit_facts(4) by (simp add: entry_text_def)
  have "scan_llx ('' '' @ ds @ '','' @ decimal n @ CHR 0x0A # rest) = (Some (hex_number ds), '','' @ decimal n @ CHR 0x0A # rest)"
    by (rule scan_llx_digits) (use ok digit_facts(4) hex_facts(6) in auto)
  moreover have "scan_d (decimal n @ CHR 0x0A # rest) = (Some (int n), CHR 0x0A # rest)"
    using scan_d_decimal [of "[]" "CHR 0x0A # rest" n] ok(5) by (simp add: digit_def code_def)
  ultimately show ?thesis by (simp add: scan_entry_def d)
qed

lemma csim_loop_text:
  assumes "\<forall>en \<in> set es. entry_ok en" and "\<forall>d \<in> set bl. blank d"
  shows "csim_loop s E b addr sz (bl @ concat (map entry_text es)) c = simulate s E b (map entry_ref es) c"
  using assms
proof (induction es arbitrary: bl addr sz c)
  case Nil
  then have "dropWhile blank bl = []" by simp
  then show ?case by (simp add: csim_loop.simps scan_entry_def del: dropWhile_eq_Nil_conv)
next
  case (Cons en es)
  obtain k ds n where en: "en = (k, ds, n)" by (cases en)
  have sc: "scan_entry (bl @ entry_text en @ concat (map entry_text es)) = Some (k, Some (hex_number ds), Some (int n), [CHR 0x0A] @ concat (map entry_text es))"
    using scan_entry_text [of k ds n bl] Cons.prems en by simp
  have ih: "csim_loop s E b addr sz ([CHR 0x0A] @ concat (map entry_text es)) c = simulate s E b (map entry_ref es) c" for addr sz c
    by (rule Cons.IH) (use Cons.prems digit_facts(5) in auto)
  have skip: "reference_step s E b (entry_ref en) c = Some c" if "k = CHR ''I'' \<or> k = CHR '' ''"
    using that by (simp add: reference_step_def entry_ref_def en)
  show ?case
  proof (cases "k = CHR ''I'' \<or> k = CHR '' ''")
    case True
    have "csim_loop s E b addr sz (bl @ concat (map entry_text (en # es))) c =
        csim_loop s E b (Some (word_of_int (hex_number ds))) (int n) ([CHR 0x0A] @ concat (map entry_text es)) c"
      by (subst csim_loop.simps) (use sc True in \<open>simp add: Let_def\<close>)
    then show ?thesis by (simp only: ih list.map simulate.simps skip [OF True] Option.bind_lunit)
  next
    case False
    have "csim_loop s E b addr sz (bl @ concat (map entry_text (en # es))) c =
        Option.bind (reference_step s E b (entry_ref en) c) (csim_loop s E b (Some (word_of_int (hex_number ds))) (int n) ([CHR 0x0A] @ concat (map entry_text es)))"
      by (subst csim_loop.simps) (use sc False in \<open>simp add: Let_def entry_ref_def en\<close>)
    moreover have "csim_loop s E b (Some (word_of_int (hex_number ds))) (int n) ([CHR 0x0A] @ concat (map entry_text es)) =
        simulate s E b (map entry_ref es)" by (rule ext) (rule ih)
    ultimately show ?thesis by (simp only: list.map simulate.simps)
  qed
qed

text \<open>The command line of the autograder.\<close>

definition csim_args :: "nat \<Rightarrow> nat \<Rightarrow> nat \<Rightarrow> string \<Rightarrow> (char \<times> string) list" where
  "csim_args s E b name = [(CHR ''s'', show_int (int s)), (CHR ''E'', show_int (int E)), (CHR ''b'', show_int (int b)), (CHR ''t'', name)]"

lemma csim_main_lru:
  assumes "s < 31" and "0 < E" "E < 2147483648" and "b + s < 64" and "\<And>k i. \<not> valid (mem k i)"
    and "\<forall>en \<in> set es. entry_ok en" and "length name < 20" and "files name = Some (concat (map entry_text es))"
  shows "csim_main files mem (csim_args s E b name) =
    (let a = lru_simulate s E b (map entry_ref es) in Some (printSummary (l_hits a) (l_misses a) (l_evictions a)))"
proof -
  let ?c0 = "\<lparr>sets = init_cache s E mem, n_hits = 0, n_misses = 0, n_evictions = 0\<rparr>"
  have "csim s E b mem (map entry_ref es) = (let a = lru_simulate s E b (map entry_ref es) in Some (l_hits a, l_misses a, l_evictions a))"
    by (rule csim_lru_counts) (use assms in auto)
  then obtain c where "simulate s E b (map entry_ref es) ?c0 = Some c"
    and n: "n_hits c = l_hits (lru_simulate s E b (map entry_ref es))" "n_misses c = l_misses (lru_simulate s E b (map entry_ref es))"
      "n_evictions c = l_evictions (lru_simulate s E b (map entry_ref es))"
    by (auto simp: csim_def Let_def)
  then have "csim_loop s E b None 0 (concat (map entry_text es)) ?c0 = Some c"
    using csim_loop_text [OF assms(6), of "[]"] by simp
  then show ?thesis
    using assms(1-4,7,8) n by (simp add: csim_main_def csim_args_def c_atoi_show_int TRC_SIZE_def Let_def)
qed

text \<open>C32. The program \<open>csim\<close> from its command line to its summary: it reads the options and the trace as \<open>lackey\<close> prints it, and
  prints and writes the hits, misses and evictions of an LRU cache with \<open>2 ^ s\<close> sets of \<open>E\<close> lines of \<open>2 ^ b\<close> bytes, if the flags of the
  allocated lines are clear.\<close>

theorem csim_prints_lru:
  assumes "s < 31" and "0 < E" "E < 2147483648" and "b + s < 64" and "\<forall>k i. \<not> valid (mem k i)"
    and "\<forall>en \<in> set es. entry_ok en" and "length name < 20" and "files name = Some (concat (map entry_text es))"
  shows "csim_main files mem (csim_args s E b name) =
    Some (printSummary (l_hits (lru_simulate s E b (map entry_ref es))) (l_misses (lru_simulate s E b (map entry_ref es)))
      (l_evictions (lru_simulate s E b (map entry_ref es))))"
proof -
  have m: "\<not> valid (mem k i)" for k i using assms(5) by blast
  show ?thesis using csim_main_lru [where mem = mem and files = files and name = name, OF assms(1-4) m assms(6-8)] by (simp add: Let_def)
qed

section \<open>The autograder and its reference simulator\<close>

text \<open>\<open>csim-ref\<close> is a binary. What is known of it is its name in the \<open>README\<close>, \<open>the executable reference cache simulator\<close>, and the file
  it leaves for the autograder, which is the one \<open>printSummary\<close> writes: for a trace of loads, stores and modifications, the
  counts of an LRU cache of the given sizes.\<close>

definition data_entry :: "char \<times> string \<times> nat \<Rightarrow> bool" where
  "data_entry en \<longleftrightarrow> entry_ok en \<and> fst en \<in> {CHR ''S'', CHR ''M'', CHR ''L''}"

definition lru_reference :: "(nat \<Rightarrow> nat \<Rightarrow> nat \<Rightarrow> string \<Rightarrow> string) \<Rightarrow> bool" where
  "lru_reference simulator \<longleftrightarrow>
     (\<forall>s E b es. s < 31 \<and> 0 < E \<and> E < 2147483648 \<and> b + s < 64 \<and> (\<forall>en \<in> set es. data_entry en) \<longrightarrow>
        (let a = lru_simulate s E b (map entry_ref es) in
         simulator s E b (concat (map entry_text es)) = snd (printSummary (l_hits a) (l_misses a) (l_evictions a))))"

lemma entry_text_kind: "is_access (entry_text (c, ds, n)) \<Longrightarrow> c \<in> {CHR ''S'', CHR ''M'', CHR ''L''}"
  by (simp add: is_access_def entry_text_def)

lemma lru_fold_bounds:
  "0 \<le> l_hits a \<and> 0 \<le> l_misses a \<and> 0 \<le> l_evictions a \<Longrightarrow>
    (let a' = fold (lru_step s E b) rs a in
      l_hits a \<le> l_hits a' \<and> l_hits a' \<le> l_hits a + 2 * int (length rs) \<and> l_misses a \<le> l_misses a' \<and> l_misses a' \<le> l_misses a + int (length rs)
      \<and> l_evictions a \<le> l_evictions a' \<and> l_evictions a' \<le> l_evictions a + int (length rs))"
proof (induction rs arbitrary: a)
  case (Cons r rs)
  let ?a = "lru_step s E b r a"
  have st: "l_hits a \<le> l_hits ?a \<and> l_hits ?a \<le> l_hits a + 2 \<and> l_misses a \<le> l_misses ?a \<and> l_misses ?a \<le> l_misses a + 1
      \<and> l_evictions a \<le> l_evictions ?a \<and> l_evictions ?a \<le> l_evictions a + 1"
    by (simp add: lru_step_def Let_def)
  show ?case using Cons.IH [of ?a] st Cons.prems by (simp add: Let_def)
qed simp

lemma lru_simulate_bounds:
  "0 \<le> l_hits (lru_simulate s E b rs) \<and> l_hits (lru_simulate s E b rs) \<le> 2 * int (length rs)
   \<and> 0 \<le> l_misses (lru_simulate s E b rs) \<and> l_misses (lru_simulate s E b rs) \<le> int (length rs)
   \<and> 0 \<le> l_evictions (lru_simulate s E b rs) \<and> l_evictions (lru_simulate s E b rs) \<le> int (length rs)"
  using lru_fold_bounds [of "\<lparr>recency = (\<lambda>_. []), l_hits = 0, l_misses = 0, l_evictions = 0\<rparr>" s E b rs]
  by (simp add: lru_simulate_def Let_def)

text \<open>C10. The whole lab: \<open>test-trans\<close> starts \<open>tracegen\<close> as modelled, cuts the lines between the markers out of the
  trace and runs the reference simulator on them. If that one counts as an LRU cache does, the grade of the submission is full
  correctness and the misses of an LRU cache of 32 sets with one line of 32 bytes each.\<close>

theorem submission_graded:
  assumes "submit_sizes (nat M) (nat N)" and "0 < M" "M \<le> MAXN" "0 < N" "N \<le> MAXN" and "ms < 2 ^ 64" "me < 2 ^ 64"
    and "\<forall>i < 2. tracegen_main (rand i) ms me (tracegen_args M N i) = Some (tracegen (pgs M N) i, Some (marker_file (pgs M N) i))"
    and "\<forall>i < 2. marked (int ms) (int me) (part i) (full_trace (pgs M N) i)"
    and "\<forall>i < 2. filter low_access (part i) = map entry_text (es i) \<and> (\<forall>en \<in> set (es i). entry_ok en) \<and> length (es i) < 2 ^ 30"
    and "lru_reference (csim_ref (pgs M N))"
  shows "test_trans_main pgs [(CHR ''M'', show_int M), (CHR ''N'', show_int N)] =
    Results 1 (l_misses (lru_simulate 5 1 5 (map entry_ref (es 0))))"
proof -
  let ?a = "\<lambda>i. lru_simulate 5 1 5 (map entry_ref (es i))"
  let ?sm = "\<lambda>i. \<lparr>sm_part = part i, sm_counts = (l_hits (?a i), l_misses (?a i), l_evictions (?a i))\<rparr>"
  have "measured_run (pgs M N) (rand i) ms me M N i (?sm i)" if i: "i < 2" for i
  proof -
    have es: "filter low_access (part i) = map entry_text (es i)" "\<forall>en \<in> set (es i). entry_ok en" "length (es i) < 2 ^ 30"
      using assms(10) i by auto
    have "data_entry en" if en: "en \<in> set (es i)" for en
    proof -
      obtain c ds n where c: "en = (c, ds, n)" by (cases en)
      have "entry_text en \<in> set (filter low_access (part i))" using en es(1) by simp
      then have "is_access (entry_text en)" by (auto simp: low_access_def access_at_def split: if_splits)
      then show ?thesis using entry_text_kind [of c ds n] es(2) en by (auto simp: data_entry_def c)
    qed
    then have "csim_ref (pgs M N) 5 1 5 (concat (filter low_access (part i))) = snd (printSummary (l_hits (?a i)) (l_misses (?a i)) (l_evictions (?a i)))"
      using assms(11) by (simp add: lru_reference_def es(1) Let_def)
    moreover have "l_hits (?a i) < 2147483648" "l_misses (?a i) < 2147483648" "l_evictions (?a i) < 2147483648"
      "0 \<le> l_hits (?a i)" "0 \<le> l_misses (?a i)" "0 \<le> l_evictions (?a i)"
      using lru_simulate_bounds [of 5 1 5 "map entry_ref (es i)"] es(3) by simp_all
    ultimately show ?thesis using assms(8,9) i by (simp add: measured_run_def)
  qed
  then have "test_trans_main pgs [(CHR ''M'', show_int M), (CHR ''N'', show_int N)] = Results 1 (fst (snd (sm_counts (?sm 0))))"
    by (intro grade_of_submission [where rand = rand, OF assms(1-7)]) blast
  then show ?thesis by simp
qed

definition sample_entries :: "(char \<times> string \<times> nat) list" where
  "sample_entries = [(CHR ''S'', ''0060109c'', 1), (CHR ''L'', ''00601200'', 4), (CHR ''S'', ''00601600'', 4), (CHR ''L'', ''0060109d'', 1)]"

text \<open>The simulator of this repository is such a reference simulator, on memory whose flags are clear.\<close>

definition csim_program :: "(nat \<Rightarrow> nat \<Rightarrow> line) \<Rightarrow> nat \<Rightarrow> nat \<Rightarrow> nat \<Rightarrow> string \<Rightarrow> string" where
  "csim_program mem s E b file = (case csim_main (\<lambda>_. Some file) mem (csim_args s E b ''trace.f0'') of None \<Rightarrow> [] | Some (out, results) \<Rightarrow> results)"

lemma csim_is_reference:
  assumes "\<And>k i. \<not> valid (mem k i)"
  shows "lru_reference (csim_program mem)"
  unfolding lru_reference_def
proof (intro allI impI)
  fix s E b :: nat and es
  assume a: "s < 31 \<and> 0 < E \<and> E < 2147483648 \<and> b + s < 64 \<and> (\<forall>en \<in> set es. data_entry en)"
  have "csim_main (\<lambda>_. Some (concat (map entry_text es))) mem (csim_args s E b ''trace.f0'') =
      (let a = lru_simulate s E b (map entry_ref es) in Some (printSummary (l_hits a) (l_misses a) (l_evictions a)))"
    by (rule csim_main_lru) (use a assms in \<open>auto simp: data_entry_def\<close>)
  then show "let a = lru_simulate s E b (map entry_ref es) in
      csim_program mem s E b (concat (map entry_text es)) = snd (printSummary (l_hits a) (l_misses a) (l_evictions a))"
    by (simp add: csim_program_def Let_def split: prod.split)
qed

lemma csim_prints_lru_witness:
  "csim_main (\<lambda>_. Some (concat (map entry_text sample_entries))) (\<lambda>_ _. \<lparr>valid = False, lru_counter = 7, tag = 9\<rparr>) (csim_args 5 1 5 ''traces/yi.trace'') =
     Some (printSummary 1 3 1)"
proof -
  have "l_hits (lru_simulate 5 1 5 (map entry_ref sample_entries)) = 1" "l_misses (lru_simulate 5 1 5 (map entry_ref sample_entries)) = 3"
    "l_evictions (lru_simulate 5 1 5 (map entry_ref sample_entries)) = 1" by code_simp+
  moreover have "\<forall>en \<in> set sample_entries. entry_ok en"
    by (simp add: sample_entries_def entry_ok_def blank_def code_def is_hex_def hex_number_def hex_digit_def digit_def)
  ultimately show ?thesis
    using csim_prints_lru [of 5 1 5 "\<lambda>_ _. \<lparr>valid = False, lru_counter = 7, tag = 9\<rparr>" sample_entries "''traces/yi.trace''" "\<lambda>_. Some (concat (map entry_text sample_entries))"]
    by simp
qed

lemma submission_graded_witness:
  "test_trans_main (\<lambda>M N. sample_programs 0 (csim_program (\<lambda>_ _. \<lparr>valid = False, lru_counter = 7, tag = 9\<rparr>)))
     [(CHR ''M'', show_int 61), (CHR ''N'', show_int 67)] = Results 1 3"
proof -
  let ?mem = "\<lambda>_ _. \<lparr>valid = False, lru_counter = 7, tag = 9\<rparr>" and ?part = "sample_start # sample_body @ [sample_stop]"
  have sz: "submit_sizes (nat 61) (nat 67)" by (simp add: submit_sizes_def)
  have tg: "\<forall>i < 2. tracegen_main (\<lambda>_. 0) 0x60109c 0x60109d (tracegen_args 61 67 i) = Some (0, Some (hexadecimal 0x60109c @ '' '' @ hexadecimal 0x60109d))"
    using tracegen_main_zero [OF sz, of _ "\<lambda>_. 0" "0x60109c" "0x60109d"] by (simp add: tracegen_args_def)
  have "map low_access ?part = [True, True, False, False, True, True]" by code_simp
  then have "filter low_access ?part = [sample_start, sample_body ! 0, sample_body ! 3, sample_stop]" by (simp add: sample_body_def)
  also have "\<dots> = map entry_text sample_entries"
    by (simp add: sample_start_def sample_body_def sample_stop_def sample_line_def sample_entries_def entry_text_def decimal.simps char_of_def bit_0)
  finally have es1: "filter low_access ?part = map entry_text sample_entries" .
  have es2: "\<forall>en \<in> set sample_entries. entry_ok en"
    by (simp add: sample_entries_def entry_ok_def blank_def code_def is_hex_def hex_number_def hex_digit_def digit_def)
  note es = es1 es2
  have "test_trans_main (\<lambda>M N. sample_programs 0 (csim_program ?mem)) [(CHR ''M'', show_int 61), (CHR ''N'', show_int 67)] =
      Results 1 (l_misses (lru_simulate 5 1 5 (map entry_ref sample_entries)))"
    by (rule submission_graded [where rand = "\<lambda>_ _. 0" and ms = "0x60109c" and me = "0x60109d" and part = "\<lambda>_. ?part" and es = "\<lambda>_. sample_entries", OF sz])
      (use tg es sample_marked csim_is_reference [of ?mem] in \<open>simp_all add: sample_programs_def MAXN_def sample_entries_def\<close>)
  moreover have "l_misses (lru_simulate 5 1 5 (map entry_ref sample_entries)) = 3" by code_simp
  ultimately show ?thesis by simp
qed

end
