(* ===== verification/Kernel_Modules.thy ===== *)
theory Kernel_Modules
  imports Lab_Prelude
begin

text \<open>
  Loading and unloading the two kernel modules \<open>kernellab/paddr/dbfs_paddr.c\<close> and \<open>kernellab/ptree/dbfs_ptree.c\<close>: the
  entries they create under debugfs and the memory they allocate. Which entries the kernel creates and which addresses
  it hands out are parameters; a null pointer is \<open>None\<close>.
\<close>

section \<open>The kernel's side\<close>

datatype handlers = Read_output | Write_pid_to_input

datatype entry = Directory | File nat handlers | Blob nat "nat option" nat

type_synonym dentry = "string list"

record kernel =
  entries :: "dentry \<rightharpoonup> entry"
  kblocks :: "nat \<rightharpoonup> nat"

text \<open>A path exists only below an existing directory.\<close>

definition tree :: "kernel \<Rightarrow> bool" where
  "tree k \<longleftrightarrow> (\<forall>p q. p @ q \<in> dom (entries k) \<and> p \<noteq> [] \<longrightarrow> p \<in> dom (entries k))"

definition debugfs_create :: "(dentry \<Rightarrow> bool) \<Rightarrow> dentry \<Rightarrow> entry \<Rightarrow> kernel \<Rightarrow> dentry option \<times> kernel" where
  "debugfs_create grants path e k =
     (if entries k path = None \<and> grants path then (Some path, k\<lparr>entries := (entries k)(path \<mapsto> e)\<rparr>) else (None, k))"

definition below :: "dentry \<Rightarrow> dentry \<Rightarrow> bool" where
  "below d p \<longleftrightarrow> take (length d) p = d"

definition debugfs_remove_recursive :: "dentry option \<Rightarrow> kernel \<Rightarrow> kernel" where
  "debugfs_remove_recursive d k =
     (case d of None \<Rightarrow> k | Some d \<Rightarrow> k\<lparr>entries := (\<lambda>p. if below d p then None else entries k p)\<rparr>)"

definition kmalloc :: "nat option \<Rightarrow> nat \<Rightarrow> kernel \<Rightarrow> nat option \<times> kernel" where
  "kmalloc answer n k = (case answer of None \<Rightarrow> (None, k) | Some p \<Rightarrow> (Some p, k\<lparr>kblocks := (kblocks k)(p \<mapsto> n)\<rparr>))"

definition kfree :: "nat option \<Rightarrow> kernel \<Rightarrow> kernel" where
  "kfree p k = (case p of None \<Rightarrow> k | Some p \<Rightarrow> k\<lparr>kblocks := (kblocks k)(p := None)\<rparr>)"

section \<open>The module paddr\<close>

record paddr_module =
  pa_dir :: "dentry option"
  pa_output :: "dentry option"

definition S_IRUSR :: nat where "S_IRUSR = 0x100"
definition S_IRWXU :: nat where "S_IRWXU = 0x1C0"

definition paddr_module_init :: "(dentry \<Rightarrow> bool) \<Rightarrow> kernel \<Rightarrow> int \<times> paddr_module \<times> kernel" where
  "paddr_module_init grants k =
     (case debugfs_create grants [''paddr''] Directory k of
        (None, k) \<Rightarrow> (-1, \<lparr>pa_dir = None, pa_output = None\<rparr>, k)
      | (Some dir, k) \<Rightarrow>
          (case debugfs_create grants (dir @ [''output'']) (File S_IRUSR Read_output) k of
             (None, k) \<Rightarrow> (-1, \<lparr>pa_dir = Some dir, pa_output = None\<rparr>, k)
           | (Some output, k) \<Rightarrow> (0, \<lparr>pa_dir = Some dir, pa_output = Some output\<rparr>, k)))"

definition paddr_module_exit :: "paddr_module \<Rightarrow> kernel \<Rightarrow> kernel" where
  "paddr_module_exit m k = debugfs_remove_recursive (pa_dir m) k"

section \<open>The module ptree\<close>

record ptree_module =
  pt_dir :: "dentry option"
  pt_input :: "dentry option"
  pt_wrapper :: "nat option"
  pt_result :: "nat option"
  pt_ptree :: "dentry option"

definition WRAPPER_SIZE :: nat where "WRAPPER_SIZE = 16"

text \<open>Only the directory is tested. Writing to the wrapper when its allocation failed is undefined (\<open>None\<close>). The two answers
  of \<open>kmalloc\<close> are arguments.\<close>

definition ptree_module_init :: "(dentry \<Rightarrow> bool) \<Rightarrow> nat option \<Rightarrow> nat option \<Rightarrow> kernel \<Rightarrow> (int \<times> ptree_module \<times> kernel) option" where
  "ptree_module_init grants a1 a2 k =
     (case debugfs_create grants [''ptree''] Directory k of
        (None, k) \<Rightarrow> Some (-1, \<lparr>pt_dir = None, pt_input = None, pt_wrapper = None, pt_result = None, pt_ptree = None\<rparr>, k)
      | (Some dir, k) \<Rightarrow>
          let (input, k) = debugfs_create grants (dir @ [''input'']) (File S_IRWXU Write_pid_to_input) k;
              (result_wrapper, k) = kmalloc a1 WRAPPER_SIZE k;
              (result, k) = kmalloc a2 1000 k
          in if result_wrapper = None then None
             else
               let (ptree, k) = debugfs_create grants (dir @ [''ptree'']) (Blob S_IRWXU result 1000) k
               in Some (0, \<lparr>pt_dir = Some dir, pt_input = input, pt_wrapper = result_wrapper, pt_result = result, pt_ptree = ptree\<rparr>, k))"

definition ptree_module_exit :: "ptree_module \<Rightarrow> kernel \<Rightarrow> kernel" where
  "ptree_module_exit m k = kfree (pt_result m) (kfree (pt_wrapper m) (debugfs_remove_recursive (pt_dir m) k))"

section \<open>Unloading undoes loading\<close>

lemma tree_free: "tree k \<Longrightarrow> entries k d = None \<Longrightarrow> d \<noteq> [] \<Longrightarrow> below d p \<Longrightarrow> entries k p = None"
  unfolding tree_def below_def by (metis append_take_drop_id domIff)

lemma removed:
  assumes "tree k" and "entries k d = None" and "d \<noteq> []" and "\<And>p. \<not> below d p \<Longrightarrow> es p = entries k p"
  shows "(\<lambda>p. if below d p then None else es p) = entries k"
  using assms(4) tree_free [OF assms(1-3)] by auto

text \<open>What one module changes: entries below its directory.\<close>

lemma create_below:
  assumes "debugfs_create grants path e k = (r, k')" and "below d path"
  shows "kblocks k' = kblocks k \<and> (\<forall>p. \<not> below d p \<longrightarrow> entries k' p = entries k p)"
  using assms by (auto simp: debugfs_create_def split: if_splits)

lemma create_Some: "debugfs_create grants path e k = (Some d, k') \<Longrightarrow> d = path \<and> entries k path = None"
  by (auto simp: debugfs_create_def split: if_splits)

lemma belows: "below [d] [d]" "below [d] [d, x]"
  by (simp_all add: below_def)

theorem paddr_load_unload:
  assumes "tree k" and "paddr_module_init grants k = (0, m, k')"
  shows "paddr_module_exit m k' = k"
proof -
  obtain d k1 o' where 1: "debugfs_create grants [''paddr''] Directory k = (Some d, k1)"
    and 2: "debugfs_create grants (d @ [''output'']) (File S_IRUSR Read_output) k1 = (Some o', k')" and m: "pa_dir m = Some d"
    using assms(2) by (auto simp: paddr_module_init_def split: prod.splits option.splits)
  have d: "d = [''paddr'']" "entries k d = None" using create_Some [OF 1] by simp_all
  have c: "kblocks k' = kblocks k" "\<And>p. \<not> below d p \<Longrightarrow> entries k' p = entries k p"
    using create_below [OF 1, of d] create_below [OF 2, of d] d(1) belows by auto
  show ?thesis using removed [OF assms(1) d(2) _ c(2)] d(1) c(1)
    by (simp add: paddr_module_exit_def debugfs_remove_recursive_def m)
qed

text \<open>When the file cannot be created, loading fails, the exit function is not called, and the directory stays: the
  module cannot be loaded again.\<close>

theorem paddr_failed_load_blocks:
  assumes "entries k [''paddr''] = None" and "grants [''paddr'']" and "\<not> grants [''paddr'', ''output'']"
  shows "\<exists>m k'. paddr_module_init grants k = (-1, m, k') \<and> entries k' [''paddr''] = Some Directory
    \<and> (\<forall>g. fst (paddr_module_init g k') = -1)"
  using assms by (simp add: paddr_module_init_def debugfs_create_def)

text \<open>Two fresh addresses from \<open>kmalloc\<close>.\<close>

theorem ptree_load_unload:
  assumes "tree k" and "ptree_module_init grants (Some a) (Some b) k = Some (0, m, k')"
    and "a \<notin> dom (kblocks k)" and "b \<notin> dom (kblocks k)" and "a \<noteq> b"
  shows "ptree_module_exit m k' = k \<and> kblocks k' = (kblocks k)(a \<mapsto> WRAPPER_SIZE, b \<mapsto> 1000)"
proof -
  obtain d k1 i k2 pt k5 where 1: "debugfs_create grants [''ptree''] Directory k = (Some d, k1)"
    and 2: "debugfs_create grants (d @ [''input'']) (File S_IRWXU Write_pid_to_input) k1 = (i, k2)"
    and 3: "debugfs_create grants (d @ [''ptree'']) (Blob S_IRWXU (Some b) 1000)
      (k2\<lparr>kblocks := (kblocks k2)(a \<mapsto> WRAPPER_SIZE, b \<mapsto> 1000)\<rparr>) = (pt, k5)"
    and m: "m = \<lparr>pt_dir = Some d, pt_input = i, pt_wrapper = Some a, pt_result = Some b, pt_ptree = pt\<rparr>" "k' = k5"
    using assms(2) by (auto simp: ptree_module_init_def kmalloc_def Let_def split: prod.splits option.splits)
  have d: "d = [''ptree'']" "entries k d = None" using create_Some [OF 1] by simp_all
  have c: "kblocks k' = (kblocks k)(a \<mapsto> WRAPPER_SIZE, b \<mapsto> 1000)" "\<And>p. \<not> below d p \<Longrightarrow> entries k' p = entries k p"
    using create_below [OF 1, of d] create_below [OF 2, of d] create_below [OF 3, of d] d(1) belows m(2) by auto
  have "(kblocks k)(a := None, b := None) = kblocks k" using assms(3,4) by (auto simp: dom_def)
  then show ?thesis using removed [OF assms(1) d(2) _ c(2)] d(1) c(1) assms(5)
    by (simp add: ptree_module_exit_def debugfs_remove_recursive_def kfree_def m(1) fun_upd_twist)
qed

section \<open>Witnesses\<close>

definition empty_kernel :: kernel where "empty_kernel = \<lparr>entries = Map.empty, kblocks = Map.empty\<rparr>"

lemma paddr_load_unload_witness:
  "\<exists>m k'. paddr_module_init (\<lambda>_. True) empty_kernel = (0, m, k') \<and> entries k' [''paddr'', ''output''] = Some (File 256 Read_output)
    \<and> paddr_module_exit m k' = empty_kernel"
proof -
  obtain m k' where i: "paddr_module_init (\<lambda>_. True) empty_kernel = (0, m, k')" "entries k' [''paddr'', ''output''] = Some (File 256 Read_output)"
    by (simp add: paddr_module_init_def debugfs_create_def empty_kernel_def S_IRUSR_def)
  have "tree empty_kernel" by (simp add: tree_def empty_kernel_def)
  from paddr_load_unload [OF this i(1)] i show ?thesis by blast
qed

lemma paddr_failed_load_blocks_witness:
  "\<exists>m k'. paddr_module_init (\<lambda>p. length p < 2) empty_kernel = (-1, m, k') \<and> (\<forall>g. fst (paddr_module_init g k') = -1)"
  using paddr_failed_load_blocks [of empty_kernel "\<lambda>p. length p < 2"] by (auto simp: empty_kernel_def)

lemma ptree_load_unload_witness:
  "\<exists>m k'. ptree_module_init (\<lambda>_. True) (Some 64) (Some 4096) empty_kernel = Some (0, m, k') \<and> ptree_module_exit m k' = empty_kernel"
proof -
  obtain m k' where i: "ptree_module_init (\<lambda>_. True) (Some 64) (Some 4096) empty_kernel = Some (0, m, k')"
    by (simp add: ptree_module_init_def debugfs_create_def kmalloc_def empty_kernel_def Let_def)
  have "tree empty_kernel" by (simp add: tree_def empty_kernel_def)
  from ptree_load_unload [OF this i] i show ?thesis by (auto simp: empty_kernel_def)
qed

end
