(* ===== verification/Spec2Isabelle.thy ===== *)
theory Spec2Isabelle
  imports Matrix_Transpose Cache_Simulator Mem_Trace Tiny_Shell Web_Proxy Mm_Results Trace_File Timing Mdriver_Main Page_Reader Process_Tree Shell_Main Proxy_Main Cache_Threads Cache_Main Kernel_Modules
begin

text \<open>
  A verification development for a repository of six system programming labs in C: the cache lab, the link
  lab, the shell lab, the kernel lab, the proxy lab and the malloc lab. The labs share no code, so each has its own
  group of theories over \<open>Lab_Prelude\<close> (lists, options, C strings).

  \<^bold>\<open>Malloc lab\<close> (\<open>src/malloclab/src\<close>). \<open>Heap_Memory\<close> is \<open>memlib.c\<close>, the simulated break, and a byte
  memory (a function from integer addresses to bytes) with the word accesses \<open>GET\<close> and \<open>PUT\<close>; the record \<open>machine\<close>
  holds both. \<open>Allocator\<close> is the interface of \<open>mm.h\<close> as a locale: what a client may expect of
  init, malloc, realloc and free. \<open>Mm_Naive\<close> is \<open>mm.c\<close> and interprets the locale.
  \<open>Mm_Malloc\<close> is \<open>mm-2017-19651.c\<close>, definition by definition and in its order: macros, lists,
  coalescing, placing, and the four functions of the interface. Its proof is layered: \<open>Mm_Heap\<close> (boundary tags,
  the tiling of the heap by blocks, the doubly linked lists), \<open>Mm_Ops\<close> (insertion into and removal from
  the lists), \<open>Mm_Blocks\<close> (\<open>find_fit\<close>, \<open>place\<close>, \<open>coalesce\<close> as operations on the list of blocks),
  \<open>Mm_Correct\<close> (the invariant \<open>heap_inv\<close>, init, malloc and free), \<open>Mm_Realloc\<close>, and
  \<open>Mm_Interface\<close>, which interprets the locale. \<open>Mm_Results\<close> holds \<open>mm_check\<close> and the properties.
  \<open>Mdriver\<close> is the driver \<open>mdriver.c\<close> over an arbitrary allocator (a record of functions): range list,
  validity run; in the context of the locale it accepts every trace that fits into the heap and reallocates only blocks
  whose index has a low byte below 128 (\<open>comparable\<close>: the driver compares a signed character with that byte, so that for other
  indices it reports lost data of any allocator; without the restriction such reports are the only additional ones).
  \<open>Mdriver_Results\<close> adds the utilization and speed runs and instantiates all of this for both allocators;
  \<open>Trace_File\<close> is the reader of the trace files, with the round trip and the way from a file to the verdict.
  \<open>C_Text\<close> holds the conversions of \<open>scanf\<close> and \<open>printf\<close>.
  \<open>Mdriver_Main\<close> is the main routine: options, the loop over the trace files, the table, and the performance index; its
  main results are that any list of good files is scored between 0 and 100, that each failed trace is one error, and that the
  comparison with the C library's allocator (\<open>-l\<close>) does not influence the score, although it shares the variables \<open>errors\<close> and
  \<open>ranges\<close> with the test of the allocator: \<open>mm_phase\<close> starts with what the libc part leaves in them, \<open>mm_main\<close> with their initial values.
  \<open>Timing\<close> is the timing packages \<open>clock.c\<close>, \<open>fcyc.c\<close>, \<open>ftimer.c\<close> and \<open>fsecs.c\<close> over the clocks of the machine as a
  parameter: the K-best sampler against a sorted list of all samples, the 64-bit subtraction in halves, calibration.
  The abstract specification of an allocator is the set of allocated blocks; the refinement is \<open>heap_inv\<close>
  (the concrete heap is described by a list of blocks, in address order) and \<open>mm_live\<close>.

  \<^bold>\<open>Cache lab\<close> (\<open>src/cachelab\<close>). \<open>Matrix_Transpose\<close> is \<open>trans.c\<close>, with the registry of \<open>cachelab.c\<close> and
  the validation of \<open>tracegen.c\<close>, on arrays as lists with a failure for an access outside.
  \<open>Cache_Simulator\<close> is \<open>csim.c\<close>; its refinement theorem compares it with an abstract LRU cache.
  \<open>Tracegen_Main\<close> is the rest of \<open>cachelab.c\<close> and \<open>tracegen.c\<close>: matrix contents, summary, options, marker file.
  \<open>Test_Trans\<close> is the autograder \<open>test-trans.c\<close>: options, the filter that cuts the part between two markers out of a
  trace, the grade; valgrind and the reference simulator, of which the repository has only the name \<open>csim-ref\<close>, are parameters.
  \<open>Cache_Main\<close> is the main routine of \<open>csim.c\<close>, which prints the statistics of an LRU cache for the trace in the file, and the
  lab put together: if the reference simulator counts as an LRU cache does (\<open>lru_reference\<close>; the README calls it the reference cache simulator), the grade
  of the submission is the number of misses of such a cache on the lines between the markers. The program \<open>csim\<close> of the repository
  fulfils this hypothesis.

  \<^bold>\<open>Link lab\<close> (\<open>src/linklab/handout\<close>). \<open>Mem_List\<close> is \<open>utils/memlist.c\<close>, refined to a finite map and
  offered to the tracer through the locale \<open>block_table\<close>; \<open>Mem_Trace\<close> is \<open>memtrace.c\<close> of the
  three parts, with the C library's allocator as a parameter.

  \<^bold>\<open>Shell lab\<close> (\<open>src/shlab\<close>). \<open>Job_List\<close> is the job array of \<open>tsh.c\<close>; \<open>Tiny_Shell\<close> is the
  parsing of the command line, the built-in commands, \<open>eval\<close>, \<open>waitfg\<close> and the signal handlers; what the kernel
  delivers (the results of \<open>waitpid\<close>, which signals are pending) is an argument. \<open>Shell_Main\<close> is the main routine: options,
  \<open>fgets\<close>, the loop; \<open>reachable\<close> is the relation of the states between two commands, on which the invariants rest.

  \<^bold>\<open>Kernel lab\<close> (\<open>src/kernellab\<close>). \<open>Page_Reader\<close> is the module \<open>paddr\<close>, which reads a request packet
  from user memory, walks the page tables and writes the physical address back, together with the program \<open>app.c\<close> that
  tests it; \<open>Process_Tree\<close> is the module \<open>ptree\<close>, which prints the ancestors of a process. The kernel is a
  parameter: the levels of the page table walk and the copies between user and kernel memory of the first module, the
  table of processes of the second. The walk up the process tree ends because every line lengthens the text; a walk
  that leaves the buffer of the module is \<open>None\<close>. \<open>Kernel_Modules\<close> is the loading of the two modules: unloading takes back
  every debugfs entry and every allocation.

  \<^bold>\<open>Proxy lab\<close> (\<open>src/proxylab\<close>). \<open>Robust_IO\<close> is the Rio and Sio packages of \<open>csapp.c\<close> over a model
  of \<open>read\<close> and \<open>write\<close> with short counts, interruptions and errors; \<open>Csapp_Wrappers\<close> is its error functions and the
  wrappers around the calls of the kernel and the library, each over the call as a parameter; \<open>Connections\<close> is the opening of
  connections in \<open>csapp.c\<close> over what the kernel answers for each address, with the open descriptors as state; \<open>Web_Proxy\<close> is \<open>proxy.c\<close>:
  request parsing, headers, the cache and the relay, through \<open>Open_clientfd\<close>, \<open>Rio_writen\<close>, \<open>Malloc\<close> and \<open>Close\<close>. Its state
  \<open>proxy\<close> holds the global variables, the open descriptors (\<open>proc\<close>) and the number of allocations that still succeed (\<open>mallocs\<close>); an
  outcome is a result, the end of the process (\<open>Exit_proxy\<close>) or undefined behaviour. \<open>Proxy_Main\<close> is the handler of a connection, the
  accept loop with the connections handled one after the other, and the invariant of the cache. \<open>Cache_Threads\<close> lets several
  handlers interleave at the part of \<open>send_request\<close> that fills the cache: the limit may then be exceeded, by at most one response for each
  handler but one.

  \<^bold>\<open>Bounds and fuel.\<close> Walks along linked lists in memory, retries of system calls and loops that wait are
  \<open>partial_function (option)\<close>, so that a run that does not end is \<open>None\<close>; that they end is part of the
  theorems. The header loop of the proxy ends because every round allocates a header and the first allocation that fails ends the
  process; the number of allocations that succeed is an arbitrary argument. The class loop of the allocator is bounded by the number of classes as in the code. In the allocator
  \<open>size_t\<close> values are reduced modulo \<open>2 ^ 32\<close> where the code can leave the range (\<open>u32\<close>); addresses are
  integers, and the simulated heap lies below \<open>2 ^ 32\<close>, starts at a multiple of 8 and has the 20 MB of \<open>MAX_HEAP\<close>
  (\<open>fresh_heap\<close>), so the sums of block sizes in \<open>coalesce\<close> and \<open>mm_realloc\<close> cannot wrap.

  \<^bold>\<open>Assumptions.\<close> The array of the simulated heap is obtained from \<open>malloc\<close> with an 8-aligned address; \<open>calloc\<close> of list
  items in \<open>memlist.c\<close> succeeds; one proxy handler runs at a time, except in \<open>Cache_Threads\<close>; the terminating NUL that the
  proxy writes one byte behind a full cache buffer, and behind the data of every cached item, is counted in \<open>stray\<close> and taken to destroy nothing
  (\<open>cached_copy_is_a_string\<close>: it happens for every item, so that no statement about the cache could be made otherwise); the shifts
  of \<open>csim.c\<close> are those of C for \<open>s < 31\<close> and \<open>b + s < 64\<close>, and its counters do not overflow; the signal handlers of the shell run at the
  points where the model delivers the signal.

  \<^bold>\<open>Not modelled.\<close> The layout of the output and \<open>usage\<close>, the cycle counters of other processors in \<open>clock.c\<close>, which are
  not compiled, rounding of \<open>double\<close> (they are reals, with infinity and NaN where the driver divides by a measured time), the
  concurrency of the proxy's threads outside of the part in \<open>Cache_Threads\<close>, the measured times (what \<open>fsecs\<close> returns to the driver
  is an argument; \<open>Timing\<close> shows how it comes from the clocks), \<open>test-csim\<close>, of which the repository holds only the binary, and the small programs that
  the shell lab runs as jobs and the link lab traces.
\<close>

end
